(* ===== verification/C_Base.thy ===== *)
theory C_Base
  imports Main "HOL-Library.Monad_Syntax"
begin

text \<open>
  The C fragment shared by every component. A C computation is a value of type
  \<open>'a option\<close>: \<open>Some\<close> is a normal result and \<open>None\<close> is undefined behaviour (an array
  access out of bounds, a signed overflow) or a loop that never ends. A theorem that a
  function returns \<open>Some\<close> is therefore a memory-safety, overflow and termination result.
  The theory holds 32-bit \<open>int\<close> arithmetic, bounds-checked array access, the loops the
  programs use, their reasoning rules, and generic lemmas on lists.
\<close>

named_theorems c_defs \<open>the primitive operations of the C fragment\<close>
named_theorems c_intro \<open>rules that show that a C computation returns\<close>

section \<open>Integers and arrays\<close>

definition INT_MAX :: int where
  "INT_MAX = 2147483647"

definition INT_MIN :: int where
  "INT_MIN = - 2147483648"

text \<open>The result of a signed 32-bit operation: undefined when it does not fit.\<close>

definition c_int :: "int \<Rightarrow> int option" where
  "c_int x = (if INT_MIN \<le> x \<and> x \<le> INT_MAX then Some x else None)"

text \<open>Array read and write with the bounds of the array.\<close>

definition rd :: "'a list \<Rightarrow> int \<Rightarrow> 'a option" where
  "rd xs i = (if 0 \<le> i \<and> i < int (length xs) then Some (xs ! nat i) else None)"

definition wr :: "'a list \<Rightarrow> int \<Rightarrow> 'a \<Rightarrow> 'a list option" where
  "wr xs i v = (if 0 \<le> i \<and> i < int (length xs) then Some (xs[nat i := v]) else None)"

declare c_int_def [c_defs] rd_def [c_defs] wr_def [c_defs]

lemma c_int_ok [simp]: "INT_MIN \<le> x \<Longrightarrow> x \<le> INT_MAX \<Longrightarrow> c_int x = Some x"
  by (simp add: c_int_def)

lemma c_int_SomeD: "c_int x = Some y \<Longrightarrow> y = x \<and> INT_MIN \<le> x \<and> x \<le> INT_MAX"
  by (auto simp: c_int_def split: if_splits)

lemma rd_ok [simp]: "0 \<le> i \<Longrightarrow> i < int (length xs) \<Longrightarrow> rd xs i = Some (xs ! nat i)"
  by (simp add: rd_def)

lemma wr_ok [simp]: "0 \<le> i \<Longrightarrow> i < int (length xs) \<Longrightarrow> wr xs i v = Some (xs[nat i := v])"
  by (simp add: wr_def)

lemma rd_nat [simp]: "n < length xs \<Longrightarrow> rd xs (int n) = Some (xs ! n)"
  by (simp add: rd_def)

lemma wr_nat [simp]: "n < length xs \<Longrightarrow> wr xs (int n) v = Some (xs[n := v])"
  by (simp add: wr_def)

lemma rd_eq_Some_iff: "rd xs i = Some v \<longleftrightarrow> 0 \<le> i \<and> i < int (length xs) \<and> v = xs ! nat i"
  by (auto simp: rd_def)

lemma wr_eq_Some_iff:
  "wr xs i v = Some ys \<longleftrightarrow> 0 \<le> i \<and> i < int (length xs) \<and> ys = xs[nat i := v]"
  by (auto simp: wr_def)

section \<open>Loops\<close>

text \<open>\<open>while (b) c;\<close> with the loop variables as one state.\<close>

partial_function (option) c_while ::
  "('s \<Rightarrow> bool) \<Rightarrow> ('s \<Rightarrow> 's option) \<Rightarrow> 's \<Rightarrow> 's option" where
  "c_while b c s = (if b s then Option.bind (c s) (c_while b c) else Some s)"

text \<open>
  \<open>for (i = lo; i < hi; i++) f\<close> where the body neither breaks nor changes \<open>i\<close>, and
  the search loop \<open>for (i = lo; i < hi; i++) if (p) break;\<close>, whose value is the final
  value of the loop variable.
\<close>

fun c_for :: "nat \<Rightarrow> int \<Rightarrow> (int \<Rightarrow> 's \<Rightarrow> 's option) \<Rightarrow> 's \<Rightarrow> 's option" where
  "c_for 0 i f s = Some s"
| "c_for (Suc n) i f s = Option.bind (f i s) (c_for n (i + 1) f)"

definition for_range :: "int \<Rightarrow> int \<Rightarrow> (int \<Rightarrow> 's \<Rightarrow> 's option) \<Rightarrow> 's \<Rightarrow> 's option" where
  "for_range lo hi f s = c_for (nat (hi - lo)) lo f s"

fun c_find :: "nat \<Rightarrow> int \<Rightarrow> (int \<Rightarrow> bool option) \<Rightarrow> int option" where
  "c_find 0 i p = Some i"
| "c_find (Suc n) i p = Option.bind (p i) (\<lambda>b. if b then Some i else c_find n (i + 1) p)"

definition find_range :: "int \<Rightarrow> int \<Rightarrow> (int \<Rightarrow> bool option) \<Rightarrow> int option" where
  "find_range lo hi p = c_find (nat (hi - lo)) lo p"

text \<open>
  Total correctness of \<open>c_while\<close>: an invariant that each round keeps while a measure
  falls. The loop then ends, without undefined behaviour, in a state with the invariant
  where the guard is false.
\<close>

lemma c_while_total:
  assumes step: "\<And>s. I s \<Longrightarrow> b s \<Longrightarrow> \<exists>s'. c s = Some s' \<and> I s' \<and> (m s' :: nat) < m s"
    and "I s"
  shows "\<exists>t. c_while b c s = Some t \<and> I t \<and> \<not> b t"
  using \<open>I s\<close>
proof (induction "m s" arbitrary: s rule: less_induct)
  case less
  show ?case
  proof (cases "b s")
    case True
    with step less.prems obtain s' where s': "c s = Some s'" "I s'" "m s' < m s"
      by blast
    then show ?thesis
      using less.hyps [of s'] True by (simp add: c_while.simps [of b c s])
  next
    case False
    then show ?thesis using less.prems by (simp add: c_while.simps [of b c s])
  qed
qed

lemma c_while_stop: "\<not> b s \<Longrightarrow> c_while b c s = Some s"
  by (simp add: c_while.simps [of b c s])

lemma c_while_step: "b s \<Longrightarrow> c s = Some s' \<Longrightarrow> c_while b c s = c_while b c s'"
  by (simp add: c_while.simps [of b c s])

text \<open>What holds at the end of a loop that returned (partial correctness).\<close>

lemma c_while_inv:
  assumes ret: "c_while b c s = Some t"
    and step: "\<And>s s'. I s \<Longrightarrow> b s \<Longrightarrow> c s = Some s' \<Longrightarrow> I s'" and "I s"
  shows "I t \<and> \<not> b t"
proof -
  have "(\<forall>s s'. I s \<longrightarrow> b s \<longrightarrow> c s = Some s' \<longrightarrow> I s') \<longrightarrow> I s \<longrightarrow> I t \<and> \<not> b t"
  proof (rule c_while.raw_induct
      [where P = "\<lambda>b c s t. (\<forall>s s'. I s \<longrightarrow> b s \<longrightarrow> c s = Some s' \<longrightarrow> I s') \<longrightarrow> I s \<longrightarrow> I t \<and> \<not> b t",
        OF _ ret])
    fix f b c s t
    assume IH: "\<And>b c s t. f b c s = Some t \<Longrightarrow>
        (\<forall>s s'. I s \<longrightarrow> b s \<longrightarrow> c s = Some s' \<longrightarrow> I s') \<longrightarrow> I s \<longrightarrow> I t \<and> \<not> b t"
      and eq: "(if b s then Option.bind (c s) (f b c) else Some s) = Some t"
    show "(\<forall>s s'. I s \<longrightarrow> b s \<longrightarrow> c s = Some s' \<longrightarrow> I s') \<longrightarrow> I s \<longrightarrow> I t \<and> \<not> b t"
    proof (intro impI)
      assume step: "\<forall>s s'. I s \<longrightarrow> b s \<longrightarrow> c s = Some s' \<longrightarrow> I s'" and I: "I s"
      show "I t \<and> \<not> b t"
      proof (cases "b s")
        case True
        with eq obtain s' where s': "c s = Some s'" "f b c s' = Some t"
          by (cases "c s") auto
        with step I True have "I s'" by blast
        with IH [OF s'(2)] step show ?thesis by blast
      next
        case False
        with eq I show ?thesis by simp
      qed
    qed
  qed
  with assms(2,3) show ?thesis by blast
qed

lemma c_for_inv:
  assumes "\<And>j s. i \<le> j \<Longrightarrow> j < i + int n \<Longrightarrow> I j s \<Longrightarrow> \<exists>s'. f j s = Some s' \<and> I (j + 1) s'"
    and "I i s"
  shows "\<exists>t. c_for n i f s = Some t \<and> I (i + int n) t"
  using assms
proof (induction n arbitrary: i s)
  case 0
  then show ?case by simp
next
  case (Suc n)
  from Suc.prems(1)[of i s] Suc.prems(2) obtain s' where s': "f i s = Some s'" "I (i + 1) s'"
    by auto
  have "\<exists>t. c_for n (i + 1) f s' = Some t \<and> I ((i + 1) + int n) t"
    using Suc.prems(1) s'(2) by (intro Suc.IH) auto
  with s' show ?case by (simp add: algebra_simps)
qed

lemma for_range_inv:
  assumes "\<And>j s. lo \<le> j \<Longrightarrow> j < hi \<Longrightarrow> I j s \<Longrightarrow> \<exists>s'. f j s = Some s' \<and> I (j + 1) s'"
    and "I lo s" and "lo \<le> hi"
  shows "\<exists>t. for_range lo hi f s = Some t \<and> I hi t"
  using c_for_inv [of lo "nat (hi - lo)" I f s] assms by (simp add: for_range_def)

text \<open>A loop that may fail, and then only under a condition \<open>Q\<close>.\<close>

lemma c_for_inv_or:
  assumes "\<And>j s. i \<le> j \<Longrightarrow> j < i + int n \<Longrightarrow> I j s \<Longrightarrow>
      f j s = None \<and> Q \<or> (\<exists>s'. f j s = Some s' \<and> I (j + 1) s')"
    and "I i s"
  shows "c_for n i f s = None \<and> Q \<or> (\<exists>t. c_for n i f s = Some t \<and> I (i + int n) t)"
  using assms
proof (induction n arbitrary: i s)
  case 0
  then show ?case by simp
next
  case (Suc n)
  from Suc.prems(1)[of i s] Suc.prems(2)
  consider "f i s = None" Q | s' where "f i s = Some s'" "I (i + 1) s'" by auto
  then show ?case
  proof cases
    case 2
    have "c_for n (i + 1) f s' = None \<and> Q \<or> (\<exists>t. c_for n (i + 1) f s' = Some t \<and> I ((i + 1) + int n) t)"
      using Suc.prems(1) 2(2) by (intro Suc.IH) auto
    with 2 show ?thesis by (simp add: algebra_simps)
  qed simp
qed

lemma for_range_inv_or:
  assumes "\<And>j s. lo \<le> j \<Longrightarrow> j < hi \<Longrightarrow> I j s \<Longrightarrow>
      f j s = None \<and> Q \<or> (\<exists>s'. f j s = Some s' \<and> I (j + 1) s')"
    and "I lo s" and "lo \<le> hi"
  shows "for_range lo hi f s = None \<and> Q \<or> (\<exists>t. for_range lo hi f s = Some t \<and> I hi t)"
  using c_for_inv_or [of lo "nat (hi - lo)" I f Q s] assms by (simp add: for_range_def)

lemma for_range_empty [simp]: "hi \<le> lo \<Longrightarrow> for_range lo hi f s = Some s"
  by (simp add: for_range_def)

lemma for_range_unfold:
  "lo < hi \<Longrightarrow> for_range lo hi f s = Option.bind (f lo s) (for_range (lo + 1) hi f)"
proof -
  assume "lo < hi"
  then have "nat (hi - lo) = Suc (nat (hi - (lo + 1)))" by simp
  then show ?thesis by (cases "f lo s") (simp_all add: for_range_def)
qed

lemma c_for_snoc: "c_for (Suc n) i f s = Option.bind (c_for n i f s) (f (i + int n))"
proof (induction n arbitrary: i s)
  case 0
  show ?case by (cases "f i s") simp_all
next
  case (Suc n)
  show ?case
    using Suc.IH [of "i + 1"] by (cases "f i s") (simp_all add: algebra_simps)
qed

text \<open>A search loop over a predicate without undefined behaviour.\<close>

lemma c_find_iff:
  assumes "\<And>j. i \<le> j \<Longrightarrow> j < i + int n \<Longrightarrow> p j = Some (P j)"
  shows "\<exists>k. c_find n i p = Some k \<and> i \<le> k \<and> k \<le> i + int n \<and>
      (\<forall>j. i \<le> j \<and> j < k \<longrightarrow> \<not> P j) \<and> (k < i + int n \<longrightarrow> P k)"
  using assms
proof (induction n arbitrary: i)
  case 0
  then show ?case by auto
next
  case (Suc n)
  have pi: "p i = Some (P i)" using Suc.prems by simp
  show ?case
  proof (cases "P i")
    case True
    with pi show ?thesis by (intro exI [of _ i]) auto
  next
    case False
    obtain k where k: "c_find n (i + 1) p = Some k" "i + 1 \<le> k" "k \<le> i + 1 + int n"
        "\<forall>j. i + 1 \<le> j \<and> j < k \<longrightarrow> \<not> P j" "k < i + 1 + int n \<longrightarrow> P k"
      using Suc.IH [of "i + 1"] Suc.prems by auto
    have "\<forall>j. i \<le> j \<and> j < k \<longrightarrow> \<not> P j"
      using k(4) False by (metis order_le_less zless_imp_add1_zle)
    with k pi False show ?thesis by auto
  qed
qed

lemma find_range_ok:
  assumes "\<And>j. lo \<le> j \<Longrightarrow> j < hi \<Longrightarrow> p j = Some (P j)" and "lo \<le> hi"
  obtains k where "find_range lo hi p = Some k" "lo \<le> k" "k \<le> hi"
    "\<And>j. lo \<le> j \<Longrightarrow> j < k \<Longrightarrow> \<not> P j" "k < hi \<Longrightarrow> P k"
  using c_find_iff [of lo "nat (hi - lo)" p P] assms
  by (auto simp: find_range_def)

section \<open>Lists\<close>

text \<open>The index of the first occurrence of an element, the length of the list without one.\<close>

fun first_index :: "'a \<Rightarrow> 'a list \<Rightarrow> nat" where
  "first_index x [] = 0"
| "first_index x (y # ys) = (if x = y then 0 else Suc (first_index x ys))"

lemma first_index_less_iff [simp]: "first_index x xs < length xs \<longleftrightarrow> x \<in> set xs"
  by (induction xs) auto

lemma first_index_le: "first_index x xs \<le> length xs"
  by (induction xs) auto

lemma nth_first_index [simp]: "x \<in> set xs \<Longrightarrow> xs ! first_index x xs = x"
  by (induction xs) auto

lemma first_index_eqI:
  "i < length xs \<Longrightarrow> xs ! i = x \<Longrightarrow> (\<And>j. j < i \<Longrightarrow> xs ! j \<noteq> x) \<Longrightarrow> first_index x xs = i"
proof (induction xs arbitrary: i)
  case Nil
  then show ?case by simp
next
  case (Cons y ys)
  show ?case
  proof (cases i)
    case 0
    with Cons.prems show ?thesis by simp
  next
    case (Suc m)
    have "ys ! j \<noteq> x" if "j < m" for j
      using Cons.prems(3) [of "Suc j"] that Suc by simp
    then have "first_index x ys = m"
      using Cons.prems Suc by (intro Cons.IH) auto
    with Cons.prems(3) [of 0] Suc show ?thesis by auto
  qed
qed

lemma remove_at_first_index:
  "x \<in> set xs \<Longrightarrow> take (first_index x xs) xs @ drop (Suc (first_index x xs)) xs = remove1 x xs"
  by (induction xs) auto

lemma set_remove_at:
  "distinct xs \<Longrightarrow> i < length xs \<Longrightarrow> set (take i xs @ drop (Suc i) xs) = set xs - {xs ! i}"
proof -
  assume d: "distinct xs" and i: "i < length xs"
  from i have "xs = take i xs @ xs ! i # drop (Suc i) xs" by (rule id_take_nth_drop)
  then obtain ys zs where xs: "xs = ys @ xs ! i # zs" and "ys = take i xs" "zs = drop (Suc i) xs"
    by blast
  moreover have "set (ys @ zs) = set (ys @ xs ! i # zs) - {xs ! i}"
    using d xs by (metis (no_types, lifting) Diff_insert_absorb Un_iff distinct.simps(2)
        distinct_append insert_iff IntI empty_iff list.set_intros(1) list.simps(15) set_append
        Un_insert_right)
  ultimately show ?thesis by metis
qed

lemma distinct_remove_at: "distinct xs \<Longrightarrow> distinct (take i xs @ drop (Suc i) xs)"
  by (auto simp: set_take_disj_set_drop_if_distinct)

lemma in_set_tlD: "x \<in> set (tl xs) \<Longrightarrow> x \<in> set xs"
  by (cases xs) auto

lemma first_index_append:
  "first_index x (xs @ ys) = (if x \<in> set xs then first_index x xs else length xs + first_index x ys)"
  by (induction xs) auto

lemma take_drop_Suc:
  "n < length xs \<Longrightarrow> m \<le> n \<Longrightarrow> take (Suc (n - m)) (drop m xs) = take (n - m) (drop m xs) @ [xs ! n]"
  by (simp add: take_Suc_conv_app_nth)

lemma sum_map_update:
  fixes f :: "'a \<Rightarrow> int"
  shows "i < length xs \<Longrightarrow> sum_list (map f (xs[i := y])) = sum_list (map f xs) + f y - f (xs ! i)"
proof (induction xs arbitrary: i)
  case Nil
  then show ?case by simp
next
  case (Cons x xs)
  then show ?case by (cases i) auto
qed

lemma sum_le_length:
  fixes f :: "'a \<Rightarrow> int"
  shows "\<forall>x \<in> set xs. f x \<le> 1 \<Longrightarrow> sum_list (map f xs) \<le> int (length xs)"
  by (induction xs) auto

lemma sum_eq_lengthD:
  fixes f :: "'a \<Rightarrow> int"
  assumes "\<forall>x \<in> set xs. f x \<le> 1" "int (length xs) \<le> sum_list (map f xs)"
  shows "\<forall>x \<in> set xs. f x = 1"
  using assms
proof (induction xs)
  case Nil
  then show ?case by simp
next
  case (Cons x xs)
  then show ?case using sum_le_length [of xs f] by force
qed

lemma map_eq_replicate: "\<forall>x \<in> set xs. f x = c \<Longrightarrow> map f xs = replicate (length xs) c"
  by (induction xs) auto

end
