(* ===== verification/Page_Queue.thy ===== *)
theory Page_Queue
  imports C_Base
begin

text \<open>
  The page-frame queue of \<open>src/Assignment4-2/page_replacement_simulator.c\<close>: an array of
  \<open>MAX_SIZE\<close> ints whose first \<open>tail\<close> cells are the frames, with insertion and removal at
  an index. The operations are shown to be list insertion and deletion on the frames, on
  every state where they are free of undefined behaviour.
\<close>

section \<open>The queue and its operations\<close>

definition MAX_SIZE :: int where
  "MAX_SIZE = 1000"

record queue =
  q_arr :: "int list"
  q_tail :: int
  q_len :: int

text \<open>\<open>init\<close> leaves the array as it is: a local of the caller with indeterminate cells.\<close>

definition init :: "queue \<Rightarrow> int \<Rightarrow> queue" where
  "init q sz = q\<lparr>q_tail := 0, q_len := sz\<rparr>"

definition push_loop :: "int \<Rightarrow> int \<times> int list \<Rightarrow> (int \<times> int list) option" where
  "push_loop idx =
     c_while (\<lambda>(i, a). i > idx)
       (\<lambda>(i, a). do { v \<leftarrow> rd a (i - 1); a' \<leftarrow> wr a i v; Some (i - 1, a') })"

definition push :: "queue \<Rightarrow> int \<Rightarrow> int \<Rightarrow> queue option" where
  "push q num idx = do {
     (i, a) \<leftarrow> push_loop idx (q_tail q, q_arr q);
     a' \<leftarrow> wr a idx num;
     t \<leftarrow> c_int (q_tail q + 1);
     Some (q\<lparr>q_arr := a', q_tail := t\<rparr>)
   }"

definition pop :: "queue \<Rightarrow> int \<Rightarrow> queue option" where
  "pop q idx = do {
     a \<leftarrow> for_range idx (q_tail q)
            (\<lambda>i a. do { v \<leftarrow> rd a (i + 1); wr a i v }) (q_arr q);
     t \<leftarrow> c_int (q_tail q - 1);
     Some (q\<lparr>q_arr := a, q_tail := t\<rparr>)
   }"

definition isFull :: "queue \<Rightarrow> bool" where
  "isFull q \<longleftrightarrow> q_tail q = q_len q"

definition isHere :: "queue \<Rightarrow> int \<Rightarrow> int option" where
  "isHere q num = do {
     i \<leftarrow> find_range 0 (q_tail q) (\<lambda>i. do { v \<leftarrow> rd (q_arr q) i; Some (num = v) });
     Some (if i < q_tail q then i else -1)
   }"

section \<open>The frames of a queue\<close>

definition frames :: "queue \<Rightarrow> int list" where
  "frames q = take (nat (q_tail q)) (q_arr q)"

definition queue_inv :: "queue \<Rightarrow> bool" where
  "queue_inv q \<longleftrightarrow> int (length (q_arr q)) = MAX_SIZE \<and> 0 \<le> q_tail q \<and> q_tail q \<le> MAX_SIZE"

lemma length_frames: "queue_inv q \<Longrightarrow> length (frames q) = nat (q_tail q)"
  by (auto simp: queue_inv_def frames_def)

lemma frames_nth: "queue_inv q \<Longrightarrow> i < nat (q_tail q) \<Longrightarrow> frames q ! i = q_arr q ! i"
  by (simp add: frames_def)

lemma init_frames [simp]: "frames (init q n) = []"
  by (simp add: frames_def init_def)

lemma init_inv: "int (length (q_arr q)) = MAX_SIZE \<Longrightarrow> queue_inv (init q n)"
  by (simp add: queue_inv_def init_def MAX_SIZE_def)

lemma isFull_iff: "queue_inv q \<Longrightarrow> isFull q \<longleftrightarrow> int (length (frames q)) = q_len q"
  by (simp add: isFull_def length_frames) (simp add: queue_inv_def)

text \<open>The shift of \<open>push\<close> moves the cells from \<open>idx\<close> up by one.\<close>

lemma push_loop_ok:
  assumes "0 \<le> idx" "idx \<le> t" "t < int (length a)"
  shows "\<exists>a'. push_loop idx (t, a) = Some (idx, a') \<and> length a' = length a \<and>
    (\<forall>k < length a. a' ! k = (if nat idx < k \<and> k \<le> nat t then a ! (k - 1) else a ! k))"
proof -
  let ?I = "\<lambda>(i, b). idx \<le> i \<and> i \<le> t \<and> length b = length a \<and>
    (\<forall>k < length a. b ! k = (if nat i < k \<and> k \<le> nat t then a ! (k - 1) else a ! k))"
  have "\<exists>s. push_loop idx (t, a) = Some s \<and> ?I s \<and> \<not> (case s of (i, b) \<Rightarrow> i > idx)"
    unfolding push_loop_def
  proof (rule c_while_total [where m = "\<lambda>(i, b). nat (i - idx)"])
    fix s assume I: "?I s" and g: "case s of (i, b) \<Rightarrow> i > idx"
    obtain i b where s: "s = (i, b)" by (cases s)
    from I g s assms have b: "0 < i" "i < int (length b)" "length b = length a" by auto
    have "b[nat i := b ! nat (i - 1)] ! k =
        (if nat (i - 1) < k \<and> k \<le> nat t then a ! (k - 1) else a ! k)" if "k < length a" for k
      using I s b that g assms by (cases "k = nat i") (auto simp: nat_diff_distrib nth_list_update)
    with I g s b show "\<exists>s'. (case s of (i, a) \<Rightarrow>
        do { v \<leftarrow> rd a (i - 1); a' \<leftarrow> wr a i v; Some (i - 1, a') }) = Some s' \<and> ?I s' \<and>
        (case s' of (i, b) \<Rightarrow> nat (i - idx)) < (case s of (i, b) \<Rightarrow> nat (i - idx))"
      by auto
  qed (use assms in auto)
  then show ?thesis by fastforce
qed

lemma push_ok:
  assumes "queue_inv q" "q_tail q < MAX_SIZE" "0 \<le> idx" "idx \<le> q_tail q"
  shows "\<exists>q'. push q num idx = Some q' \<and> queue_inv q' \<and> q_len q' = q_len q \<and>
    frames q' = take (nat idx) (frames q) @ num # drop (nat idx) (frames q)"
proof -
  let ?t = "q_tail q" and ?a = "q_arr q"
  have len: "int (length ?a) = MAX_SIZE" "0 \<le> ?t" using assms by (auto simp: queue_inv_def)
  from push_loop_ok [of idx ?t ?a] assms len obtain a' where
    a': "push_loop idx (?t, ?a) = Some (idx, a')" "length a' = length ?a"
    "\<And>k. k < length ?a \<Longrightarrow> a' ! k = (if nat idx < k \<and> k \<le> nat ?t then ?a ! (k - 1) else ?a ! k)"
    by auto
  have c: "c_int (?t + 1) = Some (?t + 1)"
    using assms len by (simp add: MAX_SIZE_def c_int_def INT_MAX_def INT_MIN_def)
  have "take (nat (?t + 1)) (a'[nat idx := num]) =
      take (nat idx) (take (nat ?t) ?a) @ num # drop (nat idx) (take (nat ?t) ?a)"
    (is "?l = ?r")
  proof (rule nth_equalityI)
    show "length ?l = length ?r" using assms len a'(2) by auto
    fix k assume "k < length ?l"
    then have k: "k \<le> nat ?t" "k < length ?a" using len a'(2) assms by auto
    show "?l ! k = ?r ! k"
      using a'(3) [of k] k assms len a'(2)
      by (auto simp: nth_append nth_list_update nth_Cons' min_def nat_le_iff)
  qed
  with a' assms len c show ?thesis
    by (auto simp: push_def queue_inv_def frames_def)
qed

lemma pop_loop_ok:
  assumes "0 \<le> idx" "idx \<le> t" "t < int (length a)"
  shows "\<exists>a'. for_range idx t (\<lambda>i a. do { v \<leftarrow> rd a (i + 1); wr a i v }) a = Some a' \<and>
    length a' = length a \<and>
    (\<forall>k < length a. a' ! k = (if nat idx \<le> k \<and> k < nat t then a ! Suc k else a ! k))"
proof (rule for_range_inv [where I = "\<lambda>i b. length b = length a \<and>
    (\<forall>k < length a. b ! k = (if nat idx \<le> k \<and> k < nat i then a ! Suc k else a ! k))"])
  fix j b
  assume j: "idx \<le> j" "j < t" and I: "length b = length a \<and>
    (\<forall>k < length a. b ! k = (if nat idx \<le> k \<and> k < nat j then a ! Suc k else a ! k))"
  have "b[nat j := b ! nat (j + 1)] ! k =
      (if nat idx \<le> k \<and> k < nat (j + 1) then a ! Suc k else a ! k)" if "k < length a" for k
    using I j that assms by (cases "k = nat j") (auto simp: nat_add_distrib nth_list_update)
  then show "\<exists>s'. do { v \<leftarrow> rd b (j + 1); wr b j v } = Some s' \<and> length s' = length a \<and>
    (\<forall>k < length a. s' ! k = (if nat idx \<le> k \<and> k < nat (j + 1) then a ! Suc k else a ! k))"
    using j I assms by auto
qed (use assms in auto)

lemma pop_ok:
  assumes "queue_inv q" "q_tail q < MAX_SIZE" "0 \<le> idx" "idx < q_tail q"
  shows "\<exists>q'. pop q idx = Some q' \<and> queue_inv q' \<and> q_len q' = q_len q \<and>
    frames q' = take (nat idx) (frames q) @ drop (Suc (nat idx)) (frames q)"
proof -
  let ?t = "q_tail q" and ?a = "q_arr q"
  have len: "int (length ?a) = MAX_SIZE" "0 \<le> ?t" using assms by (auto simp: queue_inv_def)
  from pop_loop_ok [of idx ?t ?a] assms len obtain a' where
    a': "for_range idx ?t (\<lambda>i a. do { v \<leftarrow> rd a (i + 1); wr a i v }) ?a = Some a'"
    "length a' = length ?a"
    "\<And>k. k < length ?a \<Longrightarrow> a' ! k = (if nat idx \<le> k \<and> k < nat ?t then ?a ! Suc k else ?a ! k)"
    by auto
  have c: "c_int (?t - 1) = Some (?t - 1)"
    using assms len by (simp add: MAX_SIZE_def c_int_def INT_MAX_def INT_MIN_def)
  have "take (nat (?t - 1)) a' =
      take (nat idx) (take (nat ?t) ?a) @ drop (Suc (nat idx)) (take (nat ?t) ?a)"
    (is "?l = ?r")
  proof (rule nth_equalityI)
    show "length ?l = length ?r" using assms len a'(2) by auto
    fix k assume "k < length ?l"
    then have k: "Suc k < nat ?t" "Suc k < length ?a" using len a'(2) assms by auto
    show "?l ! k = ?r ! k"
      using a'(3) [of k] k assms len a'(2) by (auto simp: nth_append min_def)
  qed
  with a' assms len c show ?thesis
    by (auto simp: pop_def queue_inv_def frames_def)
qed

text \<open>\<open>isHere\<close> returns the first index of a page among the frames, or -1.\<close>

lemma isHere_ok:
  assumes "queue_inv q"
  shows "isHere q num = Some (if num \<in> set (frames q) then int (first_index num (frames q)) else -1)"
proof -
  let ?t = "q_tail q" and ?a = "q_arr q" and ?f = "frames q"
  have len: "int (length ?a) = MAX_SIZE" "0 \<le> ?t" "?t \<le> MAX_SIZE"
    using assms by (auto simp: queue_inv_def)
  obtain k where k: "find_range 0 ?t (\<lambda>i. do { v \<leftarrow> rd ?a i; Some (num = v) }) = Some k"
      "0 \<le> k" "k \<le> ?t" "\<And>j. 0 \<le> j \<Longrightarrow> j < k \<Longrightarrow> num \<noteq> ?a ! nat j" "k < ?t \<Longrightarrow> num = ?a ! nat k"
    by (rule find_range_ok [of 0 ?t "\<lambda>i. do { v \<leftarrow> rd ?a i; Some (num = v) }"
          "\<lambda>j. num = ?a ! nat j"]) (use len in auto)
  have lf: "length ?f = nat ?t" using assms by (rule length_frames)
  have nth: "?f ! i = ?a ! i" if "i < nat ?t" for i using that by (simp add: frames_def)
  have before: "?f ! j \<noteq> num" if "j < nat k" for j
    using k(3) k(4) [of "int j"] that nth [of j] by (auto simp: zless_nat_eq_int_zless)
  show ?thesis
  proof (cases "k < ?t")
    case True
    with k lf nth have "nat k < length ?f" "?f ! nat k = num" by auto
    with before have "num \<in> set ?f" "first_index num ?f = nat k"
      by (auto intro: first_index_eqI)
    then show ?thesis using True k by (simp add: isHere_def)
  next
    case False
    with before k(3) lf have "num \<notin> set ?f" by (auto simp: in_set_conv_nth)
    with False k show ?thesis by (simp add: isHere_def)
  qed
qed

section \<open>The interface the replacement policies use\<close>

text \<open>
  A store of page frames: the policies see a list of frames, a capacity, and insertion and
  removal at an index, which are safe while fewer than \<open>limit\<close> frames are stored. The three
  compound moves the policies are built from are proved once, over the interface.
\<close>

locale frame_store =
  fixes frames_of :: "'q \<Rightarrow> int list" and inv :: "'q \<Rightarrow> bool" and limit :: int
    and tail_of :: "'q \<Rightarrow> int" and cap :: "'q \<Rightarrow> int"
    and ins :: "'q \<Rightarrow> int \<Rightarrow> int \<Rightarrow> 'q option" and del :: "'q \<Rightarrow> int \<Rightarrow> 'q option"
    and full :: "'q \<Rightarrow> bool" and lookup :: "'q \<Rightarrow> int \<Rightarrow> int option"
  assumes tail_law: "inv q \<Longrightarrow> tail_of q = int (length (frames_of q))"
    and full_law: "inv q \<Longrightarrow> full q \<longleftrightarrow> int (length (frames_of q)) = cap q"
    and lookup_law: "inv q \<Longrightarrow>
      lookup q p = Some (if p \<in> set (frames_of q) then int (first_index p (frames_of q)) else -1)"
    and ins_law: "inv q \<Longrightarrow> tail_of q < limit \<Longrightarrow> 0 \<le> i \<Longrightarrow> i \<le> tail_of q \<Longrightarrow>
      \<exists>q'. ins q p i = Some q' \<and> inv q' \<and> cap q' = cap q \<and>
        frames_of q' = take (nat i) (frames_of q) @ p # drop (nat i) (frames_of q)"
    and del_law: "inv q \<Longrightarrow> tail_of q < limit \<Longrightarrow> 0 \<le> i \<Longrightarrow> i < tail_of q \<Longrightarrow>
      \<exists>q'. del q i = Some q' \<and> inv q' \<and> cap q' = cap q \<and>
        frames_of q' = take (nat i) (frames_of q) @ drop (Suc (nat i)) (frames_of q)"
begin

lemma append_page:
  assumes "inv q" "int (length (frames_of q)) < limit"
  obtains q' where "ins q p (tail_of q) = Some q'" "inv q'" "cap q' = cap q"
    "frames_of q' = frames_of q @ [p]"
  using ins_law [of q "tail_of q" p] assms by (auto simp: tail_law)

lemma delete_page:
  assumes "inv q" "int (length (frames_of q)) < limit" "n < length (frames_of q)"
  obtains q' where "del q (int n) = Some q'" "inv q'" "cap q' = cap q"
    "frames_of q' = take n (frames_of q) @ drop (Suc n) (frames_of q)"
  using del_law [of q "int n"] assms by (auto simp: tail_law)

text \<open>A miss in FIFO and LRU: the first frame leaves a full store, the page joins at the end.\<close>

lemma load_page:
  assumes "inv q" "0 < cap q" "cap q < limit" "int (length (frames_of q)) \<le> cap q"
  shows "\<exists>q'. do { q1 \<leftarrow> if full q then del q 0 else Some q; ins q1 p (tail_of q1) } = Some q' \<and>
    inv q' \<and> cap q' = cap q \<and>
    frames_of q' = (if int (length (frames_of q)) = cap q then tl (frames_of q) else frames_of q) @ [p]"
proof (cases "int (length (frames_of q)) = cap q")
  case True
  with assms obtain q1 where q1: "del q 0 = Some q1" "inv q1" "cap q1 = cap q"
      "frames_of q1 = tl (frames_of q)"
    by (auto elim: delete_page [of q 0] simp: drop_Suc)
  moreover obtain q2 where "ins q1 p (tail_of q1) = Some q2" "inv q2" "cap q2 = cap q1"
      "frames_of q2 = frames_of q1 @ [p]"
    using True assms q1 by (auto elim: append_page [of q1 p])
  ultimately show ?thesis using True assms by (auto simp: full_law)
next
  case False
  with assms show ?thesis by (auto simp: full_law elim: append_page [of q p])
qed

text \<open>A hit in LRU: the page moves to the end.\<close>

lemma touch_page:
  assumes "inv q" "int (length (frames_of q)) < limit" "p \<in> set (frames_of q)"
  shows "\<exists>q'. do { q1 \<leftarrow> del q (int (first_index p (frames_of q))); ins q1 p (tail_of q1) } = Some q' \<and>
    inv q' \<and> cap q' = cap q \<and> frames_of q' = remove1 p (frames_of q) @ [p]"
proof -
  obtain q1 where q1: "del q (int (first_index p (frames_of q))) = Some q1" "inv q1" "cap q1 = cap q"
      "frames_of q1 = remove1 p (frames_of q)"
    using assms remove_at_first_index [of p "frames_of q"]
    by (auto elim: delete_page [of q "first_index p (frames_of q)"])
  moreover obtain q2 where "ins q1 p (tail_of q1) = Some q2" "inv q2" "cap q2 = cap q1"
      "frames_of q2 = frames_of q1 @ [p]"
    using assms q1 by (auto elim: append_page [of q1 p] simp: length_remove1)
  ultimately show ?thesis by simp
qed

text \<open>A replacement in CLOCK: the page takes the place of the victim.\<close>

lemma replace_page:
  assumes "inv q" "int (length (frames_of q)) < limit" "n < length (frames_of q)"
  obtains q1 q' where "del q (int n) = Some q1" "ins q1 p (int n) = Some q'" "inv q1" "inv q'"
    "cap q1 = cap q" "cap q' = cap q" "frames_of q' = (frames_of q)[n := p]"
    "tail_of q1 = int (length (frames_of q)) - 1"
proof -
  obtain q1 where q1: "del q (int n) = Some q1" "inv q1" "cap q1 = cap q"
      "frames_of q1 = take n (frames_of q) @ drop (Suc n) (frames_of q)"
    using assms by (auto elim: delete_page [of q n])
  moreover have "\<exists>q'. ins q1 p (int n) = Some q' \<and> inv q' \<and> cap q' = cap q1 \<and>
      frames_of q' = take n (frames_of q1) @ p # drop n (frames_of q1)"
    using ins_law [of q1 "int n" p] q1 assms by (auto simp: tail_law)
  ultimately show ?thesis
    using that assms by (auto simp: upd_conv_take_nth_drop tail_law min_def)
qed

end

interpretation pq: frame_store frames queue_inv MAX_SIZE q_tail q_len push pop isFull isHere
proof unfold_locales
  fix q :: queue and i p :: int
  assume q: "queue_inv q"
  show "q_tail q = int (length (frames q))" using q by (simp add: length_frames queue_inv_def)
  show "isFull q \<longleftrightarrow> int (length (frames q)) = q_len q" using q by (rule isFull_iff)
  show "isHere q p = Some (if p \<in> set (frames q) then int (first_index p (frames q)) else -1)"
    using q by (rule isHere_ok)
  show "\<exists>q'. push q p i = Some q' \<and> queue_inv q' \<and> q_len q' = q_len q \<and>
      frames q' = take (nat i) (frames q) @ p # drop (nat i) (frames q)"
    if "q_tail q < MAX_SIZE" "0 \<le> i" "i \<le> q_tail q"
    using push_ok [OF q that] by blast
  show "\<exists>q'. pop q i = Some q' \<and> queue_inv q' \<and> q_len q' = q_len q \<and>
      frames q' = take (nat i) (frames q) @ drop (Suc (nat i)) (frames q)"
    if "q_tail q < MAX_SIZE" "0 \<le> i" "i < q_tail q"
    using pop_ok [OF q that] by blast
qed

end
