(* ===== verification/Page_Spec.thy ===== *)
theory Page_Spec
  imports C_Base
begin

text \<open>
  The abstract side of \<open>src/Assignment4-2/page_replacement_simulator.c\<close>: demand paging as
  a relation on sets of frames, the farthest-next-use rule with its optimality proof, and
  the recency stack behind LRU. The C functions are related to these in
  \<open>Page_Policies\<close>.
\<close>

section \<open>Demand paging\<close>

text \<open>
  \<open>paging k S ps n\<close>: some demand-paging run with \<open>k\<close> frames, started with the pages \<open>S\<close> in
  memory, serves the requests \<open>ps\<close> with \<open>n\<close> page faults. A page is loaded only on a fault,
  and a page is evicted only when all frames are taken; which one is free.
\<close>

inductive paging :: "nat \<Rightarrow> 'p set \<Rightarrow> 'p list \<Rightarrow> nat \<Rightarrow> bool" for k :: nat where
  served: "paging k S [] 0"
| hit: "p \<in> S \<Longrightarrow> paging k S ps n \<Longrightarrow> paging k S (p # ps) n"
| fill: "p \<notin> S \<Longrightarrow> card S < k \<Longrightarrow> paging k (insert p S) ps n \<Longrightarrow> paging k S (p # ps) (Suc n)"
| evict: "p \<notin> S \<Longrightarrow> card S = k \<Longrightarrow> v \<in> S \<Longrightarrow> paging k (insert p (S - {v})) ps n \<Longrightarrow>
    paging k S (p # ps) (Suc n)"

inductive_cases paging_NilE: "paging k S [] n"
inductive_cases paging_ConsE: "paging k S (p # ps) n"

text \<open>The same with the victim a page whose next use is farthest away.\<close>

inductive belady :: "nat \<Rightarrow> 'p set \<Rightarrow> 'p list \<Rightarrow> nat \<Rightarrow> bool" for k :: nat where
  served: "belady k S [] 0"
| hit: "p \<in> S \<Longrightarrow> belady k S ps n \<Longrightarrow> belady k S (p # ps) n"
| fill: "p \<notin> S \<Longrightarrow> card S < k \<Longrightarrow> belady k (insert p S) ps n \<Longrightarrow> belady k S (p # ps) (Suc n)"
| evict: "p \<notin> S \<Longrightarrow> card S = k \<Longrightarrow> v \<in> S \<Longrightarrow> \<forall>u \<in> S. first_index u ps \<le> first_index v ps \<Longrightarrow>
    belady k (insert p (S - {v})) ps n \<Longrightarrow> belady k S (p # ps) (Suc n)"

lemma belady_paging: "belady k S ps n \<Longrightarrow> paging k S ps n"
  by (induction rule: belady.induct) (auto intro: paging.intros)

lemma card_replace: "finite S \<Longrightarrow> a \<in> S \<Longrightarrow> b \<notin> S \<Longrightarrow> card (insert b (S - {a})) = card S"
  by (metis Diff_iff card.remove card_insert_disjoint finite_Diff)

text \<open>
  How a memory \<open>T\<close> can follow a run from another one: it serves \<open>p\<close> keeping any set \<open>A\<close> of
  its pages that leaves a frame free, with at most one fault.
\<close>

lemma paging_serve:
  assumes "finite T" "card T \<le> k" "A \<subseteq> T" "card A < k"
    and cont: "\<And>T'. finite T' \<Longrightarrow> card T' \<le> k \<Longrightarrow> insert p A \<subseteq> T' \<Longrightarrow> \<exists>m \<le> n. paging k T' ps m"
  shows "\<exists>m \<le> Suc n. paging k T (p # ps) m"
proof (cases "p \<in> T")
  case True
  with cont [of T] assms obtain m where "m \<le> n" "paging k T ps m" by blast
  with True show ?thesis by (meson le_SucI paging.hit)
next
  case False
  show ?thesis
  proof (cases "card T < k")
    case True
    have "\<exists>m \<le> n. paging k (insert p T) ps m"
      by (rule cont) (use True False assms in auto)
    then obtain m where "m \<le> n" "paging k (insert p T) ps m" by blast
    with True False show ?thesis by (auto intro: paging.fill)
  next
    case full: False
    with assms have "A \<noteq> T" by auto
    with assms obtain v where v: "v \<in> T" "v \<notin> A" by blast
    have "card (insert p (T - {v})) \<le> k"
      using card_replace [of T v p] v False assms by simp
    then have "\<exists>m \<le> n. paging k (insert p (T - {v})) ps m"
      by (intro cont) (use v assms in auto)
    then obtain m where m: "m \<le> n" "paging k (insert p (T - {v})) ps m" by blast
    have "paging k T (p # ps) (Suc m)"
      using False _ v(1) m(2) by (rule paging.evict) (use full assms(2) in simp)
    with m show ?thesis by auto
  qed
qed

text \<open>A larger memory has no more faults.\<close>

lemma paging_mono:
  "paging k S ps n \<Longrightarrow> finite T \<Longrightarrow> card T \<le> k \<Longrightarrow> S \<subseteq> T \<Longrightarrow> \<exists>m \<le> n. paging k T ps m"
proof (induction S ps n arbitrary: T rule: paging.induct)
  case (served S)
  then show ?case by (auto intro: paging.served)
next
  case (hit p S ps n)
  then show ?case by (metis paging.hit subsetD)
next
  case (fill p S ps n)
  show ?case
    by (rule paging_serve [of T k S]) (use fill in auto)
next
  case (evict p S v ps n)
  have "card (S - {v}) < k"
    using evict.hyps evict.prems finite_subset by (metis card_Diff1_less)
  then show ?case
    by (intro paging_serve [of T k "S - {v}"]) (use evict in auto)
qed

text \<open>A memory that lacks one page has at most one fault more.\<close>

lemma paging_but_one:
  "paging k S ps n \<Longrightarrow> finite S \<Longrightarrow> card S \<le> k \<Longrightarrow> finite T \<Longrightarrow> card T \<le> k \<Longrightarrow> S - {a} \<subseteq> T \<Longrightarrow>
    \<exists>m \<le> Suc n. paging k T ps m"
proof (induction S ps n arbitrary: T rule: paging.induct)
  case (served S)
  then show ?case by (auto intro: paging.served)
next
  case (hit p S ps n)
  show ?case
  proof (cases "p \<in> T")
    case True
    with hit show ?thesis by (metis paging.hit)
  next
    case False
    with hit have "p = a" by auto
    have "card (S - {a}) < k"
      using hit \<open>p = a\<close> by (metis card_Diff1_less order_less_le_trans)
    moreover have "\<exists>m \<le> n. paging k T' ps m"
      if "finite T'" "card T' \<le> k" "insert p (S - {a}) \<subseteq> T'" for T'
      using paging_mono [OF hit.hyps(2) that(1,2)] that \<open>p = a\<close> hit.hyps by auto
    ultimately show ?thesis using hit.prems by (intro paging_serve [of T k "S - {a}"]) auto
  qed
next
  case (fill p S ps n)
  have "card (S - {a}) < k"
    using fill by (metis card_Diff1_le order_le_less_trans)
  moreover have "\<exists>m \<le> Suc n. paging k T' ps m"
    if "finite T'" "card T' \<le> k" "insert p (S - {a}) \<subseteq> T'" for T'
    using fill that by (intro fill.IH) auto
  ultimately show ?case using fill.prems by (intro paging_serve [of T k "S - {a}"]) auto
next
  case (evict p S v ps n)
  have card: "card (S - {v}) < k" using evict by (metis card_Diff1_less)
  then have "card (S - {v} - {a}) < k" by (meson card_Diff1_le order_le_less_trans)
  moreover have "\<exists>m \<le> Suc n. paging k T' ps m"
    if "finite T'" "card T' \<le> k" "insert p (S - {v} - {a}) \<subseteq> T'" for T'
    using evict.prems that card by (intro evict.IH) (auto simp: card_insert_if)
  ultimately show ?case using evict.prems by (intro paging_serve [of T k "S - {v} - {a}"]) auto
qed

text \<open>Holding the page that is needed sooner is no worse.\<close>

lemma paging_exchange:
  "paging k S ps n \<Longrightarrow> finite S \<Longrightarrow> card S \<le> k \<Longrightarrow> finite T \<Longrightarrow> card T \<le> k \<Longrightarrow>
    a \<in> S \<Longrightarrow> b \<notin> S \<Longrightarrow> insert b (S - {a}) \<subseteq> T \<Longrightarrow> first_index b ps \<le> first_index a ps \<Longrightarrow>
    \<exists>m \<le> n. paging k T ps m"
proof (induction S ps n arbitrary: T rule: paging.induct)
  case (served S)
  then show ?case by (auto intro: paging.served)
next
  case (hit p S ps n)
  then have "p \<noteq> a" "p \<noteq> b" by (auto split: if_splits)
  with hit have "p \<in> T" "\<exists>m \<le> n. paging k T ps m" by (auto intro: hit.IH)
  then show ?case by (metis paging.hit)
next
  case (fill p S ps n)
  have pa: "p \<noteq> a" using fill by auto
  show ?case
  proof (cases "p = b")
    case True
    have "\<exists>m \<le> Suc n. paging k T ps m"
      using fill True by (intro paging_but_one [OF fill.hyps(3), where a = a]) auto
    with True fill.prems show ?thesis by (metis insert_subset paging.hit)
  next
    case False
    have "card (insert b (S - {a})) < k"
      using card_replace [of S a b] fill.prems fill.hyps by simp
    moreover have "\<exists>m \<le> n. paging k T' ps m"
      if "finite T'" "card T' \<le> k" "insert p (insert b (S - {a})) \<subseteq> T'" for T'
      using fill that False pa by (intro fill.IH) (auto split: if_splits)
    ultimately show ?thesis
      using fill.prems by (intro paging_serve [of T k "insert b (S - {a})"]) auto
  qed
next
  case (evict p S v ps n)
  have pa: "p \<noteq> a" using evict by auto
  have card: "card (S - {v}) < k" using evict by (metis card_Diff1_less)
  then have card': "card (insert p (S - {v})) \<le> k" using evict.prems by (simp add: card_insert_if)
  consider "p = b" | "p \<noteq> b" "v = a" | "p \<noteq> b" "v \<noteq> a" by blast
  then show ?case
  proof cases
    case 1
    have "\<exists>m \<le> Suc n. paging k T ps m"
      using evict.prems 1 card' by (intro paging_but_one [OF evict.hyps(4), where a = a]) auto
    with 1 evict.prems show ?thesis by (metis insert_subset paging.hit)
  next
    case 2
    have "\<exists>m \<le> n. paging k T' ps m"
      if "finite T'" "card T' \<le> k" "insert p (S - {a}) \<subseteq> T'" for T'
      using paging_mono [OF evict.hyps(4) that(1,2)] that 2 by simp
    with 2 card show ?thesis
      using evict.prems by (intro paging_serve [of T k "S - {a}"]) auto
  next
    case 3
    have "card (insert b (S - {v} - {a})) < k"
      using card_replace [of "S - {v}" a b] 3 evict.prems card by simp
    moreover have "\<exists>m \<le> n. paging k T' ps m"
      if "finite T'" "card T' \<le> k" "insert p (insert b (S - {v} - {a})) \<subseteq> T'" for T'
      using evict.prems that 3 pa card' by (intro evict.IH) (auto split: if_splits)
    ultimately show ?thesis
      using evict.prems by (intro paging_serve [of T k "insert b (S - {v} - {a})"]) auto
  qed
qed

text \<open>Evicting the page with the farthest next use is optimal among all demand-paging runs.\<close>

lemma belady_optimal:
  "belady k S ps n \<Longrightarrow> finite S \<Longrightarrow> card S \<le> k \<Longrightarrow> paging k S ps m \<Longrightarrow> n \<le> m"
proof (induction S ps n arbitrary: m rule: belady.induct)
  case (served S)
  then show ?case by simp
next
  case (hit p S ps n)
  then show ?case by (auto elim: paging_ConsE)
next
  case (fill p S ps n)
  from fill.prems(3) show ?case
    by (rule paging_ConsE) (use fill in \<open>auto simp: card_insert_if\<close>)
next
  case (evict p S v ps n)
  from evict.prems(3) show ?case
  proof (rule paging_ConsE)
    fix u m' assume u: "m = Suc m'" "u \<in> S" "paging k (insert p (S - {u})) ps m'"
    have card: "card (insert p (S - {w})) \<le> k" if "w \<in> S" for w
      using card_replace [of S w p] that evict.hyps evict.prems by simp
    have "\<exists>m'' \<le> m'. paging k (insert p (S - {v})) ps m''"
    proof (cases "u = v")
      case True
      with u show ?thesis by blast
    next
      case False
      with u evict card show ?thesis
        by (intro paging_exchange [OF u(3), where a = v and b = u]) auto
    qed
    with evict.IH card evict.prems evict.hyps(3) have "n \<le> m'" by fastforce
    with u show ?thesis by simp
  qed (use evict in auto)
qed

section \<open>Reference policies on lists of frames\<close>

text \<open>First in, first out: the frames in loading order, the oldest first.\<close>

fun fifo_faults :: "nat \<Rightarrow> 'p list \<Rightarrow> 'p list \<Rightarrow> nat" where
  "fifo_faults k xs [] = 0"
| "fifo_faults k xs (p # ps) =
     (if p \<in> set xs then fifo_faults k xs ps
      else Suc (fifo_faults k ((if length xs = k then tl xs else xs) @ [p]) ps))"

text \<open>Least recently used: the frames in order of their last use, the least recent first.\<close>

fun lru_faults :: "nat \<Rightarrow> 'p list \<Rightarrow> 'p list \<Rightarrow> nat" where
  "lru_faults k xs [] = 0"
| "lru_faults k xs (p # ps) =
     (if p \<in> set xs then lru_faults k (remove1 p xs @ [p]) ps
      else Suc (lru_faults k ((if length xs = k then tl xs else xs) @ [p]) ps))"

text \<open>
  The recency stack: all pages ever used in order of their last use. With \<open>k\<close> frames LRU
  holds the last \<open>k\<close> of them, so more frames hold a superset of the pages (inclusion) and
  never fault more.
\<close>

definition lastn :: "nat \<Rightarrow> 'p list \<Rightarrow> 'p list" where
  "lastn k xs = drop (length xs - k) xs"

definition recent :: "'p \<Rightarrow> 'p list \<Rightarrow> 'p list" where
  "recent p xs = remove1 p xs @ [p]"

lemma distinct_recent: "distinct xs \<Longrightarrow> distinct (recent p xs)"
  by (auto simp: recent_def)

lemma length_lastn [simp]: "length (lastn k xs) = min k (length xs)"
  by (auto simp: lastn_def)

lemma lastn_snoc: "0 < k \<Longrightarrow> lastn k (xs @ [p]) = lastn (k - 1) xs @ [p]"
  by (cases k) (auto simp: lastn_def)

lemma lastn_appendI: "length ys = k \<Longrightarrow> lastn k (xs @ ys) = ys"
  by (simp add: lastn_def)

lemma lastn_split: "xs = take (length xs - k) xs @ lastn k xs"
  by (simp add: lastn_def)

lemma lastn_subset: "j \<le> k \<Longrightarrow> set (lastn j xs) \<subseteq> set (lastn k xs)"
  by (simp add: lastn_def set_drop_subset_set_drop)

lemma lastn_all: "length xs \<le> k \<Longrightarrow> lastn k xs = xs"
  by (simp add: lastn_def)

lemma lastn_tl: "0 < k \<Longrightarrow> k \<le> length xs \<Longrightarrow> tl (lastn k xs) = lastn (k - 1) xs"
  by (cases k) (auto simp: lastn_def Suc_diff_Suc tl_drop drop_Suc [symmetric])

lemma lastn_remove1_in:
  assumes "distinct xs" "p \<in> set (lastn k xs)"
  shows "lastn (k - 1) (remove1 p xs) = remove1 p (lastn k xs)"
proof (cases "length xs \<le> k")
  case True
  with assms show ?thesis by (simp add: lastn_all length_remove1)
next
  case False
  let ?a = "take (length xs - k) xs" and ?b = "lastn k xs"
  have "p \<notin> set ?a"
    using assms lastn_split [of xs k] by (metis disjoint_iff distinct_append)
  then have "remove1 p xs = ?a @ remove1 p ?b"
    using lastn_split [of xs k] by (metis remove1_append)
  moreover have "length (remove1 p ?b) = k - 1"
    using assms(2) False by (simp add: length_remove1)
  ultimately show ?thesis by (simp add: lastn_appendI)
qed

lemma lastn_remove1_out:
  assumes "p \<notin> set (lastn k xs)" "0 < k"
  shows "lastn (k - 1) (remove1 p xs) = lastn (k - 1) xs"
proof (cases "length xs < k")
  case True
  with assms show ?thesis by (simp add: lastn_all remove1_idem)
next
  case False
  let ?a = "take (length xs - (k - 1)) xs" and ?b = "lastn (k - 1) xs"
  have "p \<notin> set ?b" using assms lastn_subset [of "k - 1" k xs] by auto
  then have "remove1 p xs = remove1 p ?a @ ?b"
    using lastn_split [of xs "k - 1"] by (metis remove1_append remove1_idem)
  moreover have "length ?b = k - 1" using False by simp
  ultimately show ?thesis by (simp add: lastn_appendI)
qed

lemma lru_faults_stack:
  assumes "distinct xs" "0 < k"
  shows "lru_faults k (lastn k xs) (p # ps) =
    (if p \<in> set (lastn k xs) then 0 else 1) + lru_faults k (lastn k (recent p xs)) ps"
proof (cases "p \<in> set (lastn k xs)")
  case True
  with assms lastn_remove1_in [of xs p k] show ?thesis
    by (simp add: recent_def lastn_snoc)
next
  case False
  have "(if length (lastn k xs) = k then tl (lastn k xs) else lastn k xs) = lastn (k - 1) xs"
    using assms by (auto simp: lastn_tl lastn_all)
  with assms False lastn_remove1_out [of p k xs] show ?thesis
    by (simp add: recent_def lastn_snoc)
qed

lemma lru_faults_mono:
  assumes "distinct xs" "0 < j" "j \<le> k"
  shows "lru_faults k (lastn k xs) ps \<le> lru_faults j (lastn j xs) ps"
  using assms
proof (induction ps arbitrary: xs)
  case Nil
  then show ?case by simp
next
  case (Cons p ps)
  have "set (lastn j xs) \<subseteq> set (lastn k xs)" using Cons.prems by (intro lastn_subset)
  with Cons.IH [of "recent p xs"] Cons.prems show ?case
    by (auto simp: lru_faults_stack distinct_recent simp del: lru_faults.simps)
qed

text \<open>
  Second chance: frames in a circle with a use bit each and a hand. On a miss the frames
  are visited from the hand on; a set bit is cleared and the frame passed over, the first
  frame with a clear bit is replaced, and the one under the hand if all bits were set. The
  hand moves to the frame after the replaced one.
\<close>

fun scan_bits :: "nat list \<Rightarrow> int list \<Rightarrow> nat option \<times> int list" where
  "scan_bits [] bs = (None, bs)"
| "scan_bits (i # is) bs = (if bs ! i = 0 then (Some i, bs) else scan_bits is (bs[i := 0]))"

definition clock_order :: "nat \<Rightarrow> nat \<Rightarrow> nat list" where
  "clock_order k h = [h..<k] @ [0..<h]"

definition clock_victim :: "nat \<Rightarrow> nat \<Rightarrow> int list \<Rightarrow> nat" where
  "clock_victim k h bs = (case fst (scan_bits (clock_order k h) bs) of None \<Rightarrow> h | Some i \<Rightarrow> i)"

fun clock_faults :: "nat \<Rightarrow> 'p list \<Rightarrow> int list \<Rightarrow> nat \<Rightarrow> 'p list \<Rightarrow> nat" where
  "clock_faults k xs bs h [] = 0"
| "clock_faults k xs bs h (p # ps) =
     (if p \<in> set xs then clock_faults k xs (bs[first_index p xs := 1]) h ps
      else if length xs < k then Suc (clock_faults k (xs @ [p]) (bs @ [0]) 0 ps)
      else let v = clock_victim k h bs; bs' = snd (scan_bits (clock_order k h) bs)
           in Suc (clock_faults k (xs[v := p]) (bs'[v := 0]) (Suc v mod k) ps))"

lemma scan_bits_append:
  "scan_bits (is @ js) bs =
    (case scan_bits is bs of (Some i, bs') \<Rightarrow> (Some i, bs') | (None, bs') \<Rightarrow> scan_bits js bs')"
  by (induction "is" arbitrary: bs) auto

lemma scan_bits_SomeD: "scan_bits is bs = (Some i, bs') \<Longrightarrow> i \<in> set is"
  by (induction "is" arbitrary: bs) (auto split: if_splits)

lemma length_scan_bits: "scan_bits is bs = (r, bs') \<Longrightarrow> length bs' = length bs"
  by (induction "is" arbitrary: bs) (auto split: if_splits)

lemma scan_bits_take:
  assumes "\<forall>i \<in> set is. i < k" "k \<le> length a"
  shows "scan_bits is (take k a) = map_prod id (take k) (scan_bits is a)"
  using assms
proof (induction "is" arbitrary: a)
  case Nil
  then show ?case by simp
next
  case (Cons i "is")
  then show ?case by (simp flip: take_update_swap)
qed

lemma clock_victim_less: "h < k \<Longrightarrow> clock_victim k h bs < k"
proof -
  assume "h < k"
  obtain r bs' where r: "scan_bits (clock_order k h) bs = (r, bs')" by fastforce
  have "i < k" if "r = Some i" for i
    using scan_bits_SomeD [of "clock_order k h" bs i bs'] r that \<open>h < k\<close>
    by (auto simp: clock_order_def)
  with r \<open>h < k\<close> show ?thesis by (cases r) (auto simp: clock_victim_def)
qed

section \<open>The reference policies are demand paging\<close>

lemma distinct_tl_set: "distinct xs \<Longrightarrow> xs \<noteq> [] \<Longrightarrow> set (tl xs) = set xs - {hd xs}"
  by (cases xs) auto

lemma fifo_paging:
  assumes "distinct xs" "length xs \<le> k" "0 < k"
  shows "paging k (set xs) ps (fifo_faults k xs ps)"
  using assms
proof (induction ps arbitrary: xs)
  case Nil
  then show ?case by (simp add: paging.served)
next
  case (Cons p ps)
  have card: "card (set xs) = length xs" using Cons.prems by (simp add: distinct_card)
  consider "p \<in> set xs" | "p \<notin> set xs" "length xs < k" | "p \<notin> set xs" "length xs = k"
    using Cons.prems by linarith
  then show ?case
  proof cases
    case 1
    with Cons show ?thesis by (auto intro: paging.hit)
  next
    case 2
    with Cons.IH [of "xs @ [p]"] Cons.prems card show ?thesis by (auto intro!: paging.fill)
  next
    case 3
    with Cons.prems have xs: "xs \<noteq> []" by auto
    with 3 Cons.prems have "paging k (set (tl xs @ [p])) ps (fifo_faults k (tl xs @ [p]) ps)"
      by (intro Cons.IH) (auto simp: distinct_tl dest: in_set_tlD)
    with 3 xs card Cons.prems(1) show ?thesis
      by (auto simp: distinct_tl_set intro!: paging.evict [where v = "hd xs"])
  qed
qed

lemma lru_paging:
  assumes "distinct xs" "length xs \<le> k" "0 < k"
  shows "paging k (set xs) ps (lru_faults k xs ps)"
  using assms
proof (induction ps arbitrary: xs)
  case Nil
  then show ?case by (simp add: paging.served)
next
  case (Cons p ps)
  have card: "card (set xs) = length xs" using Cons.prems by (simp add: distinct_card)
  consider "p \<in> set xs" | "p \<notin> set xs" "length xs < k" | "p \<notin> set xs" "length xs = k"
    using Cons.prems by linarith
  then show ?case
  proof cases
    case 1
    then have "insert p (set xs) = set xs" "Suc (length xs - Suc 0) = length xs"
      by (auto, cases xs) auto
    with 1 Cons.IH [of "remove1 p xs @ [p]"] Cons.prems show ?thesis
      by (auto simp: length_remove1 intro: paging.hit)
  next
    case 2
    with Cons.IH [of "xs @ [p]"] Cons.prems card show ?thesis by (auto intro!: paging.fill)
  next
    case 3
    with Cons.prems have xs: "xs \<noteq> []" by auto
    with 3 Cons.prems have "paging k (set (tl xs @ [p])) ps (lru_faults k (tl xs @ [p]) ps)"
      by (intro Cons.IH) (auto simp: distinct_tl dest: in_set_tlD)
    with 3 xs card Cons.prems(1) show ?thesis
      by (auto simp: distinct_tl_set intro!: paging.evict [where v = "hd xs"])
  qed
qed

lemma clock_paging:
  assumes "distinct xs" "length xs \<le> k" "h < k"
  shows "paging k (set xs) ps (clock_faults k xs bs h ps)"
  using assms
proof (induction ps arbitrary: xs bs h)
  case Nil
  then show ?case by (simp add: paging.served)
next
  case (Cons p ps)
  have card: "card (set xs) = length xs" using Cons.prems by (simp add: distinct_card)
  consider "p \<in> set xs" | "p \<notin> set xs" "length xs < k" | "p \<notin> set xs" "length xs = k"
    using Cons.prems by linarith
  then show ?case
  proof cases
    case 1
    with Cons show ?thesis by (auto intro: paging.hit)
  next
    case 2
    with Cons.IH [of "xs @ [p]" 0] Cons.prems card show ?thesis by (auto intro!: paging.fill)
  next
    case 3
    let ?v = "clock_victim k h bs"
    have v: "?v < length xs" using 3 Cons.prems(3) by (simp add: clock_victim_less)
    have "paging k (set (xs[?v := p])) ps (clock_faults k (xs[?v := p])
        ((snd (scan_bits (clock_order k h) bs))[?v := 0]) (Suc ?v mod k) ps)"
      using 3 Cons.prems by (intro Cons.IH) (auto simp: distinct_list_update)
    with 3 v card Cons.prems(1) show ?thesis
      by (auto simp: set_update_distinct Let_def intro!: paging.evict [where v = "xs ! ?v"])
  qed
qed

end
