(* ===== verification/Page_Policies.thy ===== *)
theory Page_Policies
  imports Page_Queue Page_Spec
begin

text \<open>
  The four replacement simulations \<open>OPT\<close>, \<open>FIFO\<close>, \<open>LRU\<close> and \<open>CLOCK\<close> of
  \<open>src/Assignment4-2/page_replacement_simulator.c\<close>. Uninitialised locals (the cells of the
  queues, \<open>delete_idx\<close>) are arguments, so the results hold for any initial contents. What a
  simulation prints is its report.
\<close>

section \<open>The simulations\<close>

record report =
  page_faults :: int
  rate_num :: int
  rate_den :: int

text \<open>
  The two lines printed at the end: the number of faults and the two operands of the
  floating-point division that gives the rate.
\<close>

definition print_report :: "int \<Rightarrow> int \<Rightarrow> report option" where
  "print_report page_fault n = do {
     m \<leftarrow> c_int (page_fault * 100);
     Some \<lparr>page_faults = page_fault, rate_num = m, rate_den = n\<rparr>
   }"

text \<open>The look-ahead loop of \<open>OPT\<close>: \<open>visit\<close> and \<open>delete_idx\<close> after the requests from \<open>i + 1\<close> on.\<close>

definition OPT_visit ::
  "queue \<Rightarrow> int list \<Rightarrow> int \<Rightarrow> int list \<times> int \<Rightarrow> (int list \<times> int) option" where
  "OPT_visit q string j = (\<lambda>(visit, delete_idx). do {
     p \<leftarrow> rd string j;
     idx \<leftarrow> isHere q p;
     if idx \<noteq> -1 then do {
       b \<leftarrow> rd visit idx;
       if b = 0 then do { visit' \<leftarrow> wr visit idx 1; Some (visit', idx) }
       else Some (visit, delete_idx)
     } else Some (visit, delete_idx)
   })"

definition OPT_evict ::
  "queue \<Rightarrow> int list \<Rightarrow> int \<Rightarrow> int \<Rightarrow> int \<Rightarrow> (int \<times> queue) option" where
  "OPT_evict q string n i delete_idx = do {
     (visit, d) \<leftarrow> for_range (i + 1) n (OPT_visit q string)
                     (replicate (nat (q_len q)) 0, delete_idx);
     idx \<leftarrow> find_range 0 (q_len q) (\<lambda>idx. do { b \<leftarrow> rd visit idx; Some (b = 0) });
     q1 \<leftarrow> if idx < q_len q then pop q idx else Some q;
     q2 \<leftarrow> if idx = q_len q1 then pop q1 d else Some q1;
     Some (d, q2)
   }"

definition OPT_body ::
  "int list \<Rightarrow> int \<Rightarrow> int \<Rightarrow> int \<times> int \<times> queue \<Rightarrow> (int \<times> int \<times> queue) option" where
  "OPT_body string n i = (\<lambda>(page_fault, delete_idx, q). do {
     p \<leftarrow> rd string i;
     h \<leftarrow> isHere q p;
     if h = -1 then do {
       page_fault' \<leftarrow> c_int (page_fault + 1);
       (d, q1) \<leftarrow> if isFull q then OPT_evict q string n i delete_idx else Some (delete_idx, q);
       q2 \<leftarrow> push q1 p (q_tail q1);
       Some (page_fault', d, q2)
     } else Some (page_fault, delete_idx, q)
   })"

definition OPT :: "queue \<Rightarrow> int \<Rightarrow> int \<Rightarrow> int \<Rightarrow> int list \<Rightarrow> report option" where
  "OPT q0 delete_idx mx n string = do {
     (page_fault, d, q) \<leftarrow> for_range 0 n (OPT_body string n) (0, delete_idx, init q0 mx);
     print_report page_fault n
   }"

definition FIFO_body :: "int list \<Rightarrow> int \<Rightarrow> int \<times> queue \<Rightarrow> (int \<times> queue) option" where
  "FIFO_body string i = (\<lambda>(page_fault, q). do {
     p \<leftarrow> rd string i;
     h \<leftarrow> isHere q p;
     if h = -1 then do {
       page_fault' \<leftarrow> c_int (page_fault + 1);
       q2 \<leftarrow> do { q1 \<leftarrow> if isFull q then pop q 0 else Some q; push q1 p (q_tail q1) };
       Some (page_fault', q2)
     } else Some (page_fault, q)
   })"

definition FIFO :: "queue \<Rightarrow> int \<Rightarrow> int \<Rightarrow> int list \<Rightarrow> report option" where
  "FIFO q0 mx n string = do {
     (page_fault, q) \<leftarrow> for_range 0 n (FIFO_body string) (0, init q0 mx);
     print_report page_fault n
   }"

definition LRU_body :: "int list \<Rightarrow> int \<Rightarrow> int \<times> queue \<Rightarrow> (int \<times> queue) option" where
  "LRU_body string i = (\<lambda>(page_fault, q). do {
     p \<leftarrow> rd string i;
     idx \<leftarrow> isHere q p;
     if idx = -1 then do {
       page_fault' \<leftarrow> c_int (page_fault + 1);
       q2 \<leftarrow> do { q1 \<leftarrow> if isFull q then pop q 0 else Some q; push q1 p (q_tail q1) };
       Some (page_fault', q2)
     } else do {
       q2 \<leftarrow> do { q1 \<leftarrow> pop q idx; push q1 p (q_tail q1) };
       Some (page_fault, q2)
     }
   })"

definition LRU :: "queue \<Rightarrow> int \<Rightarrow> int \<Rightarrow> int list \<Rightarrow> report option" where
  "LRU q0 mx n string = do {
     (page_fault, q) \<leftarrow> for_range 0 n (LRU_body string) (0, init q0 mx);
     print_report page_fault n
   }"

text \<open>
  One scan of \<open>CLOCK\<close> over the use bits from \<open>lo\<close> to \<open>hi\<close>: it clears bits until it meets a
  clear one. The result is the loop variable, the bits and whether a clear bit was met.
\<close>

definition clock_scan :: "int \<Rightarrow> int \<Rightarrow> int list \<Rightarrow> (int \<times> int list \<times> bool) option" where
  "clock_scan lo hi bits =
     c_while (\<lambda>(idx, a, found). \<not> found \<and> idx < hi)
       (\<lambda>(idx, a, found). do {
          b \<leftarrow> rd a idx;
          if b = 0 then Some (idx, a, True)
          else do { a' \<leftarrow> wr a idx 0; Some (idx + 1, a', False) }
        }) (lo, bits, False)"

definition pop_both :: "queue \<Rightarrow> queue \<Rightarrow> int \<Rightarrow> (queue \<times> queue) option" where
  "pop_both q bit_queue idx = do {
     q' \<leftarrow> pop q idx;
     b' \<leftarrow> pop bit_queue idx;
     Some (q', b')
   }"

definition CLOCK_evict :: "queue \<Rightarrow> queue \<Rightarrow> int \<Rightarrow> (int \<times> queue \<times> queue) option" where
  "CLOCK_evict q bit_queue ev = do {
     (idx, a, found) \<leftarrow> clock_scan ev (q_len q) (q_arr bit_queue);
     (q1, b1) \<leftarrow> if found then pop_both q (bit_queue\<lparr>q_arr := a\<rparr>) idx
                 else Some (q, bit_queue\<lparr>q_arr := a\<rparr>);
     if idx = q_len q1 then do {
       (idx, a, found) \<leftarrow> clock_scan 0 ev (q_arr b1);
       (q2, b2) \<leftarrow> if found then pop_both q1 (b1\<lparr>q_arr := a\<rparr>) idx else Some (q1, b1\<lparr>q_arr := a\<rparr>);
       (q3, b3) \<leftarrow> if idx = ev then pop_both q2 b2 idx else Some (q2, b2);
       Some (idx, q3, b3)
     } else Some (idx, q1, b1)
   }"

definition CLOCK_body ::
  "int list \<Rightarrow> int \<Rightarrow> int \<times> int \<times> queue \<times> queue \<Rightarrow> (int \<times> int \<times> queue \<times> queue) option" where
  "CLOCK_body string i = (\<lambda>(page_fault, ev, q, bit_queue). do {
     p \<leftarrow> rd string i;
     idx \<leftarrow> isHere q p;
     if idx = -1 then do {
       page_fault' \<leftarrow> c_int (page_fault + 1);
       (idx, q1, b1) \<leftarrow> if isFull q then CLOCK_evict q bit_queue ev else Some (idx, q, bit_queue);
       (q2, b2) \<leftarrow>
         (if idx = -1 then do {
            q2 \<leftarrow> push q1 p (q_tail q1);
            b2 \<leftarrow> push b1 0 (q_tail b1);
            Some (q2, b2)
          } else do {
            q2 \<leftarrow> push q1 p idx;
            b2 \<leftarrow> push b1 0 idx;
            Some (q2, b2)
          });
       Some (page_fault', if idx = q_tail q2 - 1 then 0 else idx + 1, q2, b2)
     } else do {
       a \<leftarrow> wr (q_arr bit_queue) idx 1;
       Some (page_fault, ev, q, bit_queue\<lparr>q_arr := a\<rparr>)
     }
   })"

definition CLOCK :: "queue \<Rightarrow> queue \<Rightarrow> int \<Rightarrow> int \<Rightarrow> int list \<Rightarrow> report option" where
  "CLOCK q0 b0 mx n string = do {
     (page_fault, ev, q, b) \<leftarrow>
       for_range 0 n (CLOCK_body string) (0, 0, init q0 mx, init b0 mx);
     print_report page_fault n
   }"

section \<open>Runs of the simulations\<close>

text \<open>
  The inputs the simulations are safe on: the request array holds the \<open>n\<close> requests and has
  the size \<open>main\<close> gives it, there is at least one frame, and the frames leave a cell of the
  queue's array free.
\<close>

definition sim_input :: "queue \<Rightarrow> int \<Rightarrow> int \<Rightarrow> int list \<Rightarrow> bool" where
  "sim_input q0 mx n string \<longleftrightarrow> int (length (q_arr q0)) = MAX_SIZE \<and> 0 < mx \<and> mx < MAX_SIZE \<and>
     0 \<le> n \<and> n \<le> int (length string) \<and> int (length string) \<le> MAX_SIZE"

definition requests :: "int \<Rightarrow> int list \<Rightarrow> int list" where
  "requests n string = take (nat n) string"

text \<open>What every simulation keeps of its queue.\<close>

definition frames_inv :: "int \<Rightarrow> queue \<Rightarrow> bool" where
  "frames_inv mx q \<longleftrightarrow> queue_inv q \<and> q_len q = mx \<and> distinct (frames q) \<and>
     int (length (frames q)) \<le> mx"

definition fault_report :: "int \<Rightarrow> nat \<Rightarrow> report" where
  "fault_report n m = \<lparr>page_faults = int m, rate_num = int m * 100, rate_den = n\<rparr>"

lemma print_report_ok:
  "int m \<le> MAX_SIZE \<Longrightarrow> print_report (int m) n = Some (fault_report n m)"
  by (simp add: print_report_def fault_report_def MAX_SIZE_def c_int_def INT_MAX_def INT_MIN_def)

lemma frames_inv_init: "sim_input q0 mx n string \<Longrightarrow> frames_inv mx (init q0 mx)"
  by (simp add: sim_input_def frames_inv_def init_inv) (simp add: init_def)

lemma sim_requests:
  assumes "sim_input q0 mx n string"
  shows "int (length (requests n string)) = n" "n \<le> MAX_SIZE"
  using assms by (auto simp: sim_input_def requests_def)

lemma sim_read:
  assumes "sim_input q0 mx n string" "0 \<le> j" "j < n"
  shows "rd string j = Some (requests n string ! nat j)"
    "drop (nat j) (requests n string) =
      requests n string ! nat j # drop (nat (j + 1)) (requests n string)"
  using assms Cons_nth_drop_Suc [of "nat j" "requests n string"]
  by (auto simp: sim_input_def requests_def nat_add_distrib)

lemma sim_facts:
  assumes "sim_input q0 mx n string" "0 \<le> j" "j < n" "pf \<le> nat j"
  shows "0 < mx" "mx < MAX_SIZE" "c_int (int pf + 1) = Some (int (Suc pf))"
  using assms by (auto simp: sim_input_def MAX_SIZE_def c_int_def INT_MAX_def INT_MIN_def)

lemma frames_inv_here:
  "frames_inv mx q \<Longrightarrow>
    isHere q p = Some (if p \<in> set (frames q) then int (first_index p (frames q)) else -1)"
  by (simp add: frames_inv_def isHere_ok)

text \<open>
  The loops over the request string: when each round does to an abstract count what its
  defining equation says, the loop counts the faults of the whole string.
\<close>

lemma sim_loop:
  fixes faults_left :: "'s \<Rightarrow> int list \<Rightarrow> nat \<Rightarrow> bool"
  assumes inp: "sim_input q0 mx n string"
    and step: "\<And>j pf s. 0 \<le> j \<Longrightarrow> j < n \<Longrightarrow> pf \<le> nat j \<Longrightarrow> I s \<Longrightarrow>
      \<exists>pf' s'. body j (int pf, s) = Some (int pf', s') \<and> I s' \<and> pf' \<le> Suc pf \<and> pf \<le> pf' \<and>
        (\<forall>m. faults_left s' (drop (nat (j + 1)) (requests n string)) m \<longrightarrow>
          faults_left s (requests n string ! nat j # drop (nat (j + 1)) (requests n string))
            (pf' - pf + m))"
    and I: "I s0" and nil: "\<And>s. I s \<Longrightarrow> faults_left s [] 0"
  shows "\<exists>m s. for_range 0 n body (0, s0) = Some (int m, s) \<and> I s \<and> int m \<le> n \<and>
    faults_left s0 (requests n string) m"
proof -
  let ?rs = "requests n string"
  let ?I = "\<lambda>j (x, s). \<exists>pf. x = int pf \<and> pf \<le> nat j \<and> I s \<and>
    (\<forall>m. faults_left s (drop (nat j) ?rs) m \<longrightarrow> faults_left s0 ?rs (pf + m))"
  have "\<exists>t. for_range 0 n body (0, s0) = Some t \<and> ?I n t"
  proof (rule for_range_inv [where I = ?I])
    fix j t assume j: "0 \<le> j" "j < n" and "?I j t"
    then obtain pf s where t: "t = (int pf, s)" "pf \<le> nat j" "I s"
        and left: "\<And>m. faults_left s (drop (nat j) ?rs) m \<Longrightarrow> faults_left s0 ?rs (pf + m)"
      by (cases t) auto
    from step [OF j t(2,3)] obtain pf' s' where b: "body j (int pf, s) = Some (int pf', s')" "I s'"
        "pf' \<le> Suc pf" "pf \<le> pf'"
        "\<And>m. faults_left s' (drop (nat (j + 1)) ?rs) m \<Longrightarrow>
          faults_left s (?rs ! nat j # drop (nat (j + 1)) ?rs) (pf' - pf + m)"
      by blast
    have "faults_left s0 ?rs (pf' + m)" if "faults_left s' (drop (nat (j + 1)) ?rs) m" for m
      using left [of "pf' - pf + m"] b(4,5) that by (simp add: sim_read(2) [OF inp j])
    with b t j show "\<exists>t'. body j t = Some t' \<and> ?I (j + 1) t'"
      by (auto simp: nat_add_distrib)
  qed (use I inp in \<open>auto simp: sim_input_def\<close>)
  then obtain pf s where "for_range 0 n body (0, s0) = Some (int pf, s)" "pf \<le> nat n" "I s"
      "\<forall>m. faults_left s (drop (nat n) ?rs) m \<longrightarrow> faults_left s0 ?rs (pf + m)"
    by auto
  moreover have "drop (nat n) ?rs = []" using inp by (auto simp: sim_input_def requests_def)
  ultimately show ?thesis using nil [of s] inp by (fastforce simp: sim_input_def)
qed

section \<open>FIFO and LRU\<close>

lemma load_page_inv:
  assumes "frames_inv mx q" "0 < mx" "mx < MAX_SIZE" "p \<notin> set (frames q)"
  shows "\<exists>q'. do { q1 \<leftarrow> if isFull q then pop q 0 else Some q; push q1 p (q_tail q1) } = Some q' \<and>
    frames_inv mx q' \<and>
    frames q' = (if length (frames q) = nat mx then tl (frames q) else frames q) @ [p]"
proof -
  have "int (length (frames q)) = q_len q \<longleftrightarrow> length (frames q) = nat mx"
    using assms by (auto simp: frames_inv_def)
  then show ?thesis
    using pq.load_page [of q p] assms
    by (auto simp: frames_inv_def distinct_tl dest: in_set_tlD)
qed

lemma touch_page_inv:
  assumes "frames_inv mx q" "mx < MAX_SIZE" "p \<in> set (frames q)"
  shows "\<exists>q'. do { q1 \<leftarrow> pop q (int (first_index p (frames q))); push q1 p (q_tail q1) } = Some q' \<and>
    frames_inv mx q' \<and> frames q' = remove1 p (frames q) @ [p]"
proof -
  have "Suc (length (frames q) - Suc 0) = length (frames q)" using assms(3) by (cases "frames q") auto
  then show ?thesis
    using pq.touch_page [of q p] assms by (auto simp: frames_inv_def length_remove1)
qed

lemma FIFO_step:
  assumes "sim_input q0 mx n string" "0 \<le> j" "j < n" "pf \<le> nat j" "frames_inv mx q"
  shows "\<exists>pf' q'. FIFO_body string j (int pf, q) = Some (int pf', q') \<and> frames_inv mx q' \<and>
    pf' \<le> Suc pf \<and> pf \<le> pf' \<and>
    (\<forall>m. m = fifo_faults (nat mx) (frames q') (drop (nat (j + 1)) (requests n string)) \<longrightarrow>
      pf' - pf + m = fifo_faults (nat mx) (frames q)
        (requests n string ! nat j # drop (nat (j + 1)) (requests n string)))"
proof -
  let ?p = "requests n string ! nat j"
  note facts = sim_facts [OF assms(1-4)] sim_read [OF assms(1-3)] frames_inv_here [OF assms(5)]
  show ?thesis
  proof (cases "?p \<in> set (frames q)")
    case True
    then show ?thesis
      using facts assms(5) by (auto simp: FIFO_body_def)
  next
    case False
    from load_page_inv [OF assms(5) facts(1,2) False] obtain q' where
      q': "do { q1 \<leftarrow> if isFull q then pop q 0 else Some q; push q1 ?p (q_tail q1) } = Some q'"
      "frames_inv mx q'"
      "frames q' = (if length (frames q) = nat mx then tl (frames q) else frames q) @ [?p]"
      by blast
    with False facts have
      "FIFO_body string j (int pf, q) = Some (int (Suc pf), q')"
      by (simp add: FIFO_body_def)
    with False q' show ?thesis by (intro exI [of _ "Suc pf"] exI [of _ q']) simp
  qed
qed

lemma FIFO_ok:
  assumes "sim_input q0 mx n string"
  shows "FIFO q0 mx n string = Some (fault_report n (fifo_faults (nat mx) [] (requests n string)))"
proof -
  have "\<exists>m q. for_range 0 n (FIFO_body string) (0, init q0 mx) = Some (int m, q) \<and>
      frames_inv mx q \<and> int m \<le> n \<and>
      m = fifo_faults (nat mx) (frames (init q0 mx)) (requests n string)"
    by (rule sim_loop [OF assms, where I = "frames_inv mx" and
          faults_left = "\<lambda>q ps m. m = fifo_faults (nat mx) (frames q) ps"])
      (use FIFO_step [OF assms] frames_inv_init [OF assms] in auto)
  with sim_requests [OF assms] show ?thesis
    by (auto simp: FIFO_def print_report_ok)
qed

lemma LRU_step:
  assumes "sim_input q0 mx n string" "0 \<le> j" "j < n" "pf \<le> nat j" "frames_inv mx q"
  shows "\<exists>pf' q'. LRU_body string j (int pf, q) = Some (int pf', q') \<and> frames_inv mx q' \<and>
    pf' \<le> Suc pf \<and> pf \<le> pf' \<and>
    (\<forall>m. m = lru_faults (nat mx) (frames q') (drop (nat (j + 1)) (requests n string)) \<longrightarrow>
      pf' - pf + m = lru_faults (nat mx) (frames q)
        (requests n string ! nat j # drop (nat (j + 1)) (requests n string)))"
proof -
  let ?p = "requests n string ! nat j"
  note facts = sim_facts [OF assms(1-4)] sim_read [OF assms(1-3)] frames_inv_here [OF assms(5)]
  show ?thesis
  proof (cases "?p \<in> set (frames q)")
    case True
    from touch_page_inv [OF assms(5) facts(2) True] obtain q' where
      q': "do { q1 \<leftarrow> pop q (int (first_index ?p (frames q))); push q1 ?p (q_tail q1) } = Some q'"
      "frames_inv mx q'" "frames q' = remove1 ?p (frames q) @ [?p]"
      by blast
    with True facts have
      "LRU_body string j (int pf, q) = Some (int pf, q')"
      by (simp add: LRU_body_def)
    with True q' show ?thesis by (intro exI [of _ pf] exI [of _ q']) simp
  next
    case False
    from load_page_inv [OF assms(5) facts(1,2) False] obtain q' where
      q': "do { q1 \<leftarrow> if isFull q then pop q 0 else Some q; push q1 ?p (q_tail q1) } = Some q'"
      "frames_inv mx q'"
      "frames q' = (if length (frames q) = nat mx then tl (frames q) else frames q) @ [?p]"
      by blast
    with False facts have
      "LRU_body string j (int pf, q) = Some (int (Suc pf), q')"
      by (simp add: LRU_body_def)
    with False q' show ?thesis by (intro exI [of _ "Suc pf"] exI [of _ q']) simp
  qed
qed

lemma LRU_ok:
  assumes "sim_input q0 mx n string"
  shows "LRU q0 mx n string = Some (fault_report n (lru_faults (nat mx) [] (requests n string)))"
proof -
  have "\<exists>m q. for_range 0 n (LRU_body string) (0, init q0 mx) = Some (int m, q) \<and>
      frames_inv mx q \<and> int m \<le> n \<and>
      m = lru_faults (nat mx) (frames (init q0 mx)) (requests n string)"
    by (rule sim_loop [OF assms, where I = "frames_inv mx" and
          faults_left = "\<lambda>q ps m. m = lru_faults (nat mx) (frames q) ps"])
      (use LRU_step [OF assms] frames_inv_init [OF assms] in auto)
  with sim_requests [OF assms] show ?thesis
    by (auto simp: LRU_def print_report_ok)
qed

section \<open>OPT\<close>

text \<open>
  What the look-ahead knows after the requests \<open>us\<close>: which frames were used, and in
  \<open>delete_idx\<close> the frame whose first use among \<open>us\<close> came last.
\<close>

definition seen_inv :: "int list \<Rightarrow> int list \<Rightarrow> int list \<times> int \<Rightarrow> bool" where
  "seen_inv fs us = (\<lambda>(visit, d). length visit = length fs \<and>
     (\<forall>x < length fs. visit ! x = (if fs ! x \<in> set us then 1 else 0)) \<and>
     ((\<exists>x < length fs. fs ! x \<in> set us) \<longrightarrow>
       0 \<le> d \<and> d < int (length fs) \<and> fs ! nat d \<in> set us \<and>
       (\<forall>x < length fs. fs ! x \<in> set us \<longrightarrow> first_index (fs ! x) us \<le> first_index (fs ! nat d) us)))"

lemma seen_inv_Nil: "seen_inv fs [] (replicate (length fs) 0, d)"
  by (simp add: seen_inv_def)

lemma seen_inv_skip:
  assumes "seen_inv fs us (visit, d)" "p \<in> set us \<or> p \<notin> set fs"
  shows "seen_inv fs (us @ [p]) (visit, d)"
proof -
  have "fs ! x \<in> set (us @ [p]) \<longleftrightarrow> fs ! x \<in> set us" if "x < length fs" for x
    using assms(2) that by (auto dest: nth_mem)
  with assms(1) show ?thesis by (auto simp: seen_inv_def first_index_append)
qed

lemma seen_inv_new:
  assumes inv: "seen_inv fs us (visit, d)" and "distinct fs" "p \<notin> set us" "p \<in> set fs"
  shows "seen_inv fs (us @ [p]) (visit[first_index p fs := 1], int (first_index p fs))"
proof -
  let ?i = "first_index p fs"
  have i: "?i < length fs" "fs ! ?i = p" using assms by auto
  have "visit[?i := 1] ! x = (if fs ! x \<in> set (us @ [p]) then 1 else 0)" if "x < length fs" for x
    using inv that i assms(2) nth_eq_iff_index_eq [of fs x ?i]
    by (auto simp: seen_inv_def nth_list_update)
  moreover have "first_index (fs ! x) (us @ [p]) \<le> first_index p (us @ [p])"
    if "x < length fs" "fs ! x \<in> set (us @ [p])" for x
    using that assms(3) first_index_le [of "fs ! x" us] by (auto simp: first_index_append)
  ultimately show ?thesis using inv i by (auto simp: seen_inv_def)
qed

lemma OPT_visit_step:
  assumes "frames_inv mx q" "seen_inv (frames q) us s" "rd string j = Some p"
  shows "\<exists>s'. OPT_visit q string j s = Some s' \<and> seen_inv (frames q) (us @ [p]) s'"
proof -
  obtain visit d where s: "s = (visit, d)" by (cases s)
  have d: "distinct (frames q)" and here: "isHere q p =
      Some (if p \<in> set (frames q) then int (first_index p (frames q)) else -1)"
    using assms(1) by (auto simp: frames_inv_def frames_inv_here)
  show ?thesis
  proof (cases "p \<in> set (frames q)")
    case True
    then have i: "first_index p (frames q) < length visit"
        "visit ! first_index p (frames q) = (if p \<in> set us then 1 else 0)"
      using assms(2) s by (auto simp: seen_inv_def)
    with True here assms(2,3) s d show ?thesis
      using seen_inv_skip [of "frames q" us visit d p] seen_inv_new [of "frames q" us visit d p]
      by (auto simp: OPT_visit_def)
  next
    case False
    with here assms(2,3) s show ?thesis
      using seen_inv_skip [of "frames q" us visit d p] by (auto simp: OPT_visit_def)
  qed
qed

lemma OPT_lookahead:
  assumes inp: "sim_input q0 mx n string" and i: "0 \<le> i" "i < n"
    and q: "frames_inv mx q" "length (frames q) = nat mx"
  shows "\<exists>s. for_range (i + 1) n (OPT_visit q string) (replicate (nat (q_len q)) 0, d) = Some s \<and>
    seen_inv (frames q) (drop (nat (i + 1)) (requests n string)) s"
proof -
  let ?fut = "drop (nat (i + 1)) (requests n string)"
  have len: "length (requests n string) = nat n" using sim_requests(1) [OF inp] by simp
  have "\<exists>s. for_range (i + 1) n (OPT_visit q string) (replicate (nat (q_len q)) 0, d) = Some s \<and>
      seen_inv (frames q) (take (nat n - nat (i + 1)) ?fut) s"
  proof (rule for_range_inv [where I = "\<lambda>j. seen_inv (frames q) (take (nat j - nat (i + 1)) ?fut)"])
    fix j s assume j: "i + 1 \<le> j" "j < n"
      and I: "seen_inv (frames q) (take (nat j - nat (i + 1)) ?fut) s"
    have "nat (j + 1) - nat (i + 1) = Suc (nat j - nat (i + 1))" "nat (i + 1) \<le> nat j"
      using i j by auto
    then have "take (nat (j + 1) - nat (i + 1)) ?fut =
        take (nat j - nat (i + 1)) ?fut @ [requests n string ! nat j]"
      using take_drop_Suc [of "nat j" "requests n string" "nat (i + 1)"] i j len by simp
    with OPT_visit_step [OF q(1) I, of string j] sim_read(1) [OF inp, of j] i j
    show "\<exists>s'. OPT_visit q string j s = Some s' \<and>
        seen_inv (frames q) (take (nat (j + 1) - nat (i + 1)) ?fut) s'"
      by simp
  qed (use i q seen_inv_Nil [of "frames q" d] in \<open>auto simp: frames_inv_def\<close>)
  with len show ?thesis by simp
qed

text \<open>The victim of \<open>OPT\<close> is a frame whose next use is farthest away.\<close>

lemma OPT_evict_ok:
  assumes inp: "sim_input q0 mx n string" and i: "0 \<le> i" "i < n"
    and q: "frames_inv mx q" "length (frames q) = nat mx"
  shows "\<exists>d' q' v. OPT_evict q string n i d = Some (d', q') \<and> queue_inv q' \<and> q_len q' = mx \<and>
    v < length (frames q) \<and> frames q' = take v (frames q) @ drop (Suc v) (frames q) \<and>
    (\<forall>u \<in> set (frames q). first_index u (drop (nat (i + 1)) (requests n string)) \<le>
       first_index (frames q ! v) (drop (nat (i + 1)) (requests n string)))"
proof -
  let ?fut = "drop (nat (i + 1)) (requests n string)" and ?fs = "frames q"
  have mx: "0 < mx" "mx < MAX_SIZE" "q_len q = mx" "queue_inv q"
    using inp q by (auto simp: sim_input_def frames_inv_def)
  obtain visit d' where vis: "for_range (i + 1) n (OPT_visit q string)
      (replicate (nat (q_len q)) 0, d) = Some (visit, d')" and seen: "seen_inv ?fs ?fut (visit, d')"
    using OPT_lookahead [OF assms, of d] by auto
  have lv: "length visit = nat mx" using seen q by (simp add: seen_inv_def)
  obtain x where x: "find_range 0 mx (\<lambda>idx. do { b \<leftarrow> rd visit idx; Some (b = 0) }) = Some x"
      "0 \<le> x" "x \<le> mx" "\<And>y. 0 \<le> y \<Longrightarrow> y < x \<Longrightarrow> visit ! nat y \<noteq> 0" "x < mx \<Longrightarrow> visit ! nat x = 0"
    by (rule find_range_ok [of 0 mx "\<lambda>idx. do { b \<leftarrow> rd visit idx; Some (b = 0) }"
          "\<lambda>y. visit ! nat y = 0"]) (use lv mx in auto)
  have popv: "\<exists>q'. pop q (int v) = Some q' \<and> queue_inv q' \<and> q_len q' = mx \<and>
      frames q' = take v ?fs @ drop (Suc v) ?fs" if "v < nat mx" for v
    using pq.delete_page [of q v] that mx q by (metis int_nat_eq less_le_not_le linorder_le_cases)
  show ?thesis
  proof (cases "x < mx")
    case True
    then have nx: "nat x < nat mx" using x by simp
    with x(5) True seen q have "?fs ! nat x \<notin> set ?fut" by (auto simp: seen_inv_def split: if_splits)
    then have far: "\<forall>u \<in> set ?fs. first_index u ?fut \<le> first_index (?fs ! nat x) ?fut"
      using first_index_le first_index_less_iff by (metis le_neq_implies_less order.trans)
    from popv [OF nx] x(2) obtain q' where "pop q x = Some q'" "queue_inv q'" "q_len q' = mx"
        "frames q' = take (nat x) ?fs @ drop (Suc (nat x)) ?fs" by auto
    with True far nx q vis x(1) mx show ?thesis
      by (intro exI [of _ d'] exI [of _ q'] exI [of _ "nat x"]) (simp add: OPT_evict_def)
  next
    case False
    with x have "x = mx" by simp
    have all: "?fs ! y \<in> set ?fut" if "y < nat mx" for y
      using x(4) [of "int y"] \<open>x = mx\<close> that seen q
      by (auto simp: seen_inv_def zless_nat_eq_int_zless split: if_splits)
    have "\<exists>y < length ?fs. ?fs ! y \<in> set ?fut" using all [of 0] mx q(2) by (intro exI [of _ 0]) simp
    with seen have "0 \<le> d'" "d' < int (length ?fs)" "\<forall>y < length ?fs. ?fs ! y \<in> set ?fut \<longrightarrow>
        first_index (?fs ! y) ?fut \<le> first_index (?fs ! nat d') ?fut"
      by (auto simp: seen_inv_def)
    with all q(2) mx(1) have d': "0 \<le> d'" "nat d' < nat mx"
        "\<forall>y < nat mx. first_index (?fs ! y) ?fut \<le> first_index (?fs ! nat d') ?fut"
      by auto
    then have far: "\<forall>u \<in> set ?fs. first_index u ?fut \<le> first_index (?fs ! nat d') ?fut"
      using q(2) by (auto simp: in_set_conv_nth)
    from popv [OF d'(2)] d'(1) obtain q' where "pop q d' = Some q'" "queue_inv q'" "q_len q' = mx"
        "frames q' = take (nat d') ?fs @ drop (Suc (nat d')) ?fs" by auto
    with \<open>x = mx\<close> far d' q vis x(1) mx show ?thesis
      by (intro exI [of _ d'] exI [of _ q'] exI [of _ "nat d'"]) (simp add: OPT_evict_def)
  qed
qed

lemma OPT_step:
  assumes inp: "sim_input q0 mx n string" and j: "0 \<le> j" "j < n" and pf: "pf \<le> nat j"
    and q: "frames_inv mx q"
  shows "\<exists>pf' d' q'. OPT_body string n j (int pf, d, q) = Some (int pf', d', q') \<and>
    frames_inv mx q' \<and> pf' \<le> Suc pf \<and> pf \<le> pf' \<and>
    (\<forall>m. belady (nat mx) (set (frames q')) (drop (nat (j + 1)) (requests n string)) m \<longrightarrow>
      belady (nat mx) (set (frames q))
        (requests n string ! nat j # drop (nat (j + 1)) (requests n string)) (pf' - pf + m))"
proof -
  let ?p = "requests n string ! nat j" and ?fs = "frames q"
  note facts = sim_facts [OF inp j pf] sim_read [OF inp j] frames_inv_here [OF q]
  have qi: "queue_inv q" "q_len q = mx" "distinct ?fs" "int (length ?fs) \<le> mx"
    using q by (auto simp: frames_inv_def)
  have card: "card (set ?fs) = length ?fs" using qi by (simp add: distinct_card)
  consider "?p \<in> set ?fs" | "?p \<notin> set ?fs" "length ?fs = nat mx" | "?p \<notin> set ?fs" "length ?fs < nat mx"
    using qi(4) by linarith
  then show ?thesis
  proof cases
    case 1
    with facts q show ?thesis by (auto simp: OPT_body_def intro: belady.hit)
  next
    case 2
    then have full: "isFull q" using qi facts(1) by (simp add: isFull_iff)
    from OPT_evict_ok [OF inp j q 2(2)] obtain d' q1 v where
      e: "OPT_evict q string n j d = Some (d', q1)" "queue_inv q1" "q_len q1 = mx"
        "v < length ?fs" "frames q1 = take v ?fs @ drop (Suc v) ?fs"
        "\<forall>u \<in> set ?fs. first_index u (drop (nat (j + 1)) (requests n string)) \<le>
          first_index (?fs ! v) (drop (nat (j + 1)) (requests n string))"
      by blast
    have "int (length (frames q1)) < MAX_SIZE" using e(4,5) 2(2) facts(1,2) by auto
    then obtain q2 where q2: "push q1 ?p (q_tail q1) = Some q2" "queue_inv q2" "q_len q2 = q_len q1"
        "frames q2 = frames q1 @ [?p]"
      using pq.append_page [OF e(2)] by metis
    have set2: "set (frames q2) = insert ?p (set ?fs - {?fs ! v})"
      using q2(4) e(4,5) set_remove_at [OF qi(3) e(4)] by auto
    have "frames_inv mx q2"
      using q2 e qi 2 distinct_remove_at [OF qi(3), of v] set_remove_at [OF qi(3) e(4)]
      by (auto simp: frames_inv_def)
    moreover have "OPT_body string n j (int pf, d, q) = Some (int (Suc pf), d', q2)"
      using 2 full e(1) q2(1) facts by (simp add: OPT_body_def)
    moreover have "belady (nat mx) (set ?fs) (?p # drop (nat (j + 1)) (requests n string)) (Suc m)"
      if "belady (nat mx) (set (frames q2)) (drop (nat (j + 1)) (requests n string)) m" for m
      using that 2 card e(4,6) unfolding set2 by (intro belady.evict [where v = "?fs ! v"]) auto
    ultimately show ?thesis
      by (intro exI [of _ "Suc pf"] exI [of _ d'] exI [of _ q2]) simp
  next
    case 3
    then have full: "\<not> isFull q" using qi by (simp add: isFull_iff)
    have "int (length ?fs) < MAX_SIZE" using 3 facts(1,2) by linarith
    then obtain q2 where q2: "push q ?p (q_tail q) = Some q2" "queue_inv q2" "q_len q2 = q_len q"
        "frames q2 = ?fs @ [?p]"
      using pq.append_page [OF qi(1)] by metis
    have "OPT_body string n j (int pf, d, q) = Some (int (Suc pf), d, q2)"
      using 3 full q2(1) facts by (simp add: OPT_body_def)
    moreover have "frames_inv mx q2" using q2 qi 3 by (auto simp: frames_inv_def)
    ultimately show ?thesis
      using 3 card q2(4)
      by (intro exI [of _ "Suc pf"] exI [of _ d] exI [of _ q2]) (auto intro!: belady.fill)
  qed
qed

lemma OPT_ok:
  assumes "sim_input q0 mx n string"
  shows "\<exists>m. OPT q0 d mx n string = Some (fault_report n m) \<and>
    belady (nat mx) {} (requests n string) m"
proof -
  have "\<exists>m s. for_range 0 n (OPT_body string n) (0, d, init q0 mx) = Some (int m, s) \<and>
      frames_inv mx (snd s) \<and> int m \<le> n \<and>
      belady (nat mx) (set (frames (snd (d, init q0 mx)))) (requests n string) m"
    by (rule sim_loop [OF assms, where I = "\<lambda>s. frames_inv mx (snd s)" and
          faults_left = "\<lambda>s. belady (nat mx) (set (frames (snd s)))"])
      (use OPT_step [OF assms] frames_inv_init [OF assms] in \<open>force intro: belady.served\<close>)+
  with sim_requests [OF assms] show ?thesis
    by (auto simp: OPT_def print_report_ok)
qed

section \<open>CLOCK\<close>

lemma clock_scan_ok:
  assumes "0 \<le> lo" "lo \<le> hi" "hi \<le> int (length a)"
  shows "clock_scan lo hi a =
    Some (case scan_bits [nat lo..<nat hi] a of
      (Some i, a') \<Rightarrow> (int i, a', True) | (None, a') \<Rightarrow> (hi, a', False))"
  using assms
proof (induction "nat (hi - lo)" arbitrary: lo a)
  case 0
  then show ?case by (simp add: clock_scan_def c_while_stop)
next
  case (Suc m)
  then have lt: "lo < hi" "nat lo < nat hi" "nat (lo + 1) = Suc (nat lo)" by auto
  then have range: "[nat lo..<nat hi] = nat lo # [nat (lo + 1)..<nat hi]" by (simp add: upt_conv_Cons)
  show ?case
  proof (cases "a ! nat lo = 0")
    case True
    then show ?thesis
      using Suc.prems lt range by (simp add: clock_scan_def c_while.simps)
  next
    case False
    have "clock_scan lo hi a = clock_scan (lo + 1) hi (a[nat lo := 0])"
      using Suc.prems lt False unfolding clock_scan_def
      by (subst c_while_step) auto
    with Suc.hyps(1) [of "lo + 1" "a[nat lo := 0]"] Suc.hyps(2) Suc.prems lt range False
    show ?thesis by simp
  qed
qed

text \<open>The eviction of \<open>CLOCK\<close> removes the second-chance victim from both queues.\<close>

lemma CLOCK_evict_ok:
  assumes ev: "0 \<le> ev" "ev < mx" and len: "mx \<le> int (length (q_arr b))" and q: "q_len q = mx"
    and pop: "\<And>i. 0 \<le> i \<Longrightarrow> i < mx \<Longrightarrow> \<exists>q'. pop q i = Some q' \<and> q_len q' = mx"
    and pop': "\<And>i a. 0 \<le> i \<Longrightarrow> i < mx \<Longrightarrow> length a = length (q_arr b) \<Longrightarrow>
      \<exists>b'. pop (b\<lparr>q_arr := a\<rparr>) i = Some b'"
  defines "bs' \<equiv> snd (scan_bits (clock_order (nat mx) (nat ev)) (q_arr b))"
    and "v \<equiv> int (clock_victim (nat mx) (nat ev) (q_arr b))"
  shows "CLOCK_evict q b ev = do {
    q1 \<leftarrow> pop q v; b1 \<leftarrow> pop (b\<lparr>q_arr := bs'\<rparr>) v; Some (v, q1, b1) }"
proof -
  obtain r1 a1 where r1: "scan_bits [nat ev..<nat mx] (q_arr b) = (r1, a1)" by fastforce
  have la: "length a1 = length (q_arr b)" using r1 by (rule length_scan_bits)
  have s1: "clock_scan ev mx (q_arr b) =
      Some (case r1 of Some i \<Rightarrow> (int i, a1, True) | None \<Rightarrow> (mx, a1, False))"
    using clock_scan_ok [of ev mx "q_arr b"] ev len r1 by (simp split: option.split)
  show ?thesis
  proof (cases r1)
    case (Some i)
    with r1 have i: "nat ev \<le> i" "int i < mx" by (auto dest!: scan_bits_SomeD)
    have v: "v = int i" "bs' = a1"
      using r1 Some by (auto simp: v_def bs'_def clock_victim_def clock_order_def scan_bits_append)
    with pop [of "int i"] pop' [of "int i" a1] i la obtain q1 b1 where
      "pop q (int i) = Some q1" "q_len q1 = mx" "pop (b\<lparr>q_arr := a1\<rparr>) (int i) = Some b1"
      by auto
    with s1 Some i v q show ?thesis by (simp add: CLOCK_evict_def pop_both_def)
  next
    case None
    obtain r2 a2 where r2: "scan_bits [0..<nat ev] a1 = (r2, a2)" by fastforce
    have la2: "length a2 = length (q_arr b)" using length_scan_bits [OF r2] la by simp
    have s2: "clock_scan 0 ev a1 =
        Some (case r2 of Some i \<Rightarrow> (int i, a2, True) | None \<Rightarrow> (ev, a2, False))"
      using clock_scan_ok [of 0 ev a1] ev len la r2 by (simp split: option.split)
    have v: "v = (case r2 of Some i \<Rightarrow> int i | None \<Rightarrow> ev)" "bs' = a2"
      using r1 r2 None ev
      by (auto simp: v_def bs'_def clock_victim_def clock_order_def scan_bits_append split: option.split)
    have "0 \<le> v" "v < mx" "r2 \<noteq> None \<Longrightarrow> v \<noteq> ev"
      using v(1) r2 ev by (auto dest!: scan_bits_SomeD split: option.splits)
    moreover from this pop [of v] pop' [of v a2] la2 obtain q1 b1 where
      "pop q v = Some q1" "q_len q1 = mx" "pop (b\<lparr>q_arr := a2\<rparr>) v = Some b1"
      by auto
    ultimately show ?thesis
      using s1 s2 None v q by (cases r2) (auto simp: CLOCK_evict_def pop_both_def)
  qed
qed

definition clock_inv :: "int \<Rightarrow> int \<times> queue \<times> queue \<Rightarrow> bool" where
  "clock_inv mx = (\<lambda>(ev, q, b). frames_inv mx q \<and> queue_inv b \<and> q_len b = mx \<and>
     length (frames b) = length (frames q) \<and> 0 \<le> ev \<and> ev < mx)"

definition clock_left :: "int \<Rightarrow> int \<times> queue \<times> queue \<Rightarrow> int list \<Rightarrow> nat \<Rightarrow> bool" where
  "clock_left mx = (\<lambda>(ev, q, b) ps m. m = clock_faults (nat mx) (frames q) (frames b) (nat ev) ps)"

text \<open>The use bits as an array and as the frames of the bit queue.\<close>

lemma frames_update_arr:
  "length a = length (q_arr b) \<Longrightarrow> frames (b\<lparr>q_arr := a\<rparr>) = take (nat (q_tail b)) a"
  "length a = length (q_arr b) \<Longrightarrow> queue_inv (b\<lparr>q_arr := a\<rparr>) \<longleftrightarrow> queue_inv b"
  by (auto simp: frames_def queue_inv_def)

lemma scan_frames:
  assumes "queue_inv b" "length (frames b) = k" "h < k"
  shows "clock_victim k h (q_arr b) = clock_victim k h (frames b)"
    "take k (snd (scan_bits (clock_order k h) (q_arr b))) = snd (scan_bits (clock_order k h) (frames b))"
proof -
  have k: "nat (q_tail b) = k" "k \<le> length (q_arr b)"
    using assms length_frames [of b] by (auto simp: queue_inv_def)
  have "scan_bits (clock_order k h) (frames b) =
      map_prod id (take k) (scan_bits (clock_order k h) (q_arr b))"
    unfolding frames_def k using assms(3) k(2) by (intro scan_bits_take) (auto simp: clock_order_def)
  then show "clock_victim k h (q_arr b) = clock_victim k h (frames b)"
    "take k (snd (scan_bits (clock_order k h) (q_arr b))) = snd (scan_bits (clock_order k h) (frames b))"
    by (auto simp: clock_victim_def)
qed

lemma CLOCK_hit:
  assumes "clock_inv mx (ev, q, b)" "p \<in> set (frames q)"
  shows "\<exists>a. wr (q_arr b) (int (first_index p (frames q))) 1 = Some a \<and>
    clock_inv mx (ev, q, b\<lparr>q_arr := a\<rparr>) \<and>
    frames (b\<lparr>q_arr := a\<rparr>) = (frames b)[first_index p (frames q) := 1]"
proof -
  have i: "first_index p (frames q) < length (frames b)" "queue_inv b"
    using assms by (auto simp: clock_inv_def)
  then have "first_index p (frames q) < length (q_arr b)" by (simp add: frames_def)
  with assms i show ?thesis
    by (auto simp: clock_inv_def frames_update_arr) (simp_all add: frames_def take_update_swap)
qed

lemma CLOCK_fill:
  assumes "clock_inv mx (ev, q, b)" "mx < MAX_SIZE" "p \<notin> set (frames q)" "length (frames q) < nat mx"
  shows "\<exists>q' b'. push q p (q_tail q) = Some q' \<and> push b 0 (q_tail b) = Some b' \<and>
    clock_inv mx (0, q', b') \<and> q_tail q' \<noteq> 0 \<and>
    frames q' = frames q @ [p] \<and> frames b' = frames b @ [0]"
proof -
  have q: "queue_inv q" "q_len q = mx" "queue_inv b" "q_len b = mx" "0 < mx"
      "int (length (frames q)) < MAX_SIZE" "int (length (frames b)) < MAX_SIZE"
    using assms by (auto simp: clock_inv_def frames_inv_def)
  obtain q' where q': "push q p (q_tail q) = Some q'" "queue_inv q'" "q_len q' = q_len q"
      "frames q' = frames q @ [p]" using pq.append_page [OF q(1,6)] by metis
  obtain b' where b': "push b 0 (q_tail b) = Some b'" "queue_inv b'" "q_len b' = q_len b"
      "frames b' = frames b @ [0]" using pq.append_page [OF q(3,7)] by metis
  have "q_tail q' \<noteq> 0" using pq.tail_law [OF q'(2)] q'(4) by simp
  with q' b' q assms show ?thesis by (auto simp: clock_inv_def frames_inv_def)
qed

lemma CLOCK_replace:
  assumes inv: "clock_inv mx (ev, q, b)" and "mx < MAX_SIZE" "p \<notin> set (frames q)"
    "length (frames q) = nat mx"
  defines "v \<equiv> clock_victim (nat mx) (nat ev) (frames b)"
    and "bs' \<equiv> snd (scan_bits (clock_order (nat mx) (nat ev)) (frames b))"
  shows "\<exists>q1 b1 q' b'. CLOCK_evict q b ev = Some (int v, q1, b1) \<and>
    push q1 p (int v) = Some q' \<and> push b1 0 (int v) = Some b' \<and> q_tail q' = mx \<and> v < nat mx \<and>
    clock_inv mx (int (Suc v mod nat mx), q', b') \<and>
    frames q' = (frames q)[v := p] \<and> frames b' = bs'[v := 0]"
proof -
  let ?a = "snd (scan_bits (clock_order (nat mx) (nat ev)) (q_arr b))"
  have q: "queue_inv q" "q_len q = mx" "queue_inv b" "q_len b = mx" "0 \<le> ev" "ev < mx"
      "length (frames b) = nat mx" "distinct (frames q)"
      "int (length (frames q)) < MAX_SIZE" "int (length (frames b)) < MAX_SIZE"
      "nat (q_tail b) = nat mx" "mx \<le> int (length (q_arr b))"
    using assms(1-4) length_frames [of b]
    by (auto simp: clock_inv_def frames_inv_def queue_inv_def)
  have la: "length ?a = length (q_arr b)" by (rule length_scan_bits [of "clock_order (nat mx) (nat ev)" _ "fst (scan_bits (clock_order (nat mx) (nat ev)) (q_arr b))"]) simp
  have v: "v < nat mx" using q by (simp add: v_def clock_victim_less)
  have bf: "frames (b\<lparr>q_arr := ?a\<rparr>) = bs'" "clock_victim (nat mx) (nat ev) (q_arr b) = v"
    using frames_update_arr(1) [OF la] scan_frames [of b "nat mx" "nat ev"] q
    by (auto simp: bs'_def v_def)
  have lbs: "length bs' = nat mx" using bf(1) frames_update_arr(1) [OF la] la q(11,12) by auto
  have evict: "CLOCK_evict q b ev = do {
      q1 \<leftarrow> pop q (int v); b1 \<leftarrow> pop (b\<lparr>q_arr := ?a\<rparr>) (int v); Some (int v, q1, b1) }"
    unfolding bf(2) [symmetric]
  proof (rule CLOCK_evict_ok [OF q(5,6,12,2)])
    show "\<exists>q'. pop q i = Some q' \<and> q_len q' = mx" if "0 \<le> i" "i < mx" for i
      using pq.del_law [OF q(1), of i] that q assms(4) by (auto simp: pq.tail_law)
    show "\<exists>b'. pop (b\<lparr>q_arr := a\<rparr>) i = Some b'"
      if "0 \<le> i" "i < mx" "length a = length (q_arr b)" for i a
      using pq.del_law [of "b\<lparr>q_arr := a\<rparr>" i] that q frames_update_arr [of a b] pq.tail_law [OF q(3)]
      by (auto simp: pq.tail_law)
  qed
  obtain q1 q' where q': "pop q (int v) = Some q1" "push q1 p (int v) = Some q'" "queue_inv q'"
      "q_len q' = q_len q" "frames q' = (frames q)[v := p]"
    using pq.replace_page [OF q(1,9), of v p] v assms(4) by metis
  have bi: "queue_inv (b\<lparr>q_arr := ?a\<rparr>)" "int (length (frames (b\<lparr>q_arr := ?a\<rparr>))) < MAX_SIZE"
      "v < length (frames (b\<lparr>q_arr := ?a\<rparr>))"
    using q assms(2) lbs bf(1) v frames_update_arr(2) [OF la] by auto
  obtain b1 b' where b': "pop (b\<lparr>q_arr := ?a\<rparr>) (int v) = Some b1" "push b1 0 (int v) = Some b'"
      "queue_inv b'" "q_len b' = q_len (b\<lparr>q_arr := ?a\<rparr>)"
      "frames b' = (frames (b\<lparr>q_arr := ?a\<rparr>))[v := 0]"
    using pq.replace_page [OF bi, of 0] by metis
  have "q_tail q' = mx" using pq.tail_law [OF q'(3)] q'(5) assms(4) q by simp
  moreover have "Suc v mod nat mx < nat mx" using v by (intro mod_less_divisor) simp
  moreover from this have "int (Suc v mod nat mx) < mx" by linarith
  ultimately show ?thesis
    using evict q' b' bf lbs q v assms(1,3,4)
    by (auto simp: clock_inv_def frames_inv_def distinct_list_update)
qed

lemma CLOCK_step:
  assumes inp: "sim_input q0 mx n string" and j: "0 \<le> j" "j < n" and pf: "pf \<le> nat j"
    and inv: "clock_inv mx s"
  shows "\<exists>pf' s'. CLOCK_body string j (int pf, s) = Some (int pf', s') \<and> clock_inv mx s' \<and>
    pf' \<le> Suc pf \<and> pf \<le> pf' \<and>
    (\<forall>m. clock_left mx s' (drop (nat (j + 1)) (requests n string)) m \<longrightarrow>
      clock_left mx s (requests n string ! nat j # drop (nat (j + 1)) (requests n string)) (pf' - pf + m))"
proof -
  let ?p = "requests n string ! nat j"
  obtain ev q b where s: "s = (ev, q, b)" by (cases s)
  have qi: "frames_inv mx q" "queue_inv q" "q_len q = mx" "int (length (frames q)) \<le> mx"
    using inv s by (auto simp: clock_inv_def frames_inv_def)
  note facts = sim_facts [OF inp j pf] sim_read [OF inp j] frames_inv_here [OF qi(1)]
  consider "?p \<in> set (frames q)" | "?p \<notin> set (frames q)" "length (frames q) < nat mx"
    | "?p \<notin> set (frames q)" "length (frames q) = nat mx"
    using qi(4) by linarith
  then show ?thesis
  proof cases
    case 1
    from CLOCK_hit [OF inv [unfolded s] 1] obtain a where
      a: "wr (q_arr b) (int (first_index ?p (frames q))) 1 = Some a"
        "clock_inv mx (ev, q, b\<lparr>q_arr := a\<rparr>)"
        "frames (b\<lparr>q_arr := a\<rparr>) = (frames b)[first_index ?p (frames q) := 1]" by blast
    then have "CLOCK_body string j (int pf, s) = Some (int pf, ev, q, b\<lparr>q_arr := a\<rparr>)"
      using 1 s facts by (simp add: CLOCK_body_def)
    with a 1 s show ?thesis
      by (intro exI [of _ pf] exI [of _ "(ev, q, b\<lparr>q_arr := a\<rparr>)"]) (simp add: clock_left_def)
  next
    case 2
    then have full: "\<not> isFull q" using qi by (simp add: isFull_iff)
    from CLOCK_fill [OF inv [unfolded s] facts(2) 2] obtain q' b' where
      q': "push q ?p (q_tail q) = Some q'" "push b 0 (q_tail b) = Some b'" "clock_inv mx (0, q', b')"
        "q_tail q' \<noteq> 0" "frames q' = frames q @ [?p]" "frames b' = frames b @ [0]" by blast
    then have "CLOCK_body string j (int pf, s) = Some (int (Suc pf), 0, q', b')"
      using 2 s full facts by (simp add: CLOCK_body_def)
    with q' 2 s show ?thesis
      by (intro exI [of _ "Suc pf"] exI [of _ "(0, q', b')"]) (simp add: clock_left_def)
  next
    case 3
    then have full: "isFull q" using qi facts(1) by (simp add: isFull_iff)
    let ?v = "clock_victim (nat mx) (nat ev) (frames b)"
    from CLOCK_replace [OF inv [unfolded s] facts(2) 3] obtain q1 b1 q' b' where
      q': "CLOCK_evict q b ev = Some (int ?v, q1, b1)" "push q1 ?p (int ?v) = Some q'"
        "push b1 0 (int ?v) = Some b'" "q_tail q' = mx" "?v < nat mx"
        "clock_inv mx (int (Suc ?v mod nat mx), q', b')" "frames q' = (frames q)[?v := ?p]"
        "frames b' = (snd (scan_bits (clock_order (nat mx) (nat ev)) (frames b)))[?v := 0]"
      by blast
    have hand: "(if int ?v = q_tail q' - 1 then 0 else int ?v + 1) = int (Suc ?v mod nat mx)"
      using q'(4,5) by (auto simp: mod_Suc)
    from q' have "CLOCK_body string j (int pf, s) =
        Some (int (Suc pf), int (Suc ?v mod nat mx), q', b')"
      using 3 s full facts by (simp add: CLOCK_body_def flip: hand)
    with q' 3 s show ?thesis
      by (intro exI [of _ "Suc pf"] exI [of _ "(int (Suc ?v mod nat mx), q', b')"])
        (simp add: clock_left_def Let_def)
  qed
qed

lemma CLOCK_ok:
  assumes "sim_input q0 mx n string" "int (length (q_arr b0)) = MAX_SIZE"
  shows "CLOCK q0 b0 mx n string =
    Some (fault_report n (clock_faults (nat mx) [] [] 0 (requests n string)))"
proof -
  let ?s = "(0, init q0 mx, init b0 mx)"
  have "clock_inv mx ?s"
    using assms frames_inv_init [OF assms(1)] init_inv [OF assms(2)]
    by (auto simp: clock_inv_def sim_input_def) (simp add: init_def)
  then have "\<exists>m s. for_range 0 n (CLOCK_body string) (0, ?s) = Some (int m, s) \<and>
      clock_inv mx s \<and> int m \<le> n \<and> clock_left mx ?s (requests n string) m"
    by (intro sim_loop [OF assms(1) CLOCK_step [OF assms(1)]]) (auto simp: clock_left_def)
  with sim_requests [OF assms(1)] show ?thesis
    by (auto simp: CLOCK_def clock_left_def print_report_ok)
qed

section \<open>Properties of the simulations\<close>

text \<open>A queue with known cells, for the concrete instances below.\<close>

definition zero_queue :: queue where
  "zero_queue = \<lparr>q_arr = replicate 1000 0, q_tail = 0, q_len = 0\<rparr>"

lemma zero_queue_input:
  "0 < mx \<Longrightarrow> mx < 1000 \<Longrightarrow> length string \<le> 1000 \<Longrightarrow>
    sim_input zero_queue mx (int (length string)) string"
  by (simp add: sim_input_def zero_queue_def MAX_SIZE_def)

text \<open>
  C4. \<open>OPT\<close> returns on every admissible input, without undefined behaviour and whatever its
  uninitialised locals hold; the number of faults it reports is reached by a demand-paging
  run and no demand-paging run with the same number of frames has fewer faults.
\<close>

theorem OPT_optimal:
  assumes "sim_input q0 mx n string"
  shows "\<exists>m. OPT q0 d mx n string = Some (fault_report n m) \<and>
    paging (nat mx) {} (requests n string) m \<and>
    (\<forall>m'. paging (nat mx) {} (requests n string) m' \<longrightarrow> m \<le> m')"
  using OPT_ok [OF assms, of d] belady_paging belady_optimal [of "nat mx" "{}"]
  by (metis card.empty finite.emptyI le0)

theorem OPT_optimal_witness:
  "\<exists>m. OPT zero_queue 7 3 5 [1, 2, 3, 4, 1] = Some (fault_report 5 m) \<and>
    paging 3 {} [1, 2, 3, 4, 1 :: int] m \<and> (\<forall>m'. paging 3 {} [1, 2, 3, 4, 1 :: int] m' \<longrightarrow> m \<le> m')"
  using OPT_optimal [OF zero_queue_input [of 3 "[1, 2, 3, 4, 1]"], of 7]
  by (simp add: requests_def)

text \<open>
  The fault count of \<open>OPT\<close> is at most that of \<open>FIFO\<close>, of \<open>LRU\<close> and of \<open>CLOCK\<close> on the same
  request string with the same number of frames.
\<close>

theorem OPT_beats_the_others:
  assumes "sim_input q0 mx n string" "int (length (q_arr b0)) = MAX_SIZE"
    and "OPT q0 d mx n string = Some r"
    and "FIFO q0 mx n string = Some r1 \<or> LRU q0 mx n string = Some r1 \<or>
      CLOCK q0 b0 mx n string = Some r1"
  shows "page_faults r \<le> page_faults r1"
proof -
  have mx: "0 < nat mx" using assms(1) by (simp add: sim_input_def)
  obtain m where m: "r = fault_report n m" "belady (nat mx) {} (requests n string) m"
    using OPT_ok [OF assms(1), of d] assms(3) by auto
  have "\<exists>m'. r1 = fault_report n m' \<and> paging (nat mx) (set []) (requests n string) m'"
    using assms(4) FIFO_ok [OF assms(1)] LRU_ok [OF assms(1)] CLOCK_ok [OF assms(1,2)]
      fifo_paging [of "[]" "nat mx"] lru_paging [of "[]" "nat mx"] clock_paging [of "[]" "nat mx" 0] mx
    by fastforce
  with m belady_optimal [OF m(2)] show ?thesis by (auto simp: fault_report_def)
qed

theorem OPT_beats_the_others_witness:
  "\<exists>r r1. OPT zero_queue 0 2 4 [1, 2, 3, 1] = Some r \<and> LRU zero_queue 2 4 [1, 2, 3, 1] = Some r1 \<and>
    page_faults r \<le> page_faults r1"
proof -
  have i: "sim_input zero_queue 2 4 [1, 2, 3, 1]" using zero_queue_input [of 2 "[1, 2, 3, 1]"] by simp
  have z: "int (length (q_arr zero_queue)) = MAX_SIZE" by (simp add: zero_queue_def MAX_SIZE_def)
  from OPT_ok [OF i, of 0] LRU_ok [OF i] OPT_beats_the_others [OF i z] show ?thesis by blast
qed

text \<open>
  \<open>FIFO\<close> is the first-in-first-out reference policy: it returns, without undefined
  behaviour, and reports exactly the faults of that policy on the requests.
\<close>

theorem FIFO_refines_reference:
  assumes "sim_input q0 mx n string"
  shows "FIFO q0 mx n string = Some (fault_report n (fifo_faults (nat mx) [] (requests n string)))"
  by (rule FIFO_ok [OF assms])

theorem FIFO_refines_reference_witness:
  "FIFO zero_queue 3 12 [1, 2, 3, 4, 1, 2, 5, 1, 2, 3, 4, 5] = Some (fault_report 12 9)"
  using FIFO_refines_reference [OF zero_queue_input [of 3 "[1, 2, 3, 4, 1, 2, 5, 1, 2, 3, 4, 5]"]]
  by (simp add: requests_def fault_report_def)

text \<open>
  C33. \<open>LRU\<close> is the least-recently-used reference policy, and giving it more frames never
  raises the number of faults it reports.
\<close>

theorem LRU_refines_and_has_no_anomaly:
  assumes "sim_input q0 mx n string" "sim_input q0' mx' n string" "mx \<le> mx'"
  shows "\<exists>r r'. LRU q0 mx n string = Some r \<and> LRU q0' mx' n string = Some r' \<and>
    r = fault_report n (lru_faults (nat mx) [] (requests n string)) \<and>
    page_faults r' \<le> page_faults r"
proof -
  have "lru_faults (nat mx') (lastn (nat mx') []) (requests n string) \<le>
      lru_faults (nat mx) (lastn (nat mx) []) (requests n string)"
    using assms by (intro lru_faults_mono) (auto simp: sim_input_def)
  with LRU_ok [OF assms(1)] LRU_ok [OF assms(2)] show ?thesis
    by (simp add: fault_report_def lastn_def)
qed

theorem LRU_refines_and_has_no_anomaly_witness:
  "\<exists>r r'. LRU zero_queue 2 5 [1, 2, 3, 1, 2] = Some r \<and> LRU zero_queue 3 5 [1, 2, 3, 1, 2] = Some r' \<and>
    r = fault_report 5 5 \<and> page_faults r' \<le> page_faults r"
  using LRU_refines_and_has_no_anomaly
    [OF zero_queue_input [of 2 "[1, 2, 3, 1, 2]"] zero_queue_input [of 3 "[1, 2, 3, 1, 2]"]]
  by (simp add: requests_def fault_report_def)

text \<open>
  \<open>CLOCK\<close> is the second-chance reference policy: in every miss on full frames it replaces
  the first frame from the hand on whose use bit is clear, after clearing the bits it passed.
\<close>

theorem CLOCK_refines_reference:
  assumes "sim_input q0 mx n string" "int (length (q_arr b0)) = MAX_SIZE"
  shows "CLOCK q0 b0 mx n string =
    Some (fault_report n (clock_faults (nat mx) [] [] 0 (requests n string)))"
  by (rule CLOCK_ok [OF assms])

theorem CLOCK_refines_reference_witness:
  "CLOCK zero_queue zero_queue 3 7 [1, 2, 3, 1, 4, 1, 2] = Some (fault_report 7 5)"
  using CLOCK_refines_reference [OF zero_queue_input [of 3 "[1, 2, 3, 1, 4, 1, 2]"], of zero_queue]
  by (simp add: requests_def fault_report_def clock_victim_def clock_order_def Let_def upt_rec
      MAX_SIZE_def zero_queue_def)

text \<open>
  Unlike LRU, FIFO shows Belady's anomaly: on this request string four frames give more
  faults than three.
\<close>

theorem FIFO_anomaly:
  "\<exists>r3 r4. FIFO zero_queue 3 12 [1, 2, 3, 4, 1, 2, 5, 1, 2, 3, 4, 5] = Some r3 \<and>
    FIFO zero_queue 4 12 [1, 2, 3, 4, 1, 2, 5, 1, 2, 3, 4, 5] = Some r4 \<and>
    page_faults r3 = 9 \<and> page_faults r4 = 10"
  using FIFO_ok [OF zero_queue_input [of 3 "[1, 2, 3, 4, 1, 2, 5, 1, 2, 3, 4, 5]"]]
    FIFO_ok [OF zero_queue_input [of 4 "[1, 2, 3, 4, 1, 2, 5, 1, 2, 3, 4, 5]"]]
  by (simp add: requests_def fault_report_def)

text \<open>
  The queue operations on the frames: \<open>push\<close> inserts a page before an index and \<open>pop\<close>
  deletes the page at an index, keeping the queue well-formed, while at least one cell of the
  array is free.
\<close>

theorem push_pop_frames:
  assumes "queue_inv q" "q_tail q < MAX_SIZE" "0 \<le> idx"
  shows "(idx \<le> q_tail q \<longrightarrow> (\<exists>q'. push q num idx = Some q' \<and> queue_inv q' \<and>
      frames q' = take (nat idx) (frames q) @ num # drop (nat idx) (frames q))) \<and>
    (idx < q_tail q \<longrightarrow> (\<exists>q'. pop q idx = Some q' \<and> queue_inv q' \<and>
      frames q' = take (nat idx) (frames q) @ drop (Suc (nat idx)) (frames q)))"
  using push_ok [OF assms] pop_ok [OF assms] by blast

theorem push_pop_frames_witness:
  "\<exists>q. push zero_queue 5 0 = Some q \<and> queue_inv q \<and> frames q = [5]"
  using push_pop_frames [of zero_queue 0 5]
  by (simp add: zero_queue_def queue_inv_def MAX_SIZE_def frames_def)

text \<open>
  With as many frames as the queue's array has cells, \<open>pop\<close> on the full queue reads one
  cell past the array: the simulations are undefined for \<open>max\<close> equal to \<open>MAX_SIZE\<close>, although
  the array itself could hold that many pages.
\<close>

theorem pop_full_array_undefined:
  assumes "queue_inv q" "q_tail q = MAX_SIZE" "0 \<le> idx" "idx < MAX_SIZE"
  shows "pop q idx = None"
proof -
  let ?f = "\<lambda>i a. do { v \<leftarrow> rd a (i + 1); wr a i (v :: int) }"
  have "\<exists>t. for_range idx (MAX_SIZE - 1) ?f (q_arr q) = Some t \<and> length t = length (q_arr q)"
    by (rule for_range_inv [where I = "\<lambda>i a. length a = length (q_arr q)"])
      (use assms in \<open>auto simp: queue_inv_def\<close>)
  then obtain a where a: "c_for (nat (MAX_SIZE - 1 - idx)) idx ?f (q_arr q) = Some a"
      "length a = length (q_arr q)" by (auto simp: for_range_def)
  have n: "nat (MAX_SIZE - idx) = Suc (nat (MAX_SIZE - 1 - idx))" using assms by simp
  have "rd a (MAX_SIZE - 1 + 1) = None" using a(2) assms(1) by (simp add: rd_def queue_inv_def)
  then have "c_for (nat (MAX_SIZE - idx)) idx ?f (q_arr q) = None"
    unfolding n c_for_snoc using a(1) assms(3,4) by simp
  then show ?thesis using assms(2) by (simp add: pop_def for_range_def)
qed

theorem pop_full_array_undefined_witness:
  "pop \<lparr>q_arr = replicate 1000 7, q_tail = 1000, q_len = 1000\<rparr> 0 = None"
  by (rule pop_full_array_undefined) (simp_all add: queue_inv_def MAX_SIZE_def)

text \<open>
  With no frame at all every simulation is undefined on its first request: the eviction
  from the empty queue makes \<open>tail\<close> negative and the page is written before the array.
\<close>

theorem FIFO_no_frames_undefined:
  assumes "0 < n"
  shows "FIFO q0 0 n string = None"
proof -
  have "FIFO_body string 0 (0, init q0 0) = None"
    by (cases "rd string 0") (auto simp: FIFO_body_def isHere_def find_range_def init_def pop_def push_def
      push_loop_def isFull_def c_while.simps wr_def c_int_def INT_MAX_def INT_MIN_def)
  with assms show ?thesis by (simp add: FIFO_def for_range_unfold)
qed

theorem FIFO_no_frames_undefined_witness: "FIFO zero_queue 0 1 [4] = None"
  by (rule FIFO_no_frames_undefined) simp

end
