(* ===== verification/C_String.thy ===== *)
theory C_String
  imports C_Base
begin

text \<open>
  Character arrays and the string functions the programs call. An array is a list of
  characters of its declared length; a C string is the part before the first NUL. A
  \<open>const char *\<close> argument is given by its contents, a list without NUL.
\<close>

definition NUL :: char where
  "NUL = CHR 0x00"

definition no_nul :: "string \<Rightarrow> bool" where
  "no_nul s \<longleftrightarrow> NUL \<notin> set s"

definition newline :: char where
  "newline = CHR 0x0A"

text \<open>The string an array holds: undefined when it is not terminated.\<close>

definition cstr :: "char list \<Rightarrow> string option" where
  "cstr a = (if NUL \<in> set a then Some (takeWhile (\<lambda>c. c \<noteq> NUL) a) else None)"

definition strcpy :: "char list \<Rightarrow> string \<Rightarrow> char list option" where
  "strcpy a s = (if length s < length a then Some (s @ NUL # drop (Suc (length s)) a) else None)"

text \<open>The contents of a terminated array, as a total function.\<close>

definition text_of :: "char list \<Rightarrow> string" where
  "text_of a = takeWhile (\<lambda>c. c \<noteq> NUL) a"

lemma cstr_ok [simp]: "NUL \<in> set a \<Longrightarrow> cstr a = Some (text_of a)"
  by (simp add: cstr_def text_of_def)

lemma no_nul_text_of [simp]: "no_nul (text_of a)"
  by (auto simp: no_nul_def text_of_def dest: set_takeWhileD)

lemma text_of_terminated [simp]: "no_nul s \<Longrightarrow> text_of (s @ NUL # t) = s"
proof -
  assume "no_nul s"
  then have "\<forall>x \<in> set s. x \<noteq> NUL" by (auto simp: no_nul_def)
  then show ?thesis by (simp add: text_of_def takeWhile_tail)
qed

lemma text_of_split:
  assumes "NUL \<in> set a"
  shows "a = text_of a @ NUL # drop (Suc (length (text_of a))) a"
proof -
  obtain s t where a: "a = s @ NUL # t" "NUL \<notin> set s" using split_list_first [OF assms] by blast
  then have "text_of a = s" by (simp add: no_nul_def)
  with a(1) show ?thesis by simp
qed

lemma text_of_less: "NUL \<in> set a \<Longrightarrow> length (text_of a) < length a"
  by (metis text_of_split length_append length_Cons less_add_Suc1 add_Suc_right)

lemma strcpy_ok:
  "length s < length a \<Longrightarrow> no_nul s \<Longrightarrow>
    \<exists>b. strcpy a s = Some b \<and> text_of b = s \<and> length b = length a \<and> NUL \<in> set b"
  by (simp add: strcpy_def)

lemma strcpy_None: "length a \<le> length s \<Longrightarrow> strcpy a s = None"
  by (simp add: strcpy_def)

end
