(* ===== verification/C_Stdio.thy ===== *)
theory C_Stdio
  imports C_String
begin

text \<open>
  The formatted input and output the programs use, on text: \<open>%d\<close> and \<open>%s\<close> of \<open>printf\<close> and
  \<open>fscanf\<close>, \<open>atoi\<close>, and that numbers and words survive being printed and read back.
\<close>

section \<open>Characters\<close>

definition is_space :: "char \<Rightarrow> bool" where
  "is_space c \<longleftrightarrow> c \<in> {CHR 0x20, CHR 0x09, CHR 0x0A, CHR 0x0B, CHR 0x0C, CHR 0x0D}"

definition is_digit :: "char \<Rightarrow> bool" where
  "is_digit c \<longleftrightarrow> 48 \<le> (of_char c :: nat) \<and> (of_char c :: nat) \<le> 57"

definition digit_value :: "char \<Rightarrow> int" where
  "digit_value c = int (of_char c) - 48"

definition digit_char :: "nat \<Rightarrow> char" where
  "digit_char d = char_of (48 + d)"

lemma of_char_digit [simp]: "d < 10 \<Longrightarrow> (of_char (digit_char d) :: nat) = 48 + d"
  by (simp add: digit_char_def of_char_of)

lemma digit_char_ok [simp]: "d < 10 \<Longrightarrow> is_digit (digit_char d)"
  by (simp add: is_digit_def)

lemma digit_value_char [simp]: "d < 10 \<Longrightarrow> digit_value (digit_char d) = int d"
  by (simp add: digit_value_def)

lemma digit_facts:
  assumes "is_digit c"
  shows "\<not> is_space c" "c \<noteq> CHR ''-''" "c \<noteq> CHR ''+''" "c \<noteq> NUL"
  using assms by (auto simp: is_digit_def is_space_def NUL_def)

section \<open>Printing\<close>

fun print_nat :: "nat \<Rightarrow> string" where
  "print_nat n = (if n < 10 then [digit_char n] else print_nat (n div 10) @ [digit_char (n mod 10)])"

declare print_nat.simps [simp del]

definition print_int :: "int \<Rightarrow> string" where
  "print_int i = (if i < 0 then CHR ''-'' # print_nat (nat (- i)) else print_nat (nat i))"

section \<open>Scanning\<close>

datatype 'a scan = Eof | NoMatch | Val 'a

definition skip_space :: "string \<Rightarrow> string" where
  "skip_space s = dropWhile is_space s"

definition digits_value :: "string \<Rightarrow> int" where
  "digits_value ds = foldl (\<lambda>a c. 10 * a + digit_value c) 0 ds"

text \<open>The optional sign of a number, and what follows it.\<close>

definition scan_sign :: "string \<Rightarrow> int \<times> string" where
  "scan_sign s = (case s of [] \<Rightarrow> (1, s)
     | c # t \<Rightarrow> if c = CHR ''-'' then (-1, t) else if c = CHR ''+'' then (1, t) else (1, s))"

definition scan_int :: "string \<Rightarrow> int scan \<times> string" where
  "scan_int s = (let t = skip_space s in
     if t = [] then (Eof, []) else
       (case scan_sign t of (sg, u) \<Rightarrow>
         if takeWhile is_digit u = [] then (NoMatch, u)
         else (Val (sg * digits_value (takeWhile is_digit u)), dropWhile is_digit u)))"

definition scan_word :: "string \<Rightarrow> string scan \<times> string" where
  "scan_word s = (let t = skip_space s in
     if t = [] then (Eof, []) else
       (Val (takeWhile (\<lambda>c. \<not> is_space c) t), dropWhile (\<lambda>c. \<not> is_space c) t))"

text \<open>\<open>atoi\<close>: leading space, a sign, digits; 0 without digits; undefined out of range.\<close>

definition atoi :: "string \<Rightarrow> int option" where
  "atoi s = (case scan_sign (skip_space s) of (sg, u) \<Rightarrow> c_int (sg * digits_value (takeWhile is_digit u)))"

text \<open>
  One \<open>%d\<close> of a \<open>fscanf\<close> with several: it stores the number with \<open>put\<close>, and once a conversion
  fails the rest is not tried.
\<close>

definition scan_field :: "(int \<Rightarrow> 'e \<Rightarrow> 'e) \<Rightarrow> 'e \<times> string \<times> bool \<Rightarrow> ('e \<times> string \<times> bool) option" where
  "scan_field put = (\<lambda>(e, tex, more).
     if \<not> more then Some (e, tex, False)
     else case scan_int tex of
       (Val v, t) \<Rightarrow> do { v \<leftarrow> c_int v; Some (put v e, t, True) }
     | (_, t) \<Rightarrow> Some (e, t, False))"

text \<open>\<open>fgets(buf, n, f)\<close>: at most \<open>n - 1\<close> characters, up to and with a newline; NULL at the end.\<close>

definition fgets :: "nat \<Rightarrow> string \<Rightarrow> (string \<times> string) option" where
  "fgets n tex = (if tex = [] then None
     else let m = take (n - 1) tex; l = takeWhile (\<lambda>c. c \<noteq> newline) m
          in Some (if length l < length m then (l @ [newline], drop (Suc (length l)) tex) else (m, drop (length m) tex)))"

definition int_range :: "int \<Rightarrow> bool" where
  "int_range v \<longleftrightarrow> INT_MIN \<le> v \<and> v \<le> INT_MAX"

section \<open>Round trips\<close>

lemma print_nat_digits: "c \<in> set (print_nat n) \<Longrightarrow> is_digit c"
proof (induction n rule: print_nat.induct)
  case (1 n)
  then show ?case by (subst (asm) print_nat.simps) (auto split: if_splits)
qed

lemma print_nat_nonempty [simp]: "print_nat n \<noteq> []"
  by (subst print_nat.simps) simp

lemma digits_value_print [simp]: "digits_value (print_nat n) = int n"
proof (induction n rule: print_nat.induct)
  case (1 n)
  show ?case
  proof (cases "n < 10")
    case True
    then show ?thesis by (subst print_nat.simps) (simp add: digits_value_def)
  next
    case False
    have "digits_value (print_nat (n div 10)) = int (n div 10)" using 1 False by simp
    then have "digits_value (print_nat n) = 10 * int (n div 10) + int (n mod 10)"
      using False by (subst print_nat.simps) (simp add: digits_value_def)
    also have "\<dots> = int (10 * (n div 10) + n mod 10)" by (simp only: of_nat_add of_nat_mult of_nat_numeral)
    also have "\<dots> = int n" by simp
    finally show ?thesis .
  qed
qed

definition no_digit_first :: "string \<Rightarrow> bool" where
  "no_digit_first s \<longleftrightarrow> (s = [] \<or> \<not> is_digit (hd s))"

lemma takeWhile_all_append:
  assumes "\<forall>c \<in> set a. P c" "r = [] \<or> \<not> P (hd r)"
  shows "takeWhile P (a @ r) = a" "dropWhile P (a @ r) = r"
  using assms by (cases r; simp add: takeWhile_append dropWhile_append)+

lemma skip_space_append [simp]: "\<forall>c \<in> set ws. is_space c \<Longrightarrow> skip_space (ws @ s) = skip_space s"
  by (simp add: skip_space_def dropWhile_append)

lemma skip_space_none: "s \<noteq> [] \<Longrightarrow> \<not> is_space (hd s) \<Longrightarrow> skip_space s = s"
  by (cases s) (simp_all add: skip_space_def)

lemma print_int_head: "print_int i \<noteq> [] \<and> \<not> is_space (hd (print_int i))"
proof -
  have "\<not> is_space (hd (print_nat n))" for n
    using print_nat_digits [of "hd (print_nat n)" n] digit_facts(1) by (metis list.set_sel(1) print_nat_nonempty)
  then show ?thesis by (simp add: print_int_def is_space_def)
qed

lemma scan_sign_print: "no_digit_first r \<Longrightarrow> \<exists>sg n. scan_sign (print_int i @ r) = (sg, print_nat n @ r) \<and> sg * int n = i"
proof (cases "i < 0")
  case True
  then show ?thesis by (auto simp: print_int_def scan_sign_def intro!: exI [of _ "nat (- i)"])
next
  case False
  obtain c t where ct: "print_nat (nat i) = c # t" by (metis neq_Nil_conv print_nat_nonempty)
  then have "is_digit c" using print_nat_digits [of c "nat i"] by simp
  with False ct digit_facts [of c] show ?thesis
    by (auto simp: print_int_def scan_sign_def intro!: exI [of _ 1] exI [of _ "nat i"])
qed

lemma scan_print_int:
  assumes "\<forall>c \<in> set ws. is_space c" "no_digit_first r"
  shows "scan_int (ws @ print_int i @ r) = (Val i, r)"
proof -
  obtain sg n where sg: "scan_sign (print_int i @ r) = (sg, print_nat n @ r)" "sg * int n = i"
    using scan_sign_print [OF assms(2)] by blast
  have "skip_space (print_int i @ r) = print_int i @ r"
    using print_int_head [of i] by (intro skip_space_none) auto
  moreover have "takeWhile is_digit (print_nat n @ r) = print_nat n" "dropWhile is_digit (print_nat n @ r) = r"
    using takeWhile_all_append [of "print_nat n" is_digit r] print_nat_digits assms(2)
    by (auto simp: no_digit_first_def simp del: takeWhile_append2)
  ultimately show ?thesis using assms(1) sg print_int_head [of i] by (simp add: scan_int_def Let_def)
qed

lemma atoi_print_int: "INT_MIN \<le> i \<Longrightarrow> i \<le> INT_MAX \<Longrightarrow> atoi (print_int i) = Some i"
proof -
  assume i: "INT_MIN \<le> i" "i \<le> INT_MAX"
  obtain sg n where sg: "scan_sign (print_int i) = (sg, print_nat n)" "sg * int n = i"
    using scan_sign_print [of "[]" i] by (auto simp: no_digit_first_def)
  have "skip_space (print_int i) = print_int i" using print_int_head [of i] by (intro skip_space_none) auto
  moreover have "takeWhile is_digit (print_nat n) = print_nat n"
    using print_nat_digits by (subst takeWhile_eq_all_conv) blast
  ultimately show ?thesis using sg i by (simp add: atoi_def del: takeWhile_eq_all_conv)
qed

definition is_word :: "string \<Rightarrow> bool" where
  "is_word s \<longleftrightarrow> s \<noteq> [] \<and> (\<forall>c \<in> set s. \<not> is_space c)"

lemma scan_word_print:
  assumes "\<forall>c \<in> set ws. is_space c" "is_word s" "r = [] \<or> is_space (hd r)"
  shows "scan_word (ws @ s @ r) = (Val s, r)"
proof -
  have "skip_space (s @ r) = s @ r" using assms(2) by (intro skip_space_none) (auto simp: is_word_def)
  moreover have "takeWhile (\<lambda>c. \<not> is_space c) (s @ r) = s" "dropWhile (\<lambda>c. \<not> is_space c) (s @ r) = r"
    using takeWhile_all_append [of s "\<lambda>c. \<not> is_space c" r] assms(2,3) by (auto simp: is_word_def)
  ultimately show ?thesis using assms by (simp add: scan_word_def Let_def is_word_def)
qed

lemma print_int_word: "is_word (print_int i)"
  using print_nat_digits digit_facts(1) by (auto simp: is_word_def print_int_def is_space_def)

lemma spaces [simp]: "is_space newline" "is_space (CHR '' '')"
  by (simp_all add: is_space_def newline_def)

lemma no_digit_space [simp]: "no_digit_first (newline # r)" "no_digit_first (CHR '' '' # r)"
  by (simp_all add: no_digit_first_def is_digit_def newline_def)

lemma scan_field_print:
  assumes "int_range v" "\<forall>c \<in> set ws. is_space c" "no_digit_first r"
  shows "scan_field put (e, ws @ print_int v @ r, True) = Some (put v e, r, True)"
  using assms scan_print_int [OF assms(2,3), of v] by (simp add: scan_field_def int_range_def)

lemma scan_field_one:
  assumes "int_range v" "no_digit_first r" "is_space c"
  shows "scan_field put (e, c # print_int v @ r, True) = Some (put v e, r, True)"
  using scan_field_print [OF assms(1) _ assms(2), of "[c]"] assms(3) by simp

end
