(* ===== verification/Page_Main.thy ===== *)
theory Page_Main
  imports Page_Policies C_Stdio
begin

text \<open>
  \<open>main\<close> of \<open>Assignment4-2/page_replacement_simulator.c\<close>: it reads the number of frames and the
  request string from a file and runs the four simulations on them.
\<close>

section \<open>The code\<close>

text \<open>\<open>strtok\<close> with the separators space and newline: the next token and what follows its end.\<close>

definition is_sep :: "char \<Rightarrow> bool" where
  "is_sep c \<longleftrightarrow> c = CHR '' '' \<or> c = newline"

definition strtok :: "string \<Rightarrow> (string \<times> string) option" where
  "strtok s = (let t = dropWhile is_sep s in
     if t = [] then None
     else Some (takeWhile (\<lambda>c. \<not> is_sep c) t, tl (dropWhile (\<lambda>c. \<not> is_sep c) t)))"

lemma strtok_shorter: "strtok s = Some (w, t) \<Longrightarrow> length t < length s"
proof -
  assume st: "strtok s = Some (w, t)"
  let ?u = "dropWhile is_sep s"
  from st have u: "?u \<noteq> []" "t = tl (dropWhile (\<lambda>c. \<not> is_sep c) ?u)"
    by (auto simp: strtok_def Let_def split: if_splits)
  have "length t \<le> length (dropWhile (\<lambda>c. \<not> is_sep c) ?u) - 1" by (simp add: u(2))
  moreover have "length (dropWhile (\<lambda>c. \<not> is_sep c) ?u) \<le> length ?u" by (rule length_dropWhile_le)
  moreover have "length ?u \<le> length s" by (rule length_dropWhile_le)
  moreover have "0 < length ?u" using u(1) by blast
  ultimately show ?thesis by linarith
qed

text \<open>The loop over the tokens: each is stored into \<open>string\<close> at \<open>len\<close>.\<close>

function read_requests :: "string \<Rightarrow> int \<times> int list \<Rightarrow> (int \<times> int list) option" where
  "read_requests s st = (case strtok s of
     None \<Rightarrow> Some st
   | Some (tok, t) \<Rightarrow> do {
       v \<leftarrow> atoi tok;
       string' \<leftarrow> wr (snd st) (fst st) v;
       read_requests t (fst st + 1, string')
     })"
  by auto

termination
  by (relation "measure (length \<circ> fst)") (auto dest: strtok_shorter)

declare read_requests.simps [simp del]

text \<open>
  What the locals hold before they are set: those of \<open>main\<close>, and the queues and \<open>delete_idx\<close> of
  the simulations.
\<close>

record page_locals =
  local_max :: int
  local_buf :: "char list"
  local_string :: "int list"
  opt_queue :: queue
  opt_delete :: int
  fifo_queue :: queue
  lru_queue :: queue
  clock_queue :: queue
  clock_bits :: queue

text \<open>\<open>fscanf(fp, "%d\n", &max)\<close>, where the newline skips all white space.\<close>

definition read_max :: "int \<Rightarrow> string \<Rightarrow> (int \<times> string) option" where
  "read_max mx tex = do {
     (mx, t, ok) \<leftarrow> scan_field (\<lambda>v _. v) (mx, tex, True);
     Some (mx, if ok then skip_space t else t)
   }"

text \<open>\<open>fgets(buf, sizeof(buf), fp)\<close>: the buffer, unchanged at the end of the file.\<close>

definition read_line :: "char list \<Rightarrow> string \<Rightarrow> char list option" where
  "read_line buf tex = (case fgets (length buf) tex of None \<Rightarrow> Some buf | Some (l, t) \<Rightarrow> strcpy buf l)"

datatype page_out = PageError string | Report report | EmptyLine

text \<open>\<open>argv\<close> without the program name; \<open>open_file\<close> gives the contents of the files that open.\<close>

definition page_main :: "page_locals \<Rightarrow> (string \<Rightarrow> string option) \<Rightarrow> string list \<Rightarrow> page_out list option" where
  "page_main u open_file argv =
    (if length argv \<noteq> 1 then Some [PageError (''only input file needed: file name'' @ [newline])]
     else case open_file (argv ! 0) of
       None \<Rightarrow> Some [PageError (''file open failed.'' @ [newline])]
     | Some tex \<Rightarrow> do {
         (mx, t) \<leftarrow> read_max (local_max u) tex;
         buf \<leftarrow> read_line (local_buf u) t;
         line \<leftarrow> cstr buf;
         (n, string) \<leftarrow> read_requests line (0, local_string u);
         r1 \<leftarrow> OPT (opt_queue u) (opt_delete u) mx n string;
         r2 \<leftarrow> FIFO (fifo_queue u) mx n string;
         r3 \<leftarrow> LRU (lru_queue u) mx n string;
         r4 \<leftarrow> CLOCK (clock_queue u) (clock_bits u) mx n string;
         Some [Report r1, EmptyLine, Report r2, EmptyLine, Report r3, EmptyLine, Report r4] })"

section \<open>Reading the requests\<close>

text \<open>The requests on a line, with a space between them.\<close>

fun request_line :: "int list \<Rightarrow> string" where
  "request_line [] = []"
| "request_line [v] = print_int v"
| "request_line (v # w # rs) = print_int v @ CHR '' '' # request_line (w # rs)"

lemma strtok_word:
  assumes "is_word w" "r = [] \<or> is_sep (hd r)"
  shows "strtok (w @ r) = Some (w, tl r)"
proof -
  have ns: "\<forall>c \<in> set w. \<not> is_sep c" using assms(1) by (auto simp: is_word_def is_sep_def)
  have w: "w \<noteq> []" "\<not> is_sep (hd w)" using assms(1) ns by (auto simp: is_word_def)
  then have "dropWhile is_sep (w @ r) = w @ r" by (cases w) simp_all
  moreover have "takeWhile (\<lambda>c. \<not> is_sep c) (w @ r) = w" "dropWhile (\<lambda>c. \<not> is_sep c) (w @ r) = r"
    using takeWhile_all_append [of w "\<lambda>c. \<not> is_sep c" r] ns assms(2) by simp_all
  ultimately show ?thesis using w(1) by (simp add: strtok_def Let_def)
qed

lemma read_token:
  assumes "int_range v" "r = [] \<or> is_sep (hd r)"
  shows "read_requests (print_int v @ r) (n, a) = Option.bind (wr a n v) (\<lambda>a'. read_requests (tl r) (n + 1, a'))"
proof -
  have st: "strtok (print_int v @ r) = Some (print_int v, tl r)" by (rule strtok_word [OF print_int_word assms(2)])
  have at: "atoi (print_int v) = Some v" using assms(1) by (intro atoi_print_int) (simp_all add: int_range_def)
  show ?thesis
    by (subst read_requests.simps) (simp only: st at option.case prod.case Option.bind.bind_lunit fst_conv snd_conv)
qed

lemma read_nothing: "read_requests [] st = Some st"
  by (subst read_requests.simps) (simp add: strtok_def)

text \<open>Every number lands in the array at the next index; one past the end is undefined.\<close>

definition stored :: "int \<Rightarrow> int list \<Rightarrow> int list \<Rightarrow> (int \<times> int list) option" where
  "stored n rs a = (if n + int (length rs) \<le> int (length a)
     then Some (n + int (length rs), take (nat n) a @ rs @ drop (nat n + length rs) a) else None)"

lemma stored_Cons:
  assumes "0 \<le> n"
  shows "Option.bind (wr a n v) (\<lambda>a'. stored (n + 1) rs a') = stored n (v # rs) a"
proof (cases "n < int (length a)")
  case True
  let ?a = "a[nat n := v]"
  have nn: "nat (n + 1) = Suc (nat n)" "nat n < length a" using True assms by auto
  have "take (nat (n + 1)) ?a = take (nat n) a @ [v]" using nn by (simp add: take_Suc_conv_app_nth)
  moreover have "drop (nat (n + 1) + length rs) ?a = drop (nat n + length (v # rs)) a" using nn by simp
  ultimately show ?thesis using True assms by (simp add: stored_def)
next
  case False
  then show ?thesis by (simp add: wr_def stored_def)
qed

lemma read_requests_ok:
  assumes "rs \<noteq> []" "\<forall>v \<in> set rs. int_range v" "0 \<le> n"
  shows "read_requests (request_line rs @ [newline]) (n, a) = stored n rs a"
  using assms
proof (induction rs arbitrary: n a rule: request_line.induct)
  case (2 v)
  have "stored (n + 1) [] a' = Some (n + 1, a')" if "wr a n v = Some a'" for a'
    using that by (auto simp: stored_def wr_def split: if_splits)
  then have "Option.bind (wr a n v) (\<lambda>a'. Some (n + 1, a')) = Option.bind (wr a n v) (stored (n + 1) [])"
    by (cases "wr a n v") simp_all
  with read_token [of v "[newline]" n a] 2 stored_Cons [of n a v "[]"] show ?case
    by (simp add: is_sep_def read_nothing)
next
  case (3 v w rs)
  then show ?case
    using read_token [of v "CHR '' '' # request_line (w # rs) @ [newline]" n a] stored_Cons [of n a v "w # rs"]
    by (simp add: is_sep_def)
qed simp

section \<open>Runs of the program\<close>

text \<open>The sizes of the arrays, whatever they hold.\<close>

definition locals_ok :: "page_locals \<Rightarrow> bool" where
  "locals_ok u \<longleftrightarrow> int (length (local_buf u)) = MAX_SIZE * 5 \<and> int (length (local_string u)) = MAX_SIZE \<and>
     (\<forall>q \<in> {opt_queue u, fifo_queue u, lru_queue u, clock_queue u, clock_bits u}. int (length (q_arr q)) = MAX_SIZE)"

text \<open>An input file: the number of frames on the first line, the requests on the second.\<close>

definition page_text :: "int \<Rightarrow> int list \<Rightarrow> string" where
  "page_text mx rs = print_int mx @ newline # request_line rs @ [newline]"

definition page_file :: "int \<Rightarrow> int list \<Rightarrow> bool" where
  "page_file mx rs \<longleftrightarrow> int_range mx \<and> rs \<noteq> [] \<and> (\<forall>v \<in> set rs. int_range v) \<and>
     int (length (request_line rs)) + 1 < MAX_SIZE * 5"

lemma print_int_chars: "c \<in> set (print_int v) \<Longrightarrow> c \<noteq> newline \<and> c \<noteq> NUL"
proof -
  assume "c \<in> set (print_int v)"
  then have "c = CHR ''-'' \<or> is_digit c" by (auto simp: print_int_def print_nat_digits split: if_splits)
  then show ?thesis by (auto simp: newline_def NUL_def is_digit_def)
qed

lemma request_line_chars: "c \<in> set (request_line rs) \<Longrightarrow> c \<noteq> newline \<and> c \<noteq> NUL"
  by (induction rs rule: request_line.induct) (auto simp: print_int_chars newline_def NUL_def dest: print_int_chars)

lemma request_line_head:
  assumes "rs \<noteq> []"
  shows "request_line rs \<noteq> [] \<and> \<not> is_space (hd (request_line rs))"
  using assms print_int_head by (cases rs rule: request_line.cases) auto

lemma read_max_ok:
  assumes "page_file mx rs"
  shows "read_max mx0 (page_text mx rs) = Some (mx, request_line rs @ [newline])"
proof -
  have "scan_field (\<lambda>v _. v) (mx0, page_text mx rs, True) = Some (mx, newline # request_line rs @ [newline], True)"
    using scan_field_print [of mx "[]" "newline # request_line rs @ [newline]"] assms
    by (simp add: page_text_def page_file_def)
  moreover have "skip_space (newline # request_line rs @ [newline]) = request_line rs @ [newline]"
    using request_line_head [of rs] assms skip_space_append [of "[newline]"] skip_space_none [of "request_line rs @ [newline]"]
    by (simp add: page_file_def)
  ultimately show ?thesis by (simp add: read_max_def)
qed

lemma read_line_ok:
  assumes "page_file mx rs" "int (length buf) = MAX_SIZE * 5"
  shows "\<exists>b. read_line buf (request_line rs @ [newline]) = Some b \<and> cstr b = Some (request_line rs @ [newline])"
proof -
  let ?l = "request_line rs"
  have len: "Suc (length ?l) \<le> length buf - 1" "Suc (length ?l) < length buf"
    using assms by (auto simp: page_file_def MAX_SIZE_def)
  have tw: "takeWhile (\<lambda>c. c \<noteq> newline) (?l @ [newline]) = ?l"
    using takeWhile_all_append(1) [of ?l "\<lambda>c. c \<noteq> newline" "[newline]"] request_line_chars by simp
  have "fgets (length buf) (?l @ [newline]) = Some (?l @ [newline], [])"
    using len(1) tw by (simp add: fgets_def Let_def)
  moreover have "no_nul (?l @ [newline])"
    using request_line_chars by (auto simp: no_nul_def newline_def NUL_def)
  with len(2) obtain b where "strcpy buf (?l @ [newline]) = Some b" "text_of b = ?l @ [newline]" "NUL \<in> set b"
    using strcpy_ok [of "?l @ [newline]" buf] by auto
  ultimately show ?thesis by (simp add: read_line_def)
qed

text \<open>What \<open>main\<close> does after reading: with too many requests it has already failed.\<close>

lemma page_main_reads:
  assumes "open_file f = Some (page_text mx rs)" "page_file mx rs" "locals_ok u"
  shows "page_main u open_file [f] = do {
    (n, string) \<leftarrow> stored 0 rs (local_string u);
    r1 \<leftarrow> OPT (opt_queue u) (opt_delete u) mx n string;
    r2 \<leftarrow> FIFO (fifo_queue u) mx n string;
    r3 \<leftarrow> LRU (lru_queue u) mx n string;
    r4 \<leftarrow> CLOCK (clock_queue u) (clock_bits u) mx n string;
    Some [Report r1, EmptyLine, Report r2, EmptyLine, Report r3, EmptyLine, Report r4] }"
proof -
  obtain b where b: "read_line (local_buf u) (request_line rs @ [newline]) = Some b"
      "cstr b = Some (request_line rs @ [newline])"
    using read_line_ok [OF assms(2)] assms(3) by (auto simp: locals_ok_def)
  have "read_requests (request_line rs @ [newline]) (0, local_string u) = stored 0 rs (local_string u)"
    using assms(2) by (intro read_requests_ok) (auto simp: page_file_def)
  with assms(1) b read_max_ok [OF assms(2)] show ?thesis by (simp add: page_main_def)
qed

lemma page_sim_input:
  assumes "locals_ok u" "0 < mx" "mx < MAX_SIZE" "int (length rs) \<le> MAX_SIZE"
    and "q \<in> {opt_queue u, fifo_queue u, lru_queue u, clock_queue u, clock_bits u}"
  defines "string \<equiv> rs @ drop (length rs) (local_string u)"
  shows "sim_input q mx (int (length rs)) string" "requests (int (length rs)) string = rs"
  using assms by (auto simp: sim_input_def requests_def locals_ok_def)

section \<open>Results\<close>

text \<open>
  C17. A whole run of the page replacement simulator: for a file with a number of frames
  between 1 and 999 and at most 1000 requests on a line that fits the buffer, whatever the
  uninitialised variables hold, the program prints four reports: the least number of faults
  that any demand-paging run has, and those of the FIFO, LRU and second-chance policies on
  the requests of the file.
\<close>

theorem page_main_correct:
  assumes "open_file f = Some (page_text mx rs)" "page_file mx rs" "locals_ok u"
    and "0 < mx" "mx < Page_Queue.MAX_SIZE" "int (length rs) \<le> Page_Queue.MAX_SIZE"
  shows "\<exists>m. page_main u open_file [f] = Some [Report (fault_report (int (length rs)) m), EmptyLine,
      Report (fault_report (int (length rs)) (fifo_faults (nat mx) [] rs)), EmptyLine,
      Report (fault_report (int (length rs)) (lru_faults (nat mx) [] rs)), EmptyLine,
      Report (fault_report (int (length rs)) (clock_faults (nat mx) [] [] 0 rs))] \<and>
    paging (nat mx) {} rs m \<and> (\<forall>m'. paging (nat mx) {} rs m' \<longrightarrow> m \<le> m')"
proof -
  let ?n = "int (length rs)" and ?s = "rs @ drop (length rs) (local_string u)"
  have st: "stored 0 rs (local_string u) = Some (?n, ?s)" using assms(3,6) by (simp add: stored_def locals_ok_def)
  note inp = page_sim_input [OF assms(3-6)]
  obtain m where m: "OPT (opt_queue u) (opt_delete u) mx ?n ?s = Some (fault_report ?n m)" "belady (nat mx) {} rs m"
    using OPT_ok [OF inp(1), of "opt_queue u" "opt_delete u"] inp(2) [of "opt_queue u"] by auto
  have "FIFO (fifo_queue u) mx ?n ?s = Some (fault_report ?n (fifo_faults (nat mx) [] rs))"
    "LRU (lru_queue u) mx ?n ?s = Some (fault_report ?n (lru_faults (nat mx) [] rs))"
    "CLOCK (clock_queue u) (clock_bits u) mx ?n ?s = Some (fault_report ?n (clock_faults (nat mx) [] [] 0 rs))"
    using FIFO_ok [OF inp(1), of "fifo_queue u"] LRU_ok [OF inp(1), of "lru_queue u"]
      CLOCK_ok [OF inp(1), of "clock_queue u" "clock_bits u"] inp(2) [of "opt_queue u"] assms(3)
    by (auto simp: locals_ok_def)
  with m(1) st page_main_reads [where open_file = open_file, OF assms(1-3)] have
    "page_main u open_file [f] = Some [Report (fault_report ?n m), EmptyLine,
      Report (fault_report ?n (fifo_faults (nat mx) [] rs)), EmptyLine,
      Report (fault_report ?n (lru_faults (nat mx) [] rs)), EmptyLine,
      Report (fault_report ?n (clock_faults (nat mx) [] [] 0 rs))]" by simp
  with belady_paging [OF m(2)] belady_optimal [OF m(2)] show ?thesis by auto
qed

definition sample_pages :: page_locals where
  "sample_pages = \<lparr>local_max = 7, local_buf = replicate 5000 (CHR ''x''), local_string = replicate 1000 5,
     opt_queue = zero_queue, opt_delete = 3, fifo_queue = zero_queue, lru_queue = zero_queue,
     clock_queue = zero_queue, clock_bits = zero_queue\<rparr>"

lemma sample_pages_ok: "locals_ok sample_pages"
  by (simp add: locals_ok_def sample_pages_def zero_queue_def Page_Queue.MAX_SIZE_def)

lemma small_requests:
  assumes "rs \<noteq> []" "\<forall>v \<in> set rs. 0 \<le> v \<and> v < 10"
  shows "length (request_line rs) + 1 = 2 * length rs" "\<forall>v \<in> set rs. int_range v"
proof -
  have one: "length (print_int v) = 1" if "0 \<le> v" "v < 10" for v :: int
    using that by (simp add: print_int_def print_nat.simps [of "nat v"])
  show "length (request_line rs) + 1 = 2 * length rs"
    using assms by (induction rs rule: request_line.induct) (auto simp: one)
  show "\<forall>v \<in> set rs. int_range v" using assms(2) by (auto simp: int_range_def INT_MIN_def INT_MAX_def)
qed

lemma sample_page_file:
  assumes "rs \<noteq> []" "\<forall>v \<in> set rs. 0 \<le> v \<and> v < 10" "length rs \<le> 2400"
  shows "page_file 3 rs"
  using assms(1,3) small_requests [OF assms(1,2)]
  by (simp add: page_file_def Page_Queue.MAX_SIZE_def int_range_def INT_MIN_def INT_MAX_def)

theorem page_main_correct_witness:
  "\<exists>m. page_main sample_pages (\<lambda>f. Some (page_text 3 [1, 2, 3, 4, 1, 2, 5])) [''in''] =
    Some [Report (fault_report 7 m), EmptyLine, Report (fault_report 7 7), EmptyLine,
      Report (fault_report 7 7), EmptyLine, Report (fault_report 7 7)] \<and> paging 3 {} [1, 2, 3, 4, 1, 2, 5 :: int] m"
proof -
  have "page_file 3 [1, 2, 3, 4, 1, 2, 5]" by (rule sample_page_file) simp_all
  from page_main_correct [where open_file = "\<lambda>f. Some (page_text 3 [1, 2, 3, 4, 1, 2, 5])" and f = "''in''",
      OF refl this sample_pages_ok]
  show ?thesis
    by (simp add: Page_Queue.MAX_SIZE_def clock_victim_def clock_order_def Let_def upt_rec fault_report_def) blast
qed

text \<open>
  The number of requests is not tested: when the line holds more than 1000 of them, which
  the buffer has room for, the program writes past the end of the request array.
\<close>

theorem page_main_too_many_requests:
  assumes "open_file f = Some (page_text mx rs)" "page_file mx rs" "locals_ok u"
    and "Page_Queue.MAX_SIZE < int (length rs)"
  shows "page_main u open_file [f] = None"
proof -
  have "stored 0 rs (local_string u) = None" using assms(3,4) by (simp add: stored_def locals_ok_def)
  with page_main_reads [where open_file = open_file, OF assms(1-3)] show ?thesis by simp
qed

theorem page_main_too_many_requests_witness:
  "page_main sample_pages (\<lambda>f. Some (page_text 3 (replicate 1001 4))) [''in''] = None"
proof -
  have "page_file 3 (replicate 1001 4)" by (rule sample_page_file) simp_all
  from page_main_too_many_requests [where open_file = "\<lambda>f. Some (page_text 3 (replicate 1001 4))" and f = "''in''",
      OF refl this sample_pages_ok]
  show ?thesis by (simp add: Page_Queue.MAX_SIZE_def)
qed

end
