(* ===== verification/Sched_Core.thy ===== *)
theory Sched_Core
  imports C_Base
begin

text \<open>
  What the four algorithms of \<open>src/Assignment3-3/cpu_scheduler.c\<close> share: the process
  table, the variables of the simulation loops, the statements all loops repeat (a process
  that ends, one millisecond of execution or idling, the metrics), and the invariant of a
  simulation. Progress of one round is stated as an interface and gives, once for all
  algorithms, that the simulation ends with every process finished.
\<close>

section \<open>The process table and the simulation state\<close>

record process =
  pid :: int
  arrival :: int
  burst :: int
  remain :: int
  start :: int
  finish :: int
  waiting :: int
  turnaround :: int
  response :: int
  ended :: int

text \<open>One entry of the Gantt chart: an empty millisecond or the process that ran.\<close>

datatype slot = Idle | Run int

record sched =
  plist :: "process list"
  fin_cnt :: int
  time :: int
  running :: int
  gantt :: "slot list"

definition sched_start :: "process list \<Rightarrow> sched" where
  "sched_start list = \<lparr>plist = list, fin_cnt = 0, time = 0, running = -1, gantt = []\<rparr>"

text \<open>\<open>running != -1 && list[running].remain == 0\<close>\<close>

definition run_over :: "sched \<Rightarrow> bool option" where
  "run_over s = (if running s = -1 then Some False
     else do { p \<leftarrow> rd (plist s) (running s); Some (remain p = 0) })"

text \<open>The running process has ended: note the time, mark it and count it.\<close>

definition finish_running :: "sched \<Rightarrow> sched option" where
  "finish_running s = do {
     p \<leftarrow> rd (plist s) (running s);
     l \<leftarrow> wr (plist s) (running s) (p\<lparr>finish := time s, ended := 1\<rparr>);
     c \<leftarrow> c_int (fin_cnt s + 1);
     Some (s\<lparr>plist := l, running := -1, fin_cnt := c\<rparr>)
   }"

definition run_one :: "sched \<Rightarrow> sched option" where
  "run_one s = do {
     p \<leftarrow> rd (plist s) (running s);
     r \<leftarrow> c_int (remain p - 1);
     l \<leftarrow> wr (plist s) (running s) (p\<lparr>remain := r\<rparr>);
     Some (s\<lparr>plist := l, gantt := gantt s @ [Run (pid p)]\<rparr>)
   }"

text \<open>
  The end of a round: with no process to run an empty slot is printed while processes are
  left, otherwise the running process gets its millisecond; then \<open>time++\<close>.
\<close>

definition idle_slot :: "int \<Rightarrow> sched \<Rightarrow> sched" where
  "idle_slot n s = (if fin_cnt s < n then s\<lparr>gantt := gantt s @ [Idle]\<rparr> else s)"

definition tick :: "sched \<Rightarrow> sched option" where
  "tick s = do { t \<leftarrow> c_int (time s + 1); Some (s\<lparr>time := t\<rparr>) }"

definition exec_round :: "int \<Rightarrow> sched \<Rightarrow> sched option" where
  "exec_round n s = (if running s = -1 then tick (idle_slot n s) else Option.bind (run_one s) tick)"

definition set_start :: "sched \<Rightarrow> int \<Rightarrow> sched option" where
  "set_start s i = do {
     p \<leftarrow> rd (plist s) i;
     l \<leftarrow> wr (plist s) i (p\<lparr>start := time s\<rparr>);
     Some (s\<lparr>plist := l\<rparr>)
   }"

text \<open>The loops that fill in the metrics at the end.\<close>

definition each_process ::
  "(process \<Rightarrow> process option) \<Rightarrow> int \<Rightarrow> process list \<Rightarrow> process list option" where
  "each_process f n l = for_range 0 n (\<lambda>i l. do { p \<leftarrow> rd l i; p' \<leftarrow> f p; wr l i p' }) l"

definition calc_waiting :: "process \<Rightarrow> process option" where
  "calc_waiting p = do { w \<leftarrow> c_int (start p - arrival p); Some (p\<lparr>waiting := w\<rparr>) }"

definition calc_waiting_preemptive :: "process \<Rightarrow> process option" where
  "calc_waiting_preemptive p = do {
     t \<leftarrow> c_int (finish p - arrival p); w \<leftarrow> c_int (t - burst p); Some (p\<lparr>waiting := w\<rparr>) }"

definition calc_response :: "process \<Rightarrow> process option" where
  "calc_response p = do { w \<leftarrow> c_int (start p - arrival p); Some (p\<lparr>response := w\<rparr>) }"

definition calc_turnaround :: "process \<Rightarrow> process option" where
  "calc_turnaround p = do { w \<leftarrow> c_int (finish p - arrival p); Some (p\<lparr>turnaround := w\<rparr>) }"

definition metrics ::
  "(process \<Rightarrow> process option) \<Rightarrow> int \<Rightarrow> process list \<Rightarrow> process list option" where
  "metrics waiting_of n l = do {
     l1 \<leftarrow> each_process waiting_of n l;
     l2 \<leftarrow> each_process calc_response n l1;
     each_process calc_turnaround n l2
   }"

section \<open>Admissible process tables\<close>

definition total_burst :: "process list \<Rightarrow> int" where
  "total_burst l = sum_list (map burst l)"

definition total_remain :: "process list \<Rightarrow> int" where
  "total_remain l = sum_list (map remain l)"

fun last_arrival :: "process list \<Rightarrow> int" where
  "last_arrival [] = 0"
| "last_arrival (p # l) = max (arrival p) (last_arrival l)"

lemma last_arrival_ge: "p \<in> set l \<Longrightarrow> arrival p \<le> last_arrival l"
  by (induction l) auto

lemma last_arrival_nonneg: "0 \<le> last_arrival l"
  by (induction l) auto

text \<open>
  The jobs the simulations are shown correct for: distinct pids, arrivals from 0 on, bursts
  of at least one millisecond, and a makespan that fits in an \<open>int\<close>.
\<close>

definition jobs_ok :: "process list \<Rightarrow> bool" where
  "jobs_ok l \<longleftrightarrow> (\<forall>p \<in> set l. 0 \<le> arrival p \<and> 1 \<le> burst p) \<and> distinct (map pid l) \<and>
     int (length l) < INT_MAX \<and> last_arrival l + total_burst l < INT_MAX"

lemma jobs_ok_burst:
  assumes "jobs_ok l" "i < length l"
  shows "1 \<le> burst (l ! i)" "0 \<le> arrival (l ! i)" "burst (l ! i) < INT_MAX"
proof -
  show "1 \<le> burst (l ! i)" "0 \<le> arrival (l ! i)" using assms by (auto simp: jobs_ok_def)
  have "burst (l ! i) \<le> total_burst l"
    unfolding total_burst_def using assms by (intro member_le_sum_list) (auto simp: jobs_ok_def)
  with assms(1) last_arrival_nonneg [of l] show "burst (l ! i) < INT_MAX"
    by (auto simp: jobs_ok_def)
qed

text \<open>The table as \<open>init_list\<close> builds it: nothing has run yet.\<close>

definition fresh_table :: "process list \<Rightarrow> bool" where
  "fresh_table l \<longleftrightarrow> jobs_ok l \<and> (\<forall>p \<in> set l. remain p = burst p \<and> ended p = 0)"

section \<open>The invariant of a simulation\<close>

text \<open>The chart shows a process only between its start and its finish.\<close>

definition runs_within :: "slot list \<Rightarrow> process \<Rightarrow> bool" where
  "runs_within g p \<longleftrightarrow> (\<forall>k < length g. g ! k = Run (pid p) \<longrightarrow>
     start p \<le> int k \<and> (ended p = 1 \<longrightarrow> int k < finish p))"

lemma runs_within_snoc [simp]:
  "runs_within (g @ [x]) p \<longleftrightarrow> runs_within g p \<and>
    (x = Run (pid p) \<longrightarrow> start p \<le> int (length g) \<and> (ended p = 1 \<longrightarrow> int (length g) < finish p))"
  by (auto simp: runs_within_def nth_append less_Suc_eq)

lemma runs_within_none: "count_list g (Run (pid p)) = 0 \<Longrightarrow> runs_within g p"
  by (auto simp: runs_within_def count_list_0_iff in_set_conv_nth)

lemma runs_within_remain [simp]: "runs_within g (p\<lparr>remain := x\<rparr>) = runs_within g p"
  by (simp add: runs_within_def)

lemma runs_within_finish: "runs_within g p \<Longrightarrow> int (length g) = t \<Longrightarrow> runs_within g (p\<lparr>finish := t, ended := 1\<rparr>)"
  by (auto simp: runs_within_def)

text \<open>
  Start and finish can be read off the chart: the first slot of a process that has run is its
  start, the last slot of one that has ended comes right before its finish, and one that has
  run for all its burst but was not yet seen to end has the last slot of the chart.
\<close>

definition chart_ends :: "slot list \<Rightarrow> process \<Rightarrow> bool" where
  "chart_ends g p \<longleftrightarrow>
     (remain p < burst p \<longrightarrow> 0 \<le> start p \<and> start p < int (length g) \<and> g ! nat (start p) = Run (pid p)) \<and>
     (ended p = 1 \<longrightarrow> 0 < finish p \<and> finish p \<le> int (length g) \<and> g ! nat (finish p - 1) = Run (pid p)) \<and>
     (ended p = 0 \<and> remain p = 0 \<longrightarrow> g \<noteq> [] \<and> last g = Run (pid p))"

lemma chart_ends_snoc:
  "chart_ends g p \<Longrightarrow> (ended p = 0 \<Longrightarrow> remain p \<noteq> 0) \<Longrightarrow> chart_ends (g @ [x]) p"
  by (auto simp: chart_ends_def nth_append)

lemma chart_ends_runs:
  assumes "chart_ends g p" "ended p = 0" "remain p = burst p \<Longrightarrow> start p = int (length g)"
  shows "chart_ends (g @ [Run (pid p)]) (p\<lparr>remain := remain p - 1\<rparr>)"
  using assms by (cases "remain p < burst p"; cases "remain p = burst p") (auto simp: chart_ends_def nth_append)

lemma chart_ends_finish:
  assumes "chart_ends g p" "ended p = 0" "remain p = 0" "int (length g) = t"
  shows "chart_ends g (p\<lparr>finish := t, ended := 1\<rparr>)"
proof -
  have "nat (t - 1) = length g - 1" using assms(4) by simp
  with assms show ?thesis by (auto simp: chart_ends_def last_conv_nth)
qed

text \<open>What holds of one process at a given time, with \<open>p0\<close> its entry at the start.\<close>

definition proc_inv :: "int \<Rightarrow> int \<Rightarrow> slot list \<Rightarrow> int \<Rightarrow> process \<Rightarrow> process \<Rightarrow> bool" where
  "proc_inv t r g i p0 p \<longleftrightarrow>
     pid p = pid p0 \<and> arrival p = arrival p0 \<and> burst p = burst p0 \<and>
     0 \<le> remain p \<and> remain p \<le> burst p \<and> (ended p = 0 \<or> ended p = 1) \<and>
     (ended p = 1 \<longrightarrow> remain p = 0 \<and> start p + burst p \<le> finish p \<and> finish p \<le> t) \<and>
     (ended p = 0 \<and> i \<noteq> r \<longrightarrow> 1 \<le> remain p) \<and>
     (remain p < burst p \<longrightarrow> arrival p \<le> start p \<and> start p + (burst p - remain p) \<le> t) \<and>
     int (count_list g (Run (pid p))) = burst p - remain p \<and> runs_within g p \<and> chart_ends g p \<and>
     (\<forall>k < length g. g ! k = Idle \<longrightarrow> int k < arrival p \<or> ended p = 1 \<and> finish p \<le> int k)"

text \<open>The chart shows the processes of the table, and nothing after the last one ended.\<close>

definition chart_ok :: "bool \<Rightarrow> process list \<Rightarrow> slot list \<Rightarrow> bool" where
  "chart_ok over l0 g \<longleftrightarrow> set g \<subseteq> insert Idle (Run ` pid ` set l0) \<and> (over \<and> g \<noteq> [] \<longrightarrow> last g \<noteq> Idle)"

lemma chart_ok_Nil [simp]: "chart_ok over l0 []"
  by (simp add: chart_ok_def)

lemma chart_ok_idles: "chart_ok False l0 g \<Longrightarrow> chart_ok False l0 (g @ [Idle])"
  by (simp add: chart_ok_def)

lemma chart_ok_runs: "chart_ok b l0 g \<Longrightarrow> q \<in> pid ` set l0 \<Longrightarrow> chart_ok over l0 (g @ [Run q])"
  by (simp add: chart_ok_def)

lemma chart_ok_over: "chart_ok b l0 g \<Longrightarrow> last g \<noteq> Idle \<Longrightarrow> chart_ok over l0 g"
  by (simp add: chart_ok_def)

definition core :: "int \<Rightarrow> process list \<Rightarrow> sched \<Rightarrow> bool" where
  "core n l0 s \<longleftrightarrow> jobs_ok l0 \<and> n = int (length l0) \<and> length (plist s) = length l0 \<and>
     (\<forall>i < length l0.
        proc_inv (time s) (running s) (gantt s) (int i) (l0 ! i) (plist s ! i)) \<and>
     (running s = -1 \<or> 0 \<le> running s \<and> running s < n \<and>
        ended (plist s ! nat (running s)) = 0 \<and>
        arrival (plist s ! nat (running s)) \<le> time s) \<and>
     fin_cnt s = sum_list (map ended (plist s)) \<and> 0 \<le> time s \<and> time s \<le> INT_MAX \<and>
     chart_ok (n \<le> fin_cnt s) l0 (gantt s) \<and>
     (fin_cnt s < n \<longrightarrow> int (length (gantt s)) = time s)"

definition time_ok :: "process list \<Rightarrow> sched \<Rightarrow> bool" where
  "time_ok l0 s \<longleftrightarrow> time s \<le> last_arrival l0 + (total_burst l0 - total_remain (plist s))"

text \<open>What a simulation still has to do: run, wait for arrivals, count processes out.\<close>

definition work_left :: "int \<Rightarrow> process list \<Rightarrow> sched \<Rightarrow> nat" where
  "work_left n l0 s =
     nat (total_remain (plist s) + max 0 (last_arrival l0 - time s) + (n - fin_cnt s))"

definition loop_inv :: "int \<Rightarrow> process list \<Rightarrow> sched \<Rightarrow> bool" where
  "loop_inv n l0 s \<longleftrightarrow> core n l0 s \<and> (fin_cnt s < n \<longrightarrow> time_ok l0 s)"

lemma coreD:
  assumes "core n l0 s"
  shows "jobs_ok l0" "n = int (length l0)" "length (plist s) = length l0"
    "fin_cnt s = sum_list (map ended (plist s))" "0 \<le> time s"
    "fin_cnt s < n \<Longrightarrow> int (length (gantt s)) = time s" "time s \<le> INT_MAX"
    "chart_ok (n \<le> fin_cnt s) l0 (gantt s)"
  using assms by (auto simp: core_def)

lemma core_proc:
  "core n l0 s \<Longrightarrow> i < length l0 \<Longrightarrow>
    proc_inv (time s) (running s) (gantt s) (int i) (l0 ! i) (plist s ! i)"
  by (simp add: core_def)

lemma core_running:
  assumes "core n l0 s" "running s \<noteq> -1"
  obtains i where "running s = int i" "i < length l0" "ended (plist s ! i) = 0"
    "arrival (plist s ! i) \<le> time s"
  using assms that [of "nat (running s)"] by (auto simp: core_def)

lemma core_set:
  assumes "core n l0 s" "p \<in> set (plist s)"
  shows "0 \<le> remain p" "ended p = 0 \<or> ended p = 1"
proof -
  obtain i where "i < length l0" "p = plist s ! i"
    using assms(2) coreD(3) [OF assms(1)] by (auto simp: in_set_conv_nth)
  with core_proc [OF assms(1)] show "0 \<le> remain p" "ended p = 0 \<or> ended p = 1"
    by (auto simp: proc_inv_def)
qed

lemma core_ended_le:
  assumes "core n l0 s"
  shows "\<forall>p \<in> set (plist s). ended p \<le> 1"
  using core_set(2) [OF assms] by force

lemma core_fin_nonneg:
  assumes "core n l0 s"
  shows "0 \<le> fin_cnt s"
  unfolding coreD(4) [OF assms] using core_set(2) [OF assms] by (force intro!: sum_list_nonneg)

lemma core_fin_le:
  assumes "core n l0 s"
  shows "fin_cnt s \<le> n"
  using sum_le_length [OF core_ended_le [OF assms]] coreD(2-4) [OF assms] by simp

lemma core_all_ended:
  assumes "core n l0 s" "\<not> fin_cnt s < n"
  shows "\<forall>p \<in> set (plist s). ended p = 1"
  using sum_eq_lengthD [OF core_ended_le [OF assms(1)]] assms coreD(2-4) [OF assms(1)] by simp

lemma core_unended:
  assumes "core n l0 s" "i < length l0" "ended (plist s ! i) = 0"
  shows "fin_cnt s < n"
  using core_all_ended [OF assms(1)] assms coreD(3) [OF assms(1)] by (metis nth_mem zero_neq_one)

lemma total_remain_nonneg:
  assumes "core n l0 s"
  shows "0 \<le> total_remain (plist s)"
  using core_set(1) [OF assms] by (auto simp: total_remain_def intro!: sum_list_nonneg)

lemma core_start:
  assumes "fresh_table l" "n = int (length l)"
  shows "loop_inv n l (sched_start l)"
proof -
  have "map ended l = map (\<lambda>_. 0) l" "map remain l = map burst l"
    using assms by (auto simp: fresh_table_def)
  then have "sum_list (map ended l) = 0" "sum_list (map remain l) = sum_list (map burst l)"
    by (simp_all only: sum_list_0)
  with assms last_arrival_nonneg [of l] jobs_ok_burst [of l] show ?thesis
    by (force simp: loop_inv_def core_def fresh_table_def sched_start_def proc_inv_def
        time_ok_def total_remain_def total_burst_def INT_MAX_def runs_within_def chart_ends_def)
qed

section \<open>The statements of a round keep the invariant\<close>

lemma idle_snoc:
  "(\<forall>k < Suc (length g). (g @ [x]) ! k = Idle \<longrightarrow> Q k) \<longleftrightarrow>
    (\<forall>k < length g. g ! k = Idle \<longrightarrow> Q k) \<and> (x = Idle \<longrightarrow> Q (length g))"
  by (auto simp: nth_append less_Suc_eq)

lemma proc_inv_other_runs:
  "proc_inv t r g i p0 p \<Longrightarrow> i \<noteq> r \<Longrightarrow> pid p0 \<noteq> q \<Longrightarrow> proc_inv (t + 1) r (g @ [Run q]) i p0 p"
  unfolding proc_inv_def length_append_singleton idle_snoc by (auto intro: chart_ends_snoc)

lemma proc_inv_runs:
  "proc_inv t r g i p0 p \<Longrightarrow> int (length g) = t \<Longrightarrow> i = r \<Longrightarrow> ended p = 0 \<Longrightarrow> 1 \<le> remain p \<Longrightarrow> arrival p \<le> t \<Longrightarrow>
    (remain p = burst p \<Longrightarrow> start p = t) \<Longrightarrow>
    proc_inv (t + 1) r (g @ [Run (pid p)]) i p0 (p\<lparr>remain := remain p - 1\<rparr>)"
  using chart_ends_runs [of g p] unfolding proc_inv_def length_append_singleton idle_snoc by auto

lemma proc_inv_idles:
  "proc_inv t r g i p0 p \<Longrightarrow> i \<noteq> r \<Longrightarrow> int (length g) = t \<Longrightarrow> (ended p = 0 \<Longrightarrow> t < arrival p) \<Longrightarrow>
    proc_inv (t + 1) r (g @ [Idle]) i p0 p"
  unfolding proc_inv_def length_append_singleton idle_snoc by (auto intro: chart_ends_snoc)

lemma proc_inv_later: "proc_inv t r g i p0 p \<Longrightarrow> proc_inv (t + 1) r g i p0 p"
  by (auto simp: proc_inv_def)

lemma proc_inv_pid: "proc_inv t r g i p0 p \<Longrightarrow> pid p = pid p0"
  by (simp add: proc_inv_def)

lemma run_over_ok:
  assumes "core n l0 s"
  shows "run_over s = Some (running s \<noteq> -1 \<and> remain (plist s ! nat (running s)) = 0)"
  using assms by (auto simp: run_over_def core_def)

text \<open>A process that ends: the others are not touched, and all that are left have work.\<close>

lemma finish_running_ok:
  assumes c: "core n l0 s" and r: "running s \<noteq> -1" and z: "remain (plist s ! nat (running s)) = 0"
  shows "\<exists>s'. finish_running s = Some s' \<and> core n l0 s' \<and> running s' = -1 \<and> time s' = time s \<and>
    gantt s' = gantt s \<and> fin_cnt s' = fin_cnt s + 1 \<and>
    plist s' = (plist s)[nat (running s) :=
      (plist s ! nat (running s))\<lparr>finish := time s, ended := 1\<rparr>] \<and>
    total_remain (plist s') = total_remain (plist s)"
proof -
  obtain i where i: "running s = int i" "i < length l0" "ended (plist s ! i) = 0"
    using core_running [OF c r] by blast
  let ?i = i and ?p = "plist s ! i"
  let ?p' = "?p\<lparr>finish := time s, ended := 1\<rparr>"
  let ?s' = "s\<lparr>plist := (plist s)[?i := ?p'], running := -1, fin_cnt := fin_cnt s + 1\<rparr>"
  have len: "length (plist s) = length l0" using c by (rule coreD)
  have fin: "fin_cnt s < n" using core_unended [OF c i(2,3)] .
  moreover have "n < INT_MAX" "0 \<le> fin_cnt s"
    using coreD(1,2) [OF c] core_fin_nonneg [OF c] by (auto simp: jobs_ok_def)
  ultimately have "finish_running s = Some ?s'"
    using i len by (simp add: finish_running_def c_int_def INT_MIN_def)
  moreover have "core n l0 ?s'"
  proof -
    have b: "1 \<le> burst (l0 ! ?i)" using coreD(1) [OF c] i(2) by (rule jobs_ok_burst)
    have k: "proc_inv (time s) (-1) (gantt s) (int k) (l0 ! k) ((plist s)[?i := ?p'] ! k)"
      if "k < length l0" for k
      using core_proc [OF c that] i len that b z runs_within_finish [OF _ coreD(6) [OF c fin], of ?p]
        chart_ends_finish [OF _ _ _ coreD(6) [OF c fin], of ?p]
      by (cases "k = ?i") (auto simp: proc_inv_def)
    have "sum_list (map ended ((plist s)[?i := ?p'])) = fin_cnt s + 1"
      using i len c by (simp add: sum_map_update core_def)
    moreover have "last (gantt s) \<noteq> Idle" using core_proc [OF c i(2)] i z by (simp add: proc_inv_def chart_ends_def)
    ultimately show ?thesis using k c fin chart_ok_over [OF coreD(8) [OF c]] by (simp add: core_def)
  qed
  moreover have "total_remain ((plist s)[?i := ?p']) = total_remain (plist s)"
    using i len by (simp add: total_remain_def sum_map_update)
  ultimately show ?thesis using i(1) by auto
qed

text \<open>One millisecond of the running process.\<close>

lemma exec_round_run:
  assumes c: "core n l0 s" and t: "time_ok l0 s" and i: "running s = int i" "i < length l0"
    and p: "p = plist s ! i" "ended p = 0" "1 \<le> remain p" "arrival p \<le> time s"
    and first: "remain p = burst p \<Longrightarrow> start p = time s"
  shows "\<exists>s'. exec_round n s = Some s' \<and> core n l0 s' \<and> time_ok l0 s' \<and>
    s' = s\<lparr>plist := (plist s)[i := p\<lparr>remain := remain p - 1\<rparr>],
           gantt := gantt s @ [Run (pid p)], time := time s + 1\<rparr> \<and>
    work_left n l0 s' < work_left n l0 s"
proof -
  let ?p' = "p\<lparr>remain := remain p - 1\<rparr>"
  let ?s' = "s\<lparr>plist := (plist s)[i := ?p'], gantt := gantt s @ [Run (pid p)], time := time s + 1\<rparr>"
  have len: "length (plist s) = length l0" using c by (rule coreD)
  have fin: "fin_cnt s < n" using core_unended [OF c i(2)] p by simp
  have pi: "proc_inv (time s) (int i) (gantt s) (int i) (l0 ! i) p"
    using core_proc [OF c i(2)] i p by simp
  have rem: "total_remain ((plist s)[i := ?p']) = total_remain (plist s) - 1"
    using i len p by (simp add: total_remain_def sum_map_update)
  have nn: "0 \<le> total_remain (plist s) - 1"
  proof -
    have "remain p \<le> total_remain (plist s)"
      unfolding total_remain_def using core_set(1) [OF c] len i p
      by (intro member_le_sum_list) auto
    with p show ?thesis by simp
  qed
  have bound: "time s + 1 \<le> INT_MAX" "remain p - 1 \<le> INT_MAX"
    using t nn coreD(1) [OF c] jobs_ok_burst(3) [OF coreD(1) [OF c] i(2)] pi
    by (auto simp: time_ok_def jobs_ok_def proc_inv_def)
  have "exec_round n s = Some ?s'"
    using bound i len p coreD(5) [OF c] by (simp add: exec_round_def tick_def idle_slot_def run_one_def c_int_def INT_MIN_def)
  moreover have "core n l0 ?s'"
  proof -
    have "proc_inv (time s + 1) (running s) (gantt s @ [Run (pid p)]) (int k) (l0 ! k)
        ((plist s)[i := ?p'] ! k)" if "k < length l0" for k
    proof (cases "k = i")
      case True
      then show ?thesis
        using proc_inv_runs [OF pi coreD(6) [OF c fin] _ p(2-4) first] i len by simp
    next
      case False
      have "pid (l0 ! k) \<noteq> pid (l0 ! i)"
        using coreD(1) [OF c] that i(2) False
        by (auto simp: jobs_ok_def distinct_conv_nth)
      with proc_inv_other_runs [OF core_proc [OF c that]] proc_inv_pid [OF pi] False i(1)
      show ?thesis by simp
    qed
    moreover have "sum_list (map ended ((plist s)[i := ?p'])) = fin_cnt s"
      using i len p c by (simp add: sum_map_update core_def)
    moreover have "pid p \<in> pid ` set l0" using proc_inv_pid [OF pi] i(2) by simp
    ultimately show ?thesis
      using c i p len fin bound(1) chart_ok_runs [OF coreD(8) [OF c]] by (simp add: core_def)
  qed
  moreover have "time_ok l0 ?s'" using t rem by (simp add: time_ok_def)
  moreover have "work_left n l0 ?s' < work_left n l0 s"
    using rem nn fin by (simp add: work_left_def max_def)
  ultimately show ?thesis by blast
qed

text \<open>A millisecond without a process to run: none of those left has arrived.\<close>

lemma exec_round_idle:
  assumes c: "core n l0 s" and t: "time_ok l0 s" and r: "running s = -1"
    and none: "\<And>i. i < length l0 \<Longrightarrow> ended (plist s ! i) = 0 \<Longrightarrow> time s < arrival (plist s ! i)"
  shows "\<exists>s'. exec_round n s = Some s' \<and> loop_inv n l0 s' \<and>
    s' = s\<lparr>gantt := (if fin_cnt s < n then gantt s @ [Idle] else gantt s), time := time s + 1\<rparr> \<and>
    (fin_cnt s < n \<longrightarrow> work_left n l0 s' < work_left n l0 s) \<and> work_left n l0 s' \<le> work_left n l0 s"
proof -
  let ?g = "if fin_cnt s < n then gantt s @ [Idle] else gantt s"
  let ?s' = "s\<lparr>gantt := ?g, time := time s + 1\<rparr>"
  have len: "length (plist s) = length l0" using c by (rule coreD)
  have nn: "0 \<le> total_remain (plist s)" using c by (rule total_remain_nonneg)
  have bound: "time s + 1 \<le> INT_MAX" using t nn coreD(1) [OF c] by (simp add: time_ok_def jobs_ok_def)
  then have "exec_round n s = Some ?s'"
    using r coreD(5) [OF c] by (simp add: exec_round_def tick_def idle_slot_def c_int_def INT_MIN_def)
  moreover have core': "core n l0 ?s'"
  proof -
    have "proc_inv (time s + 1) (-1) ?g (int k) (l0 ! k) (plist s ! k)" if "k < length l0" for k
      using core_proc [OF c that] proc_inv_idles [OF core_proc [OF c that]] none [OF that]
        coreD(6) [OF c] r by (auto intro: proc_inv_later)
    with c r bound chart_ok_idles [of l0 "gantt s"] show ?thesis by (cases "fin_cnt s < n") (simp_all add: core_def)
  qed
  moreover have "time s < last_arrival l0" if fin: "fin_cnt s < n"
  proof -
    have "\<exists>i < length l0. ended (plist s ! i) = 0"
    proof (rule ccontr)
      assume "\<not> ?thesis"
      then have "\<forall>p \<in> set (plist s). ended p = 1"
        using core_set(2) [OF c] len by (metis in_set_conv_nth)
      then have "map ended (plist s) = replicate (length (plist s)) 1"
        by (simp add: map_eq_replicate)
      then have "sum_list (map ended (plist s)) = int (length (plist s))"
        by (simp add: sum_list_replicate)
      with fin coreD(2-4) [OF c] show False by simp
    qed
    then obtain i where "i < length l0" "ended (plist s ! i) = 0" by blast
    with none [of i] core_proc [OF c, of i] last_arrival_ge [of "l0 ! i" l0] show ?thesis
      by (auto simp: proc_inv_def)
  qed
  moreover have "total_remain (plist s) \<le> total_burst l0"
  proof -
    have "remain (plist s ! k) \<le> burst (l0 ! k)" if "k < length l0" for k
      using core_proc [OF c that] by (simp add: proc_inv_def)
    then show ?thesis
      unfolding total_remain_def total_burst_def using len by (intro sum_list_mono2) auto
  qed
  ultimately show ?thesis
    using nn core_fin_le [OF c] t by (auto simp: loop_inv_def time_ok_def work_left_def)
qed

text \<open>
  A preemptive algorithm first counts out a process that ended, and then gives the CPU to a
  process of its choice, which may have run before.
\<close>

definition runnable :: "sched \<Rightarrow> nat \<Rightarrow> bool" where
  "runnable s i \<longleftrightarrow> i < length (plist s) \<and> arrival (plist s ! i) \<le> time s \<and> ended (plist s ! i) = 0"

definition give_cpu :: "sched \<Rightarrow> int \<Rightarrow> sched option" where
  "give_cpu s i = do {
     p \<leftarrow> rd (plist s) i;
     if burst p = remain p then set_start (s\<lparr>running := i\<rparr>) i else Some (s\<lparr>running := i\<rparr>)
   }"

definition has_work :: "sched \<Rightarrow> bool" where
  "has_work s \<longleftrightarrow> (\<forall>p \<in> set (plist s). ended p = 0 \<longrightarrow> 1 \<le> remain p)"

text \<open>The last slot of the chart belongs to the running process or to one that ended.\<close>

definition last_ran :: "sched \<Rightarrow> bool" where
  "last_ran s \<longleftrightarrow> (\<forall>p \<in> set (plist s). gantt s \<noteq> [] \<and> last (gantt s) = Run (pid p) \<longrightarrow>
       ended p = 1 \<or> (running s \<noteq> -1 \<and> pid p = pid (plist s ! nat (running s)))) \<and>
     (running s \<noteq> -1 \<longrightarrow> gantt s \<noteq> [] \<and> last (gantt s) = Run (pid (plist s ! nat (running s))))"

lemma core_pid_neq:
  assumes c: "core n l0 s" and "i < length l0" "k < length l0" "k \<noteq> i"
  shows "pid (plist s ! k) \<noteq> pid (plist s ! i)"
proof -
  have "pid (l0 ! k) \<noteq> pid (l0 ! i)"
    using coreD(1) [OF c] assms(2-4) by (auto simp: jobs_ok_def distinct_conv_nth)
  with core_proc [OF c, of i] core_proc [OF c, of k] assms(2,3) show ?thesis by (simp add: proc_inv_def)
qed

lemma last_ran_finish:
  assumes c: "core n l0 s" and l: "last_ran s" and r: "running s \<noteq> -1"
    and s1: "plist s1 = (plist s)[nat (running s) := (plist s ! nat (running s))\<lparr>finish := time s, ended := 1\<rparr>]"
      "gantt s1 = gantt s" "running s1 = -1"
  shows "last_ran s1"
proof -
  obtain i where i: "running s = int i" "i < length l0" using core_running [OF c r] by blast
  have "ended (plist s1 ! k) = 1" if "k < length l0" "gantt s \<noteq> []" "last (gantt s) = Run (pid (plist s1 ! k))" for k
    using l that core_pid_neq [OF c i(2) that(1)] i s1 coreD(3) [OF c]
    by (cases "k = i") (auto simp: last_ran_def)
  then show ?thesis using s1 coreD(3) [OF c] by (auto simp: last_ran_def in_set_conv_nth)
qed

lemma last_ran_runs:
  assumes "running s = int i" "i < length (plist s)" "gantt s = g @ [Run (pid (plist s ! i))]"
  shows "last_ran s"
  using assms by (simp add: last_ran_def)

lemma last_ran_idles:
  "last_ran s \<Longrightarrow> running s = -1 \<Longrightarrow> last_ran (s\<lparr>gantt := (if b then gantt s @ [Idle] else gantt s), time := t\<rparr>)"
  by (simp add: last_ran_def)

lemma core_has_work:
  assumes c: "core n l0 s" and r: "running s = -1 \<or> remain (plist s ! nat (running s)) \<noteq> 0"
  shows "has_work s"
proof -
  have "1 \<le> remain (plist s ! i)" if "i < length l0" "ended (plist s ! i) = 0" for i
  proof (cases "running s = int i")
    case True
    with r core_proc [OF c that(1)] show ?thesis by (simp add: proc_inv_def)
  next
    case False
    with core_proc [OF c that(1)] that show ?thesis by (simp add: proc_inv_def)
  qed
  then show ?thesis using coreD(3) [OF c] by (auto simp: has_work_def in_set_conv_nth)
qed

lemma finish_step:
  assumes c: "core n l0 s" and t: "time_ok l0 s" and over: "run_over s = Some ov"
  shows "\<exists>s1. (if ov then finish_running s else Some s) = Some s1 \<and> core n l0 s1 \<and> time_ok l0 s1 \<and>
    has_work s1 \<and> time s1 = time s \<and> gantt s1 = gantt s \<and>
    (s1 = s \<and> \<not> ov \<or> running s1 = -1 \<and> ov \<and> work_left n l0 s1 < work_left n l0 s \<and>
      plist s1 = (plist s)[nat (running s) :=
        (plist s ! nat (running s))\<lparr>finish := time s, ended := 1\<rparr>])"
proof (cases ov)
  case True
  then have r: "running s \<noteq> -1" "remain (plist s ! nat (running s)) = 0"
    using run_over_ok [OF c] over by auto
  from finish_running_ok [OF c r] obtain s1 where s1: "finish_running s = Some s1" "core n l0 s1"
      "running s1 = -1" "time s1 = time s" "gantt s1 = gantt s" "fin_cnt s1 = fin_cnt s + 1"
      "plist s1 = (plist s)[nat (running s) := (plist s ! nat (running s))\<lparr>finish := time s, ended := 1\<rparr>]"
      "total_remain (plist s1) = total_remain (plist s)" by blast
  moreover have "work_left n l0 s1 < work_left n l0 s"
    using s1 core_fin_le [OF s1(2)] total_remain_nonneg [OF s1(2)] by (simp add: work_left_def)
  moreover have "time_ok l0 s1" using t s1 by (simp add: time_ok_def)
  ultimately show ?thesis using True core_has_work [OF s1(2)] by auto
next
  case False
  then show ?thesis using c t run_over_ok [OF c] over core_has_work [OF c] by auto
qed

lemma give_cpu_ok:
  assumes c: "core n l0 s" and t: "time_ok l0 s" and w: "has_work s" and i: "runnable s i"
  shows "\<exists>s'. give_cpu s (int i) = Some s' \<and> core n l0 s' \<and> time_ok l0 s' \<and>
    work_left n l0 s' = work_left n l0 s \<and>
    s' = s\<lparr>running := int i, plist := (plist s)[i := (if burst (plist s ! i) = remain (plist s ! i)
      then (plist s ! i)\<lparr>start := time s\<rparr> else plist s ! i)]\<rparr>"
proof -
  let ?p = "plist s ! i"
  let ?p' = "if burst ?p = remain ?p then ?p\<lparr>start := time s\<rparr> else ?p"
  let ?s' = "s\<lparr>running := int i, plist := (plist s)[i := ?p']\<rparr>"
  have len: "i < length (plist s)" "length (plist s) = length l0"
    using i coreD(3) [OF c] by (auto simp: runnable_def)
  have "give_cpu s (int i) = Some ?s'"
    using len by (simp add: give_cpu_def set_start_def)
  moreover have "core n l0 ?s'"
  proof -
    have "proc_inv (time s) (int i) (gantt s) (int k) (l0 ! k) ((plist s)[i := ?p'] ! k)"
      if k: "k < length l0" for k
    proof (cases "k = i")
      case True
      then show ?thesis using core_proc [OF c k] len i runs_within_none [of "gantt s" "?p\<lparr>start := time s\<rparr>"] w
        by (auto simp: proc_inv_def runnable_def has_work_def chart_ends_def)
    next
      case False
      moreover have "ended (plist s ! k) = 0 \<longrightarrow> 1 \<le> remain (plist s ! k)"
        using w k len(2) by (simp add: has_work_def)
      ultimately show ?thesis using core_proc [OF c k] by (auto simp: proc_inv_def)
    qed
    then show ?thesis using c i len by (auto simp: core_def runnable_def sum_map_update)
  qed
  moreover have "total_remain ((plist s)[i := ?p']) = total_remain (plist s)"
    using len by (simp add: total_remain_def sum_map_update)
  ultimately show ?thesis using t by (simp add: time_ok_def work_left_def)
qed

text \<open>The chosen process runs for a millisecond.\<close>

lemma cpu_round:
  assumes c: "core n l0 s" and t: "time_ok l0 s" and w: "has_work s" and i: "runnable s i"
  shows "\<exists>s2 s' p'. give_cpu s (int i) = Some s2 \<and> exec_round n s2 = Some s' \<and>
    core n l0 s2 \<and> time_ok l0 s2 \<and> core n l0 s' \<and> time_ok l0 s' \<and>
    work_left n l0 s' < work_left n l0 s \<and> running s2 = int i \<and>
    s' = s\<lparr>running := int i, plist := (plist s)[i := p'],
      gantt := gantt s @ [Run (pid (plist s ! i))], time := time s + 1\<rparr> \<and>
    p' = (plist s ! i)\<lparr>remain := remain (plist s ! i) - 1,
      start := (if burst (plist s ! i) = remain (plist s ! i) then time s else start (plist s ! i))\<rparr>"
proof -
  let ?p = "plist s ! i"
  let ?q = "if burst ?p = remain ?p then ?p\<lparr>start := time s\<rparr> else ?p"
  let ?p' = "?p\<lparr>remain := remain ?p - 1, start := (if burst ?p = remain ?p then time s else start ?p)\<rparr>"
  let ?s2 = "s\<lparr>running := int i, plist := (plist s)[i := ?q]\<rparr>"
  have len: "i < length (plist s)" "length (plist s) = length l0" "ended ?p = 0" "arrival ?p \<le> time s"
    using i coreD(3) [OF c] by (auto simp: runnable_def)
  have s2: "give_cpu s (int i) = Some ?s2" "core n l0 ?s2" "time_ok l0 ?s2" "work_left n l0 ?s2 = work_left n l0 s"
    using give_cpu_ok [OF c t w i] by auto
  have q: "plist ?s2 ! i = ?q" "ended ?q = 0" "arrival ?q \<le> time s" "1 \<le> remain ?q"
      "pid ?q = pid ?p" "?q\<lparr>remain := remain ?q - 1\<rparr> = ?p'" "remain ?q = burst ?q \<Longrightarrow> start ?q = time s"
    using len w by (auto simp: has_work_def)
  have "\<exists>s'. exec_round n ?s2 = Some s' \<and> core n l0 s' \<and> time_ok l0 s' \<and>
      s' = ?s2\<lparr>plist := (plist ?s2)[i := ?q\<lparr>remain := remain ?q - 1\<rparr>],
        gantt := gantt ?s2 @ [Run (pid ?q)], time := time ?s2 + 1\<rparr> \<and> work_left n l0 s' < work_left n l0 ?s2"
    using len q by (intro exec_round_run [OF s2(2,3)]) simp_all
  then obtain s' where s': "exec_round n ?s2 = Some s'" "core n l0 s'" "time_ok l0 s'"
      "s' = ?s2\<lparr>plist := (plist ?s2)[i := ?p'], gantt := gantt ?s2 @ [Run (pid ?p)], time := time ?s2 + 1\<rparr>"
      "work_left n l0 s' < work_left n l0 s"
    unfolding q(5,6) s2(4) by blast
  have eq: "s' = s\<lparr>running := int i, plist := (plist s)[i := ?p'],
      gantt := gantt s @ [Run (pid (plist s ! i))], time := time s + 1\<rparr>"
    unfolding s'(4) by simp
  have run: "running ?s2 = int i" by simp
  show ?thesis
    by (rule exI [of _ ?s2], rule exI [of _ s'], rule exI [of _ ?p'])
      (intro conjI s2(1-3) s'(1-3,5) eq refl run)
qed

section \<open>Metrics\<close>

lemma each_process_ok:
  assumes "n = int (length l)" "\<And>p. p \<in> set l \<Longrightarrow> f p = Some (g p)"
  shows "each_process f n l = Some (map g l)"
proof -
  have "\<exists>l'. for_range 0 n (\<lambda>i l. do { p \<leftarrow> rd l i; p' \<leftarrow> f p; wr l i p' }) l = Some l' \<and>
      l' = map g (take (nat n) l) @ drop (nat n) l"
  proof (rule for_range_inv [where I = "\<lambda>i l'. l' = map g (take (nat i) l) @ drop (nat i) l"])
    fix j l' assume j: "0 \<le> j" "j < n" and l': "l' = map g (take (nat j) l) @ drop (nat j) l"
    let ?k = "nat j"
    have k: "?k < length l" "nat (j + 1) = Suc ?k" using j assms by auto
    have "l' ! ?k = l ! ?k" "length l' = length l" using l' k by (auto simp: nth_append)
    moreover have "l'[?k := g (l ! ?k)] = map g (take (Suc ?k) l) @ drop (Suc ?k) l"
      using l' k by (simp add: take_Suc_conv_app_nth list_update_append flip: Cons_nth_drop_Suc)
    ultimately show "\<exists>s'. do { p \<leftarrow> rd l' j; p' \<leftarrow> f p; wr l' j p' } = Some s' \<and>
        s' = map g (take (nat (j + 1)) l) @ drop (nat (j + 1)) l"
      using k j assms by simp
  qed (use assms in auto)
  then show ?thesis using assms(1) by (simp add: each_process_def)
qed

text \<open>The metrics of a finished process, computed without overflow.\<close>

definition with_metrics :: "(process \<Rightarrow> int) \<Rightarrow> process \<Rightarrow> process" where
  "with_metrics w p = p\<lparr>waiting := w p, response := start p - arrival p,
     turnaround := finish p - arrival p\<rparr>"

definition done_ok :: "process \<Rightarrow> bool" where
  "done_ok p \<longleftrightarrow> ended p = 1 \<and> remain p = 0 \<and> 0 \<le> arrival p \<and> 1 \<le> burst p \<and>
     arrival p \<le> start p \<and> start p + burst p \<le> finish p \<and> finish p \<le> INT_MAX"

lemma done_ok_range:
  assumes "done_ok p"
  shows "c_int (start p - arrival p) = Some (start p - arrival p)"
    "c_int (finish p - arrival p) = Some (finish p - arrival p)"
    "c_int (finish p - arrival p - burst p) = Some (finish p - arrival p - burst p)"
  using assms by (auto simp: done_ok_def c_int_def INT_MIN_def)

lemma metrics_ok:
  assumes "n = int (length l)" "\<And>p. p \<in> set l \<Longrightarrow> done_ok p"
    and "\<And>p. p \<in> set l \<Longrightarrow> wt p = Some (p\<lparr>waiting := w p\<rparr>)"
  shows "metrics wt n l = Some (map (with_metrics w) l)"
proof -
  have 1: "each_process wt n l = Some (map (\<lambda>p. p\<lparr>waiting := w p\<rparr>) l)"
    using assms by (intro each_process_ok) auto
  have 2: "each_process calc_response n (map (\<lambda>p. p\<lparr>waiting := w p\<rparr>) l) =
      Some (map (\<lambda>p. p\<lparr>waiting := w p, response := start p - arrival p\<rparr>) l)"
    using assms(1) done_ok_range(1) [OF assms(2)]
    by (subst each_process_ok [where g = "\<lambda>p. p\<lparr>response := start p - arrival p\<rparr>"])
      (auto simp: calc_response_def)
  have 3: "each_process calc_turnaround n
        (map (\<lambda>p. p\<lparr>waiting := w p, response := start p - arrival p\<rparr>) l) =
      Some (map (with_metrics w) l)"
    using assms(1) done_ok_range(2) [OF assms(2)]
    by (subst each_process_ok [where g = "\<lambda>p. p\<lparr>turnaround := finish p - arrival p\<rparr>"])
      (auto simp: calc_turnaround_def with_metrics_def)
  show ?thesis using 1 2 3 by (simp add: metrics_def)
qed

lemma calc_waiting_ok: "done_ok p \<Longrightarrow> calc_waiting p = Some (p\<lparr>waiting := start p - arrival p\<rparr>)"
  by (simp add: calc_waiting_def done_ok_range)

lemma calc_waiting_preemptive_ok:
  "done_ok p \<Longrightarrow> calc_waiting_preemptive p = Some (p\<lparr>waiting := finish p - arrival p - burst p\<rparr>)"
  by (simp add: calc_waiting_preemptive_def done_ok_range)

section \<open>The interface of a scheduling algorithm\<close>

text \<open>
  One round of an algorithm, on a state that shows the simulation variables, keeps an
  invariant that contains the common one and reduces the work left. Every such algorithm
  ends with all processes finished.
\<close>

locale sched_alg =
  fixes round :: "int \<Rightarrow> 's \<Rightarrow> 's option" and view :: "'s \<Rightarrow> sched"
    and inv :: "int \<Rightarrow> process list \<Rightarrow> 's \<Rightarrow> bool"
  assumes inv_core: "inv n l0 s \<Longrightarrow> loop_inv n l0 (view s)"
    and progress: "inv n l0 s \<Longrightarrow> fin_cnt (view s) < n \<Longrightarrow>
      \<exists>s'. round n s = Some s' \<and> inv n l0 s' \<and> work_left n l0 (view s') < work_left n l0 (view s)"
begin

lemma completes:
  assumes "inv n l0 s"
  shows "\<exists>t. c_while (\<lambda>s. fin_cnt (view s) < n) (round n) s = Some t \<and> inv n l0 t \<and>
    core n l0 (view t) \<and> (\<forall>p \<in> set (plist (view t)). ended p = 1)"
proof -
  have "\<exists>t. c_while (\<lambda>s. fin_cnt (view s) < n) (round n) s = Some t \<and> inv n l0 t \<and>
      \<not> fin_cnt (view t) < n"
    by (rule c_while_total [where m = "\<lambda>s. work_left n l0 (view s)"])
      (use assms progress in auto)
  then obtain t where t: "c_while (\<lambda>s. fin_cnt (view s) < n) (round n) s = Some t" "inv n l0 t"
      "\<not> fin_cnt (view t) < n" by blast
  from inv_core [OF t(2)] have "core n l0 (view t)" by (simp add: loop_inv_def)
  with core_all_ended [of n l0 "view t"] t show ?thesis by blast
qed

end

text \<open>
  What a finished simulation guarantees, over the table \<open>l\<close> before the metrics: every
  process kept its identity, ran for exactly its burst, not before its arrival; its start is
  its first slot in the chart and its finish comes right after its last one; and no slot was
  left empty while it was waiting.
\<close>

definition proc_done :: "slot list \<Rightarrow> process \<Rightarrow> process \<Rightarrow> bool" where
  "proc_done g p0 p \<longleftrightarrow> pid p = pid p0 \<and> arrival p = arrival p0 \<and> burst p = burst p0 \<and> done_ok p \<and>
     int (count_list g (Run (pid p))) = burst p \<and> runs_within g p \<and> chart_ends g p \<and>
     (\<forall>t < length g. g ! t = Idle \<longrightarrow> int t < arrival p \<or> finish p \<le> int t)"

definition sched_done :: "process list \<Rightarrow> process list \<Rightarrow> slot list \<Rightarrow> bool" where
  "sched_done l0 l g \<longleftrightarrow> length l = length l0 \<and> chart_ok True l0 g \<and> (\<forall>i < length l0. proc_done g (l0 ! i) (l ! i))"

lemma core_done:
  assumes "core n l0 s" "\<forall>p \<in> set (plist s). ended p = 1"
  shows "sched_done l0 (plist s) (gantt s)"
proof -
  have "proc_done (gantt s) (l0 ! i) (plist s ! i)" if "i < length l0" for i
    using core_proc [OF assms(1) that] jobs_ok_burst [OF coreD(1) [OF assms(1)] that]
      assms(2) coreD(3,7) [OF assms(1)] that
    by (auto simp: proc_inv_def done_ok_def proc_done_def)
  moreover have "sum_list (map ended (plist s)) = int (length l0)"
    using map_eq_replicate [OF assms(2)] coreD(3) [OF assms(1)] by (simp add: sum_list_replicate)
  then have "chart_ok True l0 (gantt s)" using coreD(2,4,8) [OF assms(1)] by simp
  ultimately show ?thesis using coreD(3) [OF assms(1)] by (simp add: sched_done_def)
qed

lemma with_metrics_simps [simp]:
  "pid (with_metrics w p) = pid p" "arrival (with_metrics w p) = arrival p"
  "burst (with_metrics w p) = burst p" "remain (with_metrics w p) = remain p"
  "start (with_metrics w p) = start p" "finish (with_metrics w p) = finish p"
  "ended (with_metrics w p) = ended p" "waiting (with_metrics w p) = w p"
  "response (with_metrics w p) = start p - arrival p"
  "turnaround (with_metrics w p) = finish p - arrival p"
  by (simp_all add: with_metrics_def)

lemma proc_done_metrics [simp]: "proc_done g p0 (with_metrics w p) = proc_done g p0 p"
  by (simp add: proc_done_def done_ok_def runs_within_def chart_ends_def)

lemma sched_done_metrics: "sched_done l0 l g \<Longrightarrow> sched_done l0 (map (with_metrics w) l) g"
  by (simp add: sched_done_def)

lemma sched_done_set: "sched_done l0 l g \<Longrightarrow> p \<in> set l \<Longrightarrow> done_ok p"
  by (auto simp: sched_done_def proc_done_def in_set_conv_nth)

section \<open>A process without work\<close>

text \<open>
  A process whose remaining time is not positive when it gets the CPU is decremented below
  zero and never seen to end. These facts about the statements of a round are partial: they
  speak of a round that returned.
\<close>

definition stuck :: "nat \<Rightarrow> sched \<Rightarrow> bool" where
  "stuck i s \<longleftrightarrow> i < length (plist s) \<and> ended (plist s ! i) = 0 \<and> remain (plist s ! i) \<le> 0 \<and>
     (\<forall>p \<in> set (plist s). ended p \<le> 1) \<and> fin_cnt s = sum_list (map ended (plist s)) \<and>
     (running s = -1 \<or> 0 \<le> running s \<and> running s < int (length (plist s)) \<and>
        ended (plist s ! nat (running s)) = 0)"

definition never_over :: "nat \<Rightarrow> sched \<Rightarrow> bool" where
  "never_over i s \<longleftrightarrow> (running s = int i \<longrightarrow> remain (plist s ! i) < 0)"

lemma stuck_unfinished: "stuck i s \<Longrightarrow> fin_cnt s < int (length (plist s))"
  using sum_eq_lengthD [of "plist s" ended] nth_mem [of i "plist s"] unfolding stuck_def
  by (metis not_less zero_neq_one)

lemma stuck_finish:
  assumes s: "stuck i s" "never_over i s" and over: "run_over s = Some True" and f: "finish_running s = Some s'"
  shows "stuck i s' \<and> running s' = -1 \<and> length (plist s') = length (plist s)"
proof -
  have r: "running s \<noteq> -1" using over by (auto simp: run_over_def)
  then obtain k where k: "running s = int k" "k < length (plist s)" "ended (plist s ! k) = 0"
    using s(1) by (auto simp: stuck_def) (metis nat_0_le nat_less_iff)
  have "remain (plist s ! k) = 0" using over k by (simp add: run_over_def)
  with s(2) k have "k \<noteq> i" by (auto simp: never_over_def)
  moreover have "plist s' = (plist s)[k := (plist s ! k)\<lparr>finish := time s, ended := 1\<rparr>]"
      "fin_cnt s' = fin_cnt s + 1" "running s' = -1"
    using f k by (auto simp: finish_running_def split: bind_splits dest!: c_int_SomeD)
  ultimately show ?thesis
    using s(1) k by (auto simp: stuck_def sum_map_update dest!: subsetD [OF set_update_subset_insert])
qed

lemma stuck_exec:
  assumes s: "stuck i s" and e: "exec_round n s = Some s'"
  shows "stuck i s' \<and> never_over i s' \<and> length (plist s') = length (plist s)"
proof (cases "running s = -1")
  case True
  then have "plist s' = plist s" "fin_cnt s' = fin_cnt s" "running s' = -1"
    using e by (auto simp: exec_round_def tick_def idle_slot_def split: bind_splits if_splits)
  with s show ?thesis by (simp add: stuck_def never_over_def)
next
  case False
  then obtain k where k: "running s = int k" "k < length (plist s)" "ended (plist s ! k) = 0"
    using s by (auto simp: stuck_def) (metis nat_0_le nat_less_iff)
  then have "plist s' = (plist s)[k := (plist s ! k)\<lparr>remain := remain (plist s ! k) - 1\<rparr>]"
      "fin_cnt s' = fin_cnt s" "running s' = int k"
    using e by (auto simp: exec_round_def tick_def idle_slot_def run_one_def split: bind_splits dest!: c_int_SomeD)
  with s k show ?thesis
    by (auto simp: stuck_def never_over_def sum_map_update nth_list_update dest!: subsetD [OF set_update_subset_insert])
qed

lemma stuck_start:
  assumes "i < length l" "burst (l ! i) \<le> 0" "\<forall>p \<in> set l. remain p = burst p \<and> ended p = 0"
  shows "stuck i (sched_start l) \<and> never_over i (sched_start l)"
proof -
  have "map ended l = map (\<lambda>_. 0) l" using assms by simp
  then have "sum_list (map ended l) = 0" by (simp only: sum_list_0)
  with assms show ?thesis by (auto simp: stuck_def never_over_def sched_start_def)
qed

text \<open>A process table entry as \<open>init_list\<close> fills it in, over any previous contents.\<close>

definition job_entry :: "process \<Rightarrow> int \<Rightarrow> int \<Rightarrow> int \<Rightarrow> process" where
  "job_entry p i a b = p\<lparr>pid := i, arrival := a, burst := b, remain := b, ended := 0\<rparr>"

definition blank :: process where
  "blank = \<lparr>pid = 0, arrival = 0, burst = 0, remain = 0, start = 0, finish = 0, waiting = 0,
     turnaround = 0, response = 0, ended = 0\<rparr>"

end
