(* ===== verification/Sched_Nonpreemptive.thy ===== *)
theory Sched_Nonpreemptive
  imports Sched_Core "HOL-Library.Multiset"
begin

text \<open>
  \<open>FCFS\<close> and \<open>SJF\<close> of \<open>src/Assignment3-3/cpu_scheduler.c\<close>: the insertion sort by arrival,
  the two selection loops, and the interface both satisfy, from which the results on
  non-preemptive schedules follow.
\<close>

section \<open>The algorithms\<close>

text \<open>The inner loop of the insertion sort; the last component is set by \<open>break\<close>.\<close>

definition sort_shift :: "process \<Rightarrow> int \<Rightarrow> process list \<Rightarrow> (int \<times> process list \<times> bool) option" where
  "sort_shift pivot j0 l0 =
     c_while (\<lambda>(j, l, stop). \<not> stop \<and> 0 \<le> j)
       (\<lambda>(j, l, stop). do {
          p \<leftarrow> rd l j;
          if arrival p > arrival pivot then do { l' \<leftarrow> wr l (j + 1) p; Some (j - 1, l', False) }
          else Some (j, l, True)
        }) (j0, l0, False)"

definition FCFS_sort :: "int \<Rightarrow> process list \<Rightarrow> process list option" where
  "FCFS_sort n = for_range 1 n (\<lambda>i l. do {
     pivot \<leftarrow> rd l i;
     (j, l', stop) \<leftarrow> sort_shift pivot (i - 1) l;
     wr l' (j + 1) pivot
   })"

definition FCFS_pick :: "int \<Rightarrow> sched \<Rightarrow> sched option" where
  "FCFS_pick n s = do {
     i \<leftarrow> find_range 0 n (\<lambda>i. do {
            p \<leftarrow> rd (plist s) i; Some (arrival p \<le> time s \<and> ended p = 0) });
     if i < n then do { s' \<leftarrow> set_start s i; Some (s'\<lparr>running := i\<rparr>) } else Some s
   }"

text \<open>
  The selection of the arrived, unfinished process with the least key: the final values of
  \<open>min\<close> and \<open>min_idx\<close>.
\<close>

definition select_min :: "(process \<Rightarrow> int) \<Rightarrow> int \<Rightarrow> sched \<Rightarrow> (int \<times> int) option" where
  "select_min key n s = for_range 0 n (\<lambda>i (mn, min_idx). do {
     p \<leftarrow> rd (plist s) i;
     Some (if arrival p \<le> time s \<and> ended p = 0 \<and> mn > key p then (key p, i) else (mn, min_idx))
   }) (INT_MAX, -1)"

definition SJF_pick :: "int \<Rightarrow> sched \<Rightarrow> sched option" where
  "SJF_pick n s = do {
     (mn, min_idx) \<leftarrow> select_min burst n s;
     if min_idx = -1 then Some (s\<lparr>running := min_idx\<rparr>) else set_start (s\<lparr>running := min_idx\<rparr>) min_idx
   }"

text \<open>One millisecond of either simulation; \<open>pick\<close> is its selection loop.\<close>

definition nonpreemptive_round :: "(int \<Rightarrow> sched \<Rightarrow> sched option) \<Rightarrow> int \<Rightarrow> sched \<Rightarrow> sched option" where
  "nonpreemptive_round pick n s = do {
     over \<leftarrow> run_over s;
     if running s = -1 \<or> over then do {
       s1 \<leftarrow> if over then finish_running s else Some s;
       s2 \<leftarrow> pick n s1;
       exec_round n s2
     } else exec_round n s
   }"

definition FCFS :: "process list \<Rightarrow> int \<Rightarrow> (process list \<times> slot list \<times> int) option" where
  "FCFS list n = do {
     l \<leftarrow> FCFS_sort n list;
     s \<leftarrow> c_while (\<lambda>s. fin_cnt s < n) (nonpreemptive_round FCFS_pick n) (sched_start l);
     l' \<leftarrow> metrics calc_waiting n (plist s);
     Some (l', gantt s, n)
   }"

definition SJF :: "process list \<Rightarrow> int \<Rightarrow> (process list \<times> slot list \<times> int) option" where
  "SJF list n = do {
     s \<leftarrow> c_while (\<lambda>s. fin_cnt s < n) (nonpreemptive_round SJF_pick n) (sched_start list);
     l' \<leftarrow> metrics calc_waiting n (plist s);
     Some (l', gantt s, n)
   }"

section \<open>The insertion sort\<close>

lemma sort_shift_ok:
  assumes "i < length l" "l = pre @ x # rest" "length pre = i" "sorted (map arrival pre)"
  shows "\<exists>A B z stop. sort_shift x (int i - 1) l = Some (int (length A) - 1, A @ z # B @ rest, stop) \<and>
    pre = A @ B \<and> (\<forall>y \<in> set A. arrival y \<le> arrival x) \<and> (\<forall>y \<in> set B. arrival y > arrival x)"
proof -
  let ?I = "\<lambda>(j, l', stop). \<exists>A B z. j = int (length A) - 1 \<and> l' = A @ z # B @ rest \<and> pre = A @ B \<and>
    (\<forall>y \<in> set B. arrival y > arrival x) \<and> (stop \<longrightarrow> A \<noteq> [] \<and> arrival (last A) \<le> arrival x)"
  let ?g = "\<lambda>(j, l' :: process list, stop). \<not> stop \<and> 0 \<le> j"
  have "\<exists>s. sort_shift x (int i - 1) l = Some s \<and> ?I s \<and> \<not> ?g s"
    unfolding sort_shift_def
  proof (rule c_while_total [where I = ?I and
        m = "\<lambda>(j, l', stop). if stop then 0 else Suc (nat (j + 1))"])
    fix s assume "?I s" and g: "?g s"
    then obtain A B z where s: "s = (int (length A) - 1, A @ z # B @ rest, False)" and AB: "pre = A @ B"
        "\<forall>y \<in> set B. arrival y > arrival x" by auto
    with g obtain A' y where A: "A = A' @ [y]" by (cases A rule: rev_cases) auto
    show "\<exists>s'. (case s of (j, l, stop) \<Rightarrow> do {
          p \<leftarrow> rd l j;
          if arrival p > arrival x then do { l' \<leftarrow> wr l (j + 1) p; Some (j - 1, l', False) }
          else Some (j, l, True) }) = Some s' \<and> ?I s' \<and>
        (case s' of (j, l', stop) \<Rightarrow> if stop then 0 else Suc (nat (j + 1))) <
        (case s of (j, l', stop) \<Rightarrow> if stop then 0 else Suc (nat (j + 1)))"
    proof (cases "arrival y > arrival x")
      case True
      let ?s' = "(int (length A') - 1, A' @ y # y # B @ rest, False)"
      have "nat (int (length A') + 1) = Suc (length A')" by simp
      then have "wr (A @ z # B @ rest) (int (length A) - 1 + 1) y = Some (A' @ y # y # B @ rest)"
        using A by (simp add: wr_def list_update_append)
      moreover have "rd (A @ z # B @ rest) (int (length A) - 1) = Some y"
        using A by (simp add: rd_def nth_append)
      moreover have "?I ?s'"
        unfolding split_conv
        by (rule exI [of _ A'], rule exI [of _ "y # B"], rule exI [of _ y]) (use True A AB in auto)
      ultimately show ?thesis using True s A by (intro exI [of _ ?s']) simp
    next
      case False
      have "rd (A @ z # B @ rest) (int (length A) - 1) = Some y"
        using A by (simp add: rd_def nth_append)
      moreover have "?I (int (length A) - 1, A @ z # B @ rest, True)"
        unfolding split_conv
        by (rule exI [of _ A], rule exI [of _ B], rule exI [of _ z]) (use False A AB in auto)
      ultimately show ?thesis
        using False s by (intro exI [of _ "(int (length A) - 1, A @ z # B @ rest, True)"]) simp
    qed
  qed (use assms in auto)
  then obtain A B z stop where s: "sort_shift x (int i - 1) l =
        Some (int (length A) - 1, A @ z # B @ rest, stop)" "pre = A @ B"
      "\<forall>y \<in> set B. arrival y > arrival x" "A \<noteq> [] \<Longrightarrow> arrival (last A) \<le> arrival x"
    by fastforce
  moreover have "\<forall>y \<in> set A. arrival y \<le> arrival x"
  proof (cases A rule: rev_cases)
    case (snoc A' y)
    with s assms(4) show ?thesis by (auto simp: sorted_append)
  qed simp
  ultimately show ?thesis by blast
qed

text \<open>The sort of \<open>FCFS\<close> is the stable sort by arrival time.\<close>

lemma FCFS_sort_ok:
  assumes "n = int (length l)"
  shows "FCFS_sort n l = Some (sort_key arrival l)"
proof (cases "l = []")
  case True
  with assms show ?thesis by (simp add: FCFS_sort_def)
next
  case False
  let ?I = "\<lambda>i l'. \<exists>ys. l' = ys @ drop (nat i) l \<and> mset ys = mset (take (nat i) l) \<and>
    sorted (map arrival ys) \<and>
    (\<forall>k. filter (\<lambda>p. arrival p = k) ys = filter (\<lambda>p. arrival p = k) (take (nat i) l))"
  have "\<exists>t. FCFS_sort n l = Some t \<and> ?I n t"
    unfolding FCFS_sort_def
  proof (rule for_range_inv [where I = ?I])
    fix j l' assume j: "1 \<le> j" "j < n" and "?I j l'"
    then obtain ys where ys: "l' = ys @ drop (nat j) l" "mset ys = mset (take (nat j) l)"
        "sorted (map arrival ys)"
        "\<And>k. filter (\<lambda>p. arrival p = k) ys = filter (\<lambda>p. arrival p = k) (take (nat j) l)" by blast
    define x where "x = l ! nat j"
    have len: "length ys = nat j" "nat j < length l"
      using mset_eq_length [OF ys(2)] j assms by auto
    have l': "l' = ys @ x # drop (Suc (nat j)) l"
      using ys(1) len by (simp add: x_def Cons_nth_drop_Suc)
    have "nat j < length l'" using l' len by simp
    then obtain A B z stop where sh: "sort_shift x (int (nat j) - 1) l' =
          Some (int (length A) - 1, A @ z # B @ drop (Suc (nat j)) l, stop)"
        "ys = A @ B" "\<forall>y \<in> set A. arrival y \<le> arrival x" "\<forall>y \<in> set B. arrival y > arrival x"
      using sort_shift_ok [OF _ l' len(1) ys(3)] by blast
    have "wr (A @ z # B @ drop (Suc (nat j)) l) (int (length A)) x =
        Some ((A @ x # B) @ drop (nat (j + 1)) l)"
      using j by (simp add: wr_def nat_add_distrib)
    moreover have "rd l' j = Some x" using l' len j by (simp add: rd_def nth_append)
    moreover have tk: "take (nat (j + 1)) l = take (nat j) l @ [x]"
      using len j by (simp add: x_def nat_add_distrib take_Suc_conv_app_nth)
    moreover have "sorted (map arrival (A @ x # B))"
      using ys(3) sh(2-4) by (auto simp: sorted_append)
    moreover have "filter (\<lambda>p. arrival p = k) (A @ x # B) =
        filter (\<lambda>p. arrival p = k) (take (nat (j + 1)) l)" for k
    proof (cases "arrival x = k")
      case True
      then have "filter (\<lambda>p. arrival p = k) B = []" using sh(4) by (auto simp: filter_empty_conv)
      with ys(4) [of k] sh(2) tk True show ?thesis by simp
    next
      case False
      with ys(4) [of k] sh(2) tk show ?thesis by simp
    qed
    ultimately show "\<exists>s'. do {
        pivot \<leftarrow> rd l' j; (j', l'', stop) \<leftarrow> sort_shift pivot (j - 1) l'; wr l'' (j' + 1) pivot } =
        Some s' \<and> ?I (j + 1) s'"
      using sh(1,2) ys(2) j by (auto intro!: exI [of _ "A @ x # B"])
  qed (use assms False in \<open>auto simp: take_Suc_conv_app_nth neq_Nil_conv\<close>)
  then obtain ys where "FCFS_sort n l = Some ys" "mset ys = mset l" "sorted (map arrival ys)"
      "\<forall>k. filter (\<lambda>p. arrival p = k) ys = filter (\<lambda>p. arrival p = k) l"
    using assms by auto
  with properties_for_sort_key [of ys l arrival] show ?thesis by (simp add: eq_commute)
qed

section \<open>Selecting a process\<close>

definition dispatch :: "sched \<Rightarrow> nat \<Rightarrow> sched" where
  "dispatch s i = s\<lparr>plist := (plist s)[i := (plist s ! i)\<lparr>start := time s\<rparr>], running := int i\<rparr>"

lemma select_min_ok:
  assumes "n = int (length (plist s))" "\<And>i. runnable s i \<Longrightarrow> key (plist s ! i) < INT_MAX"
  shows "\<exists>mn r. select_min key n s = Some (mn, r) \<and>
    (r = -1 \<and> (\<forall>i. \<not> runnable s i) \<or>
     (\<exists>i. r = int i \<and> runnable s i \<and>
        (\<forall>j. runnable s j \<longrightarrow> key (plist s ! i) \<le> key (plist s ! j))))"
proof -
  let ?I = "\<lambda>k (mn, r). r = -1 \<and> mn = INT_MAX \<and> (\<forall>i. int i < k \<longrightarrow> \<not> runnable s i) \<or>
     (\<exists>i. r = int i \<and> runnable s i \<and> mn = key (plist s ! i) \<and>
        (\<forall>j. int j < k \<longrightarrow> runnable s j \<longrightarrow> key (plist s ! i) \<le> key (plist s ! j)))"
  have "\<exists>t. select_min key n s = Some t \<and> ?I n t"
    unfolding select_min_def
  proof (rule for_range_inv [where I = ?I])
    fix j t assume j: "0 \<le> j" "j < n" and I: "?I j t"
    obtain k where k: "j = int k" "k < length (plist s)" using j assms(1) by (metis nonneg_int_cases of_nat_less_iff)
    obtain mn r where t: "t = (mn, r)" by (cases t)
    have split: "int i < j + 1 \<longleftrightarrow> int i < j \<or> i = k" for i using k(1) by auto
    show "\<exists>s'. (case t of (mn, min_idx) \<Rightarrow> do { p \<leftarrow> rd (plist s) j;
        Some (if arrival p \<le> time s \<and> ended p = 0 \<and> mn > key p then (key p, j) else (mn, min_idx)) }) =
        Some s' \<and> ?I (j + 1) s'"
    proof (cases "runnable s k")
      case True
      then have r: "arrival (plist s ! k) \<le> time s" "ended (plist s ! k) = 0"
        by (auto simp: runnable_def)
      show ?thesis
      proof (cases "key (plist s ! k) < mn")
        case lt: True
        have "?I (j + 1) (key (plist s ! k), j)"
          unfolding split_conv split using I t lt k True
          by (intro disjI2 exI [of _ k]) (auto dest: order_less_imp_le)
        with r lt k t show ?thesis by simp
      next
        case False
        with I t assms(2) [OF True] obtain i where "r = int i" "runnable s i" "mn = key (plist s ! i)"
            "\<forall>j'. int j' < j \<longrightarrow> runnable s j' \<longrightarrow> key (plist s ! i) \<le> key (plist s ! j')" by auto
        then have "?I (j + 1) (mn, r)" unfolding split_conv split using False by auto
        with r False k t show ?thesis by simp
      qed
    next
      case False
      then have "\<not> (arrival (plist s ! k) \<le> time s \<and> ended (plist s ! k) = 0)"
        using k by (simp add: runnable_def)
      moreover have "?I (j + 1) (mn, r)" unfolding split_conv split using I t False by auto
      ultimately show ?thesis using k t by auto
    qed
  qed (use assms in auto)
  then obtain mn r where sel: "select_min key n s = Some (mn, r)" and I: "?I n (mn, r)" by auto
  have "int i < n" if "runnable s i" for i using that assms(1) by (simp add: runnable_def)
  with I sel show ?thesis by auto
qed

section \<open>The interface of a non-preemptive algorithm\<close>

text \<open>
  The selection loop runs with no process on the CPU. It either finds nothing, and then
  nothing is runnable, or it dispatches a runnable process that is preferred to every other
  runnable one. \<open>prefers\<close> compares two processes by index and burst.
\<close>

locale nonpreemptive =
  fixes pick :: "int \<Rightarrow> sched \<Rightarrow> sched option"
    and prefers :: "nat \<times> int \<Rightarrow> nat \<times> int \<Rightarrow> bool"
  assumes pick_law: "core n l0 s \<Longrightarrow> running s = -1 \<Longrightarrow>
      pick n s = Some s \<and> (\<forall>i. \<not> runnable s i) \<or>
      (\<exists>i. pick n s = Some (dispatch s i) \<and> runnable s i \<and>
        (\<forall>j. runnable s j \<longrightarrow> prefers (i, burst (plist s ! i)) (j, burst (plist s ! j))))"

text \<open>A process that has been on the CPU.\<close>

definition started :: "process \<Rightarrow> bool" where
  "started p \<longleftrightarrow> remain p < burst p"

text \<open>
  What non-preemption adds to the invariant: a process runs in one piece; two processes
  never overlap, and a process was preferred to those that had arrived when it started.
\<close>

definition np_one :: "int \<Rightarrow> int \<Rightarrow> int \<Rightarrow> process \<Rightarrow> bool" where
  "np_one t r i p \<longleftrightarrow>
     (ended p = 0 \<and> i \<noteq> r \<longrightarrow> \<not> started p) \<and>
     (i = r \<longrightarrow> started p \<and> start p + (burst p - remain p) = t) \<and>
     (ended p = 1 \<longrightarrow> started p \<and> finish p = start p + burst p \<and> finish p \<le> t)"

definition np_two ::
  "(nat \<times> int \<Rightarrow> nat \<times> int \<Rightarrow> bool) \<Rightarrow> nat \<Rightarrow> process \<Rightarrow> nat \<Rightarrow> process \<Rightarrow> bool" where
  "np_two pr i p j q \<longleftrightarrow> (started p \<longrightarrow>
     (started q \<longrightarrow> ended p = 1 \<and> finish p \<le> start q \<or> ended q = 1 \<and> finish q \<le> start p) \<and>
     (arrival q \<le> start p \<and> (started q \<longrightarrow> start p < start q) \<longrightarrow> pr (i, burst p) (j, burst q)))"

definition np_inv :: "(nat \<times> int \<Rightarrow> nat \<times> int \<Rightarrow> bool) \<Rightarrow> sched \<Rightarrow> bool" where
  "np_inv pr s \<longleftrightarrow>
     (\<forall>i < length (plist s). np_one (time s) (running s) (int i) (plist s ! i)) \<and>
     (\<forall>i < length (plist s). \<forall>j < length (plist s). i \<noteq> j \<longrightarrow>
        np_two pr i (plist s ! i) j (plist s ! j))"

text \<open>One table entry changes: what is to be shown of the new entry.\<close>

lemma np_inv_update:
  assumes np: "np_inv pr s" and i: "i < length (plist s)"
    and s': "plist s' = (plist s)[i := p']"
    and one: "np_one (time s') (running s') (int i) p'"
    and others: "\<And>j. j < length (plist s) \<Longrightarrow> j \<noteq> i \<Longrightarrow>
      np_one (time s) (running s) (int j) (plist s ! j) \<Longrightarrow>
      np_one (time s') (running s') (int j) (plist s ! j)"
    and two: "\<And>j. j < length (plist s) \<Longrightarrow> j \<noteq> i \<Longrightarrow> np_two pr i (plist s ! i) j (plist s ! j) \<Longrightarrow>
      np_two pr j (plist s ! j) i (plist s ! i) \<Longrightarrow>
      np_one (time s) (running s) (int j) (plist s ! j) \<Longrightarrow>
      np_two pr i p' j (plist s ! j) \<and> np_two pr j (plist s ! j) i p'"
  shows "np_inv pr s'"
proof -
  have "np_one (time s') (running s') (int k) (plist s' ! k)" if "k < length (plist s)" for k
    using np one others [of k] that i s' by (cases "k = i") (auto simp: np_inv_def)
  moreover have "np_two pr a (plist s' ! a) b (plist s' ! b)"
    if "a < length (plist s)" "b < length (plist s)" "a \<noteq> b" for a b
    using np two [of a] two [of b] that i s'
    by (cases "a = i"; cases "b = i") (auto simp: np_inv_def)
  ultimately show ?thesis using s' by (simp add: np_inv_def)
qed

lemma np_two_finish:
  assumes "np_two pr i p j q" "np_two pr j q i p" "ended p = 0"
  shows "np_two pr i (p\<lparr>finish := t, ended := 1\<rparr>) j q \<and> np_two pr j q i (p\<lparr>finish := t, ended := 1\<rparr>)"
proof (cases "started p \<and> started q")
  case True
  with assms have "ended q = 1" "finish q \<le> start p" by (simp_all add: np_two_def)
  with assms True show ?thesis by (simp add: np_two_def started_def)
next
  case False
  with assms show ?thesis by (simp add: np_two_def started_def) auto
qed

lemma np_inv_finish:
  assumes np: "np_inv pr s" and i: "running s = int i" "i < length (plist s)"
    and p: "ended (plist s ! i) = 0" "remain (plist s ! i) = 0"
    and s': "plist s' = (plist s)[i := (plist s ! i)\<lparr>finish := time s, ended := 1\<rparr>]"
      "running s' = -1" "time s' = time s"
  shows "np_inv pr s'"
proof (rule np_inv_update [OF np i(2) s'(1)])
  have "np_one (time s) (int i) (int i) (plist s ! i)" using np i by (auto simp: np_inv_def)
  with p s' show "np_one (time s') (running s') (int i) ((plist s ! i)\<lparr>finish := time s, ended := 1\<rparr>)"
    by (auto simp: np_one_def started_def)
  let ?p = "plist s ! i" and ?p' = "(plist s ! i)\<lparr>finish := time s, ended := 1\<rparr>"
  show "np_one (time s') (running s') (int j) (plist s ! j)"
    if "j \<noteq> i" "np_one (time s) (running s) (int j) (plist s ! j)" for j
  proof -
    have "int j \<noteq> -1" by simp
    with that s' i show ?thesis by (auto simp: np_one_def)
  qed
  show "np_two pr i ?p' j (plist s ! j) \<and> np_two pr j (plist s ! j) i ?p'"
    if "np_two pr i ?p j (plist s ! j)" "np_two pr j (plist s ! j) i ?p" for j
    using np_two_finish [OF that p(1)] .
qed

lemma np_inv_run:
  assumes np: "np_inv pr s" and i: "running s = int i" "i < length (plist s)" "ended (plist s ! i) = 0"
    and s': "plist s' = (plist s)[i := (plist s ! i)\<lparr>remain := remain (plist s ! i) - 1\<rparr>]"
      "running s' = int i" "time s' = time s + 1"
  shows "np_inv pr s'"
proof (rule np_inv_update [OF np i(2) s'(1)])
  have one: "np_one (time s) (int i) (int i) (plist s ! i)" using np i by (auto simp: np_inv_def)
  then show "np_one (time s') (running s') (int i) ((plist s ! i)\<lparr>remain := remain (plist s ! i) - 1\<rparr>)"
    using s' i by (auto simp: np_one_def started_def)
  show "np_two pr i ((plist s ! i)\<lparr>remain := remain (plist s ! i) - 1\<rparr>) j (plist s ! j) \<and>
      np_two pr j (plist s ! j) i ((plist s ! i)\<lparr>remain := remain (plist s ! i) - 1\<rparr>)"
    if "np_two pr i (plist s ! i) j (plist s ! j)" "np_two pr j (plist s ! j) i (plist s ! i)" for j
    using that one by (auto simp: np_two_def np_one_def started_def)
qed (use s' i in \<open>auto simp: np_one_def\<close>)

lemma np_inv_idle:
  assumes "np_inv pr s" "running s = -1" "plist s' = plist s" "running s' = -1" "time s' = time s + 1"
  shows "np_inv pr s'"
  using assms by (fastforce simp: np_inv_def np_one_def)

lemma np_inv_dispatch_run:
  assumes np: "np_inv pr s" and r: "running s = -1" and i: "runnable s i" "remain (plist s ! i) = burst (plist s ! i)"
    and pref: "\<And>j. runnable s j \<Longrightarrow> pr (i, burst (plist s ! i)) (j, burst (plist s ! j))"
    and ends: "\<And>j. j < length (plist s) \<Longrightarrow> (ended (plist s ! j) = 0 \<or> ended (plist s ! j) = 1) \<and> 1 \<le> burst (plist s ! j)"
    and s': "plist s' = (plist s)[i := (plist s ! i)\<lparr>start := time s, remain := remain (plist s ! i) - 1\<rparr>]"
      "running s' = int i" "time s' = time s + 1"
  shows "np_inv pr s'"
proof (rule np_inv_update [OF np _ s'(1)])
  let ?p = "plist s ! i" and ?p' = "(plist s ! i)\<lparr>start := time s, remain := remain (plist s ! i) - 1\<rparr>"
  show len: "i < length (plist s)" using i by (simp add: runnable_def)
  show "np_one (time s') (running s') (int i) ?p'"
    using s' i by (auto simp: np_one_def started_def runnable_def)
  show "np_one (time s') (running s') (int j) (plist s ! j)"
    if "j < length (plist s)" "j \<noteq> i" "np_one (time s) (running s) (int j) (plist s ! j)" for j
    using that s' r by (auto simp: np_one_def)
  fix j assume j: "j < length (plist s)" "j \<noteq> i"
    and two: "np_two pr j (plist s ! j) i ?p" and one: "np_one (time s) (running s) (int j) (plist s ! j)"
  have st: "started (plist s ! j) \<Longrightarrow> ended (plist s ! j) = 1 \<and> finish (plist s ! j) \<le> time s \<and>
      start (plist s ! j) < time s"
    using one ends [OF j(1)] r by (auto simp: np_one_def)
  have "\<not> started ?p" using i(2) by (simp add: started_def)
  then have "np_two pr j (plist s ! j) i ?p'" using two st by (auto simp: np_two_def started_def)
  moreover have "runnable s j" if "arrival (plist s ! j) \<le> time s" "\<not> started (plist s ! j)"
    using one ends [OF j(1)] j that by (auto simp: runnable_def np_one_def)
  moreover have "pr (i, burst ?p') (j, burst (plist s ! j))"
    if "arrival (plist s ! j) \<le> start ?p'" "started (plist s ! j) \<Longrightarrow> start ?p' < start (plist s ! j)"
  proof -
    have "\<not> started (plist s ! j)" using st that(2) by auto
    with that(1) calculation(2) pref [of j] show ?thesis by simp
  qed
  ultimately show "np_two pr i ?p' j (plist s ! j) \<and> np_two pr j (plist s ! j) i ?p'"
    using st unfolding np_two_def [of pr i ?p'] by simp
qed

text \<open>Dispatching a process that has not run keeps the common invariant.\<close>

lemma core_dispatch:
  assumes "core n l0 s" "running s = -1" "runnable s i" "remain (plist s ! i) = burst (plist s ! i)"
  shows "core n l0 (dispatch s i)"
proof -
  let ?p = "plist s ! i"
  have i: "i < length l0" "arrival ?p \<le> time s" "ended ?p = 0" "length (plist s) = length l0"
    using assms coreD(3) [OF assms(1)] by (auto simp: runnable_def)
  have "proc_inv (time s) (int i) (gantt s) (int k) (l0 ! k) ((plist s)[i := ?p\<lparr>start := time s\<rparr>] ! k)"
    if "k < length l0" for k
  proof (cases "k = i")
    case True
    have "runs_within (gantt s) (?p\<lparr>start := time s\<rparr>)" "chart_ends (gantt s) (?p\<lparr>start := time s\<rparr>)"
      using core_proc [OF assms(1) i(1)] assms(2,4) i runs_within_none [of "gantt s" "?p\<lparr>start := time s\<rparr>"]
      by (auto simp: proc_inv_def chart_ends_def)
    with True core_proc [OF assms(1) i(1)] assms(2,4) i show ?thesis by (auto simp: proc_inv_def)
  next
    case False
    then show ?thesis using core_proc [OF assms(1) that] assms(2) by (auto simp: proc_inv_def)
  qed
  moreover have "sum_list (map ended ((plist s)[i := ?p\<lparr>start := time s\<rparr>])) =
      sum_list (map ended (plist s))" using i by (simp add: sum_map_update)
  ultimately show ?thesis using assms(1) i by (auto simp: core_def dispatch_def)
qed


section \<open>One round\<close>

lemma work_left_dispatch [simp]: "i < length (plist s) \<Longrightarrow> work_left n l0 (dispatch s i) = work_left n l0 s"
  by (simp add: work_left_def dispatch_def total_remain_def sum_map_update)

lemma work_left_finish:
  assumes "core n l0 s'" "fin_cnt s' = fin_cnt s + 1" "time s' = time s"
    "total_remain (plist s') = total_remain (plist s)"
  shows "work_left n l0 s' < work_left n l0 s"
  using assms(2-4) core_fin_le [OF assms(1)] total_remain_nonneg [OF assms(1)]
  by (simp add: work_left_def)

lemma time_ok_dispatch: "runnable s i \<Longrightarrow> time_ok l0 s \<Longrightarrow> time_ok l0 (dispatch s i)"
  by (simp add: time_ok_def dispatch_def runnable_def total_remain_def sum_map_update)

context nonpreemptive
begin

definition np_state :: "int \<Rightarrow> process list \<Rightarrow> sched \<Rightarrow> bool" where
  "np_state n l0 s \<longleftrightarrow> loop_inv n l0 s \<and> np_inv prefers s"

lemma pick_exec:
  assumes c: "core n l0 s" and t: "time_ok l0 s" and r: "running s = -1" and np: "np_inv prefers s"
  shows "\<exists>s'. Option.bind (pick n s) (exec_round n) = Some s' \<and> np_state n l0 s' \<and>
    (fin_cnt s < n \<longrightarrow> work_left n l0 s' < work_left n l0 s) \<and> work_left n l0 s' \<le> work_left n l0 s"
  using pick_law [OF c r]
proof (elim disjE exE conjE)
  assume pick: "pick n s = Some s" and none: "\<forall>i. \<not> runnable s i"
  have "time s < arrival (plist s ! i)" if "i < length l0" "ended (plist s ! i) = 0" for i
    using none that coreD(3) [OF c] by (force simp: runnable_def)
  from exec_round_idle [OF c t r this] obtain s' where "exec_round n s = Some s'" "loop_inv n l0 s'"
      "plist s' = plist s" "running s' = -1" "time s' = time s + 1"
      "fin_cnt s < n \<longrightarrow> work_left n l0 s' < work_left n l0 s" "work_left n l0 s' \<le> work_left n l0 s"
    using r by auto
  with pick np_inv_idle [OF np r] show ?thesis by (auto simp: np_state_def)
next
  fix i assume pick: "pick n s = Some (dispatch s i)" and i: "runnable s i"
    and best: "\<forall>j. runnable s j \<longrightarrow> prefers (i, burst (plist s ! i)) (j, burst (plist s ! j))"
  let ?p = "plist s ! i" and ?d = "dispatch s i"
  have len: "length (plist s) = length l0" "i < length (plist s)"
    using coreD(3) [OF c] i by (auto simp: runnable_def)
  have procs: "(ended (plist s ! j) = 0 \<or> ended (plist s ! j) = 1) \<and> 1 \<le> burst (plist s ! j) \<and>
      remain (plist s ! j) \<le> burst (plist s ! j)" if "j < length (plist s)" for j
    using core_proc [OF c, of j] jobs_ok_burst(1) [OF coreD(1) [OF c], of j] that len
    by (auto simp: proc_inv_def)
  have fresh: "remain ?p = burst ?p"
    using np i r len procs [OF len(2)] by (fastforce simp: np_inv_def np_one_def started_def runnable_def)
  have d: "plist ?d ! i = ?p\<lparr>start := time s\<rparr>" "time ?d = time s" "running ?d = int i"
    using len by (auto simp: dispatch_def)
  have "\<exists>s'. exec_round n ?d = Some s' \<and> core n l0 s' \<and> time_ok l0 s' \<and>
      s' = ?d\<lparr>plist := (plist ?d)[i := (plist ?d ! i)\<lparr>remain := remain (plist ?d ! i) - 1\<rparr>],
           gantt := gantt ?d @ [Run (pid (plist ?d ! i))], time := time ?d + 1\<rparr> \<and>
      work_left n l0 s' < work_left n l0 ?d"
    using i len d fresh procs [OF len(2)]
    by (intro exec_round_run [OF core_dispatch [OF c r i fresh] time_ok_dispatch [OF i t]])
      (auto simp: runnable_def)
  then obtain s' where s': "exec_round n ?d = Some s'" "core n l0 s'" "time_ok l0 s'"
      "plist s' = (plist s)[i := ?p\<lparr>start := time s, remain := remain ?p - 1\<rparr>]"
      "running s' = int i" "time s' = time s + 1" "work_left n l0 s' < work_left n l0 ?d"
    using len by (auto simp: dispatch_def)
  have "np_inv prefers s'"
    by (rule np_inv_dispatch_run [OF np r i fresh _ _ s'(4-6)]) (use best procs in auto)
  with pick s' len show ?thesis by (auto simp: np_state_def loop_inv_def)
qed

lemma round_progress:
  assumes st: "np_state n l0 s" and fin: "fin_cnt s < n"
  shows "\<exists>s'. nonpreemptive_round pick n s = Some s' \<and> np_state n l0 s' \<and>
    work_left n l0 s' < work_left n l0 s"
proof -
  have c: "core n l0 s" and t: "time_ok l0 s" and np: "np_inv prefers s"
    using st fin by (auto simp: np_state_def loop_inv_def)
  note over = run_over_ok [OF c]
  consider "running s = -1" | "running s \<noteq> -1" "remain (plist s ! nat (running s)) = 0"
    | "running s \<noteq> -1" "remain (plist s ! nat (running s)) \<noteq> 0" by blast
  then show ?thesis
  proof cases
    case 1
    then show ?thesis
      using pick_exec [OF c t 1 np] fin over by (auto simp: nonpreemptive_round_def)
  next
    case 2
    obtain i where i: "running s = int i" "i < length l0" "ended (plist s ! i) = 0"
      using core_running [OF c 2(1)] by blast
    from finish_running_ok [OF c 2] obtain s1 where s1: "finish_running s = Some s1" "core n l0 s1"
        "running s1 = -1" "time s1 = time s" "fin_cnt s1 = fin_cnt s + 1"
        "plist s1 = (plist s)[i := (plist s ! i)\<lparr>finish := time s, ended := 1\<rparr>]"
        "total_remain (plist s1) = total_remain (plist s)" using i by auto
    have "np_inv prefers s1"
      by (rule np_inv_finish [OF np i(1) _ _ _ s1(6,3,4)]) (use i 2 coreD(3) [OF c] in auto)
    moreover have "time_ok l0 s1" using t s1 by (simp add: time_ok_def)
    ultimately obtain s' where "Option.bind (pick n s1) (exec_round n) = Some s'" "np_state n l0 s'"
        "work_left n l0 s' \<le> work_left n l0 s1"
      using pick_exec [OF s1(2) _ s1(3)] by blast
    with s1 2 over work_left_finish [OF s1(2,5,4,7)] show ?thesis
      by (auto simp: nonpreemptive_round_def)
  next
    case 3
    obtain i where i: "running s = int i" "i < length l0" "ended (plist s ! i) = 0"
        "arrival (plist s ! i) \<le> time s" using core_running [OF c 3(1)] by blast
    have len: "length (plist s) = length l0" using coreD(3) [OF c] .
    have st: "started (plist s ! i)" using np i len by (simp add: np_inv_def np_one_def)
    have "1 \<le> remain (plist s ! i)" using core_proc [OF c i(2)] 3 i by (simp add: proc_inv_def)
    with exec_round_run [OF c t i(1,2) refl i(3) _ i(4)] st
    obtain s' where s': "exec_round n s = Some s'" "core n l0 s'" "time_ok l0 s'"
        "plist s' = (plist s)[i := (plist s ! i)\<lparr>remain := remain (plist s ! i) - 1\<rparr>]"
        "running s' = int i" "time s' = time s + 1" "work_left n l0 s' < work_left n l0 s"
      using i(1) by (auto simp: started_def)
    have "np_inv prefers s'"
      by (rule np_inv_run [OF np i(1) _ i(3) s'(4-6)]) (use i len in auto)
    with s' 3 over show ?thesis by (auto simp: nonpreemptive_round_def np_state_def loop_inv_def)
  qed
qed

sublocale alg: sched_alg "nonpreemptive_round pick" "\<lambda>s. s" np_state
  by unfold_locales (simp add: np_state_def, rule round_progress)

text \<open>The simulation from a fresh table, and its metrics.\<close>

lemma simulates:
  assumes "fresh_table l" "n = int (length l)"
  shows "\<exists>s. c_while (\<lambda>s. fin_cnt s < n) (nonpreemptive_round pick n) (sched_start l) = Some s \<and>
    sched_done l (plist s) (gantt s) \<and> np_inv prefers s \<and>
    metrics calc_waiting n (plist s) = Some (map (with_metrics (\<lambda>p. start p - arrival p)) (plist s))"
proof -
  have "np_state n l (sched_start l)"
    using core_start [OF assms] assms(1)
    by (auto simp: np_state_def np_inv_def np_one_def np_two_def started_def fresh_table_def sched_start_def)
  from alg.completes [OF this] obtain s where s:
      "c_while (\<lambda>s. fin_cnt s < n) (nonpreemptive_round pick n) (sched_start l) = Some s"
      "np_inv prefers s" "core n l s" "\<forall>p \<in> set (plist s). ended p = 1"
    by (auto simp: np_state_def)
  have dn: "sched_done l (plist s) (gantt s)" using core_done [OF s(3,4)] .
  note ok = sched_done_set [OF this]
  have "metrics calc_waiting n (plist s) = Some (map (with_metrics (\<lambda>p. start p - arrival p)) (plist s))"
    using ok coreD(2,3) [OF s(3)] by (intro metrics_ok) (auto intro: calc_waiting_ok)
  with s dn show ?thesis by blast
qed

end

section \<open>Both algorithms satisfy the interface\<close>

lemma FCFS_pick_law:
  assumes c: "core n l0 s" and r: "running s = -1"
  shows "FCFS_pick n s = Some s \<and> (\<forall>i. \<not> runnable s i) \<or>
    (\<exists>i. FCFS_pick n s = Some (dispatch s i) \<and> runnable s i \<and> (\<forall>j. runnable s j \<longrightarrow> i \<le> j))"
proof -
  have n: "n = int (length (plist s))" using coreD(2,3) [OF c] by simp
  let ?f = "\<lambda>i. do { p \<leftarrow> rd (plist s) i; Some (arrival p \<le> time s \<and> ended p = 0) }"
  have "?f j = Some (runnable s (nat j))" if "0 \<le> j" "j < n" for j
    using that n by (auto simp: runnable_def)
  moreover have "0 \<le> n" using n by simp
  ultimately obtain k where k: "find_range 0 n ?f = Some k" "0 \<le> k" "k \<le> n"
      "\<And>j. 0 \<le> j \<Longrightarrow> j < k \<Longrightarrow> \<not> runnable s (nat j)" "k < n \<Longrightarrow> runnable s (nat k)"
    using find_range_ok [of 0 n ?f "\<lambda>j. runnable s (nat j)"] by blast
  have least: "k \<le> int j" if "runnable s j" for j using k(4) [of "int j"] that by force
  show ?thesis
  proof (cases "k < n")
    case True
    with k n least show ?thesis
      by (intro disjI2 exI [of _ "nat k"])
        (auto simp: FCFS_pick_def set_start_def dispatch_def nat_le_iff)
  next
    case False
    with least n have "\<not> runnable s i" for i by (force simp: runnable_def)
    with False k show ?thesis by (simp add: FCFS_pick_def)
  qed
qed

lemma SJF_pick_law:
  assumes c: "core n l0 s" and r: "running s = -1"
  shows "SJF_pick n s = Some s \<and> (\<forall>i. \<not> runnable s i) \<or>
    (\<exists>i. SJF_pick n s = Some (dispatch s i) \<and> runnable s i \<and>
      (\<forall>j. runnable s j \<longrightarrow> burst (plist s ! i) \<le> burst (plist s ! j)))"
proof -
  have len: "n = int (length (plist s))" "length (plist s) = length l0" using coreD(2,3) [OF c] by auto
  have "burst (plist s ! i) < INT_MAX" if "runnable s i" for i
    using that len(2) core_proc [OF c, of i] jobs_ok_burst(3) [OF coreD(1) [OF c], of i]
    by (simp add: runnable_def proc_inv_def)
  from select_min_ok [where key = burst, OF len(1) this] obtain mn m where
      sel: "select_min burst n s = Some (mn, m)"
      "m = -1 \<and> (\<forall>i. \<not> runnable s i) \<or> (\<exists>i. m = int i \<and> runnable s i \<and>
        (\<forall>j. runnable s j \<longrightarrow> burst (plist s ! i) \<le> burst (plist s ! j)))" by blast
  from sel(2) show ?thesis
  proof (elim disjE exE conjE)
    assume "m = -1" "\<forall>i. \<not> runnable s i"
    with sel(1) r show ?thesis by (simp add: SJF_pick_def)
  next
    fix i assume "m = int i" "runnable s i" "\<forall>j. runnable s j \<longrightarrow> burst (plist s ! i) \<le> burst (plist s ! j)"
    with sel(1) show ?thesis
      by (intro disjI2 exI [of _ i]) (auto simp: SJF_pick_def set_start_def dispatch_def runnable_def)
  qed
qed

interpretation fcfs: nonpreemptive FCFS_pick "\<lambda>(i, b) (j, b'). i \<le> j"
  using FCFS_pick_law by unfold_locales simp

interpretation sjf: nonpreemptive SJF_pick "\<lambda>(i, b) (j, b'). b \<le> b'"
  using SJF_pick_law by unfold_locales simp

section \<open>Results\<close>

lemma np_inv_done:
  assumes np: "np_inv pr s" and dn: "sched_done l0 (plist s) g" and i: "i < length l0"
  shows "finish (plist s ! i) = start (plist s ! i) + burst (plist s ! i)"
    and "j < length l0 \<Longrightarrow> i \<noteq> j \<Longrightarrow> finish (plist s ! i) \<le> start (plist s ! j) \<or>
      finish (plist s ! j) \<le> start (plist s ! i)"
    and "j < length l0 \<Longrightarrow> i \<noteq> j \<Longrightarrow> arrival (plist s ! j) \<le> start (plist s ! i) \<Longrightarrow>
      start (plist s ! i) < start (plist s ! j) \<Longrightarrow>
      pr (i, burst (plist s ! i)) (j, burst (plist s ! j))"
proof -
  have d: "length (plist s) = length l0" "\<And>k. k < length l0 \<Longrightarrow> done_ok (plist s ! k)"
    using dn by (auto simp: sched_done_def proc_done_def)
  have st: "started (plist s ! k)" "ended (plist s ! k) = 1" if "k < length l0" for k
    using d(2) [OF that] by (auto simp: done_ok_def started_def)
  have one: "np_one (time s) (running s) (int i) (plist s ! i)" using np i d by (simp add: np_inv_def)
  with st [OF i] show "finish (plist s ! i) = start (plist s ! i) + burst (plist s ! i)"
    by (simp add: np_one_def)
  assume j: "j < length l0" "i \<noteq> j"
  have two: "np_two pr i (plist s ! i) j (plist s ! j)" using np i j d by (simp add: np_inv_def)
  with st [OF i] st [OF j(1)] show "finish (plist s ! i) \<le> start (plist s ! j) \<or>
      finish (plist s ! j) \<le> start (plist s ! i)" by (auto simp: np_two_def)
  show "pr (i, burst (plist s ! i)) (j, burst (plist s ! j))"
    if "arrival (plist s ! j) \<le> start (plist s ! i)" "start (plist s ! i) < start (plist s ! j)"
    using two st [OF i] that by (simp add: np_two_def)
qed

text \<open>The metrics of a non-preemptive run.\<close>

definition np_metrics :: "process \<Rightarrow> bool" where
  "np_metrics p \<longleftrightarrow> finish p = start p + burst p \<and> waiting p = start p - arrival p \<and>
     response p = waiting p \<and> turnaround p = waiting p + burst p"

lemma np_result:
  assumes "np_inv pr s" "sched_done l0 (plist s) g" and w: "w = (\<lambda>p. start p - arrival p)"
  shows "\<forall>p \<in> set (map (with_metrics w) (plist s)). np_metrics p"
proof -
  have len: "length (plist s) = length l0" using assms by (simp add: sched_done_def)
  show ?thesis
    using np_inv_done(1) [OF assms(1,2)] len w by (auto simp: np_metrics_def in_set_conv_nth)
qed

lemma last_arrival_perm: "mset l = mset l' \<Longrightarrow> last_arrival l = last_arrival l'"
proof -
  assume m: "mset l = mset l'"
  have "last_arrival k \<le> x \<longleftrightarrow> 0 \<le> x \<and> (\<forall>p \<in> set k. arrival p \<le> x)" for k x
    by (induction k) auto
  with mset_eq_setD [OF m] have "last_arrival l \<le> x \<longleftrightarrow> last_arrival l' \<le> x" for x by simp
  then show ?thesis by (meson order_antisym order_refl)
qed

lemma jobs_ok_perm:
  assumes m: "mset l = mset l'" and "jobs_ok l"
  shows "jobs_ok l'"
proof -
  have "mset (map burst l) = mset (map burst l')" "mset (map pid l) = mset (map pid l')"
    using m by simp_all
  then have "total_burst l = total_burst l'" "distinct (map pid l) = distinct (map pid l')"
    unfolding total_burst_def by (metis sum_mset_sum_list, metis mset_eq_imp_distinct_iff)
  with last_arrival_perm [OF m] mset_eq_setD [OF m] mset_eq_length [OF m] assms(2) show ?thesis
    by (simp add: jobs_ok_def)
qed

lemma fresh_table_sort: "fresh_table l \<Longrightarrow> fresh_table (sort_key arrival l)"
  using jobs_ok_perm [of l "sort_key arrival l"] by (simp add: fresh_table_def)

lemma FCFS_ok:
  assumes "fresh_table l"
  shows "\<exists>l' g. FCFS l (int (length l)) = Some (l', g, int (length l)) \<and>
    sched_done (sort_key arrival l) l' g \<and> (\<forall>p \<in> set l'. np_metrics p) \<and>
    (\<forall>i j. i < j \<and> j < length l' \<longrightarrow> finish (l' ! i) \<le> start (l' ! j))"
proof -
  let ?l = "sort_key arrival l" and ?n = "int (length l)" and ?w = "\<lambda>p. start p - arrival p"
  have "?n = int (length ?l)" by simp
  from fcfs.simulates [OF fresh_table_sort [OF assms] this] obtain s where s:
      "c_while (\<lambda>s. fin_cnt s < ?n) (nonpreemptive_round FCFS_pick ?n) (sched_start ?l) = Some s"
      "sched_done ?l (plist s) (gantt s)" "np_inv (\<lambda>(i, b) (j, b'). i \<le> j) s"
      "metrics calc_waiting ?n (plist s) = Some (map (with_metrics ?w) (plist s))" by blast
  have "FCFS l ?n = Some (map (with_metrics ?w) (plist s), gantt s, ?n)"
    using s FCFS_sort_ok [of ?n l] by (simp add: FCFS_def)
  moreover have "finish (plist s ! i) \<le> start (plist s ! j)" if "i < j" "j < length l" for i j
  proof -
    have ij: "i < length ?l" "j < length ?l" "i \<noteq> j" using that by auto
    have "arrival (?l ! i) \<le> arrival (?l ! j)"
      using sorted_nth_mono [OF sorted_sort_key [of arrival l], of i j] that by simp
    then have "arrival (plist s ! i) \<le> start (plist s ! j)" "1 \<le> burst (plist s ! j)"
      using s(2) ij by (auto simp: sched_done_def proc_done_def done_ok_def)
    with np_inv_done(3) [OF s(3,2) ij(2,1) ij(3) [symmetric]] np_inv_done(2) [OF s(3,2) ij]
      np_inv_done(1) [OF s(3,2) ij(2)] that
    show ?thesis by force
  qed
  moreover have "length (plist s) = length l" using s(2) by (simp add: sched_done_def)
  ultimately show ?thesis
    using sched_done_metrics [OF s(2)] np_result [OF s(3,2) refl]
    by (intro exI [of _ "map (with_metrics ?w) (plist s)"] exI [of _ "gantt s"]) simp
qed

text \<open>
  C21. \<open>FCFS\<close> on a fresh table of processes with distinct pids and positive bursts returns,
  with the table sorted by arrival (ties in input order). Every process runs for exactly its
  burst and in one piece, never before it arrives, and no slot is idle while it waits;
  the processes run one after the other in the sorted order; waiting, response and
  turnaround times are the defined ones; the value returned is the number of processes.
\<close>

theorem FCFS_correct:
  assumes "fresh_table l"
  shows "\<exists>l' g. FCFS l (int (length l)) = Some (l', g, int (length l)) \<and>
    sched_done (sort_key arrival l) l' g \<and> (\<forall>p \<in> set l'. np_metrics p) \<and>
    (\<forall>i j. i < j \<and> j < length l' \<longrightarrow> finish (l' ! i) \<le> start (l' ! j))"
  using FCFS_ok [OF assms] .

lemma SJF_ok:
  assumes "fresh_table l"
  shows "\<exists>l' g. SJF l (int (length l)) = Some (l', g, int (length l)) \<and>
    sched_done l l' g \<and> (\<forall>p \<in> set l'. np_metrics p) \<and>
    (\<forall>i j. i < length l' \<and> j < length l' \<and> i \<noteq> j \<longrightarrow>
      (finish (l' ! i) \<le> start (l' ! j) \<or> finish (l' ! j) \<le> start (l' ! i)) \<and>
      (arrival (l' ! j) \<le> start (l' ! i) \<and> start (l' ! i) < start (l' ! j) \<longrightarrow>
        burst (l' ! i) \<le> burst (l' ! j)))"
proof -
  let ?n = "int (length l)" and ?w = "\<lambda>p. start p - arrival p"
  from sjf.simulates [OF assms refl] obtain s where s:
      "c_while (\<lambda>s. fin_cnt s < ?n) (nonpreemptive_round SJF_pick ?n) (sched_start l) = Some s"
      "sched_done l (plist s) (gantt s)" "np_inv (\<lambda>(i, b) (j, b'). b \<le> b') s"
      "metrics calc_waiting ?n (plist s) = Some (map (with_metrics ?w) (plist s))" by blast
  have "SJF l ?n = Some (map (with_metrics ?w) (plist s), gantt s, ?n)"
    using s by (simp add: SJF_def)
  moreover have "length (plist s) = length l" using s(2) by (simp add: sched_done_def)
  ultimately show ?thesis
    using sched_done_metrics [OF s(2)] np_result [OF s(3,2) refl] np_inv_done(2,3) [OF s(3,2)]
    by (intro exI [of _ "map (with_metrics ?w) (plist s)"] exI [of _ "gantt s"]) simp
qed

text \<open>
  C22. \<open>SJF\<close> on a fresh table returns with every process finished and the metrics of a
  non-preemptive run. Two processes never overlap, and whenever \<open>q\<close> had arrived by the time
  \<open>p\<close> was started and was started later, the burst of \<open>p\<close> is at most that of \<open>q\<close>.
\<close>

theorem SJF_correct:
  assumes "fresh_table l"
  shows "\<exists>l' g. SJF l (int (length l)) = Some (l', g, int (length l)) \<and>
    sched_done l l' g \<and> (\<forall>p \<in> set l'. np_metrics p) \<and>
    (\<forall>i j. i < length l' \<and> j < length l' \<and> i \<noteq> j \<longrightarrow>
      (finish (l' ! i) \<le> start (l' ! j) \<or> finish (l' ! j) \<le> start (l' ! i)) \<and>
      (arrival (l' ! j) \<le> start (l' ! i) \<and> start (l' ! i) < start (l' ! j) \<longrightarrow>
        burst (l' ! i) \<le> burst (l' ! j)))"
  using SJF_ok [OF assms] .

text \<open>Witnesses and the job that never ends.\<close>

definition sample_jobs :: "process list" where
  "sample_jobs = [job_entry blank 1 0 5, job_entry blank 2 2 3, job_entry blank 3 2 1]"

lemma sample_jobs_fresh: "fresh_table sample_jobs"
  by (simp add: fresh_table_def jobs_ok_def sample_jobs_def job_entry_def total_burst_def INT_MAX_def)

lemma sample_jobs_length [simp]: "length sample_jobs = 3"
  by (simp add: sample_jobs_def)

lemma stuck_dispatch:
  "stuck i s \<Longrightarrow> runnable s k \<Longrightarrow> stuck i (dispatch s k)"
  by (auto simp: stuck_def dispatch_def runnable_def sum_map_update nth_list_update
      dest!: subsetD [OF set_update_subset_insert])

lemma stuck_forever:
  assumes pick: "\<And>s s'. running s = -1 \<Longrightarrow> n = int (length (plist s)) \<Longrightarrow> pick n s = Some s' \<Longrightarrow>
      s' = s \<or> (\<exists>k. runnable s k \<and> s' = dispatch s k)"
    and start: "stuck i s" "never_over i s" "n = int (length (plist s))"
  shows "c_while (\<lambda>s. fin_cnt s < n) (nonpreemptive_round pick n) s = None"
proof (rule ccontr)
  let ?I = "\<lambda>s. stuck i s \<and> never_over i s \<and> n = int (length (plist s))"
  assume "\<not> ?thesis"
  then obtain t where ret: "c_while (\<lambda>s. fin_cnt s < n) (nonpreemptive_round pick n) s = Some t" by blast
  have nxt: "?I s'" if "stuck i s1" "running s1 = -1" "n = int (length (plist s1))"
      "Option.bind (pick n s1) (exec_round n) = Some s'" for s1 s'
  proof -
    from that(4) obtain s2 where s2: "pick n s1 = Some s2" "exec_round n s2 = Some s'"
      by (auto split: bind_splits)
    have "stuck i s2" "length (plist s2) = length (plist s1)"
      using pick [OF that(2,3) s2(1)] stuck_dispatch [OF that(1)] that(1) by (auto simp: dispatch_def)
    with stuck_exec [OF _ s2(2)] that(3) show ?thesis by auto
  qed
  have "?I s'" if I: "?I s" and r: "nonpreemptive_round pick n s = Some s'" for s s'
  proof (cases "run_over s = Some True")
    case True
    with r obtain s1 where "finish_running s = Some s1" "Option.bind (pick n s1) (exec_round n) = Some s'"
      by (auto simp: nonpreemptive_round_def split: bind_splits)
    with stuck_finish [OF _ _ True] nxt [of s1] I show ?thesis by auto
  next
    case False
    with r have "if running s = -1 then Option.bind (pick n s) (exec_round n) = Some s'
        else exec_round n s = Some s'"
      by (auto simp: nonpreemptive_round_def split: bind_splits)
    with nxt [of s s'] stuck_exec [of i s n s'] I show ?thesis
      by (cases "running s = -1") simp_all
  qed
  with c_while_inv [OF ret, of ?I] start have "?I t \<and> \<not> fin_cnt t < n" by blast
  with stuck_unfinished [of i t] show False by simp
qed

lemma FCFS_pick_result:
  assumes "n = int (length (plist s))" "FCFS_pick n s = Some s'"
  shows "s' = s \<or> (\<exists>k. runnable s k \<and> s' = dispatch s k)"
proof -
  let ?f = "\<lambda>i. do { p \<leftarrow> rd (plist s) i; Some (arrival p \<le> time s \<and> ended p = 0) }"
  have "?f j = Some (runnable s (nat j))" if "0 \<le> j" "j < n" for j
    using that assms(1) by (auto simp: runnable_def)
  moreover have "0 \<le> n" using assms(1) by simp
  ultimately obtain k where k: "find_range 0 n ?f = Some k" "0 \<le> k" "k < n \<Longrightarrow> runnable s (nat k)"
    using find_range_ok [of 0 n ?f "\<lambda>j. runnable s (nat j)"] by blast
  show ?thesis
  proof (cases "k < n")
    case True
    with k assms show ?thesis
      by (intro disjI2 exI [of _ "nat k"]) (auto simp: FCFS_pick_def set_start_def dispatch_def)
  next
    case False
    with k assms show ?thesis by (simp add: FCFS_pick_def)
  qed
qed

text \<open>
  A process with a burst of zero or less, which the input file may hold, makes \<open>FCFS\<close>
  never return: its remaining time is decremented below zero and the test for zero, the only
  way out, is missed from then on.
\<close>

theorem FCFS_zero_burst_diverges:
  assumes "\<forall>p \<in> set l. remain p = burst p \<and> ended p = 0" "\<exists>p \<in> set l. burst p \<le> 0"
  shows "FCFS l (int (length l)) = None"
proof -
  let ?l = "sort_key arrival l" and ?n = "int (length l)"
  have "\<exists>p \<in> set ?l. burst p \<le> 0" using assms(2) by simp
  then obtain i where i: "i < length ?l" "burst (?l ! i) \<le> 0" by (metis in_set_conv_nth)
  have "c_while (\<lambda>s. fin_cnt s < ?n) (nonpreemptive_round FCFS_pick ?n) (sched_start ?l) = None"
    by (rule stuck_forever [where i = i])
      (use FCFS_pick_result stuck_start [OF i] assms in \<open>auto simp: sched_start_def\<close>)
  then show ?thesis using FCFS_sort_ok [of ?n l] by (simp add: FCFS_def)
qed

theorem FCFS_zero_burst_diverges_witness:
  "FCFS [job_entry blank 1 0 2, job_entry blank 2 1 0] 2 = None"
  using FCFS_zero_burst_diverges [of "[job_entry blank 1 0 2, job_entry blank 2 1 0]"]
  by (simp add: job_entry_def)

theorem FCFS_correct_witness:
  "fresh_table sample_jobs \<and> (\<exists>l' g. FCFS sample_jobs 3 = Some (l', g, 3) \<and>
    sched_done (sort_key arrival sample_jobs) l' g \<and> (\<forall>p \<in> set l'. np_metrics p) \<and>
    (\<forall>i j. i < j \<and> j < length l' \<longrightarrow> finish (l' ! i) \<le> start (l' ! j)))"
  using FCFS_correct [OF sample_jobs_fresh] sample_jobs_fresh by simp

theorem SJF_correct_witness:
  "fresh_table sample_jobs \<and> (\<exists>l' g. SJF sample_jobs 3 = Some (l', g, 3) \<and>
    sched_done sample_jobs l' g \<and> (\<forall>p \<in> set l'. np_metrics p) \<and>
    (\<forall>i j. i < length l' \<and> j < length l' \<and> i \<noteq> j \<longrightarrow>
      (finish (l' ! i) \<le> start (l' ! j) \<or> finish (l' ! j) \<le> start (l' ! i)) \<and>
      (arrival (l' ! j) \<le> start (l' ! i) \<and> start (l' ! i) < start (l' ! j) \<longrightarrow>
        burst (l' ! i) \<le> burst (l' ! j))))"
  using SJF_correct [OF sample_jobs_fresh] sample_jobs_fresh by simp

end
