(* ===== verification/Sched_SRTF.thy ===== *)
theory Sched_SRTF
  imports Sched_Nonpreemptive
begin

text \<open>
  \<open>SRTF\<close> of \<open>src/Assignment3-3/cpu_scheduler.c\<close>: preemptive selection of the process with
  the least remaining time in every millisecond, with its count of context switches.
\<close>

section \<open>The algorithm\<close>

text \<open>The state is the pair of \<open>context_switch\<close> and the simulation variables.\<close>

definition SRTF_round :: "int \<Rightarrow> int \<times> sched \<Rightarrow> (int \<times> sched) option" where
  "SRTF_round n = (\<lambda>(context_switch, s). do {
     over \<leftarrow> run_over s;
     s1 \<leftarrow> if over then finish_running s else Some s;
     (mn, min_idx) \<leftarrow> select_min remain n s1;
     if min_idx \<noteq> -1 then do {
       cs \<leftarrow> if running s1 \<noteq> min_idx then c_int (context_switch + 1) else Some context_switch;
       s2 \<leftarrow> give_cpu s1 min_idx;
       s3 \<leftarrow> run_one s2;
       s4 \<leftarrow> tick s3;
       Some (cs, s4)
     } else do { s2 \<leftarrow> tick (idle_slot n s1); Some (context_switch, s2) }
   })"

definition SRTF :: "process list \<Rightarrow> int \<Rightarrow> (process list \<times> slot list \<times> int) option" where
  "SRTF list n = do {
     (cs, s) \<leftarrow> c_while (\<lambda>s. fin_cnt (snd s) < n) (SRTF_round n) (0, sched_start list);
     l' \<leftarrow> metrics calc_waiting_preemptive n (plist s);
     Some (l', gantt s, cs)
   }"

section \<open>What a chart shows\<close>

text \<open>The time a process still needs before slot \<open>t\<close> of a chart.\<close>

definition slot_rem :: "slot list \<Rightarrow> process \<Rightarrow> nat \<Rightarrow> int" where
  "slot_rem g p t = burst p - int (count_list (take t g) (Run (pid p)))"

text \<open>Each slot goes to an arrived process that needs no more than any other arrived one.\<close>

definition least_slot :: "process list \<Rightarrow> slot list \<Rightarrow> nat \<Rightarrow> bool" where
  "least_slot l g t \<longleftrightarrow> (\<forall>p \<in> set l. g ! t = Run (pid p) \<longrightarrow> arrival p \<le> int t \<and>
     (\<forall>q \<in> set l. arrival q \<le> int t \<and> 0 < slot_rem g q t \<longrightarrow> slot_rem g p t \<le> slot_rem g q t))"

definition least_first :: "process list \<Rightarrow> slot list \<Rightarrow> bool" where
  "least_first l g \<longleftrightarrow> (\<forall>t < length g. least_slot l g t)"

text \<open>The number of times the chart changes to a process.\<close>

definition switches :: "slot list \<Rightarrow> nat" where
  "switches g = length (filter (\<lambda>t. g ! t \<noteq> Idle \<and> (t = 0 \<or> g ! (t - 1) \<noteq> g ! t)) [0..<length g])"

lemma slot_rem_snoc: "t \<le> length g \<Longrightarrow> slot_rem (g @ [x]) p t = slot_rem g p t"
  by (simp add: slot_rem_def)

lemma least_first_snoc:
  "least_first l (g @ [x]) \<longleftrightarrow> least_first l g \<and> (\<forall>p \<in> set l. x = Run (pid p) \<longrightarrow>
    arrival p \<le> int (length g) \<and> (\<forall>q \<in> set l. arrival q \<le> int (length g) \<and> 0 < slot_rem g q (length g) \<longrightarrow>
      slot_rem g p (length g) \<le> slot_rem g q (length g)))"
proof -
  have "least_slot l (g @ [x]) t = least_slot l g t" if "t < length g" for t
    using that by (simp add: least_slot_def slot_rem_snoc nth_append)
  then show ?thesis
    by (auto simp: least_first_def All_less_Suc least_slot_def [of l "g @ [x]" "length g"] slot_rem_snoc)
qed

lemma switches_snoc:
  "switches (g @ [x]) = switches g + (if x \<noteq> Idle \<and> (g = [] \<or> last g \<noteq> x) then 1 else 0)"
proof -
  have "filter (\<lambda>t. (g @ [x]) ! t \<noteq> Idle \<and> (t = 0 \<or> (g @ [x]) ! (t - 1) \<noteq> (g @ [x]) ! t)) [0..<length g] =
      filter (\<lambda>t. g ! t \<noteq> Idle \<and> (t = 0 \<or> g ! (t - 1) \<noteq> g ! t)) [0..<length g]"
    by (rule filter_cong) (auto simp: nth_append)
  moreover have "(g @ [x]) ! (length g - 1) = last g" if "g \<noteq> []"
    using that by (simp add: nth_append last_conv_nth)
  ultimately show ?thesis by (auto simp: switches_def)
qed

lemma switches_le: "switches g \<le> length g"
  unfolding switches_def by (rule order_trans [OF length_filter_le]) simp

section \<open>One round\<close>

definition srtf_inv :: "int \<Rightarrow> process list \<Rightarrow> int \<times> sched \<Rightarrow> bool" where
  "srtf_inv n l0 = (\<lambda>(cs, s). loop_inv n l0 s \<and> least_first l0 (gantt s) \<and>
     cs = int (switches (gantt s)) \<and> last_ran s)"

text \<open>Before slot \<open>t\<close>, the current one, the chart shows the remaining times of the table.\<close>

lemma slot_rem_now:
  assumes "core n l0 s" "i < length l0" "t = length (gantt s)"
  shows "slot_rem (gantt s) (l0 ! i) t = remain (plist s ! i)"
  using core_proc [OF assms(1,2)] assms(3) by (auto simp: slot_rem_def proc_inv_def)

lemma srtf_run:
  assumes c: "core n l0 s" and t: "time_ok l0 s" and w: "has_work s" and i: "runnable s i"
    and least: "\<And>j. runnable s j \<Longrightarrow> remain (plist s ! i) \<le> remain (plist s ! j)"
    and lf: "least_first l0 (gantt s)" and l: "last_ran s"
  shows "\<exists>s'. do { s2 \<leftarrow> give_cpu s (int i); s3 \<leftarrow> run_one s2; tick s3 } = Some s' \<and>
    loop_inv n l0 s' \<and> least_first l0 (gantt s') \<and> last_ran s' \<and> work_left n l0 s' < work_left n l0 s \<and>
    switches (gantt s') = switches (gantt s) + (if running s \<noteq> int i then 1 else 0) \<and> 
    switches (gantt s') \<le> nat INT_MAX"
proof -
  let ?p = "plist s ! i" and ?g = "gantt s @ [Run (pid (plist s ! i))]"
  have len: "i < length (plist s)" "length (plist s) = length l0" "ended ?p = 0" "arrival ?p \<le> time s"
    using i coreD(3) [OF c] by (auto simp: runnable_def)
  have fin: "fin_cnt s < n" using core_unended [OF c] len by simp
  have now: "int (length (gantt s)) = time s" using coreD(6) [OF c fin] .
  from cpu_round [OF c t w i] obtain s2 s' p' where s':
      "give_cpu s (int i) = Some s2" "exec_round n s2 = Some s'" "core n l0 s'" "time_ok l0 s'"
      "work_left n l0 s' < work_left n l0 s" "running s2 = int i" "running s' = int i"
      "plist s' = (plist s)[i := p']" "pid p' = pid ?p" "gantt s' = ?g" "time s' = time s + 1"
    by auto
  have ret: "do { s2 \<leftarrow> give_cpu s (int i); s3 \<leftarrow> run_one s2; tick s3 } = Some s'"
    using s'(1,2,6) by (simp add: exec_round_def)
  have "least_first l0 ?g"
    unfolding least_first_snoc set_conv_nth
  proof (safe; (rule lf)?)
    fix k assume k: "k < length l0" "pid ?p = pid (l0 ! k)"
    then have "k = i" using core_pid_neq [OF c _ k(1), of i] core_proc [OF c k(1)] len
      by (metis proc_inv_pid)
    with core_proc [OF c k(1)] now len show "arrival (l0 ! k) \<le> int (length (gantt s))"
      by (simp add: proc_inv_def)
    fix j assume j: "j < length l0" "arrival (l0 ! j) \<le> int (length (gantt s))"
      "0 < slot_rem (gantt s) (l0 ! j) (length (gantt s))"
    then have "runnable s j"
      using slot_rem_now [OF c j(1) refl] core_proc [OF c j(1)] now len
      by (auto simp: runnable_def proc_inv_def)
    with least [OF this] \<open>k = i\<close> show "slot_rem (gantt s) (l0 ! k) (length (gantt s)) \<le>
        slot_rem (gantt s) (l0 ! j) (length (gantt s))"
      using slot_rem_now [OF c j(1) refl] slot_rem_now [OF c k(1) refl] by simp
  qed
  moreover have "gantt s \<noteq> [] \<and> last (gantt s) = Run (pid ?p) \<longleftrightarrow> running s = int i"
  proof
    assume "gantt s \<noteq> [] \<and> last (gantt s) = Run (pid ?p)"
    then have r: "running s \<noteq> -1" "pid ?p = pid (plist s ! nat (running s))"
      using l len by (auto simp: last_ran_def)
    with core_running [OF c] core_pid_neq [OF c] len show "running s = int i" by (metis nat_int)
  next
    assume "running s = int i"
    with l show "gantt s \<noteq> [] \<and> last (gantt s) = Run (pid ?p)" by (simp add: last_ran_def)
  qed
  moreover have "last_ran s'"
    using last_ran_runs [of s' i "gantt s"] s' len by simp
  moreover have "switches ?g \<le> nat INT_MAX"
    using switches_le [of ?g] now coreD(7) [OF s'(3)] s'(11) by simp
  ultimately show ?thesis
    using ret s' by (auto simp: loop_inv_def switches_snoc)
qed

lemma srtf_select:
  assumes "core n l0 s"
  shows "\<exists>mn r. select_min remain n s = Some (mn, r) \<and> (r = -1 \<and> (\<forall>i. \<not> runnable s i) \<or>
    (\<exists>i. r = int i \<and> runnable s i \<and> (\<forall>j. runnable s j \<longrightarrow> remain (plist s ! i) \<le> remain (plist s ! j))))"
proof (rule select_min_ok)
  show "n = int (length (plist s))" using coreD(2,3) [OF assms] by simp
  fix i assume "runnable s i"
  then have i: "i < length l0" using coreD(3) [OF assms] by (simp add: runnable_def)
  from core_proc [OF assms i] jobs_ok_burst(3) [OF coreD(1) [OF assms] i]
  show "remain (plist s ! i) < INT_MAX" by (simp add: proc_inv_def)
qed

lemma srtf_progress:
  assumes inv: "srtf_inv n l0 st" and fin: "fin_cnt (snd st) < n"
  shows "\<exists>st'. SRTF_round n st = Some st' \<and> srtf_inv n l0 st' \<and>
    work_left n l0 (snd st') < work_left n l0 (snd st)"
proof -
  obtain cs s where st: "st = (cs, s)" by (cases st)
  have c: "core n l0 s" and t: "time_ok l0 s" and lf: "least_first l0 (gantt s)"
    and cs: "cs = int (switches (gantt s))" and lr: "last_ran s"
    using inv fin st by (auto simp: srtf_inv_def loop_inv_def)
  obtain ov where ov: "run_over s = Some ov" "ov \<Longrightarrow> running s \<noteq> -1" using run_over_ok [OF c] by auto
  from finish_step [OF c t ov(1)] obtain s1 where s1:
      "(if ov then finish_running s else Some s) = Some s1" "core n l0 s1" "time_ok l0 s1" "has_work s1"
      "gantt s1 = gantt s" "time s1 = time s"
      "s1 = s \<and> \<not> ov \<or> running s1 = -1 \<and> ov \<and> work_left n l0 s1 < work_left n l0 s \<and>
        plist s1 = (plist s)[nat (running s) := (plist s ! nat (running s))\<lparr>finish := time s, ended := 1\<rparr>]"
    by blast
  have lr1: "last_ran s1" using s1(5,7) lr last_ran_finish [OF c lr ov(2)] by auto
  have wl: "work_left n l0 s1 \<le> work_left n l0 s" and
    wl': "\<not> fin_cnt s1 < n \<Longrightarrow> work_left n l0 s1 < work_left n l0 s" using s1(7) fin st by auto
  from srtf_select [OF s1(2)] obtain mn r where sel: "select_min remain n s1 = Some (mn, r)"
      "r = -1 \<and> (\<forall>i. \<not> runnable s1 i) \<or> (\<exists>i. r = int i \<and> runnable s1 i \<and>
        (\<forall>j. runnable s1 j \<longrightarrow> remain (plist s1 ! i) \<le> remain (plist s1 ! j)))" by blast
  from sel(2) show ?thesis
  proof (elim disjE exE conjE)
    assume r: "r = -1" and none: "\<forall>i. \<not> runnable s1 i"
    have idle: "running s1 = -1"
      using core_running [OF s1(2)] none coreD(3) [OF s1(2)] by (metis runnable_def)
    have "time s1 < arrival (plist s1 ! i)" if "i < length l0" "ended (plist s1 ! i) = 0" for i
      using none that coreD(3) [OF s1(2)] by (force simp: runnable_def)
    from exec_round_idle [OF s1(2,3) idle this] obtain s' where s': "exec_round n s1 = Some s'"
        "loop_inv n l0 s'" "s' = s1\<lparr>gantt := (if fin_cnt s1 < n then gantt s1 @ [Idle] else gantt s1),
          time := time s1 + 1\<rparr>"
        "fin_cnt s1 < n \<longrightarrow> work_left n l0 s' < work_left n l0 s1" "work_left n l0 s' \<le> work_left n l0 s1"
      by blast
    have "least_first l0 (gantt s')" "switches (gantt s') = switches (gantt s)"
      using lf s'(3) s1(5) by (auto simp: least_first_snoc switches_snoc)
    moreover have "last_ran s'" unfolding s'(3) by (rule last_ran_idles [OF lr1 idle])
    moreover have "work_left n l0 s' < work_left n l0 s" using s'(4,5) wl wl' by linarith
    moreover have "SRTF_round n st = Some (cs, s')"
      using st ov s1(1) sel(1) r s'(1) idle by (simp add: SRTF_round_def exec_round_def)
    ultimately show ?thesis using s'(2) cs st by (auto simp: srtf_inv_def)
  next
    fix i assume i: "r = int i" "runnable s1 i"
      and least: "\<forall>j. runnable s1 j \<longrightarrow> remain (plist s1 ! i) \<le> remain (plist s1 ! j)"
    from srtf_run [OF s1(2-4) i(2) _ _ lr1] least lf s1(5) obtain s' where s':
        "do { s2 \<leftarrow> give_cpu s1 (int i); s3 \<leftarrow> run_one s2; tick s3 } = Some s'" "loop_inv n l0 s'"
        "least_first l0 (gantt s')" "last_ran s'" "work_left n l0 s' < work_left n l0 s1"
        "switches (gantt s') = switches (gantt s) + (if running s1 \<noteq> int i then 1 else 0)"
        "switches (gantt s') \<le> nat INT_MAX" by auto
    then have cs': "(if running s1 \<noteq> int i then c_int (cs + 1) else Some cs) = Some (int (switches (gantt s')))"
      using cs by (auto simp: c_int_def INT_MIN_def INT_MAX_def split: if_splits)
    have "SRTF_round n st = Some (int (switches (gantt s')), s')"
      using s'(1) cs' st ov s1(1) sel(1) i(1) by (auto simp: SRTF_round_def split: bind_splits)
    with s' wl st show ?thesis by (auto simp: srtf_inv_def)
  qed
qed

interpretation srtf: sched_alg SRTF_round snd srtf_inv
proof
  show "loop_inv n l0 (snd st)" if "srtf_inv n l0 st" for n l0 st
    using that by (auto simp: srtf_inv_def)
qed (rule srtf_progress)

section \<open>Results\<close>

text \<open>The metrics of a preemptive run.\<close>

definition pre_metrics :: "process \<Rightarrow> bool" where
  "pre_metrics p \<longleftrightarrow> response p = start p - arrival p \<and> turnaround p = finish p - arrival p \<and>
     waiting p = turnaround p - burst p \<and> 0 \<le> response p \<and> response p \<le> waiting p"

lemma preemptive_metrics:
  assumes "sched_done l0 l g" "n = int (length l0)"
  shows "\<exists>l'. metrics calc_waiting_preemptive n l = Some l' \<and> sched_done l0 l' g \<and>
    (\<forall>p \<in> set l'. pre_metrics p) \<and> l' = map (with_metrics (\<lambda>p. finish p - arrival p - burst p)) l"
proof -
  have "metrics calc_waiting_preemptive n l =
      Some (map (with_metrics (\<lambda>p. finish p - arrival p - burst p)) l)"
    using assms sched_done_set [OF assms(1)]
    by (intro metrics_ok) (auto simp: sched_done_def intro: calc_waiting_preemptive_ok)
  with sched_done_metrics [OF assms(1)] sched_done_set [OF assms(1)] show ?thesis
    by (force simp: pre_metrics_def done_ok_def)
qed

lemma SRTF_ok:
  assumes "fresh_table l"
  shows "\<exists>l' g. SRTF l (int (length l)) = Some (l', g, int (switches g)) \<and> sched_done l l' g \<and>
    (\<forall>p \<in> set l'. pre_metrics p) \<and> least_first l g"
proof -
  have "srtf_inv (int (length l)) l (0, sched_start l)"
    using core_start [OF assms refl]
    by (simp add: srtf_inv_def sched_start_def least_first_def switches_def last_ran_def)
  from srtf.completes [OF this] obtain cs s where s:
      "c_while (\<lambda>s. fin_cnt (snd s) < int (length l)) (SRTF_round (int (length l))) (0, sched_start l) =
        Some (cs, s)" "srtf_inv (int (length l)) l (cs, s)" "core (int (length l)) l s"
      "\<forall>p \<in> set (plist s). ended p = 1" by fastforce
  from preemptive_metrics [OF core_done [OF s(3,4)] refl] s(1,2) show ?thesis
    by (auto simp: SRTF_def srtf_inv_def)
qed

text \<open>
  C20. \<open>SRTF\<close> on a fresh table returns. Every process runs for exactly its burst, and its
  metrics are those of a preemptive run. In every slot of the Gantt chart the process shown
  had arrived and needed no more time than any other arrived process with work left, and the
  value returned is the number of times the chart changes to a process.
\<close>

theorem SRTF_correct:
  assumes "fresh_table l"
  shows "\<exists>l' g. SRTF l (int (length l)) = Some (l', g, int (switches g)) \<and> sched_done l l' g \<and>
    (\<forall>p \<in> set l'. pre_metrics p) \<and> least_first l g"
  using SRTF_ok [OF assms] .

theorem SRTF_correct_witness:
  "fresh_table sample_jobs \<and> (\<exists>l' g. SRTF sample_jobs 3 = Some (l', g, int (switches g)) \<and>
    sched_done sample_jobs l' g \<and> (\<forall>p \<in> set l'. pre_metrics p) \<and> least_first sample_jobs g)"
  using SRTF_correct [OF sample_jobs_fresh] sample_jobs_fresh by simp

end
