(* ===== verification/Sched_RR.thy ===== *)
theory Sched_RR
  imports Sched_SRTF
begin

text \<open>
  \<open>RR\<close> of \<open>src/Assignment3-3/cpu_scheduler.c\<close>: round robin over an array queue whose
  positions are never reused. The contents of uninitialised variables are parameters.
\<close>

section \<open>The algorithm\<close>

definition MAX_SIZE :: int where
  "MAX_SIZE = 1000"

record rr =
  rr_s :: sched
  rr_queue :: "int list"
  head :: int
  tail :: int
  prev_run :: int
  cur_slice :: int
  context_switch :: int

definition enqueue :: "rr \<Rightarrow> int \<Rightarrow> rr option" where
  "enqueue r i = do {
     q \<leftarrow> wr (rr_queue r) (tail r) i;
     Some (r\<lparr>rr_queue := q, tail := tail r + 1\<rparr>)
   }"

definition RR_arrivals :: "int \<Rightarrow> rr \<Rightarrow> rr option" where
  "RR_arrivals n = for_range 0 n (\<lambda>i r. do {
     p \<leftarrow> rd (plist (rr_s r)) i;
     if time (rr_s r) = arrival p then enqueue r i else Some r
   })"

text \<open>The running process has ended, or its time slice has.\<close>

definition RR_leave :: "rr \<Rightarrow> rr option" where
  "RR_leave r = do {
     over \<leftarrow> run_over (rr_s r);
     if over then do { s \<leftarrow> finish_running (rr_s r); Some (r\<lparr>rr_s := s\<rparr>) }
     else if running (rr_s r) \<noteq> -1 \<and> cur_slice r = 0 then do {
       r' \<leftarrow> enqueue r (running (rr_s r));
       Some (r'\<lparr>rr_s := (rr_s r')\<lparr>running := -1\<rparr>\<rparr>)
     } else Some r
   }"

definition RR_exec :: "rr \<Rightarrow> rr option" where
  "RR_exec r = do {
     s \<leftarrow> run_one (rr_s r);
     c \<leftarrow> c_int (cur_slice r - 1);
     s' \<leftarrow> tick s;
     Some (r\<lparr>rr_s := s', prev_run := running (rr_s r), cur_slice := c\<rparr>)
   }"

definition RR_dispatch :: "int \<Rightarrow> int \<Rightarrow> rr \<Rightarrow> rr option" where
  "RR_dispatch ts n r = (let r = r\<lparr>cur_slice := ts\<rparr> in
     if head r = tail r then do { s \<leftarrow> tick (idle_slot n (rr_s r)); Some (r\<lparr>rr_s := s\<rparr>) }
     else do {
       i \<leftarrow> rd (rr_queue r) (head r);
       s \<leftarrow> give_cpu (rr_s r) i;
       cs \<leftarrow> if prev_run r \<noteq> i then c_int (context_switch r + 1) else Some (context_switch r);
       RR_exec (r\<lparr>head := head r + 1, rr_s := s, context_switch := cs\<rparr>)
     })"

definition RR_round :: "int \<Rightarrow> int \<Rightarrow> rr \<Rightarrow> rr option" where
  "RR_round ts n r = do {
     r1 \<leftarrow> RR_arrivals n r;
     r2 \<leftarrow> RR_leave r1;
     if running (rr_s r2) = -1 then RR_dispatch ts n r2 else RR_exec r2
   }"

text \<open>\<open>q0\<close>, \<open>prev0\<close> and \<open>slice0\<close> are what the local variables hold before they are set.\<close>

definition rr_start :: "process list \<Rightarrow> int list \<Rightarrow> int \<Rightarrow> int \<Rightarrow> rr" where
  "rr_start list q0 prev0 slice0 = \<lparr>rr_s = sched_start list, rr_queue = q0, head = 0, tail = 0,
     prev_run = prev0, cur_slice = slice0, context_switch = 0\<rparr>"

definition RR :: "int list \<Rightarrow> int \<Rightarrow> int \<Rightarrow> process list \<Rightarrow> int \<Rightarrow> int \<Rightarrow>
    (process list \<times> slot list \<times> int) option" where
  "RR q0 prev0 slice0 list n time_slice = do {
     r \<leftarrow> c_while (\<lambda>r. fin_cnt (rr_s r) < n) (RR_round time_slice n) (rr_start list q0 prev0 slice0);
     l' \<leftarrow> metrics calc_waiting_preemptive n (plist (rr_s r));
     Some (l', gantt (rr_s r), context_switch r)
   }"

section \<open>The invariant\<close>

text \<open>The queue as a list of process indices.\<close>

definition holds :: "nat list \<Rightarrow> rr \<Rightarrow> bool" where
  "holds js r \<longleftrightarrow> int (length (rr_queue r)) = MAX_SIZE \<and> 0 \<le> head r \<and> head r \<le> tail r \<and>
     tail r \<le> MAX_SIZE \<and> take (nat (tail r - head r)) (drop (nat (head r)) (rr_queue r)) = map int js"

text \<open>
  The queue holds, once each, the processes that were seen to arrive, are not finished and do
  not run. \<open>seen\<close> changes while the arrivals of a round are queued.
\<close>

definition queued :: "(nat \<Rightarrow> bool) \<Rightarrow> nat list \<Rightarrow> sched \<Rightarrow> bool" where
  "queued seen js s \<longleftrightarrow> distinct js \<and>
     (\<forall>i. i \<in> set js \<longleftrightarrow> i < length (plist s) \<and> seen i \<and> ended (plist s ! i) = 0 \<and> int i \<noteq> running s) \<and>
     (\<forall>i < length (plist s). if seen i then arrival (plist s ! i) \<le> time s
        else remain (plist s ! i) = burst (plist s ! i) \<and> ended (plist s ! i) = 0 \<and> int i \<noteq> running s)"

definition slice_ok :: "int \<Rightarrow> rr \<Rightarrow> bool" where
  "slice_ok ts r \<longleftrightarrow> (running (rr_s r) \<noteq> -1 \<longrightarrow> 0 \<le> cur_slice r \<and> cur_slice r < ts \<and>
     (let p = plist (rr_s r) ! nat (running (rr_s r)) in remain p < burst p))"

text \<open>How often a process will still be put into the queue; the sum with \<open>tail\<close> is constant.\<close>

definition cdiv :: "int \<Rightarrow> int \<Rightarrow> int" where
  "cdiv a b = (a + b - 1) div b"

definition to_push :: "int \<Rightarrow> bool \<Rightarrow> bool \<Rightarrow> int \<Rightarrow> process \<Rightarrow> int" where
  "to_push ts sn rn c p = (if ended p = 1 then 0 else if \<not> sn then cdiv (remain p) ts
     else if rn then cdiv (remain p - c) ts else cdiv (remain p) ts - 1)"

definition pushes_left :: "int \<Rightarrow> (nat \<Rightarrow> bool) \<Rightarrow> rr \<Rightarrow> int" where
  "pushes_left ts seen r = (\<Sum>i < length (plist (rr_s r)).
     to_push ts (seen i) (int i = running (rr_s r)) (cur_slice r) (plist (rr_s r) ! i))"

text \<open>Nobody waits for the first slice longer than a slice of every other process.\<close>

definition slice_left :: "rr \<Rightarrow> int" where
  "slice_left r = (if running (rr_s r) = -1 then 0 else cur_slice r)"

definition waits_ok :: "int \<Rightarrow> int \<Rightarrow> nat list \<Rightarrow> rr \<Rightarrow> bool" where
  "waits_ok n ts js r \<longleftrightarrow>
     (\<forall>k < length js. let p = plist (rr_s r) ! (js ! k) in remain p = burst p \<longrightarrow>
        time (rr_s r) + slice_left r + int k * ts \<le> arrival p + (n - 1) * ts) \<and>
     (\<forall>p \<in> set (plist (rr_s r)). remain p < burst p \<longrightarrow> start p \<le> arrival p + (n - 1) * ts)"

text \<open>\<open>prev_run\<close> is the process of the last busy slot, or the initial garbage.\<close>

definition first_is :: "process list \<Rightarrow> slot list \<Rightarrow> int \<Rightarrow> bool" where
  "first_is l g prev0 \<longleftrightarrow> (\<exists>i < length l. prev0 = int i \<and> find (\<lambda>x. x \<noteq> Idle) g = Some (Run (pid (l ! i))))"

definition count_ok :: "int \<Rightarrow> process list \<Rightarrow> rr \<Rightarrow> bool" where
  "count_ok prev0 l0 r \<longleftrightarrow>
     context_switch r = int (switches (gantt (rr_s r))) - (if first_is l0 (gantt (rr_s r)) prev0 then 1 else 0) \<and>
     (running (rr_s r) \<noteq> -1 \<longrightarrow> prev_run r = running (rr_s r)) \<and>
     (find (\<lambda>x. x \<noteq> Idle) (gantt (rr_s r)) = None \<and> prev_run r = prev0 \<and> running (rr_s r) = -1 \<or>
      (\<exists>i < length l0. prev_run r = int i \<and> gantt (rr_s r) \<noteq> [] \<and> find (\<lambda>x. x \<noteq> Idle) (gantt (rr_s r)) \<noteq> None \<and>
        (last (gantt (rr_s r)) = Run (pid (l0 ! i)) \<or>
         last (gantt (rr_s r)) = Idle \<and> ended (plist (rr_s r) ! i) = 1)))"

definition rr_inv :: "int \<Rightarrow> int \<Rightarrow> int \<Rightarrow> int \<Rightarrow> process list \<Rightarrow> (nat \<Rightarrow> bool) \<Rightarrow> nat list \<Rightarrow> rr \<Rightarrow> bool" where
  "rr_inv K ts prev0 n l0 seen js r \<longleftrightarrow> core n l0 (rr_s r) \<and> holds js r \<and> queued seen js (rr_s r) \<and>
     slice_ok ts r \<and> tail r + pushes_left ts seen r = K \<and> waits_ok n ts js r \<and> count_ok prev0 l0 r \<and>
     1 \<le> ts \<and> ts \<le> INT_MAX"

lemma rr_frame [simp]:
  "slice_ok ts (r\<lparr>rr_queue := q\<rparr>) = slice_ok ts r" "slice_ok ts (r\<lparr>tail := k\<rparr>) = slice_ok ts r"
  "slice_ok ts (r\<lparr>head := k\<rparr>) = slice_ok ts r"
  "waits_ok n ts js (r\<lparr>rr_queue := q\<rparr>) = waits_ok n ts js r" "waits_ok n ts js (r\<lparr>tail := k\<rparr>) = waits_ok n ts js r"
  "waits_ok n ts js (r\<lparr>head := k\<rparr>) = waits_ok n ts js r"
  "count_ok prev0 l0 (r\<lparr>rr_queue := q\<rparr>) = count_ok prev0 l0 r" "count_ok prev0 l0 (r\<lparr>tail := k\<rparr>) = count_ok prev0 l0 r"
  "count_ok prev0 l0 (r\<lparr>head := k\<rparr>) = count_ok prev0 l0 r"
  by (simp_all add: slice_ok_def waits_ok_def count_ok_def slice_left_def)

section \<open>Arithmetic of the pushes\<close>

lemma cdiv_pos: "1 \<le> ts \<Longrightarrow> 1 \<le> a \<Longrightarrow> 1 \<le> cdiv a ts"
  using zdiv_mono1 [of ts "a + ts - 1" ts] by (simp add: cdiv_def)

lemma cdiv_nonneg: "1 \<le> ts \<Longrightarrow> - ts < a \<Longrightarrow> 0 \<le> cdiv a ts"
  by (simp add: cdiv_def pos_imp_zdiv_nonneg_iff)

lemma cdiv_zero: "1 \<le> ts \<Longrightarrow> - ts < a \<Longrightarrow> a \<le> 0 \<Longrightarrow> cdiv a ts = 0"
  by (simp add: cdiv_def div_pos_pos_trivial)

lemma cdiv_minus: "1 \<le> ts \<Longrightarrow> cdiv (a - ts) ts = cdiv a ts - 1"
  using div_add_self2 [of ts "a - 1"] by (simp add: cdiv_def algebra_simps)

lemma sum_change_one:
  fixes f g :: "nat \<Rightarrow> int"
  assumes "i < n" "\<And>k. k < n \<Longrightarrow> k \<noteq> i \<Longrightarrow> f k = g k"
  shows "(\<Sum>k < n. f k) = (\<Sum>k < n. g k) + f i - g i"
proof -
  have "(\<Sum>k < n. f k) = f i + (\<Sum>k \<in> {..<n} - {i}. f k)" "(\<Sum>k < n. g k) = g i + (\<Sum>k \<in> {..<n} - {i}. g k)"
    using assms(1) by (auto intro: sum.remove)
  moreover have "(\<Sum>k \<in> {..<n} - {i}. f k) = (\<Sum>k \<in> {..<n} - {i}. g k)"
    using assms(2) by (intro sum.cong) auto
  ultimately show ?thesis by simp
qed

lemma pushes_left_change:
  assumes "i < length (plist (rr_s r))" "plist (rr_s r') = (plist (rr_s r))[i := p']"
    and "\<And>k. k < length (plist (rr_s r)) \<Longrightarrow> k \<noteq> i \<Longrightarrow>
      to_push ts (seen' k) (int k = running (rr_s r')) (cur_slice r') (plist (rr_s r) ! k) =
      to_push ts (seen k) (int k = running (rr_s r)) (cur_slice r) (plist (rr_s r) ! k)"
  shows "pushes_left ts seen' r' = pushes_left ts seen r +
    to_push ts (seen' i) (int i = running (rr_s r')) (cur_slice r') p' -
    to_push ts (seen i) (int i = running (rr_s r)) (cur_slice r) (plist (rr_s r) ! i)"
proof -
  let ?f = "\<lambda>k. to_push ts (seen' k) (int k = running (rr_s r')) (cur_slice r') (plist (rr_s r') ! k)"
  let ?g = "\<lambda>k. to_push ts (seen k) (int k = running (rr_s r)) (cur_slice r) (plist (rr_s r) ! k)"
  have "(\<Sum>k < length (plist (rr_s r)). ?f k) = (\<Sum>k < length (plist (rr_s r)). ?g k) + ?f i - ?g i"
    by (rule sum_change_one [OF assms(1)]) (use assms(2,3) in simp)
  then show ?thesis using assms(1,2) by (simp add: pushes_left_def)
qed

text \<open>A process that is about to be queued counts; so a full array means too many pushes.\<close>

lemma to_push_nonneg:
  assumes c: "core n l0 (rr_s r)" and q: "queued seen js (rr_s r)" and sl: "slice_ok ts r" and ts: "1 \<le> ts"
    and i: "i < length l0"
  shows "0 \<le> to_push ts (seen i) (int i = running (rr_s r)) (cur_slice r) (plist (rr_s r) ! i)"
proof -
  let ?p = "plist (rr_s r) ! i"
  have p: "0 \<le> remain ?p" "ended ?p = 0 \<or> ended ?p = 1"
      "ended ?p = 0 \<Longrightarrow> int i \<noteq> running (rr_s r) \<Longrightarrow> 1 \<le> remain ?p"
    using core_proc [OF c i] by (auto simp: proc_inv_def)
  have "- ts < remain ?p - cur_slice r" if "int i = running (rr_s r)"
    using sl that p(1) by (auto simp: slice_ok_def)
  moreover have "1 \<le> cdiv (remain ?p) ts" if "ended ?p = 0" "int i \<noteq> running (rr_s r)"
    using p(3) that ts by (auto intro: cdiv_pos)
  moreover have "0 \<le> cdiv (remain ?p) ts" using p(1) ts by (intro cdiv_nonneg) auto
  ultimately show ?thesis using p ts by (auto simp: to_push_def intro: cdiv_nonneg)
qed

lemma pushes_left_ge:
  assumes "core n l0 (rr_s r)" "queued seen js (rr_s r)" "slice_ok ts r" "1 \<le> ts" "i < length l0"
  shows "to_push ts (seen i) (int i = running (rr_s r)) (cur_slice r) (plist (rr_s r) ! i) \<le> pushes_left ts seen r"
  unfolding pushes_left_def coreD(3) [OF assms(1)]
  by (rule member_le_sum) (use assms to_push_nonneg [OF assms(1-4)] in auto)

section \<open>The queue\<close>

lemma enqueue_holds:
  assumes h: "holds js r"
  shows "enqueue r (int i) = None \<and> tail r = MAX_SIZE \<or>
    (\<exists>r'. enqueue r (int i) = Some r' \<and> holds (js @ [i]) r' \<and>
      r' = r\<lparr>rr_queue := (rr_queue r)[nat (tail r) := int i], tail := tail r + 1\<rparr>)"
proof (cases "tail r = MAX_SIZE")
  case True
  then show ?thesis using h by (simp add: enqueue_def wr_def holds_def)
next
  case False
  define a b where "a = nat (head r)" and "b = nat (tail r)"
  have ab: "head r = int a" "tail r = int b" "a \<le> b" "b < length (rr_queue r)"
      "take (b - a) (drop a (rr_queue r)) = map int js"
    using h False by (auto simp: holds_def a_def b_def nat_diff_distrib)
  then have "take (Suc (b - a)) (drop a ((rr_queue r)[b := int i])) = map int js @ [int i]"
    by (subst take_drop_Suc) (auto simp: drop_update_swap)
  moreover have "nat (1 + int b - int a) = Suc (b - a)" using ab(3) by simp
  ultimately show ?thesis
    using h ab False by (auto simp: holds_def enqueue_def algebra_simps)
qed

lemma holds_empty: "holds js r \<Longrightarrow> js = [] \<longleftrightarrow> head r = tail r"
  by (auto simp: holds_def)

lemma holds_pop:
  assumes "holds (j # js) r"
  shows "rd (rr_queue r) (head r) = Some (int j) \<and> holds js (r\<lparr>head := head r + 1\<rparr>) \<and> head r \<noteq> tail r"
proof -
  define a b where "a = nat (head r)" and "b = nat (tail r)"
  have ab: "head r = int a" "tail r = int b" "a \<le> b" "b \<le> length (rr_queue r)"
      "take (b - a) (drop a (rr_queue r)) = int j # map int js"
    using assms by (auto simp: holds_def a_def b_def nat_diff_distrib)
  then have "a < b" by (cases "a = b") auto
  then have "drop a (rr_queue r) = rr_queue r ! a # drop (Suc a) (rr_queue r)" "b - a = Suc (b - Suc a)"
    using ab(4) by (simp_all add: Cons_nth_drop_Suc)
  with ab have "rr_queue r ! a = int j" "take (b - Suc a) (drop (Suc a) (rr_queue r)) = map int js" by auto
  moreover have "nat (int b - (int a + 1)) = b - Suc a" "nat (int a + 1) = Suc a" by auto
  ultimately show ?thesis using assms ab \<open>a < b\<close> by (auto simp: holds_def)
qed

section \<open>Arrivals\<close>

lemma queued_length:
  assumes q: "queued seen js s" and i: "i < length (plist s)" "i \<notin> set js" "int i \<noteq> running s"
    and r: "running s = -1 \<or> 0 \<le> running s \<and> running s < int (length (plist s))"
  shows "int (length js) \<le> int (length (plist s)) - (if running s = -1 then 1 else 2)"
proof -
  let ?B = "{..<length (plist s)} - {i}" and ?r = "nat (running s)"
  have sub: "set js \<subseteq> {..<length (plist s)} - insert i (if running s = -1 then {} else {?r})"
    using q i r by (auto simp: queued_def split: if_splits)
  have "length js = card (set js)" using q by (simp add: queued_def distinct_card)
  also have "\<dots> \<le> card ({..<length (plist s)} - insert i (if running s = -1 then {} else {?r}))"
    using sub by (intro card_mono) auto
  also have "\<dots> = length (plist s) - (if running s = -1 then 1 else 2)"
    using i r by (subst card_Diff_subset) (auto simp: card_insert_if)
  finally have le: "length js \<le> length (plist s) - (if running s = -1 then 1 else 2)" .
  have "(if running s = -1 then 1 else 2) \<le> length (plist s)"
  proof (cases "running s = -1")
    case False
    then have "card {i, ?r} = 2" "{i, ?r} \<subseteq> {..<length (plist s)}" using i r by auto
    then have "2 \<le> length (plist s)" by (metis card_lessThan card_mono finite_lessThan)
    with False show ?thesis by simp
  qed (use i in auto)
  with le show ?thesis by (auto split: if_splits)
qed

lemma waits_ok_snoc:
  assumes "waits_ok n ts js r"
    and "remain (plist (rr_s r) ! i) = burst (plist (rr_s r) ! i) \<longrightarrow> time (rr_s r) + slice_left r + int (length js) * ts \<le>
      arrival (plist (rr_s r) ! i) + (n - 1) * ts"
  shows "waits_ok n ts (js @ [i]) r"
  using assms by (auto simp: waits_ok_def nth_append Let_def less_Suc_eq)

lemma first_wait:
  assumes c: "core n l0 (rr_s r)" and q: "queued seen js (rr_s r)" and sl: "slice_ok ts r" and ts: "1 \<le> ts"
    and i: "i < length l0" "\<not> seen i"
  shows "slice_left r + int (length js) * ts \<le> (n - 1) * ts"
proof -
  let ?s = "rr_s r"
  have i': "i < length (plist ?s)" "i \<notin> set js" "int i \<noteq> running ?s"
    using q i coreD(3) [OF c] by (auto simp: queued_def split: if_splits)
  have r: "running ?s = -1 \<or> 0 \<le> running ?s \<and> running ?s < int (length (plist ?s))"
    using c coreD(2,3) [OF c] by (auto simp: core_def)
  have n: "n = int (length (plist ?s))" using coreD(2,3) [OF c] by simp
  show ?thesis
  proof (cases "running ?s = -1")
    case True
    with queued_length [OF q i' r] n ts show ?thesis by (simp add: slice_left_def mult_right_mono)
  next
    case False
    then have "int (length js) \<le> n - 2" "slice_left r \<le> ts"
      using queued_length [OF q i' r] n sl by (auto simp: slice_left_def slice_ok_def)
    then have "int (length js) * ts \<le> (n - 2) * ts" using ts by (intro mult_right_mono) auto
    with \<open>slice_left r \<le> ts\<close> show ?thesis by (simp add: algebra_simps)
  qed
qed

lemma rr_arrive:
  assumes inv: "rr_inv K ts prev0 n l0 seen js r" and i: "i < length l0" "\<not> seen i"
    and now: "arrival (plist (rr_s r) ! i) = time (rr_s r)"
  shows "enqueue r (int i) = None \<and> MAX_SIZE < K \<or>
    (\<exists>r'. enqueue r (int i) = Some r' \<and> rr_inv K ts prev0 n l0 (seen(i := True)) (js @ [i]) r' \<and> rr_s r' = rr_s r)"
proof -
  let ?p = "plist (rr_s r) ! i"
  have c: "core n l0 (rr_s r)" and h: "holds js r" and q: "queued seen js (rr_s r)" and sl: "slice_ok ts r"
    and K: "tail r + pushes_left ts seen r = K" and w: "waits_ok n ts js r" and ct: "count_ok prev0 l0 r"
    and ts: "1 \<le> ts" "ts \<le> INT_MAX" using inv by (auto simp: rr_inv_def)
  have len: "length (plist (rr_s r)) = length l0" using coreD(3) [OF c] .
  have p: "remain ?p = burst ?p" "ended ?p = 0" "int i \<noteq> running (rr_s r)"
    using q i len by (auto simp: queued_def)
  have push: "1 \<le> to_push ts (seen i) (int i = running (rr_s r)) (cur_slice r) ?p"
    using p i(2) ts core_proc [OF c i(1)] jobs_ok_burst(1) [OF coreD(1) [OF c] i(1)]
    by (auto simp: to_push_def proc_inv_def intro: cdiv_pos)
  from enqueue_holds [OF h, of i] show ?thesis
  proof (elim disjE conjE exE)
    assume "enqueue r (int i) = None" "tail r = MAX_SIZE"
    with K push pushes_left_ge [OF c q sl ts(1) i(1)] show ?thesis by simp
  next
    fix r' assume r': "enqueue r (int i) = Some r'" "holds (js @ [i]) r'"
      "r' = r\<lparr>rr_queue := (rr_queue r)[nat (tail r) := int i], tail := tail r + 1\<rparr>"
    have "pushes_left ts (seen(i := True)) r' = pushes_left ts seen r - 1"
      using i p len r'(3) by (subst pushes_left_change [of i r _ ?p]) (auto simp: to_push_def)
    moreover have "queued (seen(i := True)) (js @ [i]) (rr_s r)"
      using q i p len now by (auto simp: queued_def)
    moreover have "waits_ok n ts (js @ [i]) r"
      using first_wait [OF c q sl ts(1) i] now by (intro waits_ok_snoc [OF w]) auto
    ultimately have "rr_inv K ts prev0 n l0 (seen(i := True)) (js @ [i]) r'"
      using c sl K ct ts r' by (simp add: rr_inv_def)
    with r' show ?thesis by auto
  qed
qed

text \<open>The processes seen so far: those that arrived earlier, and now, below the loop index.\<close>

definition seen_upto :: "process list \<Rightarrow> int \<Rightarrow> int \<Rightarrow> nat \<Rightarrow> bool" where
  "seen_upto l0 t j i \<longleftrightarrow> arrival (l0 ! i) < t \<or> arrival (l0 ! i) = t \<and> int i < j"

lemma rr_inv_seen:
  assumes "rr_inv K ts prev0 n l0 seen js r" "\<And>i. i < length l0 \<Longrightarrow> seen' i = seen i"
  shows "rr_inv K ts prev0 n l0 seen' js r"
proof -
  have c: "core n l0 (rr_s r)" using assms(1) by (simp add: rr_inv_def)
  have "pushes_left ts seen' r = pushes_left ts seen r"
    using assms(2) coreD(3) [OF c] by (simp add: pushes_left_def)
  moreover have "queued seen' js (rr_s r) = queued seen js (rr_s r)"
    using assms(2) coreD(3) [OF c] unfolding queued_def by (intro arg_cong2 [where f = conj] refl) auto
  ultimately show ?thesis using assms(1) by (simp add: rr_inv_def)
qed

lemma rr_arrivals:
  assumes inv: "rr_inv K ts prev0 n l0 (\<lambda>i. arrival (l0 ! i) < time (rr_s r)) js r"
  shows "RR_arrivals n r = None \<and> MAX_SIZE < K \<or> (\<exists>r' js'. RR_arrivals n r = Some r' \<and> rr_s r' = rr_s r \<and>
    rr_inv K ts prev0 n l0 (\<lambda>i. arrival (l0 ! i) \<le> time (rr_s r)) js' r')"
proof -
  let ?t = "time (rr_s r)"
  have c: "core n l0 (rr_s r)" using inv by (simp add: rr_inv_def)
  let ?I = "\<lambda>j r'. rr_s r' = rr_s r \<and> (\<exists>js'. rr_inv K ts prev0 n l0 (seen_upto l0 ?t j) js' r')"
  have "RR_arrivals n r = None \<and> MAX_SIZE < K \<or> (\<exists>r'. RR_arrivals n r = Some r' \<and> ?I n r')"
    unfolding RR_arrivals_def
  proof (rule for_range_inv_or [where I = ?I])
    show "?I 0 r" using inv by (auto simp: seen_upto_def [abs_def])
    show "0 \<le> n" using coreD(2) [OF c] by simp
    fix j r1 assume j: "0 \<le> j" "j < n" and I: "?I j r1"
    then obtain js' where inv1: "rr_inv K ts prev0 n l0 (seen_upto l0 ?t j) js' r1" and s: "rr_s r1 = rr_s r" by blast
    obtain i where i: "j = int i" "i < length l0" using j coreD(2) [OF c] by (metis nonneg_int_cases of_nat_less_iff)
    have a: "arrival (plist (rr_s r) ! i) = arrival (l0 ! i)"
      using core_proc [OF c i(2)] by (simp add: proc_inv_def)
    have rd: "rd (plist (rr_s r1)) j = Some (plist (rr_s r) ! i)" using i coreD(3) [OF c] s by simp
    show "do { p \<leftarrow> rd (plist (rr_s r1)) j; if time (rr_s r1) = arrival p then enqueue r1 j else Some r1 } = None \<and> MAX_SIZE < K \<or>
        (\<exists>s'. do { p \<leftarrow> rd (plist (rr_s r1)) j; if time (rr_s r1) = arrival p then enqueue r1 j else Some r1 } = Some s' \<and> ?I (j + 1) s')"
    proof (cases "arrival (l0 ! i) = ?t")
      case True
      have eq: "(seen_upto l0 ?t j)(i := True) = seen_upto l0 ?t (j + 1)"
        using True i by (auto simp: seen_upto_def fun_eq_iff)
      have "\<not> seen_upto l0 ?t j i" using True i by (simp add: seen_upto_def)
      from rr_arrive [OF inv1 i(2) this, unfolded eq] True a s i rd show ?thesis by auto
    next
      case False
      then have "seen_upto l0 ?t (j + 1) k = seen_upto l0 ?t j k" for k
        using i by (cases "k = i") (auto simp: seen_upto_def)
      with inv1 s rd a False show ?thesis by (auto intro: rr_inv_seen)
    qed
  qed
  moreover have "seen_upto l0 ?t n i = (arrival (l0 ! i) \<le> ?t)" if "i < length l0" for i
    using that coreD(2) [OF c] by (auto simp: seen_upto_def)
  ultimately show ?thesis by (auto dest: rr_inv_seen [where seen' = "\<lambda>i. arrival (l0 ! i) \<le> ?t"])
qed

section \<open>Leaving the CPU\<close>

lemma holds_frame [simp]:
  "holds js (r\<lparr>rr_s := s\<rparr>) = holds js r" "holds js (r\<lparr>prev_run := k\<rparr>) = holds js r"
  "holds js (r\<lparr>cur_slice := k\<rparr>) = holds js r" "holds js (r\<lparr>context_switch := k\<rparr>) = holds js r"
  by (simp_all add: holds_def)

lemma queued_running:
  "queued seen js s \<Longrightarrow> running s = int i \<Longrightarrow> i < length (plist s) \<Longrightarrow> seen i \<and> i \<notin> set js"
  unfolding queued_def by metis

lemma core_stop:
  assumes c: "core n l0 s" and w: "has_work s"
  shows "core n l0 (s\<lparr>running := -1\<rparr>)"
proof -
  have "proc_inv (time s) (-1) (gantt s) (int k) (l0 ! k) (plist s ! k)" if "k < length l0" for k
    using core_proc [OF c that] w that coreD(3) [OF c] by (auto simp: proc_inv_def has_work_def)
  with c coreD(8) [OF c] show ?thesis by (auto simp: core_def)
qed

lemma rr_finish:
  assumes inv: "rr_inv K ts prev0 n l0 seen js r" and i: "running (rr_s r) = int i" "i < length l0"
    and z: "remain (plist (rr_s r) ! i) = 0" and c1: "core n l0 s1" and s1: "running s1 = -1" "time s1 = time (rr_s r)"
      "gantt s1 = gantt (rr_s r)"
      "plist s1 = (plist (rr_s r))[i := (plist (rr_s r) ! i)\<lparr>finish := time (rr_s r), ended := 1\<rparr>]"
  shows "rr_inv K ts prev0 n l0 seen js (r\<lparr>rr_s := s1\<rparr>)"
proof -
  let ?p = "plist (rr_s r) ! i" and ?r = "r\<lparr>rr_s := s1\<rparr>"
  have c: "core n l0 (rr_s r)" and h: "holds js r" and q: "queued seen js (rr_s r)" and sl: "slice_ok ts r"
    and K: "tail r + pushes_left ts seen r = K" and w: "waits_ok n ts js r" and ct: "count_ok prev0 l0 r"
    and ts: "1 \<le> ts" "ts \<le> INT_MAX" using inv by (auto simp: rr_inv_def)
  have len: "length (plist (rr_s r)) = length l0" using coreD(3) [OF c] .
  have cur: "0 \<le> cur_slice r" "cur_slice r < ts" "remain ?p < burst ?p" "ended ?p = 0"
    using sl i c by (auto simp: slice_ok_def core_def Let_def)
  have sn: "seen i" "i \<notin> set js" using queued_running [OF q] i len by auto
  have "pushes_left ts seen ?r = pushes_left ts seen r"
    using i len s1 cur z sn ts
    by (subst pushes_left_change [of i r _ "?p\<lparr>finish := time (rr_s r), ended := 1\<rparr>"])
      (auto simp: to_push_def cdiv_zero)
  moreover have "queued seen js s1"
    using q i len s1 sn unfolding queued_def by (auto simp: nth_list_update)
  moreover have "waits_ok n ts js ?r"
  proof -
    have "plist s1 ! (js ! k) = plist (rr_s r) ! (js ! k)" if "k < length js" for k
    proof -
      have "js ! k \<noteq> i" using sn(2) nth_mem [OF that] by metis
      with s1(4) show ?thesis by simp
    qed
    moreover have "start p \<le> arrival p + (n - 1) * ts" if "p \<in> set (plist s1)" "remain p < burst p" for p
      using that w s1(4) i(2) len nth_mem [of i "plist (rr_s r)"]
      by (auto simp: waits_ok_def dest!: subsetD [OF set_update_subset_insert])
    ultimately show ?thesis
      using w cur(1) s1 i unfolding waits_ok_def slice_left_def Let_def by (force split: if_splits)
  qed
  moreover have "count_ok prev0 l0 ?r"
    using ct s1 i len by (auto simp: count_ok_def nth_list_update)
  ultimately show ?thesis using c1 h K ts s1(1) by (simp add: rr_inv_def slice_ok_def)
qed

lemma rr_expire:
  assumes inv: "rr_inv K ts prev0 n l0 seen js r" and i: "running (rr_s r) = int i" "i < length l0"
    and w: "has_work (rr_s r)" and z: "cur_slice r = 0"
  shows "enqueue r (int i) = None \<and> MAX_SIZE < K \<or> (\<exists>r'. enqueue r (int i) = Some r' \<and> rr_s r' = rr_s r \<and>
    rr_inv K ts prev0 n l0 seen (js @ [i]) (r'\<lparr>rr_s := (rr_s r)\<lparr>running := -1\<rparr>\<rparr>))"
proof -
  let ?p = "plist (rr_s r) ! i"
  have c: "core n l0 (rr_s r)" and h: "holds js r" and q: "queued seen js (rr_s r)" and sl: "slice_ok ts r"
    and K: "tail r + pushes_left ts seen r = K" and wt: "waits_ok n ts js r" and ct: "count_ok prev0 l0 r"
    and ts: "1 \<le> ts" "ts \<le> INT_MAX" using inv by (auto simp: rr_inv_def)
  have len: "length (plist (rr_s r)) = length l0" using coreD(3) [OF c] .
  have p: "remain ?p < burst ?p" "ended ?p = 0" "1 \<le> remain ?p"
    using sl i c w len by (auto simp: slice_ok_def core_def has_work_def Let_def)
  have sn: "seen i" "i \<notin> set js" using queued_running [OF q] i len by auto
  have push: "to_push ts (seen i) (int i = running (rr_s r)) (cur_slice r) ?p = cdiv (remain ?p) ts"
    "1 \<le> cdiv (remain ?p) ts" using p sn i z ts by (auto simp: to_push_def intro: cdiv_pos)
  from enqueue_holds [OF h, of i] show ?thesis
  proof (elim disjE conjE exE)
    assume "enqueue r (int i) = None" "tail r = MAX_SIZE"
    with K push pushes_left_ge [OF c q sl ts(1) i(2)] show ?thesis by simp
  next
    fix r1 assume r1: "enqueue r (int i) = Some r1" "holds (js @ [i]) r1"
      "r1 = r\<lparr>rr_queue := (rr_queue r)[nat (tail r) := int i], tail := tail r + 1\<rparr>"
    let ?r = "r1\<lparr>rr_s := (rr_s r)\<lparr>running := -1\<rparr>\<rparr>"
    have "pushes_left ts seen ?r = pushes_left ts seen r - 1"
      using i p len r1(3) push sn by (subst pushes_left_change [of i r _ ?p]) (auto simp: to_push_def)
    moreover have "queued seen (js @ [i]) ((rr_s r)\<lparr>running := -1\<rparr>)"
      using q i p len sn unfolding queued_def by auto
    moreover have "waits_ok n ts (js @ [i]) ?r"
      using wt p z r1(3) i by (auto simp: waits_ok_def slice_left_def Let_def nth_append less_Suc_eq)
    moreover have "count_ok prev0 l0 ?r" using ct r1(3) i by (auto simp: count_ok_def)
    ultimately have "rr_inv K ts prev0 n l0 seen (js @ [i]) ?r"
      using core_stop [OF c w] K ts r1 by (simp add: rr_inv_def slice_ok_def)
    with r1 show ?thesis by auto
  qed
qed

section \<open>A millisecond of execution\<close>

text \<open>The counters when process \<open>i\<close> gets a slot of the chart.\<close>

lemma find_append: "find P (xs @ ys) = (case find P xs of None \<Rightarrow> find P ys | Some x \<Rightarrow> Some x)"
  by (induction xs) auto

lemma first_is_snoc:
  "first_is l (g @ [x]) prev0 = (if find (\<lambda>x. x \<noteq> Idle) g = None
    then x \<noteq> Idle \<and> (\<exists>i < length l. prev0 = int i \<and> x = Run (pid (l ! i))) else first_is l g prev0)"
  by (auto simp: first_is_def find_append split: option.splits)

lemma find_idle_switches: "find (\<lambda>x. x \<noteq> Idle) g = None \<Longrightarrow> switches g = 0 \<and> (g \<noteq> [] \<longrightarrow> last g = Idle)"
  by (auto simp: find_None_iff switches_def filter_empty_conv)

lemma count_ok_slot:
  assumes ct: "count_ok prev0 l0 r" and d: "distinct (map pid l0)" and i: "i < length l0" "ended (plist (rr_s r) ! i) = 0"
    and run: "running (rr_s r) = -1 \<or> running (rr_s r) = int i"
    and r': "gantt (rr_s r') = gantt (rr_s r) @ [Run (pid (l0 ! i))]" "prev_run r' = int i" "running (rr_s r') = int i"
      "context_switch r' = context_switch r + (if prev_run r \<noteq> int i then 1 else 0)"
  shows "count_ok prev0 l0 r'"
proof -
  let ?g = "gantt (rr_s r)" and ?x = "Run (pid (l0 ! i))"
  have pid_eq: "pid (l0 ! k) = pid (l0 ! i) \<longleftrightarrow> k = i" if "k < length l0" for k
    using d that i(1) by (auto simp: distinct_conv_nth)
  have find: "find (\<lambda>x. x \<noteq> Idle) (?g @ [?x]) \<noteq> None" by (auto simp: find_None_iff)
  have "context_switch r' = int (switches (?g @ [?x])) - (if first_is l0 (?g @ [?x]) prev0 then 1 else 0)"
  proof (cases "find (\<lambda>x. x \<noteq> Idle) ?g = None")
    case True
    then have "context_switch r = 0" "prev_run r = prev0"
      using ct find_idle_switches [OF True] by (auto simp: count_ok_def first_is_def)
    moreover have "switches (?g @ [?x]) = 1"
      using find_idle_switches [OF True] by (auto simp: switches_snoc)
    moreover have "first_is l0 (?g @ [?x]) prev0 \<longleftrightarrow> prev0 = int i"
      using True i(1) by (simp add: first_is_snoc) (metis pid_eq)
    ultimately show ?thesis using r'(4) by simp
  next
    case False
    then obtain k where k: "k < length l0" "prev_run r = int k" "?g \<noteq> []"
        "last ?g = Run (pid (l0 ! k)) \<or> last ?g = Idle \<and> ended (plist (rr_s r) ! k) = 1"
      using ct by (auto simp: count_ok_def)
    then have "last ?g = ?x \<longleftrightarrow> prev_run r = int i" using pid_eq [OF k(1)] i(2) by auto
    moreover have "first_is l0 (?g @ [?x]) prev0 = first_is l0 ?g prev0"
      using False by (auto simp: first_is_snoc)
    ultimately show ?thesis using ct k(3) r'(4) by (auto simp: count_ok_def switches_snoc)
  qed
  with r' find i(1) show ?thesis by (auto simp: count_ok_def)
qed

lemma count_ok_idle:
  assumes ct: "count_ok prev0 l0 r" and run: "running (rr_s r) = -1"
    and r': "gantt (rr_s r') = (if b then gantt (rr_s r) @ [Idle] else gantt (rr_s r))" "prev_run r' = prev_run r"
      "running (rr_s r') = -1" "context_switch r' = context_switch r" "plist (rr_s r') = plist (rr_s r)"
    and ends: "\<And>i. i < length l0 \<Longrightarrow> gantt (rr_s r) \<noteq> [] \<Longrightarrow> last (gantt (rr_s r)) = Run (pid (l0 ! i)) \<Longrightarrow> ended (plist (rr_s r) ! i) = 1"
  shows "count_ok prev0 l0 r'"
proof (cases b)
  case True
  have find: "find (\<lambda>x. x \<noteq> Idle) (gantt (rr_s r) @ [Idle]) = find (\<lambda>x. x \<noteq> Idle) (gantt (rr_s r))"
    by (auto simp: find_append split: option.splits)
  moreover have "switches (gantt (rr_s r) @ [Idle]) = switches (gantt (rr_s r))" by (simp add: switches_snoc)
  moreover have "first_is l0 (gantt (rr_s r) @ [Idle]) prev0 = first_is l0 (gantt (rr_s r)) prev0"
    by (simp only: first_is_def find)
  ultimately show ?thesis using find ct r' True ends by (auto simp: count_ok_def)
next
  case False
  with ct r' show ?thesis by (auto simp: count_ok_def)
qed

lemma queued_later:
  assumes "queued seen js s" "running s' = running s" "time s \<le> time s'" "i < length (plist s)" "seen i"
    "plist s' = (plist s)[i := p']" "arrival p' = arrival (plist s ! i)" "ended p' = ended (plist s ! i)"
  shows "queued seen js s'"
  using assms unfolding queued_def by (auto simp: nth_list_update)

lemma rr_exec:
  assumes inv: "rr_inv K ts prev0 n l0 seen js r" and t: "time_ok l0 (rr_s r)"
    and i: "running (rr_s r) = int i" "i < length l0" and w: "has_work (rr_s r)" and z: "cur_slice r \<noteq> 0"
  shows "\<exists>r'. RR_exec r = Some r' \<and> rr_inv K ts prev0 n l0 seen js r' \<and> time_ok l0 (rr_s r') \<and>
    time (rr_s r') = time (rr_s r) + 1 \<and> work_left n l0 (rr_s r') < work_left n l0 (rr_s r)"
proof -
  let ?s = "rr_s r" and ?p = "plist (rr_s r) ! i" and ?p' = "(plist (rr_s r) ! i)\<lparr>remain := remain (plist (rr_s r) ! i) - 1\<rparr>"
  have c: "core n l0 ?s" and h: "holds js r" and q: "queued seen js ?s" and sl: "slice_ok ts r"
    and K: "tail r + pushes_left ts seen r = K" and wt: "waits_ok n ts js r" and ct: "count_ok prev0 l0 r"
    and ts: "1 \<le> ts" "ts \<le> INT_MAX" using inv by (auto simp: rr_inv_def)
  have len: "length (plist ?s) = length l0" using coreD(3) [OF c] .
  have cur: "1 \<le> cur_slice r" "cur_slice r < ts" "remain ?p < burst ?p" "ended ?p = 0" "arrival ?p \<le> time ?s" "1 \<le> remain ?p"
    using sl i c z w len by (auto simp: slice_ok_def core_def Let_def has_work_def)
  have sn: "seen i" "i \<notin> set js" using queued_running [OF q i(1)] i(2) len by auto
  from exec_round_run [OF c t i refl cur(4,6,5)] cur(3) obtain s' where s': "exec_round n ?s = Some s'" "core n l0 s'"
      "time_ok l0 s'" "plist s' = (plist ?s)[i := ?p']" "gantt s' = gantt ?s @ [Run (pid ?p)]" "time s' = time ?s + 1"
      "running s' = int i" "work_left n l0 s' < work_left n l0 ?s" using i by auto
  define r' where "r' = r\<lparr>rr_s := s', prev_run := int i, cur_slice := cur_slice r - 1\<rparr>"
  have "RR_exec r = Some r'"
    using s'(1) i(1) cur ts(2) unfolding r'_def
    by (auto simp: RR_exec_def exec_round_def INT_MIN_def split: bind_splits)
  moreover have "pushes_left ts seen r' = pushes_left ts seen r"
    using i len s' sn cur by (subst pushes_left_change [of i r r' ?p' ts seen seen]) (auto simp: to_push_def r'_def)
  moreover have "queued seen js s'"
    by (rule queued_later [OF q _ _ _ sn(1) s'(4)]) (use s' i len in auto)
  moreover have "waits_ok n ts js r'"
    using wt s' i len sn(2) nth_mem [of i "plist ?s"] cur(3)
    by (auto simp: waits_ok_def r'_def slice_left_def Let_def nth_list_update dest!: subsetD [OF set_update_subset_insert])
  moreover have "count_ok prev0 l0 r'"
  proof (rule count_ok_slot [OF ct _ i(2) cur(4)])
    show "distinct (map pid l0)" using coreD(1) [OF c] by (simp add: jobs_ok_def)
    have "prev_run r = int i" using ct i(1) by (simp add: count_ok_def)
    then show "context_switch r' = context_switch r + (if prev_run r \<noteq> int i then 1 else 0)" by (simp add: r'_def)
  qed (use s' i core_proc [OF c i(2)] in \<open>auto simp: r'_def proc_inv_def\<close>)
  moreover have "slice_ok ts r'" using s' i len cur by (simp add: slice_ok_def r'_def)
  ultimately show ?thesis
    using s' h K ts by (intro exI [of _ r']) (simp add: rr_inv_def r'_def)
qed

lemma queued_head:
  assumes "queued seen (j # js) s"
  shows "j < length (plist s) \<and> seen j \<and> ended (plist s ! j) = 0 \<and> j \<notin> set js \<and> arrival (plist s ! j) \<le> time s"
proof -
  have "j < length (plist s) \<and> seen j \<and> ended (plist s ! j) = 0"
    using assms list.set_intros(1) [of j js] unfolding queued_def by metis
  moreover have "seen j \<Longrightarrow> j < length (plist s) \<Longrightarrow> arrival (plist s ! j) \<le> time s"
    using assms unfolding queued_def by metis
  ultimately show ?thesis using assms by (simp add: queued_def)
qed

lemma rr_dispatch:
  assumes inv: "rr_inv K ts prev0 n l0 seen (j # js) r" and t: "time_ok l0 (rr_s r)"
    and run: "running (rr_s r) = -1" and w: "has_work (rr_s r)"
  shows "\<exists>r'. RR_dispatch ts n r = Some r' \<and> rr_inv K ts prev0 n l0 seen js r' \<and> time_ok l0 (rr_s r') \<and>
    time (rr_s r') = time (rr_s r) + 1 \<and> work_left n l0 (rr_s r') < work_left n l0 (rr_s r)"
proof -
  let ?s = "rr_s r" and ?p = "plist (rr_s r) ! j"
  have c: "core n l0 ?s" and h: "holds (j # js) r" and q: "queued seen (j # js) ?s"
    and K: "tail r + pushes_left ts seen r = K" and wt: "waits_ok n ts (j # js) r" and ct: "count_ok prev0 l0 r"
    and ts: "1 \<le> ts" "ts \<le> INT_MAX" using inv by (auto simp: rr_inv_def)
  have len: "length (plist ?s) = length l0" using coreD(3) [OF c] .
  have j: "j < length l0" "seen j" "ended ?p = 0" "j \<notin> set js" "runnable ?s j"
    using queued_head [OF q] len by (auto simp: runnable_def)
  have rem: "1 \<le> remain ?p" "remain ?p \<le> burst ?p" 
    using w j len core_proc [OF c j(1)] by (auto simp: has_work_def proc_inv_def)
  define p' where "p' = ?p\<lparr>remain := remain ?p - 1, start := (if burst ?p = remain ?p then time ?s else start ?p)\<rparr>"
  from cpu_round [OF c t w j(5)] obtain s2 s' where s':
      "give_cpu ?s (int j) = Some s2" "exec_round n s2 = Some s'" "core n l0 s'" "time_ok l0 s'" "running s2 = int j"
      "work_left n l0 s' < work_left n l0 ?s" "plist s' = (plist ?s)[j := p']" "gantt s' = gantt ?s @ [Run (pid ?p)]"
      "time s' = time ?s + 1" "running s' = int j" unfolding p'_def by auto
  define cs where "cs = context_switch r + (if prev_run r \<noteq> int j then 1 else 0)"
  define r' where "r' = r\<lparr>cur_slice := ts - 1, head := head r + 1, rr_s := s', context_switch := cs, prev_run := int j\<rparr>"
  have fin: "fin_cnt ?s < n" using core_unended [OF c j(1,3)] .
  have ct': "count_ok prev0 l0 r'"
    by (rule count_ok_slot [OF ct _ j(1,3)])
      (use s' coreD(1) [OF c] core_proc [OF c j(1)] run in \<open>auto simp: r'_def cs_def jobs_ok_def proc_inv_def\<close>)
  then have "- 1 \<le> cs" "cs \<le> INT_MAX"
    using switches_le [of "gantt s'"] coreD(6) [OF c fin] coreD(7) [OF s'(3)] s'(8,9) by (auto simp: count_ok_def r'_def)
  then have "(if prev_run r \<noteq> int j then c_int (context_switch r + 1) else Some (context_switch r)) = Some cs"
    by (cases "prev_run r = int j") (simp_all add: cs_def INT_MIN_def)
  then have "RR_dispatch ts n r = Some r'"
    using holds_pop [OF h] s'(1,2,5) ts unfolding r'_def
    by (auto simp: RR_dispatch_def Let_def RR_exec_def exec_round_def INT_MIN_def split: bind_splits if_splits)
  moreover have "pushes_left ts seen r' = pushes_left ts seen r"
    using len s' j rem run ts cdiv_minus [of ts "remain ?p"]
    by (subst pushes_left_change [of j r r' p' ts seen seen]) (auto simp: to_push_def r'_def p'_def)
  moreover have "queued seen js s'"
    using q s' len run j unfolding queued_def p'_def by (auto simp: nth_list_update)
  moreover have "waits_ok n ts js r'"
  proof -
    have "time ?s + 1 + (ts - 1) + int k * ts \<le> arrival (plist s' ! (js ! k)) + (n - 1) * ts"
      if "k < length js" "remain (plist s' ! (js ! k)) = burst (plist s' ! (js ! k))" for k
    proof -
      have "js ! k \<noteq> j" using j(4) nth_mem [OF that(1)] by metis
      with that s'(7) wt run show ?thesis
        by (force simp: waits_ok_def slice_left_def Let_def algebra_simps dest: spec [of _ "Suc k"])
    qed
    moreover have "start p \<le> arrival p + (n - 1) * ts" if "p \<in> set (plist s')" "remain p < burst p" for p
    proof (cases "p = p'")
      case True
      have "start ?p \<le> arrival ?p + (n - 1) * ts" if "remain ?p < burst ?p"
        using wt that j(1) len by (simp add: waits_ok_def)
      moreover have "time ?s \<le> arrival ?p + (n - 1) * ts" if "remain ?p = burst ?p"
        using wt that run by (force simp: waits_ok_def slice_left_def)
      ultimately show ?thesis using True rem(2) by (auto simp: p'_def)
    next
      case False
      with that s'(7) wt show ?thesis
        by (auto simp: waits_ok_def dest!: subsetD [OF set_update_subset_insert])
    qed
    ultimately show ?thesis using s' unfolding waits_ok_def by (simp add: r'_def slice_left_def Let_def)
  qed
  moreover have "slice_ok ts r'" using s' len j rem ts by (simp add: slice_ok_def r'_def p'_def)
  moreover have "holds js r'" using holds_pop [OF h] by (simp add: r'_def holds_def)
  ultimately show ?thesis
    using s' K ts ct' by (intro exI [of _ r']) (simp add: rr_inv_def r'_def)
qed

lemma rr_idle:
  assumes inv: "rr_inv K ts prev0 n l0 (\<lambda>i. arrival (l0 ! i) \<le> time (rr_s r)) [] r" and t: "time_ok l0 (rr_s r)"
    and run: "running (rr_s r) = -1"
  shows "\<exists>r'. RR_dispatch ts n r = Some r' \<and> rr_inv K ts prev0 n l0 (\<lambda>i. arrival (l0 ! i) \<le> time (rr_s r)) [] r' \<and>
    loop_inv n l0 (rr_s r') \<and> time (rr_s r') = time (rr_s r) + 1 \<and>
    (fin_cnt (rr_s r) < n \<longrightarrow> work_left n l0 (rr_s r') < work_left n l0 (rr_s r)) \<and>
    work_left n l0 (rr_s r') \<le> work_left n l0 (rr_s r)"
proof -
  let ?s = "rr_s r" and ?seen = "\<lambda>i. arrival (l0 ! i) \<le> time (rr_s r)"
  have c: "core n l0 ?s" and h: "holds [] r" and q: "queued ?seen [] ?s"
    and K: "tail r + pushes_left ts ?seen r = K" and wt: "waits_ok n ts [] r" and ct: "count_ok prev0 l0 r"
    and ts: "1 \<le> ts" "ts \<le> INT_MAX" using inv by (auto simp: rr_inv_def)
  have len: "length (plist ?s) = length l0" using coreD(3) [OF c] .
  have none: "time ?s < arrival (plist ?s ! i)" if "i < length l0" "ended (plist ?s ! i) = 0" for i
  proof -
    have "\<not> arrival (l0 ! i) \<le> time ?s" using q that len run by (auto simp: queued_def)
    then show ?thesis using core_proc [OF c that(1)] by (simp add: proc_inv_def)
  qed
  from exec_round_idle [OF c t run none] obtain s' where s': "exec_round n ?s = Some s'" "loop_inv n l0 s'"
      "plist s' = plist ?s" "gantt s' = (if fin_cnt ?s < n then gantt ?s @ [Idle] else gantt ?s)"
      "time s' = time ?s + 1" "running s' = -1"
      "fin_cnt ?s < n \<longrightarrow> work_left n l0 s' < work_left n l0 ?s" "work_left n l0 s' \<le> work_left n l0 ?s"
    using run by auto
  define r' where "r' = r\<lparr>cur_slice := ts, rr_s := s'\<rparr>"
  have "RR_dispatch ts n r = Some r'"
    using holds_empty [OF h] s'(1) run by (simp add: RR_dispatch_def Let_def exec_round_def r'_def)
  moreover have "pushes_left ts ?seen r' = pushes_left ts ?seen r"
    unfolding pushes_left_def using s' run by (auto simp: r'_def to_push_def intro!: sum.cong)
  moreover have "queued ?seen [] s'" using q s' run unfolding queued_def by force
  moreover have "waits_ok n ts [] r'" using wt s' by (simp add: waits_ok_def r'_def)
  moreover have "count_ok prev0 l0 r'"
  proof (rule count_ok_idle [OF ct run])
    fix i assume i: "i < length l0" "gantt ?s \<noteq> []" "last (gantt ?s) = Run (pid (l0 ! i))"
    show "ended (plist ?s ! i) = 1"
    proof (rule ccontr)
      assume "\<not> ?thesis"
      then have e: "ended (plist ?s ! i) = 0" using core_proc [OF c i(1)] by (auto simp: proc_inv_def)
      have "Run (pid (l0 ! i)) \<in> set (gantt ?s)" using i by (metis last_in_set)
      then have "0 < int (count_list (gantt ?s) (Run (pid (l0 ! i))))"
        using count_list_0_iff [of "gantt ?s"] by (metis gr0I of_nat_0_less_iff)
      then have "remain (plist ?s ! i) < burst (plist ?s ! i)"
        using core_proc [OF c i(1)] unfolding proc_inv_def by force
      with none [OF i(1) e] core_proc [OF c i(1)] show False by (auto simp: proc_inv_def)
    qed
  qed (use s' in \<open>auto simp: r'_def\<close>)
  ultimately show ?thesis
    using s' h K ts by (intro exI [of _ r']) (simp add: rr_inv_def r'_def slice_ok_def loop_inv_def)
qed

section \<open>One round\<close>

definition rr_state :: "int \<Rightarrow> int \<Rightarrow> int \<Rightarrow> int \<Rightarrow> process list \<Rightarrow> rr \<Rightarrow> bool" where
  "rr_state K ts prev0 n l0 r \<longleftrightarrow> loop_inv n l0 (rr_s r) \<and>
     (\<exists>js. rr_inv K ts prev0 n l0 (\<lambda>i. arrival (l0 ! i) < time (rr_s r)) js r)"

lemma rr_leave:
  assumes inv: "rr_inv K ts prev0 n l0 seen js r" and t: "time_ok l0 (rr_s r)" and fin: "fin_cnt (rr_s r) < n"
  shows "RR_leave r = None \<and> MAX_SIZE < K \<or> (\<exists>r2 js2. RR_leave r = Some r2 \<and>
    rr_inv K ts prev0 n l0 seen js2 r2 \<and> time_ok l0 (rr_s r2) \<and> has_work (rr_s r2) \<and>
    time (rr_s r2) = time (rr_s r) \<and> work_left n l0 (rr_s r2) \<le> work_left n l0 (rr_s r) \<and>
    (\<not> fin_cnt (rr_s r2) < n \<longrightarrow> work_left n l0 (rr_s r2) < work_left n l0 (rr_s r)) \<and>
    (running (rr_s r2) \<noteq> -1 \<longrightarrow> cur_slice r2 \<noteq> 0))"
proof -
  let ?s = "rr_s r"
  have c: "core n l0 ?s" using inv by (simp add: rr_inv_def)
  obtain ov where ov: "run_over ?s = Some ov"
      "ov \<longleftrightarrow> running ?s \<noteq> -1 \<and> remain (plist ?s ! nat (running ?s)) = 0" using run_over_ok [OF c] by blast
  from finish_step [OF c t ov(1)] obtain s1 where s1:
      "(if ov then finish_running ?s else Some ?s) = Some s1" "core n l0 s1" "time_ok l0 s1" "has_work s1"
      "gantt s1 = gantt ?s" "time s1 = time ?s"
      "s1 = ?s \<and> \<not> ov \<or> running s1 = -1 \<and> ov \<and> work_left n l0 s1 < work_left n l0 ?s \<and>
        plist s1 = (plist ?s)[nat (running ?s) := (plist ?s ! nat (running ?s))\<lparr>finish := time ?s, ended := 1\<rparr>]"
    by blast
  consider ov | "\<not> ov" "running ?s \<noteq> -1 \<and> cur_slice r = 0" | "\<not> ov" "\<not> (running ?s \<noteq> -1 \<and> cur_slice r = 0)" by blast
  then show ?thesis
  proof cases
    case 1
    with ov(2) obtain i where i: "running ?s = int i" "i < length l0" using core_running [OF c] by blast
    have "rr_inv K ts prev0 n l0 seen js (r\<lparr>rr_s := s1\<rparr>)"
      by (rule rr_finish [OF inv i _ s1(2)]) (use 1 ov(2) s1 i in auto)
    with 1 ov s1 show ?thesis
      by (intro disjI2 exI [of _ "r\<lparr>rr_s := s1\<rparr>"] exI [of _ js]) (auto simp: RR_leave_def)
  next
    case 2
    then obtain i where i: "running ?s = int i" "i < length l0" using core_running [OF c] by blast
    have w: "has_work ?s" using s1 2 by auto
    have "cur_slice r = 0" using 2 by simp
    from rr_expire [OF inv i w this] show ?thesis
    proof (elim disjE exE conjE)
      fix r1 assume "enqueue r (int i) = Some r1" "rr_s r1 = ?s"
        "rr_inv K ts prev0 n l0 seen (js @ [i]) (r1\<lparr>rr_s := ?s\<lparr>running := -1\<rparr>\<rparr>)"
      with 2 ov i w t fin show ?thesis
        by (intro disjI2 exI [of _ "r1\<lparr>rr_s := ?s\<lparr>running := -1\<rparr>\<rparr>"] exI [of _ "js @ [i]"])
          (auto simp: RR_leave_def time_ok_def has_work_def work_left_def)
    qed (use 2 ov i in \<open>auto simp: RR_leave_def\<close>)
  next
    case 3
    with s1 ov inv t fin show ?thesis
      by (intro disjI2 exI [of _ r] exI [of _ js]) (auto simp: RR_leave_def)
  qed
qed

lemma rr_round:
  assumes st: "rr_state K ts prev0 n l0 r" and fin: "fin_cnt (rr_s r) < n"
  shows "RR_round ts n r = None \<and> MAX_SIZE < K \<or> (\<exists>r'. RR_round ts n r = Some r' \<and>
    rr_state K ts prev0 n l0 r' \<and> work_left n l0 (rr_s r') < work_left n l0 (rr_s r))"
proof -
  let ?t = "time (rr_s r)"
  let ?seen = "\<lambda>i. arrival (l0 ! i) \<le> ?t"
  obtain js where inv: "rr_inv K ts prev0 n l0 (\<lambda>i. arrival (l0 ! i) < ?t) js r" and t: "time_ok l0 (rr_s r)"
    using st fin by (auto simp: rr_state_def loop_inv_def)
  have nxt: "(\<lambda>i. arrival (l0 ! i) < ?t + 1) = ?seen" by auto
  from rr_arrivals [OF inv] show ?thesis
  proof (elim disjE exE conjE)
    fix r1 js1 assume r1: "RR_arrivals n r = Some r1" "rr_s r1 = rr_s r" "rr_inv K ts prev0 n l0 ?seen js1 r1"
    have "time_ok l0 (rr_s r1)" "fin_cnt (rr_s r1) < n" using r1(2) t fin by auto
    from rr_leave [OF r1(3) this] show ?thesis
    proof (elim disjE exE conjE)
      fix r2 js2 assume r2: "RR_leave r1 = Some r2" "rr_inv K ts prev0 n l0 ?seen js2 r2" "time_ok l0 (rr_s r2)"
        "has_work (rr_s r2)" "time (rr_s r2) = time (rr_s r1)" "work_left n l0 (rr_s r2) \<le> work_left n l0 (rr_s r1)"
        "\<not> fin_cnt (rr_s r2) < n \<longrightarrow> work_left n l0 (rr_s r2) < work_left n l0 (rr_s r1)"
        "running (rr_s r2) \<noteq> -1 \<longrightarrow> cur_slice r2 \<noteq> 0"
      have c: "core n l0 (rr_s r2)" using r2(2) by (simp add: rr_inv_def)
      have goal: ?thesis if "(if running (rr_s r2) = -1 then RR_dispatch ts n r2 else RR_exec r2) = Some r'"
          "rr_inv K ts prev0 n l0 ?seen js' r'" "loop_inv n l0 (rr_s r')" "time (rr_s r') = ?t + 1"
          "work_left n l0 (rr_s r') < work_left n l0 (rr_s r)" for r' js'
        using that r1 r2(1) nxt by (auto simp: RR_round_def rr_state_def)
      show ?thesis
      proof (cases "running (rr_s r2) = -1")
        case False
        then obtain i where "running (rr_s r2) = int i" "i < length l0" using core_running [OF c] by blast
        from rr_exec [OF r2(2,3) this r2(4)] False r2(8) obtain r' where r': "RR_exec r2 = Some r'"
            "rr_inv K ts prev0 n l0 ?seen js2 r'" "time_ok l0 (rr_s r')" "time (rr_s r') = time (rr_s r2) + 1"
            "work_left n l0 (rr_s r') < work_left n l0 (rr_s r2)" by blast
        show ?thesis
          by (rule goal [OF _ r'(2)]) (use False r' r2(5,6) r1(2) in \<open>auto simp: loop_inv_def rr_inv_def\<close>)
      next
        case True
        show ?thesis
        proof (cases js2)
          case (Cons j js')
          from rr_dispatch [OF r2(2) [unfolded Cons] r2(3) True r2(4)] obtain r' where
              r': "RR_dispatch ts n r2 = Some r'" "rr_inv K ts prev0 n l0 ?seen js' r'" "time_ok l0 (rr_s r')"
              "time (rr_s r') = time (rr_s r2) + 1" "work_left n l0 (rr_s r') < work_left n l0 (rr_s r2)" by blast
          show ?thesis
            by (rule goal [OF _ r'(2)]) (use True r' r2(5,6) r1(2) in \<open>auto simp: loop_inv_def rr_inv_def\<close>)
        next
          case Nil
          have seen: "?seen = (\<lambda>i. arrival (l0 ! i) \<le> time (rr_s r2))" using r2(5) r1(2) by simp
          from rr_idle [OF r2(2) [unfolded Nil seen] r2(3) True, folded seen] obtain r' where
              r': "RR_dispatch ts n r2 = Some r'" "rr_inv K ts prev0 n l0 ?seen [] r'" "loop_inv n l0 (rr_s r')"
              "time (rr_s r') = time (rr_s r2) + 1" "work_left n l0 (rr_s r') \<le> work_left n l0 (rr_s r2)"
              "fin_cnt (rr_s r2) < n \<longrightarrow> work_left n l0 (rr_s r') < work_left n l0 (rr_s r2)" by blast
          show ?thesis
            by (rule goal [OF _ r'(2,3)]) (use True r' r2(5-7) r1(2) in \<open>auto\<close>)
        qed
      qed
    qed (use r1 in \<open>auto simp: RR_round_def\<close>)
  qed (auto simp: RR_round_def)
qed

interpretation rr: sched_alg "RR_round ts" rr_s "\<lambda>n l0 r. rr_state K ts prev0 n l0 r \<and> K \<le> MAX_SIZE" for K ts prev0
proof
  show "loop_inv n l0 (rr_s r)" if "rr_state K ts prev0 n l0 r \<and> K \<le> MAX_SIZE" for n l0 r
    using that by (simp add: rr_state_def)
  show "\<exists>r'. RR_round ts n r = Some r' \<and> (rr_state K ts prev0 n l0 r' \<and> K \<le> MAX_SIZE) \<and>
      work_left n l0 (rr_s r') < work_left n l0 (rr_s r)"
    if "rr_state K ts prev0 n l0 r \<and> K \<le> MAX_SIZE" "fin_cnt (rr_s r) < n" for n l0 r
    using that rr_round [of K ts prev0 n l0 r] by auto
qed

section \<open>Results\<close>

text \<open>The number of times \<open>RR\<close> stores into its queue.\<close>

definition queue_pushes :: "process list \<Rightarrow> int \<Rightarrow> int" where
  "queue_pushes l ts = sum_list (map (\<lambda>p. cdiv (burst p) ts) l)"

lemma rr_state_start:
  assumes "fresh_table l" "1 \<le> ts" "ts \<le> INT_MAX" "int (length q0) = MAX_SIZE"
  shows "rr_state (queue_pushes l ts) ts prev0 (int (length l)) l (rr_start l q0 prev0 slice0)"
proof -
  let ?r = "rr_start l q0 prev0 slice0"
  have p: "remain (l ! i) = burst (l ! i)" "ended (l ! i) = 0" "\<not> arrival (l ! i) < 0" if "i < length l" for i
    using assms(1) nth_mem [OF that] by (auto simp: fresh_table_def jobs_ok_def)
  have "pushes_left ts (\<lambda>i. arrival (l ! i) < 0) ?r = queue_pushes l ts"
    using p by (simp add: pushes_left_def queue_pushes_def rr_start_def sched_start_def to_push_def
        sum_list_sum_nth atLeast0LessThan)
  moreover have "queued (\<lambda>i. arrival (l ! i) < 0) [] (sched_start l)"
    using p by (auto simp: queued_def sched_start_def)
  moreover have "waits_ok (int (length l)) ts [] ?r"
    using assms(1) by (auto simp: waits_ok_def rr_start_def sched_start_def fresh_table_def)
  moreover have "holds [] ?r" using assms(4) by (simp add: holds_def rr_start_def MAX_SIZE_def)
  moreover have "count_ok prev0 l ?r"
    by (simp add: count_ok_def rr_start_def sched_start_def switches_def first_is_def)
  ultimately have "rr_inv (queue_pushes l ts) ts prev0 (int (length l)) l (\<lambda>i. arrival (l ! i) < 0) [] ?r"
    using core_start [OF assms(1) refl] assms
    by (simp add: rr_inv_def rr_start_def loop_inv_def slice_ok_def sched_start_def)
  with core_start [OF assms(1) refl] show ?thesis
    by (auto simp: rr_state_def rr_start_def sched_start_def)
qed

lemma RR_ok:
  assumes "fresh_table l" "1 \<le> ts" "ts \<le> INT_MAX" "int (length q0) = Sched_RR.MAX_SIZE"
    and "queue_pushes l ts \<le> Sched_RR.MAX_SIZE"
  shows "\<exists>l' g cs. RR q0 prev0 slice0 l (int (length l)) ts = Some (l', g, cs) \<and> sched_done l l' g \<and>
    (\<forall>p \<in> set l'. pre_metrics p \<and> response p \<le> (int (length l) - 1) * ts) \<and>
    cs = int (switches g) - (if first_is l g prev0 then 1 else 0)"
proof -
  let ?n = "int (length l)"
  from rr.completes [OF conjI [OF rr_state_start [OF assms(1-4)] assms(5)], of prev0 slice0]
  obtain r where r: "c_while (\<lambda>r. fin_cnt (rr_s r) < ?n) (RR_round ts ?n) (rr_start l q0 prev0 slice0) = Some r"
      "rr_state (queue_pushes l ts) ts prev0 ?n l r" "core ?n l (rr_s r)" "\<forall>p \<in> set (plist (rr_s r)). ended p = 1"
    by blast
  have dn: "sched_done l (plist (rr_s r)) (gantt (rr_s r))" using core_done [OF r(3,4)] .
  have "start p \<le> arrival p + (?n - 1) * ts" if "p \<in> set (plist (rr_s r))" for p
    using r(2) that sched_done_set [OF dn that] by (auto simp: rr_state_def rr_inv_def waits_ok_def done_ok_def)
  moreover have "context_switch r = int (switches (gantt (rr_s r))) - (if first_is l (gantt (rr_s r)) prev0 then 1 else 0)"
    using r(2) by (auto simp: rr_state_def rr_inv_def count_ok_def)
  ultimately show ?thesis
    using preemptive_metrics [OF dn refl] r(1) by (fastforce simp: RR_def)
qed

text \<open>
  C7. \<open>RR\<close> with a positive time slice returns whenever its stores fit the queue array, that is
  when the rounded-up numbers of slices of all processes add up to at most 1000. Every
  process runs for exactly its burst and the metrics are those of a preemptive run; the first
  slice of a process comes after at most one slice of every other process; the value returned
  is the number of changes in the chart, one less if the uninitialised \<open>prev_run\<close> happens to be
  the index of the first process to run.
\<close>

theorem RR_correct:
  assumes "fresh_table l" "1 \<le> ts" "ts \<le> INT_MAX" "int (length q0) = Sched_RR.MAX_SIZE"
    and "queue_pushes l ts \<le> Sched_RR.MAX_SIZE"
  shows "\<exists>l' g cs. RR q0 prev0 slice0 l (int (length l)) ts = Some (l', g, cs) \<and> sched_done l l' g \<and>
    (\<forall>p \<in> set l'. pre_metrics p \<and> response p \<le> (int (length l) - 1) * ts) \<and>
    cs = int (switches g) - (if first_is l g prev0 then 1 else 0)"
  using RR_ok [OF assms] .

text \<open>
  The bound is exact: when the processes need more than 1000 slices in all, \<open>RR\<close> stores
  past the end of its queue array, because the positions of processes already taken out are
  never used again.
\<close>

theorem RR_queue_overflow:
  assumes "fresh_table l" "1 \<le> ts" "ts \<le> INT_MAX" "int (length q0) = Sched_RR.MAX_SIZE"
    and "Sched_RR.MAX_SIZE < queue_pushes l ts"
  shows "RR q0 prev0 slice0 l (int (length l)) ts = None"
proof (rule ccontr)
  let ?n = "int (length l)" and ?K = "queue_pushes l ts"
  assume "\<not> ?thesis"
  then obtain r where r: "c_while (\<lambda>r. fin_cnt (rr_s r) < ?n) (RR_round ts ?n) (rr_start l q0 prev0 slice0) = Some r"
    by (auto simp: RR_def split: bind_splits)
  have "rr_state ?K ts prev0 ?n l r'" if "rr_state ?K ts prev0 ?n l r" "fin_cnt (rr_s r) < ?n" "RR_round ts ?n r = Some r'"
    for r r' using rr_round [OF that(1,2)] that(3) by auto
  from c_while_inv [where I = "rr_state ?K ts prev0 ?n l", OF r this rr_state_start [OF assms(1-4)]]
  have st: "rr_state ?K ts prev0 ?n l r" "\<not> fin_cnt (rr_s r) < ?n" by auto
  then have c: "core ?n l (rr_s r)" by (simp add: rr_state_def loop_inv_def)
  have "pushes_left ts seen r = 0" for seen
    using core_all_ended [OF c st(2)] by (simp add: pushes_left_def to_push_def)
  then have "tail r = ?K" "tail r \<le> MAX_SIZE" using st(1) by (auto simp: rr_state_def rr_inv_def holds_def)
  with assms(5) show False by simp
qed

theorem RR_correct_witness:
  "queue_pushes sample_jobs 2 \<le> Sched_RR.MAX_SIZE \<and>
   (\<exists>l' g cs. RR (replicate 1000 0) 7 0 sample_jobs 3 2 = Some (l', g, cs) \<and> sched_done sample_jobs l' g \<and>
    (\<forall>p \<in> set l'. pre_metrics p \<and> response p \<le> 4) \<and>
    cs = int (switches g) - (if first_is sample_jobs g 7 then 1 else 0))"
proof -
  have le: "queue_pushes sample_jobs 2 \<le> Sched_RR.MAX_SIZE"
    by (simp add: queue_pushes_def sample_jobs_def job_entry_def cdiv_def MAX_SIZE_def)
  from RR_correct [OF sample_jobs_fresh _ _ _ le, of "replicate 1000 0" 7 0] le show ?thesis
    by (simp add: MAX_SIZE_def INT_MAX_def)
qed

theorem RR_queue_overflow_witness:
  "RR (replicate 1000 0) 7 0 [job_entry blank 1 0 600, job_entry blank 2 0 600] 2 1 = None"
proof -
  let ?l = "[job_entry blank 1 0 600, job_entry blank 2 0 600]"
  have "fresh_table ?l"
    by (simp add: fresh_table_def jobs_ok_def job_entry_def total_burst_def INT_MAX_def)
  from RR_queue_overflow [OF this, of 1 "replicate 1000 0" 7 0] show ?thesis
    by (simp add: queue_pushes_def job_entry_def cdiv_def MAX_SIZE_def INT_MAX_def)
qed

end
