(* ===== verification/Sched_Chart.thy ===== *)
theory Sched_Chart
  imports Sched_RR
begin

text \<open>
  What the charts of the four algorithms have in common. None of them leaves the CPU idle
  while a process waits, so that the slots in which the CPU is busy, and with them the time
  at which the last process ends, do not depend on the algorithm: an idle slot is one before
  which all the work that has arrived is done.
\<close>

definition busy :: "slot list \<Rightarrow> bool list" where
  "busy g = map (\<lambda>x. x \<noteq> Idle) g"

definition work :: "slot list \<Rightarrow> nat \<Rightarrow> int" where
  "work g t = int (length (filter (\<lambda>x. x \<noteq> Idle) (take t g)))"

definition arrived_work :: "process list \<Rightarrow> nat \<Rightarrow> int" where
  "arrived_work l t = sum_list (map (\<lambda>p. if arrival p \<le> int t then burst p else 0) l)"

text \<open>The slots of the chart are those of the processes, counted one process after the other.\<close>

lemma count_distinct:
  assumes "distinct (map pid l)" "q \<in> pid ` set l"
  shows "sum_list (map (\<lambda>p. if pid p = q then 1 else 0) l) = (1 :: int)"
  using assms
proof (induction l)
  case (Cons p l)
  show ?case
  proof (cases "pid p = q")
    case True
    then have "\<forall>r \<in> set l. pid r \<noteq> q" using Cons.prems(1) by (metis distinct.simps(2) list.simps(9) image_eqI list.set_map)
    then have "map (\<lambda>p. if pid p = q then 1 else 0) l = map (\<lambda>p. 0 :: int) l" by simp
    then have "sum_list (map (\<lambda>p. if pid p = q then 1 else 0 :: int) l) = 0" by (simp only: sum_list_0)
    with True show ?thesis by simp
  next
    case False
    with Cons show ?thesis by auto
  qed
qed simp

lemma busy_count:
  assumes "distinct (map pid l)" "set xs \<subseteq> insert Idle (Run ` pid ` set l)"
  shows "int (length (filter (\<lambda>x. x \<noteq> Idle) xs)) = sum_list (map (\<lambda>p. int (count_list xs (Run (pid p)))) l)"
  using assms(2)
proof (induction xs)
  case (Cons x xs)
  then have IH: "int (length (filter (\<lambda>x. x \<noteq> Idle) xs)) = sum_list (map (\<lambda>p. int (count_list xs (Run (pid p)))) l)"
    by simp
  show ?case
  proof (cases x)
    case (Run q)
    with Cons.prems have "q \<in> pid ` set l" by auto
    from count_distinct [OF assms(1) this]
    have "sum_list (map (\<lambda>p. int (count_list xs (Run (pid p))) + (if pid p = q then 1 else 0)) l) =
        sum_list (map (\<lambda>p. int (count_list xs (Run (pid p)))) l) + 1"
      by (simp add: sum_list_addf)
    moreover have "map (\<lambda>p. int (count_list (x # xs) (Run (pid p)))) l =
        map (\<lambda>p. int (count_list xs (Run (pid p))) + (if pid p = q then 1 else 0)) l"
      using Run by auto
    ultimately have "sum_list (map (\<lambda>p. int (count_list (x # xs) (Run (pid p)))) l) =
        int (length (filter (\<lambda>x. x \<noteq> Idle) xs)) + 1" unfolding IH by (simp only:)
    with Run show ?thesis by (simp del: count_list.simps)
  qed (use IH in simp)
qed simp

text \<open>One process in the first \<open>t\<close> slots of the chart of a finished simulation.\<close>

lemma count_take_le: "count_list (take t g) x \<le> count_list g x"
  by (metis append_take_drop_id count_list_append le_add1)

lemma count_take_none:
  assumes "proc_done g p0 p" "int t \<le> arrival p"
  shows "count_list (take t g) (Run (pid p)) = 0"
proof -
  have "x \<noteq> Run (pid p)" if x: "x \<in> set (take t g)" for x
  proof -
    obtain k where k: "k < t" "k < length g" "g ! k = x" using x by (auto simp: in_set_conv_nth)
    with assms show ?thesis by (force simp: proc_done_def done_ok_def runs_within_def)
  qed
  then show ?thesis by (auto simp: count_list_0_iff)
qed

lemma count_take_all:
  assumes "proc_done g p0 p" "finish p \<le> int t"
  shows "int (count_list (take t g) (Run (pid p))) = burst p"
proof -
  have "x \<noteq> Run (pid p)" if x: "x \<in> set (drop t g)" for x
  proof -
    obtain k where "k < length (drop t g)" "drop t g ! k = x" using x by (metis in_set_conv_nth)
    then have k: "t + k < length g" "g ! (t + k) = x" by simp_all
    with assms show ?thesis by (force simp: proc_done_def done_ok_def runs_within_def)
  qed
  then have "count_list (drop t g) (Run (pid p)) = 0" by (auto simp: count_list_0_iff)
  moreover have "count_list g (Run (pid p)) =
      count_list (take t g) (Run (pid p)) + count_list (drop t g) (Run (pid p))"
    by (metis append_take_drop_id count_list_append)
  moreover have "int (count_list g (Run (pid p))) = burst p" using assms(1) by (auto simp: proc_done_def)
  ultimately show ?thesis by simp
qed

lemma sched_doneD:
  assumes "sched_done l0 l g" "i < length l0"
  shows "proc_done g (l0 ! i) (l ! i)" "pid (l ! i) = pid (l0 ! i)" "arrival (l ! i) = arrival (l0 ! i)"
    "burst (l ! i) = burst (l0 ! i)"
  using assms unfolding sched_done_def proc_done_def by blast+

lemma work_sum:
  assumes "sched_done l0 l g" "jobs_ok l0"
  shows "work g t = (\<Sum>i < length l0. int (count_list (take t g) (Run (pid (l0 ! i)))))"
proof -
  have "set (take t g) \<subseteq> insert Idle (Run ` pid ` set l0)"
    using assms(1) set_take_subset [of t g] by (auto simp: sched_done_def chart_ok_def)
  with busy_count [of l0 "take t g"] assms(2) show ?thesis
    by (simp add: work_def jobs_ok_def sum_list_sum_nth atLeast0LessThan)
qed

lemma arrived_sum: "arrived_work l t = (\<Sum>i < length l. if arrival (l ! i) \<le> int t then burst (l ! i) else 0)"
  by (simp add: arrived_work_def sum_list_sum_nth atLeast0LessThan)

lemma work_Suc: "t < length g \<Longrightarrow> work g (Suc t) = work g t + (if g ! t = Idle then 0 else 1)"
  by (simp add: work_def take_Suc_conv_app_nth)

text \<open>Before slot \<open>t + 1\<close> no more than what has arrived is done.\<close>

lemma work_le_arrived:
  assumes "sched_done l0 l g" "jobs_ok l0"
  shows "work g (Suc t) \<le> arrived_work l0 t"
  unfolding work_sum [OF assms] arrived_sum
proof (rule sum_mono)
  fix i assume "i \<in> {..<length l0}"
  then have i: "i < length l0" by simp
  note d = sched_doneD [OF assms(1) i]
  have "int (count_list g (Run (pid (l ! i)))) = burst (l ! i)" using d(1) by (auto simp: proc_done_def)
  with count_take_le [of "Suc t" g "Run (pid (l ! i))"] count_take_none [OF d(1), of "Suc t"] d(2-4)
  show "int (count_list (take (Suc t) g) (Run (pid (l0 ! i)))) \<le> (if arrival (l0 ! i) \<le> int t then burst (l0 ! i) else 0)"
    by auto
qed

text \<open>A slot is idle exactly when all that has arrived is done.\<close>

lemma idle_iff:
  assumes "sched_done l0 l g" "jobs_ok l0" "t < length g"
  shows "g ! t = Idle \<longleftrightarrow> work g t = arrived_work l0 t"
proof
  assume idle: "g ! t = Idle"
  show "work g t = arrived_work l0 t"
    unfolding work_sum [OF assms(1,2)] arrived_sum
  proof (rule sum.cong [OF refl])
    fix i assume "i \<in> {..<length l0}"
    then have i: "i < length l0" by simp
    note d = sched_doneD [OF assms(1) i]
    have "int t < arrival (l ! i) \<or> finish (l ! i) \<le> int t"
      using d(1) idle assms(3) by (auto simp: proc_done_def)
    moreover have "arrival (l ! i) < finish (l ! i)" using d(1) by (simp add: proc_done_def done_ok_def)
    ultimately show "int (count_list (take t g) (Run (pid (l0 ! i)))) = (if arrival (l0 ! i) \<le> int t then burst (l0 ! i) else 0)"
      using count_take_none [OF d(1), of t] count_take_all [OF d(1), of t] d(2-4) by auto
  qed
next
  assume "work g t = arrived_work l0 t"
  with work_le_arrived [OF assms(1,2), of t] work_Suc [OF assms(3)] show "g ! t = Idle"
    by (auto split: if_splits)
qed

text \<open>The work of the whole chart, and that nothing follows once all of it is done.\<close>

lemma work_total:
  assumes "sched_done l0 l g" "jobs_ok l0"
  shows "work g (length g) = total_burst l0"
proof -
  have "int (count_list g (Run (pid (l0 ! i)))) = burst (l0 ! i)" if "i < length l0" for i
    using sched_doneD(1) [OF assms(1) that] by (auto simp: proc_done_def)
  then show ?thesis
    using work_sum [OF assms, of "length g"] by (simp add: total_burst_def sum_list_sum_nth atLeast0LessThan)
qed

lemma work_all_done:
  assumes "sched_done l0 l g" "jobs_ok l0" "work g t = total_burst l0"
  shows "length g \<le> t"
proof (rule ccontr)
  assume "\<not> length g \<le> t"
  then have t: "t < length g" by simp
  have "work g (length g) = work g t + int (length (filter (\<lambda>x. x \<noteq> Idle) (drop t g)))"
    unfolding work_def by (metis append_take_drop_id filter_append length_append of_nat_add order_refl take_all)
  then have "filter (\<lambda>x. x \<noteq> Idle) (drop t g) = []" using work_total [OF assms(1,2)] assms(3) by simp
  moreover have "last g \<in> set (drop t g)" using t by (metis last_drop last_in_set drop_eq_Nil not_le)
  ultimately have "last g = Idle" by (auto simp: filter_empty_conv)
  with assms(1) t show False by (auto simp: sched_done_def chart_ok_def)
qed

text \<open>Two charts of the same jobs, whatever the order of the tables.\<close>

lemma same_work:
  assumes "sched_done l0 l g" "jobs_ok l0" "sched_done m0 m h" "jobs_ok m0"
    and arr: "\<And>t. arrived_work l0 t = arrived_work m0 t"
  shows "t \<le> length g \<Longrightarrow> t \<le> length h \<Longrightarrow> work g t = work h t"
proof (induction t)
  case (Suc t)
  then have "g ! t = Idle \<longleftrightarrow> h ! t = Idle"
    using idle_iff [OF assms(1,2), of t] idle_iff [OF assms(3,4), of t] arr by simp
  with Suc work_Suc [of t g] work_Suc [of t h] show ?case by simp
qed (simp add: work_def)

lemma same_length:
  assumes "sched_done l0 l g" "jobs_ok l0" "sched_done m0 m h" "jobs_ok m0"
    and arr: "\<And>t. arrived_work l0 t = arrived_work m0 t" and tot: "total_burst l0 = total_burst m0"
  shows "length g \<le> length h"
proof (rule ccontr)
  assume "\<not> ?thesis"
  then have "work g (length h) = total_burst l0"
    using same_work [OF assms(1-5), of "length h"] work_total [OF assms(3,4)] tot by simp
  from work_all_done [OF assms(1,2) this] \<open>\<not> ?thesis\<close> show False by simp
qed

lemma mset_sum_eq: "mset l = mset m \<Longrightarrow> sum_list (map f l) = sum_list (map (f :: process \<Rightarrow> int) m)"
  by (metis mset_map sum_mset_sum_list)

lemma same_busy:
  assumes g: "sched_done l0 l g" and ok: "jobs_ok l0" and h: "sched_done m0 m h" and eq: "mset m0 = mset l0"
  shows "busy g = busy h"
proof -
  have ok': "jobs_ok m0" using jobs_ok_perm [OF eq [symmetric] ok] .
  have arr: "arrived_work l0 t = arrived_work m0 t" for t
    unfolding arrived_work_def using mset_sum_eq [OF eq [symmetric]] .
  have tot: "total_burst l0 = total_burst m0" unfolding total_burst_def using mset_sum_eq [OF eq [symmetric]] .
  have len: "length g = length h"
    using same_length [OF g ok h ok' arr tot] same_length [OF h ok' g ok arr [symmetric] tot [symmetric]] by simp
  have "g ! t = Idle \<longleftrightarrow> h ! t = Idle" if "t < length g" for t
    using that len idle_iff [OF g ok that] idle_iff [OF h ok', of t] same_work [OF g ok h ok' arr, of t] arr by simp
  with len show ?thesis by (auto simp: busy_def intro!: nth_equalityI)
qed

text \<open>The last process to finish does so at the end of the chart.\<close>

lemma finish_le_chart: "sched_done l0 l g \<Longrightarrow> p \<in> set l \<Longrightarrow> finish p \<le> int (length g)"
  by (auto simp: sched_done_def proc_done_def chart_ends_def done_ok_def in_set_conv_nth)

lemma finish_chart:
  assumes "sched_done l0 l g" "g \<noteq> []"
  shows "\<exists>p \<in> set l. finish p = int (length g)"
proof -
  obtain q where q: "last g = Run q" "q \<in> pid ` set l0"
    using assms last_in_set [OF assms(2)] by (cases "last g") (auto simp: sched_done_def chart_ok_def)
  then obtain i where i: "i < length l0" "pid (l0 ! i) = q" by (metis imageE in_set_conv_nth)
  note d = sched_doneD [OF assms(1) i(1)]
  have "g ! (length g - 1) = Run (pid (l ! i))" using q(1) i(2) d(2) assms(2) by (simp add: last_conv_nth)
  then have "int (length g - 1) < finish (l ! i)"
    using d(1) assms(2) by (auto simp: proc_done_def runs_within_def done_ok_def)
  moreover have "l ! i \<in> set l" using i(1) assms(1) by (simp add: sched_done_def)
  ultimately show ?thesis using finish_le_chart [OF assms(1), of "l ! i"] by force
qed

end
