(* ===== verification/Sched_Main.thy ===== *)
theory Sched_Main
  imports Sched_Chart C_Stdio
begin

text \<open>
  The program around the simulations of \<open>Assignment3-3/cpu_scheduler.c\<close>: \<open>init_list\<close>, which
  reads the process table, and \<open>main\<close>, which chooses the algorithm and prints the averages.
  The sums are kept in variables of type \<open>double\<close> and are exact there; the divisions that are
  printed are represented by their operands. Memory is taken to be available.
\<close>

section \<open>The code\<close>

text \<open>
  One \<open>fscanf(f_temp, "%d %d %d\n", ...)\<close>: the number of conversions or -1 for EOF, the entry
  with the fields read and the text left. The newline in the format skips all white space.
\<close>

definition read_job :: "process \<Rightarrow> string \<Rightarrow> (int \<times> process \<times> string) option" where
  "read_job p tex = do {
     (p1, t1, m1) \<leftarrow> scan_field (\<lambda>v p. p\<lparr>pid := v\<rparr>) (p, tex, True);
     (p2, t2, m2) \<leftarrow> scan_field (\<lambda>v p. p\<lparr>arrival := v\<rparr>) (p1, t1, m1);
     (p3, t3, m3) \<leftarrow> scan_field (\<lambda>v p. p\<lparr>burst := v\<rparr>) (p2, t2, m2);
     Some (if skip_space tex = [] then -1 else if \<not> m1 then 0 else if \<not> m2 then 1 else if \<not> m3 then 2 else 3,
       p3, if m3 then skip_space t3 else t3)
   }"

definition init_step :: "int \<times> process \<times> string \<times> process list \<Rightarrow>
    (int \<times> process \<times> string \<times> process list) option" where
  "init_step = (\<lambda>(r, p, tex, ptr). do {
     p \<leftarrow> Some (p\<lparr>remain := burst p\<rparr>);
     cnt \<leftarrow> c_int (int (length ptr) + 1);
     (r', p', t') \<leftarrow> read_job p tex;
     Some (r', p', t', ptr @ [p])
   })"

definition init_list :: "process \<Rightarrow> string \<Rightarrow> process list option" where
  "init_list p tex = do {
     (r, p, t) \<leftarrow> read_job (p\<lparr>ended := 0\<rparr>) tex;
     (r, p, t, ptr) \<leftarrow> c_while (\<lambda>st. fst st \<noteq> -1) init_step (r, p, t, []);
     Some ptr
   }"

text \<open>The state of the loop after \<open>k\<close> rounds.\<close>

fun init_rounds :: "nat \<Rightarrow> int \<times> process \<times> string \<times> process list \<Rightarrow> (int \<times> process \<times> string \<times> process list) option" where
  "init_rounds 0 st = Some st"
| "init_rounds (Suc k) st = Option.bind (init_rounds k st) init_step"

text \<open>What the locals of \<open>init_list\<close> and \<open>RR\<close> hold before they are set.\<close>

record sched_locals =
  local_p :: process
  local_queue :: "int list"
  local_prev :: int
  local_slice :: int

text \<open>The chain of \<open>strcmp\<close> tests: the algorithm to call, or the error message.\<close>

definition choose_algorithm :: "sched_locals \<Rightarrow> string list \<Rightarrow>
    string + (process list \<Rightarrow> int \<Rightarrow> (process list \<times> slot list \<times> int) option)" where
  "choose_algorithm u argv =
    (if argv ! 1 = ''FCFS'' then Inr FCFS
     else if argv ! 1 = ''SJF'' then Inr SJF
     else if argv ! 1 = ''SRTF'' then Inr SRTF
     else if argv ! 1 = ''RR'' then
       (if length argv = 3 then Inr (\<lambda>list n. do {
          ts \<leftarrow> atoi (argv ! 2);
          RR (local_queue u) (local_prev u) (local_slice u) list n ts })
        else Inl (''RR needs time quantum'' @ [newline]))
     else Inl (''Wrong algorithm name.'' @ [newline]))"

record summary =
  sum_waiting :: int
  sum_turnaround :: int
  sum_response :: int
  sum_burst :: int
  max_finish :: int
  n_switches :: int
  n_jobs :: int

definition add_up :: "(process \<Rightarrow> int) \<Rightarrow> process list \<Rightarrow> int" where
  "add_up f list = foldl (\<lambda>acc p. acc + f p) 0 list"

definition latest :: "process list \<Rightarrow> int" where
  "latest list = foldl (\<lambda>m p. if m > finish p then m else finish p) 0 list"

definition summarise :: "process list \<Rightarrow> int \<Rightarrow> summary" where
  "summarise list switched = \<lparr>sum_waiting = add_up waiting list, sum_turnaround = add_up turnaround list,
     sum_response = add_up response list, sum_burst = add_up burst list, max_finish = latest list,
     n_switches = switched, n_jobs = int (length list)\<rparr>"

datatype sched_out = Error string | Gantt "slot list" | Averages summary

text \<open>\<open>argv\<close> without the program name; \<open>open_file\<close> gives the contents of the files that open.\<close>

definition sched_main :: "sched_locals \<Rightarrow> (string \<Rightarrow> string option) \<Rightarrow> string list \<Rightarrow> sched_out list option" where
  "sched_main u open_file argv =
    (if length argv < 2 then
       Some [Error (''2 or 3 arguments are needed: file name / CPU algorithm / (if RR, time slice).'' @ [newline])]
     else case open_file (argv ! 0) of
       None \<Rightarrow> Some [Error (''file open failed.'' @ [newline])]
     | Some tex \<Rightarrow> do {
         list \<leftarrow> init_list (local_p u) tex;
         (case choose_algorithm u argv of
            Inl msg \<Rightarrow> Some [Error msg]
          | Inr alg \<Rightarrow> do {
              (list', g, switched) \<leftarrow> alg list (int (length list));
              Some [Gantt g, Averages (summarise list' switched)] }) })"

section \<open>Reading the table\<close>

text \<open>A process file, one process to a line, and the table it stands for.\<close>

type_synonym job = "int \<times> int \<times> int"

definition job_line :: "job \<Rightarrow> string" where
  "job_line = (\<lambda>(i, a, b). print_int i @ CHR '' '' # print_int a @ CHR '' '' # print_int b @ [newline])"

definition jobs_text :: "job list \<Rightarrow> string" where
  "jobs_text js = concat (map job_line js)"

definition job_table :: "process \<Rightarrow> job list \<Rightarrow> process list" where
  "job_table p js = map (\<lambda>(i, a, b). job_entry p i a b) js"

definition job_ints :: "job list \<Rightarrow> bool" where
  "job_ints js \<longleftrightarrow> (\<forall>(i, a, b) \<in> set js. int_range i \<and> int_range a \<and> int_range b)"

lemma jobs_text_skip: "skip_space (jobs_text js) = jobs_text js"
proof (cases js)
  case (Cons j js')
  obtain i a b where "j = (i, a, b)" by (cases j)
  with Cons have "jobs_text js = print_int i @ (CHR '' '' # print_int a @ CHR '' '' # print_int b @ [newline]) @ jobs_text js'"
    by (simp add: jobs_text_def job_line_def)
  with print_int_head [of i] show ?thesis by (auto intro: skip_space_none)
qed (simp add: jobs_text_def skip_space_def)

lemma jobs_text_Nil [simp]: "jobs_text [] = []"
  by (simp add: jobs_text_def)

lemma read_job_end: "read_job p (jobs_text []) = Some (-1, p, [])"
  by (simp add: read_job_def scan_field_def scan_int_def skip_space_def)

lemma read_job_line:
  assumes "int_range i" "int_range a" "int_range b"
  shows "read_job p (jobs_text ((i, a, b) # js)) =
    Some (3, p\<lparr>pid := i, arrival := a, burst := b\<rparr>, jobs_text js)"
proof -
  let ?t3 = "newline # jobs_text js"
  let ?t2 = "CHR '' '' # print_int b @ ?t3"
  let ?t1 = "CHR '' '' # print_int a @ ?t2"
  have eq: "jobs_text ((i, a, b) # js) = print_int i @ ?t1" by (simp add: jobs_text_def job_line_def)
  have 1: "scan_field (\<lambda>v p. p\<lparr>pid := v\<rparr>) (p, print_int i @ ?t1, True) = Some (p\<lparr>pid := i\<rparr>, ?t1, True)"
    using scan_field_print [OF assms(1), of "[]" ?t1] by simp
  have 2: "scan_field (\<lambda>v p. p\<lparr>arrival := v\<rparr>) (q, ?t1, True) = Some (q\<lparr>arrival := a\<rparr>, ?t2, True)" for q
    by (rule scan_field_one [OF assms(2)]) simp_all
  have 3: "scan_field (\<lambda>v p. p\<lparr>burst := v\<rparr>) (q, ?t2, True) = Some (q\<lparr>burst := b\<rparr>, ?t3, True)" for q
    by (rule scan_field_one [OF assms(3)]) simp_all
  have "skip_space (print_int i @ ?t1) \<noteq> []"
    using print_int_head [of i] skip_space_none [of "print_int i @ ?t1"] by simp
  moreover have "skip_space ?t3 = jobs_text js"
    using jobs_text_skip [of js] by (simp add: skip_space_def)
  ultimately show ?thesis by (simp add: read_job_def eq 1 2 3)
qed

lemma init_loop:
  assumes "job_ints js" "int (length ptr + length js) < INT_MAX" "read_job p (jobs_text js) = Some (r, q, t)" "ended p = 0"
    and same: "\<And>i a b. job_entry p i a b = job_entry p0 i a b"
  shows "\<exists>q' t'. c_while (\<lambda>st. fst st \<noteq> -1) init_step (r, q, t, ptr) = Some (-1, q', t', ptr @ job_table p0 js)"
  using assms
proof (induction js arbitrary: p r q t ptr)
  case Nil
  then show ?case by (auto simp: read_job_end job_table_def c_while_stop simp del: jobs_text_Nil)
next
  case (Cons j js)
  obtain i a b where j: "j = (i, a, b)" by (cases j)
  have ok: "int_range i" "int_range a" "int_range b" "job_ints js" using Cons.prems(1) j by (auto simp: job_ints_def)
  let ?p = "job_entry p i a b"
  have rd: "r = 3" "q = p\<lparr>pid := i, arrival := a, burst := b\<rparr>" "t = jobs_text js"
    using Cons.prems(3) read_job_line [OF ok(1-3), of p js] j by auto
  then have q: "q\<lparr>remain := burst q\<rparr> = ?p" using Cons.prems(4) by (simp add: job_entry_def)
  obtain r' q' t' where nx: "read_job ?p (jobs_text js) = Some (r', q', t')"
  proof (cases js)
    case Nil
    then show thesis using that read_job_end by blast
  next
    case (Cons k ks)
    obtain i' a' b' where "k = (i', a', b')" by (cases k)
    then show thesis using that read_job_line [of i' a' b' ?p ks] Cons ok(4) by (auto simp: job_ints_def)
  qed
  have "init_step (r, q, t, ptr) = Some (r', q', t', ptr @ [?p])"
    using nx rd(3) Cons.prems(2) q by (simp add: init_step_def c_int_def INT_MIN_def)
  moreover have "job_entry ?p i' a' b' = job_entry p0 i' a' b'" for i' a' b'
    using Cons.prems(5) by (simp add: job_entry_def)
  then have "\<exists>q'' t''. c_while (\<lambda>st. fst st \<noteq> -1) init_step (r', q', t', ptr @ [?p]) =
      Some (-1, q'', t'', (ptr @ [?p]) @ job_table p0 js)"
    using Cons.prems(2) by (intro Cons.IH [OF ok(4) _ nx]) (simp_all add: job_entry_def)
  ultimately show ?case
    using c_while_step [of "\<lambda>st. fst st \<noteq> -1" "(r, q, t, ptr)" init_step] rd(1) j Cons.prems(5)
    by (simp add: job_table_def)
qed

lemma init_list_ok:
  assumes "job_ints js" "int (length js) < INT_MAX"
  shows "init_list p (jobs_text js) = Some (job_table p js)"
proof -
  let ?p = "p\<lparr>ended := 0\<rparr>"
  obtain r q t where rd: "read_job ?p (jobs_text js) = Some (r, q, t)"
    using read_job_line [of _ _ _ ?p] read_job_end [of ?p] assms(1) by (cases js) (auto simp: job_ints_def)
  have "\<exists>q' t'. c_while (\<lambda>st. fst st \<noteq> -1) init_step (r, q, t, []) = Some (-1, q', t', [] @ job_table p js)"
    by (rule init_loop [OF assms(1) _ rd]) (use assms(2) in \<open>simp_all add: job_entry_def\<close>)
  with rd show ?thesis by (auto simp: init_list_def)
qed

section \<open>Runs of the program\<close>

lemma add_up_sum: "add_up f l = sum_list (map f l)"
proof -
  have "foldl (\<lambda>acc p. acc + f p) a l = a + sum_list (map f l)" for a by (induction l arbitrary: a) auto
  then show ?thesis by (simp add: add_up_def)
qed

lemma latest_max: "latest l = Max (insert 0 (finish ` set l))"
proof -
  have "foldl (\<lambda>m p. if m > finish p then m else finish p) a l = Max (insert a (finish ` set l))" for a
  proof (induction l arbitrary: a)
    case (Cons p l)
    have "insert (if a > finish p then a else finish p) (finish ` set l) \<noteq> {}" by simp
    moreover have "Max (insert a (insert (finish p) S)) = Max (insert (if a > finish p then a else finish p) S)"
      if "finite S" for S using that by (cases "S = {}") (auto simp: max_def)
    ultimately show ?case using Cons by simp
  qed simp
  then show ?thesis by (simp add: latest_def)
qed

lemma switches_pos: "find (\<lambda>x. x \<noteq> Idle) g = Some x \<Longrightarrow> 0 < switches g"
proof -
  assume "find (\<lambda>x. x \<noteq> Idle) g = Some x"
  then obtain t where t: "t < length g" "g ! t \<noteq> Idle" "\<forall>k < t. g ! k = Idle"
    by (auto simp: find_Some_iff)
  have "t = 0 \<or> g ! (t - 1) \<noteq> g ! t" using t(2,3) by (cases "t = 0") auto
  with t(1,2) have "t \<in> set (filter (\<lambda>t. g ! t \<noteq> Idle \<and> (t = 0 \<or> g ! (t - 1) \<noteq> g ! t)) [0..<length g])"
    by simp
  then show ?thesis unfolding switches_def by (rule length_pos_if_in_set)
qed

text \<open>The arguments the program is called with: one of the algorithms, \<open>RR\<close> with a time slice.\<close>

definition sched_args :: "sched_locals \<Rightarrow> string \<Rightarrow> job list \<Rightarrow> string list \<Rightarrow> bool" where
  "sched_args u f js argv \<longleftrightarrow> argv \<in> {[f, ''FCFS''], [f, ''SJF''], [f, ''SRTF'']} \<or>
     (\<exists>ts. argv = [f, ''RR'', print_int ts] \<and> 1 \<le> ts \<and> ts \<le> INT_MAX \<and>
       int (length (local_queue u)) = Sched_RR.MAX_SIZE \<and> queue_pushes (job_table (local_p u) js) ts \<le> Sched_RR.MAX_SIZE)"

definition averages_ok :: "process \<Rightarrow> bool" where
  "averages_ok p \<longleftrightarrow> turnaround p = waiting p + burst p \<and> 0 \<le> response p \<and> response p \<le> waiting p"

lemma fresh_job_table: "jobs_ok (job_table p js) \<Longrightarrow> fresh_table (job_table p js)"
  by (auto simp: fresh_table_def job_table_def job_entry_def)

text \<open>Any of the algorithms finishes all processes of a table.\<close>

lemma algorithm_ok:
  assumes "jobs_ok (job_table (local_p u) js)" "sched_args u f js argv"
  defines "l \<equiv> job_table (local_p u) js"
  shows "\<exists>alg l0 l' g cs. choose_algorithm u argv = Inr alg \<and> alg l (int (length l)) = Some (l', g, cs) \<and>
    sched_done l0 l' g \<and> mset l0 = mset l \<and> (\<forall>p \<in> set l'. averages_ok p) \<and> 0 \<le> cs"
proof -
  have fr: "fresh_table l" using fresh_job_table assms by simp
  have np: "averages_ok p" if "sched_done l0 l' g" "p \<in> set l'" "np_metrics p" for l0 l' g p
    using sched_done_set [OF that(1,2)] that(3) by (auto simp: averages_ok_def np_metrics_def done_ok_def)
  have pre: "averages_ok p" if "pre_metrics p" for p using that by (auto simp: averages_ok_def pre_metrics_def)
  consider "argv = [f, ''FCFS'']" | "argv = [f, ''SJF'']" | "argv = [f, ''SRTF'']"
    | ts where "argv = [f, ''RR'', print_int ts]" "1 \<le> ts" "ts \<le> INT_MAX"
      "int (length (local_queue u)) = Sched_RR.MAX_SIZE" "queue_pushes l ts \<le> Sched_RR.MAX_SIZE"
    using assms(2) unfolding sched_args_def l_def by blast
  then show ?thesis
  proof cases
    case 1
    with FCFS_ok [OF fr] np show ?thesis by (fastforce simp: choose_algorithm_def)
  next
    case 2
    with SJF_ok [OF fr] np show ?thesis by (fastforce simp: choose_algorithm_def)
  next
    case 3
    with SRTF_ok [OF fr] pre show ?thesis by (fastforce simp: choose_algorithm_def)
  next
    case 4
    have at: "atoi (print_int ts) = Some ts" using 4(2,3) by (intro atoi_print_int) (simp_all add: INT_MIN_def)
    from RR_ok [OF fr 4(2-5), of "local_prev u" "local_slice u"] obtain l' g cs where
      r: "RR (local_queue u) (local_prev u) (local_slice u) l (int (length l)) ts = Some (l', g, cs)" "sched_done l l' g"
        "\<forall>p \<in> set l'. pre_metrics p" "cs = int (switches g) - (if first_is l g (local_prev u) then 1 else 0)" by blast
    have "0 \<le> cs" using r(4) switches_pos [of g] by (auto simp: first_is_def)
    with 4(1) at r pre show ?thesis by (fastforce simp: choose_algorithm_def)
  qed
qed

lemma sched_main_run:
  assumes "open_file f = Some (jobs_text js)" "job_ints js" "jobs_ok (job_table (local_p u) js)" "sched_args u f js argv"
  shows "\<exists>l0 l' g cs. sched_main u open_file argv = Some [Gantt g, Averages (summarise l' cs)] \<and>
    sched_done l0 l' g \<and> mset l0 = mset (job_table (local_p u) js) \<and> (\<forall>p \<in> set l'. averages_ok p) \<and> 0 \<le> cs"
proof -
  have "int (length js) < INT_MAX" using assms(3) by (simp add: jobs_ok_def job_table_def)
  note rd = init_list_ok [OF assms(2) this, of "local_p u"]
  from algorithm_ok [OF assms(3,4)] obtain alg l0 l' g cs where
    r: "choose_algorithm u argv = Inr alg" "alg (job_table (local_p u) js) (int (length (job_table (local_p u) js))) = Some (l', g, cs)"
      "sched_done l0 l' g" "mset l0 = mset (job_table (local_p u) js)" "\<forall>p \<in> set l'. averages_ok p" "0 \<le> cs" by blast
  have "argv ! 0 = f" "\<not> length argv < 2" using assms(4) by (auto simp: sched_args_def)
  with assms(1) rd r(1,2) have "sched_main u open_file argv = Some [Gantt g, Averages (summarise l' cs)]"
    by (simp add: sched_main_def)
  with r(3-6) show ?thesis by blast
qed

text \<open>What the summary of a finished table adds up to.\<close>

lemma sched_done_burst: "sched_done l0 l g \<Longrightarrow> map burst l = map burst l0"
  by (auto simp: sched_done_def proc_done_def intro!: nth_equalityI)

lemma max_finish_chart:
  assumes "sched_done l0 l g"
  shows "latest l = int (length g)"
proof (cases "g = []")
  case True
  then have "l = []" using finish_le_chart [OF assms] sched_done_set [OF assms]
    by (cases l) (force simp: done_ok_def)+
  with True show ?thesis by (simp add: latest_def)
next
  case False
  with finish_chart [OF assms] have "int (length g) \<in> finish ` set l" by force
  with finish_le_chart [OF assms] show ?thesis unfolding latest_max by (intro Max_eqI) auto
qed

lemma summary_ok:
  assumes "sched_done l0 l g" "mset l0 = mset l1" "jobs_ok l1" "\<forall>p \<in> set l. averages_ok p"
  shows "sum_turnaround (summarise l cs) = sum_waiting (summarise l cs) + sum_burst (summarise l cs)"
    "sum_response (summarise l cs) \<le> sum_waiting (summarise l cs)"
    "sum_burst (summarise l cs) = total_burst l1"
    "sum_burst (summarise l cs) = int (length (filter (\<lambda>x. x \<noteq> Idle) g))"
    "max_finish (summarise l cs) = int (length g)" "n_jobs (summarise l cs) = int (length l1)"
proof -
  have "map turnaround l = map (\<lambda>p. waiting p + burst p) l" using assms(4) by (simp add: averages_ok_def)
  then have "sum_list (map turnaround l) = sum_list (map waiting l) + sum_list (map burst l)"
    by (simp only: sum_list_addf)
  then show "sum_turnaround (summarise l cs) = sum_waiting (summarise l cs) + sum_burst (summarise l cs)"
    by (simp add: summarise_def add_up_sum)
  show "sum_response (summarise l cs) \<le> sum_waiting (summarise l cs)"
    using assms(4) by (auto simp: summarise_def add_up_sum averages_ok_def intro!: sum_list_mono)
  have tb: "total_burst l0 = total_burst l1" unfolding total_burst_def using mset_sum_eq [OF assms(2)] .
  then show b: "sum_burst (summarise l cs) = total_burst l1"
    using sched_done_burst [OF assms(1)] by (simp add: summarise_def add_up_sum total_burst_def)
  have "jobs_ok l0" using jobs_ok_perm [OF assms(2) [symmetric] assms(3)] .
  then show "sum_burst (summarise l cs) = int (length (filter (\<lambda>x. x \<noteq> Idle) g))"
    using work_total [OF assms(1)] b tb by (simp add: work_def)
  show "max_finish (summarise l cs) = int (length g)" using max_finish_chart [OF assms(1)] by (simp add: summarise_def)
  show "n_jobs (summarise l cs) = int (length l1)"
    using assms(1) mset_eq_length [OF assms(2)] by (simp add: summarise_def sched_done_def)
qed

section \<open>Results\<close>

text \<open>A loop whose guard holds after every number of rounds does not end in a state.\<close>

lemma c_while_rounds:
  assumes "\<And>k s. init_rounds k st = Some s \<Longrightarrow> b s"
  shows "c_while b init_step st = None"
proof (rule ccontr)
  assume "c_while b init_step st \<noteq> None"
  then obtain s where s: "c_while b init_step st = Some s" by blast
  have "(\<exists>k. init_rounds k st = Some s) \<and> \<not> b s"
    by (rule c_while_inv [OF s]) (metis init_rounds.simps(2) Option.bind_eq_Some_conv, metis init_rounds.simps(1))
  with assms show False by blast
qed

text \<open>
  \<open>init_list\<close> reads back every process file: for any list of processes whose numbers are in
  the range of an \<open>int\<close>, the file with one process to a line gives exactly their table,
  with the remaining times set to the bursts and nothing ended, whatever the local
  variable held before.
\<close>

theorem init_list_reads:
  assumes "job_ints js" "int (length js) < INT_MAX"
  shows "init_list p (jobs_text js) = Some (map (\<lambda>(i, a, b). job_entry p i a b) js)"
  using init_list_ok [OF assms] by (simp add: job_table_def)

theorem init_list_reads_witness:
  "init_list blank (jobs_text [(1, 0, 5), (2, 2, 3)]) = Some [job_entry blank 1 0 5, job_entry blank 2 2 3]"
  using init_list_reads [of "[(1, 0, 5), (2, 2, 3)]" blank]
  by (simp add: job_ints_def int_range_def INT_MIN_def INT_MAX_def)

text \<open>
  C40. A file that does not start with a number, for instance with a heading line, is never
  read to its end. Every call of \<open>fscanf\<close> succeeds in converting nothing, which is not EOF: after
  any number \<open>k\<close> of rounds that an \<open>int\<close> can count, the loop is still running, the text is where it
  was, and the table has \<open>k\<close> copies of one entry that was never read. The only end there is comes
  after \<open>INT_MAX\<close> rounds, when \<open>++cnt\<close> overflows; \<open>init_list\<close> returns no table.
\<close>

theorem init_list_garbage_never_ends:
  assumes "\<not> is_space c" "\<not> is_digit c" "c \<noteq> CHR ''-''" "c \<noteq> CHR ''+''" "e = p\<lparr>ended := 0, remain := burst p\<rparr>"
  shows "read_job (p\<lparr>ended := 0\<rparr>) (c # tex) = Some (0, p\<lparr>ended := 0\<rparr>, c # tex) \<and>
    (\<forall>k. int k \<le> INT_MAX \<longrightarrow> (\<exists>q. init_rounds k (0, p\<lparr>ended := 0\<rparr>, c # tex, []) = Some (0, q, c # tex, replicate k e))) \<and>
    (\<forall>k. INT_MAX < int k \<longrightarrow> init_rounds k (0, p\<lparr>ended := 0\<rparr>, c # tex, []) = None) \<and>
    init_list p (c # tex) = None"
proof (intro conjI allI impI)
  let ?st = "(0, p\<lparr>ended := 0\<rparr>, c # tex, [])"
  have rj: "read_job q (c # tex) = Some (0, q, c # tex)" for q
    using assms by (simp add: read_job_def scan_field_def scan_int_def skip_space_def scan_sign_def)
  then show "read_job (p\<lparr>ended := 0\<rparr>) (c # tex) = Some (0, p\<lparr>ended := 0\<rparr>, c # tex)" .
  have run: "init_rounds k ?st = Some (0, if k = 0 then p\<lparr>ended := 0\<rparr> else e, c # tex, replicate k e)" if "int k \<le> INT_MAX" for k
    using that by (induction k) (auto simp: init_step_def rj assms(5) INT_MIN_def replicate_append_same)
  then show "\<exists>q. init_rounds k ?st = Some (0, q, c # tex, replicate k e)" if "int k \<le> INT_MAX" for k using that by blast
  show over: "init_rounds k ?st = None" if "INT_MAX < int k" for k
    using that
  proof (induction k)
    case (Suc k)
    show ?case
    proof (cases "int k \<le> INT_MAX")
      case True
      with Suc.prems have "int k = INT_MAX" by simp
      with run [OF True] show ?thesis by (simp add: init_step_def c_int_def)
    qed (use Suc in simp)
  qed (simp add: INT_MAX_def)
  have "c_while (\<lambda>st. fst st \<noteq> -1) init_step ?st = None"
  proof (rule c_while_rounds)
    show "init_rounds k ?st = Some s \<Longrightarrow> fst s \<noteq> -1" for k s using run [of k] over [of k] by (cases "int k \<le> INT_MAX") auto
  qed
  then show "init_list p (c # tex) = None" by (simp add: init_list_def rj)
qed

theorem init_list_garbage_never_ends_witness:
  "init_rounds 3 (0, blank\<lparr>ended := 0\<rparr>, ''pid arrival burst'', []) \<noteq> None \<and> init_list blank ''pid arrival burst'' = None"
  using init_list_garbage_never_ends [of "CHR ''p''" "blank\<lparr>ended := 0, remain := burst blank\<rparr>" blank "''id arrival burst''"]
  by (auto simp: is_space_def is_digit_def INT_MAX_def dest: spec [of _ 3])

text \<open>
  C3. A whole run of the scheduler on a file of admissible processes: with any of the four
  algorithms it returns and prints a chart and the averages. The sum of the turnaround
  times is that of the waiting times plus the bursts, the responses are at most the waiting
  times, the busy time is the sum of the bursts in the file and the number of busy slots of
  the chart, and the last finish is the length of the chart: the utilisation printed is at
  most 100 percent.
\<close>

theorem sched_main_correct:
  assumes "open_file f = Some (jobs_text js)" "job_ints js" "jobs_ok (job_table (local_p u) js)" "sched_args u f js argv"
  shows "\<exists>g r. sched_main u open_file argv = Some [Gantt g, Averages r] \<and>
    sum_turnaround r = sum_waiting r + sum_burst r \<and> sum_response r \<le> sum_waiting r \<and>
    sum_burst r = sum_list (map (\<lambda>(i, a, b). b) js) \<and> sum_burst r = int (length (filter (\<lambda>x. x \<noteq> Idle) g)) \<and>
    max_finish r = int (length g) \<and> 10 * sum_burst r \<le> 10 * max_finish r + n_switches r \<and> n_jobs r = int (length js)"
proof -
  let ?l = "job_table (local_p u) js"
  from sched_main_run [where open_file = open_file, OF assms] obtain l0 l' g cs where
    r: "sched_main u open_file argv = Some [Gantt g, Averages (summarise l' cs)]" "sched_done l0 l' g"
      "mset l0 = mset ?l" "\<forall>p \<in> set l'. averages_ok p" "0 \<le> cs" by blast
  note s = summary_ok [OF r(2,3) assms(3) r(4), of cs]
  have "total_burst ?l = sum_list (map (\<lambda>(i, a, b). b) js)" "length ?l = length js"
    by (simp_all add: total_burst_def job_table_def job_entry_def comp_def case_prod_unfold)
  moreover have "length (filter (\<lambda>x. x \<noteq> Idle) g) \<le> length g" by (rule length_filter_le)
  moreover have "n_switches (summarise l' cs) = cs" by (simp add: summarise_def)
  ultimately show ?thesis
    using r(1,5) s by (intro exI [of _ g] exI [of _ "summarise l' cs"]) (simp del: length_filter_le)
qed

definition sample_locals :: sched_locals where
  "sample_locals = \<lparr>local_p = blank, local_queue = replicate 1000 7, local_prev = 7, local_slice = 0\<rparr>"

definition sample_file :: "string \<Rightarrow> string option" where
  "sample_file f = (if f = ''in'' then Some (jobs_text [(1, 0, 5), (2, 2, 3), (3, 9, 1)]) else None)"

lemma sample_run:
  "sample_file ''in'' = Some (jobs_text [(1, 0, 5), (2, 2, 3), (3, 9, 1)])" "job_ints [(1, 0, 5), (2, 2, 3), (3, 9, 1)]"
  "jobs_ok (job_table (local_p sample_locals) [(1, 0, 5), (2, 2, 3), (3, 9, 1)])"
  "sched_args sample_locals ''in'' [(1, 0, 5), (2, 2, 3), (3, 9, 1)] [''in'', ''SJF'']"
  "sched_args sample_locals ''in'' [(1, 0, 5), (2, 2, 3), (3, 9, 1)] [''in'', ''RR'', print_int 2]"
proof -
  show "sched_args sample_locals ''in'' [(1, 0, 5), (2, 2, 3), (3, 9, 1)] [''in'', ''RR'', print_int 2]"
    unfolding sched_args_def
    by (intro disjI2 exI [of _ 2]) (simp add: sample_locals_def job_table_def job_entry_def queue_pushes_def cdiv_def
        Sched_RR.MAX_SIZE_def INT_MAX_def)
qed (simp_all add: sample_file_def sched_args_def sample_locals_def job_table_def job_entry_def
    job_ints_def int_range_def INT_MIN_def INT_MAX_def jobs_ok_def total_burst_def)

theorem sched_main_correct_witness:
  "\<exists>g r. sched_main sample_locals sample_file [''in'', ''RR'', print_int 2] = Some [Gantt g, Averages r] \<and>
    sum_turnaround r = sum_waiting r + 9 \<and> sum_burst r = 9 \<and> n_jobs r = 3"
  using sched_main_correct [where open_file = sample_file, OF sample_run(1-3,5)] by auto

text \<open>
  C5. The four algorithms agree on when the CPU is busy: two runs of the scheduler on the same
  file, with any of the algorithms and any time slices, print charts with their idle slots in
  the same places, and the operands of the utilisation differ only in the number of context
  switches.
\<close>

theorem sched_main_same_busy:
  assumes "open_file f = Some (jobs_text js)" "job_ints js" "jobs_ok (job_table (local_p u) js)"
    and "sched_args u f js argv" "sched_args u f js argv'"
  shows "\<exists>g r g' r'. sched_main u open_file argv = Some [Gantt g, Averages r] \<and>
    sched_main u open_file argv' = Some [Gantt g', Averages r'] \<and>
    map (\<lambda>x. x \<noteq> Idle) g = map (\<lambda>x. x \<noteq> Idle) g' \<and> sum_burst r = sum_burst r' \<and> max_finish r = max_finish r'"
proof -
  let ?l = "job_table (local_p u) js"
  from sched_main_run [where open_file = open_file, OF assms(1-4)] obtain l0 l' g cs where
    r: "sched_main u open_file argv = Some [Gantt g, Averages (summarise l' cs)]" "sched_done l0 l' g"
      "mset l0 = mset ?l" "\<forall>p \<in> set l'. averages_ok p" by blast
  from sched_main_run [where open_file = open_file, OF assms(1-3,5)] obtain m0 m' h ds where
    q: "sched_main u open_file argv' = Some [Gantt h, Averages (summarise m' ds)]" "sched_done m0 m' h"
      "mset m0 = mset ?l" "\<forall>p \<in> set m'. averages_ok p" by blast
  have "busy g = busy h"
    using same_busy [OF r(2) jobs_ok_perm [OF r(3) [symmetric] assms(3)] q(2)] r(3) q(3) by simp
  moreover from this have "length g = length h" by (metis busy_def length_map)
  ultimately show ?thesis
    using r(1) q(1) summary_ok(3,5) [OF r(2,3) assms(3) r(4), of cs] summary_ok(3,5) [OF q(2,3) assms(3) q(4), of ds]
    by (simp add: busy_def)
qed

theorem sched_main_same_busy_witness:
  "\<exists>g r g' r'. sched_main sample_locals sample_file [''in'', ''SJF''] = Some [Gantt g, Averages r] \<and>
    sched_main sample_locals sample_file [''in'', ''RR'', print_int 2] = Some [Gantt g', Averages r'] \<and>
    map (\<lambda>x. x \<noteq> Idle) g = map (\<lambda>x. x \<noteq> Idle) g' \<and> max_finish r = max_finish r'"
  using sched_main_same_busy [where open_file = sample_file, OF sample_run] by blast

end
