(* ===== verification/Fat_FS.thy ===== *)
theory Fat_FS
  imports C_Stdio
begin

text \<open>
  The FAT file system of \<open>src/Assignment5-2/fat.c\<close>: its global tables and the five
  operations. What an operation prints is a list of outputs.
\<close>

section \<open>Tables\<close>

definition FILE_NAME :: int where
  "FILE_NAME = 100"

definition ENTRY :: int where
  "ENTRY = 100"

definition BLOCK_SIZE :: int where
  "BLOCK_SIZE = 1024"

definition BYTES :: int where
  "BYTES = 32"

record file_entry =
  file_name :: "char list"
  start :: int
  file_size :: int
  in_use :: int

record fs =
  File_entries :: "file_entry list"
  FAT :: "int list"
  Disk :: "char list list"

datatype out = Printf string | Perror string

section \<open>Operations\<close>

text \<open>The test \<open>use && !strcmp(file_name, name)\<close> and the search loops over the entries.\<close>

definition entry_is :: "fs \<Rightarrow> string \<Rightarrow> int \<Rightarrow> bool option" where
  "entry_is s name i = do {
     e \<leftarrow> rd (File_entries s) i;
     if in_use e \<noteq> 0 then do { n \<leftarrow> cstr (file_name e); Some (n = name) } else Some False
   }"

definition find_file :: "fs \<Rightarrow> string \<Rightarrow> int option" where
  "find_file s name = find_range 0 ENTRY (entry_is s name)"

definition find_entry :: "fs \<Rightarrow> int option" where
  "find_entry s = find_range 0 ENTRY (\<lambda>i. do { e \<leftarrow> rd (File_entries s) i; Some (in_use e = 0) })"

definition find_block :: "fs \<Rightarrow> int option" where
  "find_block s = find_range 0 BLOCK_SIZE (\<lambda>i. do { v \<leftarrow> rd (FAT s) i; Some (v = -2) })"

text \<open>The block becomes the last one of a file, with no contents.\<close>

definition claim_block :: "fs \<Rightarrow> int \<Rightarrow> fs option" where
  "claim_block s b = do {
     fat \<leftarrow> wr (FAT s) b (-1);
     d \<leftarrow> rd (Disk s) b;
     d' \<leftarrow> strcpy d '''';
     disk \<leftarrow> wr (Disk s) b d';
     Some (s\<lparr>FAT := fat, Disk := disk\<rparr>)
   }"

definition set_entry :: "fs \<Rightarrow> int \<Rightarrow> (file_entry \<Rightarrow> file_entry) \<Rightarrow> fs option" where
  "set_entry s i f = do {
     e \<leftarrow> rd (File_entries s) i;
     es \<leftarrow> wr (File_entries s) i (f e);
     Some (s\<lparr>File_entries := es\<rparr>)
   }"

definition create_file :: "string \<Rightarrow> fs \<Rightarrow> (fs \<times> out list) option" where
  "create_file name s = do {
     i \<leftarrow> find_file s name;
     if i < ENTRY then Some (s, [Printf (''File '' @ name @ '' already exist'' @ [newline])])
     else do {
       free \<leftarrow> find_entry s;
       if free < ENTRY then do {
         fBlock \<leftarrow> find_block s;
         if fBlock = BLOCK_SIZE then Some (s, [Perror ''no free block''])
         else do {
           s1 \<leftarrow> set_entry s free (\<lambda>e. e\<lparr>start := fBlock\<rparr>);
           s2 \<leftarrow> claim_block s1 fBlock;
           e \<leftarrow> rd (File_entries s2) free;
           nm \<leftarrow> strcpy (file_name e) name;
           nm' \<leftarrow> wr nm FILE_NAME NUL;
           s3 \<leftarrow> set_entry s2 free (\<lambda>e. e\<lparr>file_name := nm', file_size := 0, in_use := 1\<rparr>);
           Some (s3, [Printf (''File '' @ [CHR 0x27] @ name @ [CHR 0x27] @ '' created.'' @ [newline])])
         }
       } else Some (s, [Perror ''Full of file entries''])
     }
   }"

text \<open>\<open>while (FAT[block] >= 0) block = FAT[block];\<close> The state is \<open>block\<close> and \<open>FAT[block]\<close>.\<close>

definition last_block :: "fs \<Rightarrow> int \<Rightarrow> int option" where
  "last_block s block = do {
     v \<leftarrow> rd (FAT s) block;
     (b, v') \<leftarrow> c_while (\<lambda>(b, v). v \<ge> 0) (\<lambda>(b, v). do { w \<leftarrow> rd (FAT s) v; Some (v, w) }) (block, v);
     Some b
   }"

text \<open>The byte loop: the block, \<open>bIndex\<close>, the rest of the contents and the file size.\<close>

fun put_bytes :: "char list \<Rightarrow> int \<Rightarrow> string \<Rightarrow> int \<Rightarrow> (char list \<times> int \<times> string \<times> int) option" where
  "put_bytes d bIndex [] sz = Some (d, bIndex, [], sz)"
| "put_bytes d bIndex (c # content) sz =
     (if bIndex < BYTES then do {
        d' \<leftarrow> wr d bIndex (if c = newline then CHR 0x20 else c);
        sz' \<leftarrow> c_int (sz + 1);
        put_bytes d' (bIndex + 1) content sz'
      } else Some (d, bIndex, c # content, sz))"

text \<open>
  One pass of the outer loop: fill the block and, with contents left, chain a new one. The
  last component of the state is set when no block is left, where the function returns.
\<close>

definition fill_block :: "int \<Rightarrow> int \<Rightarrow> string \<Rightarrow> fs \<Rightarrow> (string \<times> fs) option" where
  "fill_block file block content s = do {
     d \<leftarrow> rd (Disk s) block;
     t \<leftarrow> cstr d;
     e \<leftarrow> rd (File_entries s) file;
     (d1, bIndex, rest, sz) \<leftarrow> put_bytes d (int (length t)) content (file_size e);
     d2 \<leftarrow> wr d1 bIndex NUL;
     disk \<leftarrow> wr (Disk s) block d2;
     s1 \<leftarrow> set_entry (s\<lparr>Disk := disk\<rparr>) file (\<lambda>e. e\<lparr>file_size := sz\<rparr>);
     Some (rest, s1)
   }"

definition write_pass :: "int \<Rightarrow> int \<times> string \<times> fs \<times> bool \<Rightarrow> (int \<times> string \<times> fs \<times> bool) option" where
  "write_pass file = (\<lambda>(block, content, s, full). do {
     (rest, s1) \<leftarrow> fill_block file block content s;
     if rest = [] then Some (block, rest, s1, False)
     else do {
       nBlock \<leftarrow> find_block s1;
       if nBlock = BLOCK_SIZE then Some (block, rest, s1, True)
       else do {
         fat \<leftarrow> wr (FAT s1) block nBlock;
         s2 \<leftarrow> claim_block (s1\<lparr>FAT := fat\<rparr>) nBlock;
         Some (nBlock, rest, s2, False)
       }
     }
   })"

definition write_file :: "string \<Rightarrow> string \<Rightarrow> fs \<Rightarrow> (fs \<times> out list) option" where
  "write_file name content s = do {
     file \<leftarrow> find_file s name;
     if file = ENTRY then
       Some (s, [Printf (''File '' @ [CHR 0x27] @ name @ [CHR 0x27] @ '' doesn'' @ [CHR 0x27] @ ''t exist'' @ [newline])])
     else do {
       e \<leftarrow> rd (File_entries s) file;
       block \<leftarrow> last_block s (start e);
       (b, rest, s', full) \<leftarrow> c_while (\<lambda>(b, content, s, full). content \<noteq> [] \<and> \<not> full) (write_pass file)
         (block, content, s, False);
       if full then Some (s', [Perror ''no free block, partial write''])
       else Some (s', [Printf (''Data written to '' @ [CHR 0x27] @ name @ [CHR 0x27] @ ''.'' @ [newline])])
     }
   }"

text \<open>The state of the reading loop is \<open>block\<close>, \<open>FAT[block]\<close> and the text printed so far.\<close>

definition read_chain :: "fs \<Rightarrow> int \<Rightarrow> string option" where
  "read_chain s block = do {
     v \<leftarrow> rd (FAT s) block;
     (b, v', txt) \<leftarrow> c_while (\<lambda>(b, v, txt). v \<ge> 0) (\<lambda>(b, v, txt). do {
         d \<leftarrow> rd (Disk s) b; t \<leftarrow> cstr d; w \<leftarrow> rd (FAT s) v; Some (v, w, txt @ t) }) (block, v, []);
     d \<leftarrow> rd (Disk s) b;
     t \<leftarrow> cstr d;
     Some (txt @ t)
   }"

definition read_file :: "string \<Rightarrow> fs \<Rightarrow> out list option" where
  "read_file name s = do {
     file \<leftarrow> find_file s name;
     txt \<leftarrow> if file = ENTRY then Some ''None''
            else do { e \<leftarrow> rd (File_entries s) file; read_chain s (start e) };
     Some [Printf (''Content of '' @ [CHR 0x27] @ name @ [CHR 0x27] @ '': ''), Printf txt, Printf [newline]]
   }"

definition free_chain :: "fs \<Rightarrow> int \<Rightarrow> int list option" where
  "free_chain s block = do {
     v \<leftarrow> rd (FAT s) block;
     (b, v', fat) \<leftarrow> c_while (\<lambda>(b, v, fat). v \<ge> 0) (\<lambda>(b, v, fat). do {
         fat' \<leftarrow> wr fat b (-2); w \<leftarrow> rd fat' v; Some (v, w, fat') }) (block, v, FAT s);
     wr fat b (-2)
   }"

definition delete_file :: "string \<Rightarrow> fs \<Rightarrow> (fs \<times> out list) option" where
  "delete_file name s = do {
     file \<leftarrow> find_file s name;
     if file = ENTRY then
       Some (s, [Printf (''File '' @ [CHR 0x27] @ name @ [CHR 0x27] @ '' doesn'' @ [CHR 0x27] @ ''t exist.'' @ [newline])])
     else do {
       e \<leftarrow> rd (File_entries s) file;
       fat \<leftarrow> free_chain s (start e);
       s' \<leftarrow> set_entry (s\<lparr>FAT := fat\<rparr>) file (\<lambda>e. e\<lparr>in_use := 0\<rparr>);
       Some (s', [Printf (''File '' @ [CHR 0x27] @ name @ [CHR 0x27] @ '' deleted.'' @ [newline])])
     }
   }"

definition list_line :: "string \<Rightarrow> int \<Rightarrow> out" where
  "list_line name sz = Printf (''File: '' @ name @ '', Size: '' @ print_int sz @ '' bytes'' @ [newline])"

definition list_files :: "fs \<Rightarrow> out list option" where
  "list_files s = for_range 0 ENTRY (\<lambda>i acc. do {
     e \<leftarrow> rd (File_entries s) i;
     if in_use e \<noteq> 0 then do { n \<leftarrow> cstr (file_name e); Some (acc @ [list_line n (file_size e)]) } else Some acc
   }) [Printf (''Files in the file system:'' @ [newline])]"

end
