(* ===== verification/Fat_Inv.thy ===== *)
theory Fat_Inv
  imports Fat_FS
begin

text \<open>
  The well-formedness invariant of the file system, its abstraction to a map from file names
  to contents, and the lemmas on block chains the operations are verified with.
\<close>

section \<open>Chains\<close>

text \<open>The blocks of a file, in order, up to the end-of-file mark.\<close>

fun linked :: "int list \<Rightarrow> nat list \<Rightarrow> bool" where
  "linked fat [] = False"
| "linked fat [b] = (b < length fat \<and> fat ! b = -1)"
| "linked fat (b # c # bs) = (b < length fat \<and> fat ! b = int c \<and> linked fat (c # bs))"

text \<open>The chain from a block, computed; no chain is longer than the number of blocks.\<close>

fun follow :: "nat \<Rightarrow> int list \<Rightarrow> int \<Rightarrow> nat list" where
  "follow 0 fat b = []"
| "follow (Suc k) fat b = (if 0 \<le> b \<and> b < int (length fat) then nat b # follow k fat (fat ! nat b) else [])"

lemma linked_less: "linked fat bs \<Longrightarrow> b \<in> set bs \<Longrightarrow> b < length fat"
  by (induction fat bs rule: linked.induct) auto

lemma linked_nonempty: "linked fat bs \<Longrightarrow> bs \<noteq> []"
  by (cases bs) auto

lemma linked_used: "linked fat bs \<Longrightarrow> b \<in> set bs \<Longrightarrow> fat ! b \<noteq> -2"
  by (induction fat bs rule: linked.induct) auto

lemma linked_last: "linked fat bs \<Longrightarrow> fat ! last bs = -1"
  by (induction fat bs rule: linked.induct) auto

lemma linked_cong:
  "(\<And>b. b \<in> set bs \<Longrightarrow> fat' ! b = fat ! b) \<Longrightarrow> length fat' = length fat \<Longrightarrow> linked fat' bs = linked fat bs"
  by (induction fat bs rule: linked.induct) auto

lemma linked_update: "b \<notin> set bs \<Longrightarrow> linked (fat[b := v]) bs = linked fat bs"
  by (rule linked_cong) (metis nth_list_update_neq, simp)

lemma linked_head: "linked fat (b # bs) \<Longrightarrow> b < length fat \<and> (if bs = [] then fat ! b = -1 else fat ! b = int (hd bs))"
  by (cases bs) auto

lemma linked_tail: "linked fat (b # bs) \<Longrightarrow> bs \<noteq> [] \<Longrightarrow> linked fat bs"
  by (cases bs) auto

lemma linked_follow: "linked fat bs \<Longrightarrow> length bs \<le> k \<Longrightarrow> follow k fat (int (hd bs)) = bs"
proof (induction fat bs arbitrary: k rule: linked.induct)
  case (2 fat b)
  then show ?case by (cases k; cases "k - 1") auto
next
  case (3 fat b c bs)
  then show ?case by (cases k) auto
qed simp

text \<open>A block appended to a chain.\<close>

lemma linked_snoc:
  assumes "linked fat bs" "distinct bs" "n \<notin> set bs" "n < length fat"
  shows "linked ((fat[last bs := int n])[n := -1]) (bs @ [n])"
  using assms
proof (induction fat bs rule: linked.induct)
  case (3 fat b c bs)
  have "last (c # bs) \<noteq> b" using 3(3) last_in_set [of "c # bs"] by auto
  moreover have "linked (fat[last (c # bs) := int n, n := - 1]) (c # (bs @ [n]))" using 3 by simp
  ultimately show ?case using 3 by simp
qed (auto simp: nth_list_update)

section \<open>The invariant\<close>

definition entry_ok :: "file_entry \<Rightarrow> bool" where
  "entry_ok e \<longleftrightarrow> length (file_name e) = 101 \<and> NUL \<in> set (file_name e)"

definition block_ok :: "char list \<Rightarrow> bool" where
  "block_ok d \<longleftrightarrow> length d = 33 \<and> NUL \<in> set d"

definition content_of :: "fs \<Rightarrow> nat list \<Rightarrow> string" where
  "content_of s bs = concat (map (\<lambda>b. text_of (Disk s ! b)) bs)"

text \<open>An entry and the chain of its file; a free entry has none.\<close>

definition file_ok :: "fs \<Rightarrow> file_entry \<Rightarrow> nat list \<Rightarrow> bool" where
  "file_ok s e bs \<longleftrightarrow> (if in_use e = 0 then bs = []
     else linked (FAT s) bs \<and> start e = int (hd bs) \<and> file_size e = int (length (content_of s bs)) \<and>
       (\<forall>b \<in> set (butlast bs). length (text_of (Disk s ! b)) = 32))"

definition names_ok :: "file_entry list \<Rightarrow> bool" where
  "names_ok es \<longleftrightarrow> (\<forall>i < length es. \<forall>j < length es. in_use (es ! i) \<noteq> 0 \<and> in_use (es ! j) \<noteq> 0 \<and>
     text_of (file_name (es ! i)) = text_of (file_name (es ! j)) \<longrightarrow> i = j)"

definition shape_ok :: "fs \<Rightarrow> bool" where
  "shape_ok s \<longleftrightarrow> length (File_entries s) = 100 \<and> length (FAT s) = 1024 \<and> length (Disk s) = 1024 \<and>
     (\<forall>e \<in> set (File_entries s). entry_ok e) \<and> (\<forall>d \<in> set (Disk s). block_ok d)"

text \<open>The tables with the chains of all entries: no block in two chains, none lost.\<close>

definition fs_rel :: "fs \<Rightarrow> nat list list \<Rightarrow> bool" where
  "fs_rel s cs \<longleftrightarrow> shape_ok s \<and> length cs = 100 \<and> (\<forall>i < 100. file_ok s (File_entries s ! i) (cs ! i)) \<and>
     distinct (concat cs) \<and> (\<forall>b < 1024. b \<notin> set (concat cs) \<longrightarrow> FAT s ! b = -2) \<and> names_ok (File_entries s)"

definition chain :: "fs \<Rightarrow> file_entry \<Rightarrow> nat list" where
  "chain s e = (if in_use e = 0 then [] else follow 1024 (FAT s) (start e))"

definition chains :: "fs \<Rightarrow> nat list list" where
  "chains s = map (chain s) (File_entries s)"

text \<open>No file of several blocks ends in an empty one.\<close>

definition tight :: "fs \<Rightarrow> nat list list \<Rightarrow> bool" where
  "tight s cs \<longleftrightarrow> (\<forall>bs \<in> set cs. 1 < length bs \<longrightarrow> text_of (Disk s ! last bs) \<noteq> [])"

definition fs_ok :: "fs \<Rightarrow> bool" where
  "fs_ok s \<longleftrightarrow> fs_rel s (chains s) \<and> tight s (chains s)"

text \<open>The abstract file system: the contents of each file, and the number of free blocks.\<close>

definition files :: "fs \<Rightarrow> string \<rightharpoonup> string" where
  "files s = map_of (map (\<lambda>e. (text_of (file_name e), content_of s (chain s e)))
     (filter (\<lambda>e. in_use e \<noteq> 0) (File_entries s)))"

definition free_blocks :: "fs \<Rightarrow> nat" where
  "free_blocks s = length (filter (\<lambda>v. v = -2) (FAT s))"

definition file_count :: "fs \<Rightarrow> nat" where
  "file_count s = length (filter (\<lambda>e. in_use e \<noteq> 0) (File_entries s))"

lemma fs_relD:
  assumes "fs_rel s cs"
  shows "length (File_entries s) = 100" "length (FAT s) = 1024" "length (Disk s) = 1024" "length cs = 100"
    "\<And>i. i < 100 \<Longrightarrow> entry_ok (File_entries s ! i)" "\<And>b. b < 1024 \<Longrightarrow> block_ok (Disk s ! b)"
    "\<And>i. i < 100 \<Longrightarrow> file_ok s (File_entries s ! i) (cs ! i)" "distinct (concat cs)"
    "\<And>b. b < 1024 \<Longrightarrow> b \<notin> set (concat cs) \<Longrightarrow> FAT s ! b = -2" "names_ok (File_entries s)"
  using assms by (auto simp: fs_rel_def shape_ok_def)

lemma distinct_concat_nth: "distinct (concat xs) \<Longrightarrow> i < length xs \<Longrightarrow> distinct (xs ! i)"
  by (induction xs arbitrary: i) (auto simp: nth_Cons split: nat.splits)

lemma distinct_concat_disjoint:
  "distinct (concat xs) \<Longrightarrow> i < length xs \<Longrightarrow> j < length xs \<Longrightarrow> i \<noteq> j \<Longrightarrow> set (xs ! i) \<inter> set (xs ! j) = {}"
proof (induction xs arbitrary: i j)
  case (Cons x xs)
  have sub: "k < length xs \<Longrightarrow> set (xs ! k) \<subseteq> set (concat xs)" for k
    by (metis UN_upper nth_mem set_concat)
  have "set x \<inter> set (concat xs) = {}" using Cons.prems(1) by auto
  with sub have "k < length xs \<Longrightarrow> set x \<inter> set (xs ! k) = {}" for k by blast
  with Cons show ?case by (cases i; cases j) (auto simp: Int_commute)
qed simp

lemma fs_rel_chain:
  assumes r: "fs_rel s cs" and i: "i < 100" and u: "in_use (File_entries s ! i) \<noteq> 0"
  shows "linked (FAT s) (cs ! i)" "start (File_entries s ! i) = int (hd (cs ! i))" "distinct (cs ! i)"
    "chain s (File_entries s ! i) = cs ! i"
proof -
  note f = fs_relD(7) [OF r i]
  show l: "linked (FAT s) (cs ! i)" and st: "start (File_entries s ! i) = int (hd (cs ! i))"
    using f u by (auto simp: file_ok_def)
  show d: "distinct (cs ! i)" using distinct_concat_nth [OF fs_relD(8) [OF r]] fs_relD(4) [OF r] i by simp
  have "length (cs ! i) = card (set (cs ! i))" using d by (simp add: distinct_card)
  also have "\<dots> \<le> card {..<1024::nat}"
    using linked_less [OF l] fs_relD(2) [OF r] by (intro card_mono) auto
  finally show "chain s (File_entries s ! i) = cs ! i"
    using linked_follow [OF l] u st by (simp add: chain_def)
qed

text \<open>The chains are determined by the tables.\<close>

lemma fs_rel_chains:
  assumes "fs_rel s cs"
  shows "cs = chains s"
proof (rule nth_equalityI)
  show "length cs = length (chains s)" using fs_relD(1,4) [OF assms] by (simp add: chains_def)
  fix i assume "i < length cs"
  then have i: "i < 100" using fs_relD(4) [OF assms] by simp
  show "cs ! i = chains s ! i"
    using fs_rel_chain(4) [OF assms i] fs_relD(7) [OF assms i] fs_relD(1) [OF assms] i
    by (cases "in_use (File_entries s ! i) = 0") (simp_all add: chains_def chain_def file_ok_def)
qed

lemma fs_ok_iff: "fs_ok s \<longleftrightarrow> (\<exists>cs. fs_rel s cs \<and> tight s cs)"
  using fs_rel_chains by (auto simp: fs_ok_def)

section \<open>The abstraction\<close>

lemma ex_set_nth: "(\<exists>x \<in> set xs. P x) \<longleftrightarrow> (\<exists>i < length xs. P (xs ! i))"
  by (metis in_set_conv_nth)

lemma names_okD:
  "names_ok es \<Longrightarrow> i < length es \<Longrightarrow> j < length es \<Longrightarrow> in_use (es ! i) \<noteq> 0 \<Longrightarrow> in_use (es ! j) \<noteq> 0 \<Longrightarrow>
    text_of (file_name (es ! i)) = text_of (file_name (es ! j)) \<Longrightarrow> i = j"
  unfolding names_ok_def by blast

lemma names_ok_Cons: "names_ok (e # es) \<Longrightarrow> names_ok es"
  unfolding names_ok_def by (metis Suc_less_eq length_Cons nth_Cons_Suc nat.inject)

lemma names_ok_head:
  assumes "names_ok (e # es)" "in_use e \<noteq> 0" "k < length es" "in_use (es ! k) \<noteq> 0"
  shows "text_of (file_name e) \<noteq> text_of (file_name (es ! k))"
  using names_okD [OF assms(1), of 0 "Suc k"] assms(2-4) by auto

lemma names_ok_distinct:
  "names_ok es \<Longrightarrow> distinct (map (\<lambda>e. text_of (file_name e)) (filter (\<lambda>e. in_use e \<noteq> 0) es))"
proof (induction es)
  case (Cons e es)
  have "text_of (file_name e) \<notin> (\<lambda>e. text_of (file_name e)) ` {x \<in> set es. in_use x \<noteq> 0}" if "in_use e \<noteq> 0"
    using names_ok_head [OF Cons.prems that] by (auto simp: in_set_conv_nth)
  with Cons.IH names_ok_Cons [OF Cons.prems] show ?case by simp
qed simp

lemma files_iff:
  assumes r: "fs_rel s cs"
  shows "files s n = Some c \<longleftrightarrow> (\<exists>i < 100. in_use (File_entries s ! i) \<noteq> 0 \<and>
    text_of (file_name (File_entries s ! i)) = n \<and> content_of s (cs ! i) = c)"
proof -
  let ?es = "filter (\<lambda>e. in_use e \<noteq> 0) (File_entries s)"
  have dist: "distinct (map (\<lambda>e. text_of (file_name e)) ?es)" using names_ok_distinct [OF fs_relD(10) [OF r]] .
  have "files s n = Some c \<longleftrightarrow> (n, c) \<in> set (map (\<lambda>e. (text_of (file_name e), content_of s (chain s e))) ?es)"
    unfolding files_def using dist by (intro map_of_eq_Some_iff) (simp add: comp_def)
  also have "\<dots> \<longleftrightarrow> (\<exists>i < 100. in_use (File_entries s ! i) \<noteq> 0 \<and>
    text_of (file_name (File_entries s ! i)) = n \<and> content_of s (chain s (File_entries s ! i)) = c)"
    using ex_set_nth [of "File_entries s" "\<lambda>e. in_use e \<noteq> 0 \<and> text_of (file_name e) = n \<and> content_of s (chain s e) = c"]
      fs_relD(1) [OF r] by auto
  finally show ?thesis using fs_rel_chain(4) [OF r] by auto
qed

lemma files_None:
  assumes "fs_rel s cs"
  shows "files s n = None \<longleftrightarrow> (\<forall>i < 100. in_use (File_entries s ! i) \<noteq> 0 \<longrightarrow> text_of (file_name (File_entries s ! i)) \<noteq> n)"
  using files_iff [OF assms, of n] by (metis not_None_eq)

lemma map_eqI: "(\<And>c. m n = Some c \<longleftrightarrow> m' n = Some c) \<Longrightarrow> m n = m' n"
  by (metis not_None_eq)

lemma distinct_concatI:
  "(\<And>i. i < length xs \<Longrightarrow> distinct (xs ! i)) \<Longrightarrow>
   (\<And>i j. i < length xs \<Longrightarrow> j < length xs \<Longrightarrow> i \<noteq> j \<Longrightarrow> set (xs ! i) \<inter> set (xs ! j) = {}) \<Longrightarrow> distinct (concat xs)"
proof (induction xs)
  case (Cons x xs)
  have "distinct (concat xs)"
  proof (rule Cons.IH)
    show "distinct (xs ! i)" if "i < length xs" for i using Cons.prems(1) [of "Suc i"] that by simp
    show "set (xs ! i) \<inter> set (xs ! j) = {}" if "i < length xs" "j < length xs" "i \<noteq> j" for i j
      using Cons.prems(2) [of "Suc i" "Suc j"] that by simp
  qed
  moreover have "set x \<inter> set (xs ! j) = {}" if "j < length xs" for j
    using Cons.prems(2) [of 0 "Suc j"] that by simp
  then have "set x \<inter> set (concat xs) = {}" by (fastforce simp: in_set_conv_nth)
  ultimately show ?case using Cons.prems(1) [of 0] by simp
qed simp

lemma in_concat_iff: "b \<in> set (concat xs) \<longleftrightarrow> (\<exists>i < length xs. b \<in> set (xs ! i))"
  unfolding set_concat by (metis UN_iff in_set_conv_nth)

lemma fs_rel_block:
  assumes r: "fs_rel s cs" and "i < 100" "b \<in> set (cs ! i)"
  shows "b < 1024" "FAT s ! b \<noteq> -2" "in_use (File_entries s ! i) \<noteq> 0"
    "\<And>j. j < 100 \<Longrightarrow> j \<noteq> i \<Longrightarrow> b \<notin> set (cs ! j)"
proof -
  show u: "in_use (File_entries s ! i) \<noteq> 0" using fs_relD(7) [OF r assms(2)] assms(3) by (auto simp: file_ok_def)
  note l = fs_rel_chain(1) [OF r assms(2) u]
  show "b < 1024" "FAT s ! b \<noteq> -2" using linked_less [OF l] linked_used [OF l] assms(3) fs_relD(2) [OF r] by auto
  show "b \<notin> set (cs ! j)" if "j < 100" "j \<noteq> i" for j
    using distinct_concat_disjoint [OF fs_relD(8) [OF r], of i j] fs_relD(4) [OF r] assms that by auto
qed

lemma free_iff:
  assumes r: "fs_rel s cs" and "b < 1024"
  shows "FAT s ! b = -2 \<longleftrightarrow> b \<notin> set (concat cs)"
  using fs_relD(9) [OF r assms(2)] fs_rel_block(2) [OF r] fs_relD(4) [OF r] in_concat_iff [of b cs] by metis

lemma free_blocks_eq:
  assumes r: "fs_rel s cs"
  shows "free_blocks s + length (concat cs) = 1024"
proof -
  have "free_blocks s = card {b. b < 1024 \<and> FAT s ! b = -2}"
    using fs_relD(2) [OF r] by (simp add: free_blocks_def length_filter_conv_card)
  also have "{b. b < 1024 \<and> FAT s ! b = -2} = {..<1024} - set (concat cs)"
    using free_iff [OF r] by auto
  also have "card \<dots> = 1024 - length (concat cs)"
  proof (subst card_Diff_subset)
    show "set (concat cs) \<subseteq> {..<1024}" using fs_rel_block(1) [OF r] fs_relD(4) [OF r] by (auto simp: in_concat_iff simp del: set_concat)
    show "card {..<1024::nat} - card (set (concat cs)) = 1024 - length (concat cs)"
      using fs_relD(8) [OF r] by (simp only: distinct_card card_lessThan)
  qed simp
  moreover have "length (concat cs) \<le> 1024"
  proof -
    have "card (set (concat cs)) \<le> card {..<1024::nat}"
      using fs_rel_block(1) [OF r] fs_relD(4) [OF r] by (intro card_mono) (auto simp: in_concat_iff simp del: set_concat)
    then show ?thesis using fs_relD(8) [OF r] by (simp only: distinct_card card_lessThan)
  qed
  ultimately show ?thesis by simp
qed

section \<open>Replacing one file\<close>

lemma fs_rel_replace:
  assumes r: "fs_rel s cs" and i: "i < 100"
    and es: "File_entries s' = (File_entries s)[i := e']" "entry_ok e'"
    and tables: "length (FAT s') = 1024" "length (Disk s') = 1024" "\<And>b. b < 1024 \<Longrightarrow> block_ok (Disk s' ! b)"
    and fil: "file_ok s' e' bs" "distinct bs" "\<And>b. b \<in> set bs \<Longrightarrow> b \<in> set (cs ! i) \<or> FAT s ! b = -2"
    and frame: "\<And>b. b < 1024 \<Longrightarrow> b \<notin> set (cs ! i) \<Longrightarrow> FAT s ! b \<noteq> -2 \<Longrightarrow> FAT s' ! b = FAT s ! b \<and> Disk s' ! b = Disk s ! b"
    and free: "\<And>b. b < 1024 \<Longrightarrow> b \<notin> set bs \<Longrightarrow> b \<in> set (cs ! i) \<or> FAT s ! b = -2 \<Longrightarrow> FAT s' ! b = -2"
    and name: "\<And>j. j < 100 \<Longrightarrow> j \<noteq> i \<Longrightarrow> in_use e' \<noteq> 0 \<Longrightarrow> in_use (File_entries s ! j) \<noteq> 0 \<Longrightarrow>
      text_of (file_name (File_entries s ! j)) \<noteq> text_of (file_name e')"
  shows "fs_rel s' (cs[i := bs]) \<and> (\<forall>j < 100. j \<noteq> i \<longrightarrow> content_of s' (cs ! j) = content_of s (cs ! j) \<and>
    (\<forall>b \<in> set (cs ! j). Disk s' ! b = Disk s ! b))"
proof -
  note len = fs_relD(1-4) [OF r]
  have same: "FAT s' ! b = FAT s ! b \<and> Disk s' ! b = Disk s ! b" if "j < 100" "j \<noteq> i" "b \<in> set (cs ! j)" for j b
    using frame [of b] fs_rel_block [OF r that(1,3)] that(2) i by metis
  have content: "content_of s' (cs ! j) = content_of s (cs ! j)" if "j < 100" "j \<noteq> i" for j
  proof -
    have "map (\<lambda>b. text_of (Disk s' ! b)) (cs ! j) = map (\<lambda>b. text_of (Disk s ! b)) (cs ! j)"
      using same [OF that] by simp
    then show ?thesis by (simp only: content_of_def)
  qed
  have other: "file_ok s' (File_entries s ! j) (cs ! j)" if "j < 100" "j \<noteq> i" for j
  proof -
    have "linked (FAT s') (cs ! j) = linked (FAT s) (cs ! j)"
      using same [OF that] tables(1) len(2) by (intro linked_cong) auto
    moreover have "\<forall>b \<in> set (butlast (cs ! j)). Disk s' ! b = Disk s ! b" using same [OF that] in_set_butlastD by metis
    ultimately show ?thesis using fs_relD(7) [OF r that(1)] content [OF that] by (auto simp: file_ok_def)
  qed
  have disj: "set bs \<inter> set (cs ! j) = {}" if "j < 100" "j \<noteq> i" for j
    using fil(3) fs_rel_block(2,4) [OF r that(1)] that(2) i by blast
  have "distinct (concat (cs[i := bs]))"
  proof (rule distinct_concatI)
    show "distinct (cs[i := bs] ! k)" if "k < length (cs[i := bs])" for k
      using that fil(2) distinct_concat_nth [OF fs_relD(8) [OF r]] by (cases "k = i") auto
    show "set (cs[i := bs] ! k) \<inter> set (cs[i := bs] ! l) = {}"
      if "k < length (cs[i := bs])" "l < length (cs[i := bs])" "k \<noteq> l" for k l
      using that disj [of k] disj [of l] distinct_concat_disjoint [OF fs_relD(8) [OF r], of k l] len(4)
      by (cases "k = i"; cases "l = i") auto
  qed
  moreover have "FAT s' ! b = -2" if b: "b < 1024" "b \<notin> set (concat (cs[i := bs]))" for b
  proof (rule free [OF b(1)])
    have no: "b \<notin> set (cs[i := bs] ! k)" if "k < 100" for k using b(2) that len(4) by (metis in_concat_iff length_list_update)
    show "b \<notin> set bs" using no [OF i] i len(4) by simp
    have "b \<notin> set (cs ! k)" if "k < 100" "k \<noteq> i" for k using no [OF that(1)] that(2) by simp
    then show "b \<in> set (cs ! i) \<or> FAT s ! b = -2" using free_iff [OF r b(1)] len(4) by (metis in_concat_iff)
  qed
  moreover have "names_ok ((File_entries s)[i := e'])"
    unfolding names_ok_def
  proof (intro allI impI, elim conjE)
    fix a b assume ab: "a < length ((File_entries s)[i := e'])" "b < length ((File_entries s)[i := e'])"
      "in_use ((File_entries s)[i := e'] ! a) \<noteq> 0" "in_use ((File_entries s)[i := e'] ! b) \<noteq> 0"
      "text_of (file_name ((File_entries s)[i := e'] ! a)) = text_of (file_name ((File_entries s)[i := e'] ! b))"
    show "a = b"
      using ab name [of a] name [of b] fs_relD(10) [OF r] len(1) unfolding names_ok_def
      by (cases "a = i"; cases "b = i") auto
  qed
  moreover have "file_ok s' ((File_entries s)[i := e'] ! k) (cs[i := bs] ! k)" if "k < 100" for k
    using other [OF that] fil(1) i len by (cases "k = i") auto
  moreover have "\<forall>e \<in> set ((File_entries s)[i := e']). entry_ok e"
    using r es(2) by (auto simp: fs_rel_def shape_ok_def dest!: subsetD [OF set_update_subset_insert])
  moreover have "\<forall>d \<in> set (Disk s'). block_ok d" using tables by (auto simp: in_set_conv_nth)
  ultimately have "fs_rel s' (cs[i := bs])"
    using es tables len by (simp add: fs_rel_def shape_ok_def)
  with content same show ?thesis by blast
qed

lemma ex_less_split: "i < (N::nat) \<Longrightarrow> (\<exists>k < N. Q k) \<longleftrightarrow> Q i \<or> (\<exists>k < N. k \<noteq> i \<and> Q k)"
  by auto

lemma files_replace:
  assumes r: "fs_rel s cs" and r': "fs_rel s' (cs[i := bs])" and i: "i < 100"
    and es: "File_entries s' = (File_entries s)[i := e']"
    and content: "\<forall>j < 100. j \<noteq> i \<longrightarrow> content_of s' (cs ! j) = content_of s (cs ! j) \<and>
      (\<forall>b \<in> set (cs ! j). Disk s' ! b = Disk s ! b)"
  shows "files s' n = (if in_use e' \<noteq> 0 \<and> n = text_of (file_name e') then Some (content_of s' bs)
    else if in_use (File_entries s ! i) \<noteq> 0 \<and> n = text_of (file_name (File_entries s ! i)) then None
    else files s n)"
proof -
  note len = fs_relD(1,4) [OF r]
  let ?P = "\<lambda>k. in_use (File_entries s ! k) \<noteq> 0 \<and> text_of (file_name (File_entries s ! k)) = n"
  have only: "k = i" if "k < 100" "?P k" "?P i" for k
    using names_okD [OF fs_relD(10) [OF r], of k i] that i len by simp
  have only': "\<not> ?P k" if "k < 100" "k \<noteq> i" "in_use e' \<noteq> 0" "n = text_of (file_name e')" for k
    using names_okD [OF fs_relD(10) [OF r'], of k i] that i len es by auto
  have iff: "files s' n = Some c \<longleftrightarrow> in_use e' \<noteq> 0 \<and> text_of (file_name e') = n \<and> content_of s' bs = c \<or>
      (\<exists>k < 100. k \<noteq> i \<and> ?P k \<and> content_of s (cs ! k) = c)" for c
    unfolding files_iff [OF r'] es by (subst ex_less_split [OF i]) (use i len content in \<open>auto 0 4\<close>)
  consider "in_use e' \<noteq> 0 \<and> n = text_of (file_name e')"
    | "\<not> (in_use e' \<noteq> 0 \<and> n = text_of (file_name e'))" "?P i"
    | "\<not> (in_use e' \<noteq> 0 \<and> n = text_of (file_name e'))" "\<not> ?P i" by blast
  then show ?thesis
  proof cases
    case 1
    then have "files s' n = Some (content_of s' bs)" using iff by blast
    with 1 show ?thesis by simp
  next
    case 2
    then have "files s' n \<noteq> Some c" for c unfolding iff using only 2(2) by auto
    then have "files s' n = None" by (metis option.exhaust)
    with 2 show ?thesis by auto
  next
    case 3
    then have "files s' n = Some c \<longleftrightarrow> files s n = Some c" for c
      using iff [of c] files_iff [OF r, of n c] by metis
    then have "files s' n = files s n" by (rule map_eqI)
    with 3 show ?thesis by auto
  qed
qed

lemma tight_replace:
  assumes t: "tight s cs" and len: "length cs = 100" and i: "i < 100"
    and same: "\<forall>j < 100. j \<noteq> i \<longrightarrow> content_of s' (cs ! j) = content_of s (cs ! j) \<and>
      (\<forall>b \<in> set (cs ! j). Disk s' ! b = Disk s ! b)"
    and new: "1 < length bs \<Longrightarrow> text_of (Disk s' ! last bs) \<noteq> []"
  shows "tight s' (cs[i := bs])"
proof -
  have "text_of (Disk s' ! last ds) \<noteq> []" if ds: "ds \<in> set (cs[i := bs])" "1 < length ds" for ds
  proof -
    obtain j where j: "j < 100" "ds = cs[i := bs] ! j" using ds(1) len by (auto simp: in_set_conv_nth)
    show ?thesis
    proof (cases "j = i")
      case True
      with j ds new len i show ?thesis by simp
    next
      case False
      then have d: "ds = cs ! j" "last ds \<in> set (cs ! j)" using j ds(2) by (auto intro: last_in_set)
      then have "text_of (Disk s ! last ds) \<noteq> []" using t j(1) ds(2) len by (auto simp: tight_def)
      with same j(1) False d show ?thesis by simp
    qed
  qed
  then show ?thesis by (simp add: tight_def)
qed

lemma content_of_append: "content_of s (bs @ cs) = content_of s bs @ content_of s cs"
  by (simp add: content_of_def)

lemma content_of_butlast: "bs \<noteq> [] \<Longrightarrow> content_of s bs = content_of s (butlast bs) @ text_of (Disk s ! last bs)"
  by (cases bs rule: rev_cases) (simp_all add: content_of_def)

text \<open>How many blocks a file of a given size has.\<close>

definition blocks_of :: "nat \<Rightarrow> nat" where
  "blocks_of n = max 1 ((n + 31) div 32)"

lemma content_length:
  assumes r: "fs_rel s cs" and i: "i < 100" "in_use (File_entries s ! i) \<noteq> 0"
  shows "length (content_of s (cs ! i)) + 32 = 32 * length (cs ! i) + length (text_of (Disk s ! last (cs ! i)))"
    "length (text_of (Disk s ! last (cs ! i))) \<le> 32"
proof -
  let ?bs = "cs ! i"
  have ne: "?bs \<noteq> []" using linked_nonempty [OF fs_rel_chain(1) [OF r i]] .
  have full: "\<forall>b \<in> set (butlast ?bs). length (text_of (Disk s ! b)) = 32"
    using fs_relD(7) [OF r i(1)] i(2) by (simp add: file_ok_def)
  have "length (concat (map (\<lambda>b. text_of (Disk s ! b)) xs)) = 32 * length xs"
    if "\<forall>b \<in> set xs. length (text_of (Disk s ! b)) = 32" for xs using that by (induction xs) auto
  from this [OF full] have "length (content_of s ?bs) = 32 * (length ?bs - 1) + length (text_of (Disk s ! last ?bs))"
    unfolding content_of_butlast [OF ne] by (simp add: content_of_def)
  moreover have "0 < length ?bs" using ne by simp
  ultimately show "length (content_of s ?bs) + 32 = 32 * length ?bs + length (text_of (Disk s ! last ?bs))"
    by (cases "length ?bs") auto
  have "last ?bs \<in> set ?bs" using ne by simp
  then have "block_ok (Disk s ! last ?bs)" using fs_rel_block(1) [OF r i(1)] fs_relD(6) [OF r] by blast
  then show "length (text_of (Disk s ! last ?bs)) \<le> 32" using text_of_less [of "Disk s ! last ?bs"] by (auto simp: block_ok_def)
qed

lemma chain_length:
  assumes r: "fs_rel s cs" and t: "tight s cs" and i: "i < 100" "in_use (File_entries s ! i) \<noteq> 0"
  shows "length (cs ! i) = blocks_of (length (content_of s (cs ! i)))"
proof -
  let ?n = "length (cs ! i)" and ?c = "length (content_of s (cs ! i))" and ?k = "length (text_of (Disk s ! last (cs ! i)))"
  have eq: "?c + 32 = 32 * ?n + ?k" "?k \<le> 32" using content_length [OF r i] by auto
  have pos: "1 \<le> ?n" using linked_nonempty [OF fs_rel_chain(1) [OF r i]] by (cases "cs ! i") auto
  have "cs ! i \<in> set cs" using i(1) fs_relD(4) [OF r] by simp
  then have "1 < ?n \<Longrightarrow> 1 \<le> ?k" using t by (auto simp: tight_def Suc_le_eq)
  then consider "?n = 1" | "1 < ?n" "1 \<le> ?k" using pos by linarith
  then show ?thesis
  proof cases
    case 1
    with eq show ?thesis by (simp add: blocks_of_def)
  next
    case 2
    with eq have "(?c + 31) div 32 = ?n" by (intro div_nat_eqI) auto
    with 2 show ?thesis by (simp add: blocks_of_def)
  qed
qed

lemma length_concat_update:
  "i < length xs \<Longrightarrow> length (concat (xs[i := ys])) + length (xs ! i) = length (concat xs) + length ys"
proof (induction xs arbitrary: i)
  case (Cons x xs)
  then show ?case by (cases i) auto
qed simp

lemma free_blocks_replace:
  assumes "fs_rel s cs" "fs_rel s' (cs[i := bs])" "i < 100"
  shows "free_blocks s' + length bs = free_blocks s + length (cs ! i)"
  using free_blocks_eq [OF assms(1)] free_blocks_eq [OF assms(2)] length_concat_update [of i cs bs]
    fs_relD(4) [OF assms(1)] assms(3) by simp

section \<open>The search loops\<close>

lemma find_file_ok:
  assumes r: "fs_rel s cs"
  obtains i where "find_file s name = Some (int i)" "i < 100" "in_use (File_entries s ! i) \<noteq> 0"
      "text_of (file_name (File_entries s ! i)) = name" "files s name = Some (content_of s (cs ! i))"
  | "find_file s name = Some ENTRY" "files s name = None"
proof -
  let ?P = "\<lambda>j. in_use (File_entries s ! nat j) \<noteq> 0 \<and> text_of (file_name (File_entries s ! nat j)) = name"
  have e: "entry_is s name j = Some (?P j)" if "0 \<le> j" "j < ENTRY" for j
    using that fs_relD(1) [OF r] fs_relD(5) [OF r, of "nat j"] by (auto simp: entry_is_def ENTRY_def entry_ok_def)
  obtain k where k: "find_file s name = Some k" "0 \<le> k" "k \<le> ENTRY"
      "\<And>j. 0 \<le> j \<Longrightarrow> j < k \<Longrightarrow> \<not> ?P j" "k < ENTRY \<Longrightarrow> ?P k"
    using find_range_ok [of 0 ENTRY "entry_is s name" ?P] e by (auto simp: find_file_def ENTRY_def)
  show thesis
  proof (cases "k < ENTRY")
    case True
    then have i: "nat k < 100" "?P k" using k by (auto simp: ENTRY_def)
    then have "files s name = Some (content_of s (cs ! nat k))" using files_iff [OF r] by blast
    with k i show thesis by (intro that(1) [of "nat k"]) auto
  next
    case False
    have "\<not> (in_use (File_entries s ! i) \<noteq> 0 \<and> text_of (file_name (File_entries s ! i)) = name)" if "i < 100" for i
      using k(4) [of "int i"] False k(3) that by (simp add: ENTRY_def)
    then have "files s name = None" using files_None [OF r] by blast
    with k False show thesis by (intro that(2)) auto
  qed
qed

lemma find_entry_ok:
  assumes r: "fs_rel s cs"
  obtains i where "find_entry s = Some (int i)" "i < 100" "in_use (File_entries s ! i) = 0"
  | "find_entry s = Some ENTRY" "file_count s = 100"
proof -
  let ?f = "\<lambda>i. do { e \<leftarrow> rd (File_entries s) i; Some (in_use e = 0) }"
  have "?f j = Some (in_use (File_entries s ! nat j) = 0)" if "0 \<le> j" "j < ENTRY" for j
    using that fs_relD(1) [OF r] by (auto simp: ENTRY_def)
  then obtain k where k: "find_entry s = Some k" "0 \<le> k" "k \<le> ENTRY"
      "\<And>j. 0 \<le> j \<Longrightarrow> j < k \<Longrightarrow> in_use (File_entries s ! nat j) \<noteq> 0" "k < ENTRY \<Longrightarrow> in_use (File_entries s ! nat k) = 0"
    using find_range_ok [of 0 ENTRY ?f "\<lambda>j. in_use (File_entries s ! nat j) = 0"]
    by (auto simp: find_entry_def ENTRY_def)
  show thesis
  proof (cases "k < ENTRY")
    case True
    with k show thesis by (intro that(1) [of "nat k"]) (auto simp: ENTRY_def)
  next
    case False
    then have "in_use (File_entries s ! i) \<noteq> 0" if "i < 100" for i
      using k(4) [of "int i"] k(3) that by (simp add: ENTRY_def)
    then have "filter (\<lambda>e. in_use e \<noteq> 0) (File_entries s) = File_entries s"
      using fs_relD(1) [OF r] by (auto simp: filter_id_conv in_set_conv_nth)
    then have "file_count s = 100" using fs_relD(1) [OF r] by (simp add: file_count_def)
    with k False show thesis by (intro that(2)) auto
  qed
qed

lemma find_block_ok:
  assumes "length (FAT s) = 1024"
  obtains b where "find_block s = Some (int b)" "b < 1024" "FAT s ! b = -2"
  | "find_block s = Some BLOCK_SIZE" "free_blocks s = 0"
proof -
  let ?f = "\<lambda>i. do { v \<leftarrow> rd (FAT s) i; Some (v = -2) }"
  have "?f j = Some (FAT s ! nat j = -2)" if "0 \<le> j" "j < BLOCK_SIZE" for j
    using that assms by (auto simp: BLOCK_SIZE_def)
  then obtain k where k: "find_block s = Some k" "0 \<le> k" "k \<le> BLOCK_SIZE"
      "\<And>j. 0 \<le> j \<Longrightarrow> j < k \<Longrightarrow> FAT s ! nat j \<noteq> -2" "k < BLOCK_SIZE \<Longrightarrow> FAT s ! nat k = -2"
    using find_range_ok [of 0 BLOCK_SIZE ?f "\<lambda>j. FAT s ! nat j = -2"] by (auto simp: find_block_def BLOCK_SIZE_def)
  show thesis
  proof (cases "k < BLOCK_SIZE")
    case True
    with k show thesis by (intro that(1) [of "nat k"]) (auto simp: BLOCK_SIZE_def)
  next
    case False
    then have "FAT s ! i \<noteq> -2" if "i < 1024" for i using k(4) [of "int i"] k(3) that by (simp add: BLOCK_SIZE_def)
    then have "filter (\<lambda>v. v = -2) (FAT s) = []" using assms by (auto simp: filter_empty_conv in_set_conv_nth)
    then have "free_blocks s = 0" by (simp add: free_blocks_def)
    with k False show thesis by (intro that(2)) auto
  qed
qed

lemma free_blocks_pos:
  assumes "b < length (FAT s)" "FAT s ! b = -2"
  shows "0 < free_blocks s"
proof -
  have "-2 \<in> set (FAT s)" using assms by (metis nth_mem)
  then have "-2 \<in> set (filter (\<lambda>v. v = -2) (FAT s))" by simp
  then show ?thesis unfolding free_blocks_def by (rule length_pos_if_in_set)
qed

end
