(* ===== verification/Fat_Ops.thy ===== *)
theory Fat_Ops
  imports Fat_Inv
begin

text \<open>
  Each operation of \<open>fat.c\<close> on a well-formed file system: it returns, keeps the invariant,
  and acts on the abstract map from names to contents as specified.
\<close>

section \<open>Creating\<close>

lemma entry_set: "length (File_entries s) = 100 \<Longrightarrow> i < 100 \<Longrightarrow>
    set_entry s (int i) f = Some (s\<lparr>File_entries := (File_entries s)[i := f (File_entries s ! i)]\<rparr>)"
  by (simp add: set_entry_def)

lemma strcpy_empty: "block_ok d \<Longrightarrow> \<exists>d'. strcpy d '''' = Some d' \<and> block_ok d' \<and> text_of d' = ''''"
  using strcpy_ok [of "''''" d] by (auto simp: block_ok_def no_nul_def)

lemma claim_block_ok:
  assumes "length (FAT s) = 1024" "length (Disk s) = 1024" "b < 1024" "block_ok (Disk s ! b)"
  obtains d where "claim_block s (int b) = Some (s\<lparr>FAT := (FAT s)[b := -1], Disk := (Disk s)[b := d]\<rparr>)"
    "block_ok d" "text_of d = ''''"
  using strcpy_empty [OF assms(4)] assms that by (auto simp: claim_block_def)

lemma name_copy:
  assumes "entry_ok e" "no_nul name" "length name \<le> 100"
  obtains nm nm' where "strcpy (file_name e) name = Some nm" "wr nm FILE_NAME NUL = Some nm'"
    "text_of nm' = name" "length nm' = 101" "NUL \<in> set nm'"
proof -
  have len: "length name < length (file_name e)" using assms by (simp add: entry_ok_def)
  let ?nm = "name @ NUL # drop (Suc (length name)) (file_name e)"
  have nm: "strcpy (file_name e) name = Some ?nm" using len by (simp add: strcpy_def)
  moreover have l: "length ?nm = 101" using len assms(1) by (simp add: entry_ok_def)
  then have w: "wr ?nm FILE_NAME NUL = Some (?nm[100 := NUL])" by (simp add: wr_def FILE_NAME_def)
  have "\<exists>t. ?nm[100 := NUL] = name @ NUL # t"
    using assms(3) by (cases "length name = 100") (auto simp: list_update_append split: nat.splits)
  then obtain t where t: "?nm[100 := NUL] = name @ NUL # t" by blast
  have "text_of (?nm[100 := NUL]) = name" unfolding t using assms(2) by simp
  moreover have "NUL \<in> set (?nm[100 := NUL])" unfolding t by simp
  ultimately show thesis using nm w l by (intro that [OF nm w]) simp_all
qed

lemma create_new:
  assumes r: "fs_rel s cs" and tt: "tight s cs" and i: "i < 100" "in_use (File_entries s ! i) = 0" and b: "b < 1024" "FAT s ! b = -2"
    and none: "files s name = None" and e': "entry_ok e'" "text_of (file_name e') = name" "in_use e' \<noteq> 0"
      "start e' = int b" "file_size e' = 0" and d: "block_ok d" "text_of d = ''''"
    and s': "s' = s\<lparr>File_entries := (File_entries s)[i := e'], FAT := (FAT s)[b := -1], Disk := (Disk s)[b := d]\<rparr>"
  shows "fs_ok s' \<and> files s' = (files s)(name \<mapsto> '''') \<and> free_blocks s' + 1 = free_blocks s"
proof -
  note len = fs_relD(1-4) [OF r]
  have ci: "cs ! i = []" using fs_relD(7) [OF r i(1)] i(2) by (simp add: file_ok_def)
  have content: "content_of s' [b] = ''''" using s' b len d by (simp add: content_of_def)
  have *: "fs_rel s' (cs[i := [b]]) \<and> (\<forall>j < 100. j \<noteq> i \<longrightarrow> content_of s' (cs ! j) = content_of s (cs ! j) \<and>
      (\<forall>b \<in> set (cs ! j). Disk s' ! b = Disk s ! b))"
  proof (rule fs_rel_replace [OF r i(1), of s' e' "[b]"]; (rule e')?)
    show "file_ok s' e' [b]" using e' content s' b len by (simp add: file_ok_def)
    show "block_ok (Disk s' ! k)" if "k < 1024" for k
      using s' d b fs_relD(6) [OF r that] len by (cases "k = b") auto
    show "FAT s' ! k = FAT s ! k \<and> Disk s' ! k = Disk s ! k" if "FAT s ! k \<noteq> -2" for k
      using s' b that by (cases "k = b") auto
    show "FAT s' ! k = -2" if "k \<notin> set [b]" "k \<in> set (cs ! i) \<or> FAT s ! k = -2" for k
      using s' that ci by auto
    show "text_of (file_name (File_entries s ! j)) \<noteq> text_of (file_name e')"
      if "j < 100" "in_use (File_entries s ! j) \<noteq> 0" for j using none e'(2) that files_None [OF r] by auto
  qed (use s' len b in auto)
  have "files s' n = ((files s)(name \<mapsto> '''')) n" for n
    using files_replace [OF r conjunct1 [OF *] i(1) _ conjunct2 [OF *], of e' n] s' e' content i(2) by simp
  moreover have "free_blocks s' + 1 = free_blocks s" using free_blocks_replace [OF r conjunct1 [OF *] i(1)] ci by simp
  moreover have "tight s' (cs[i := [b]])" by (rule tight_replace [OF tt len(4) i(1) conjunct2 [OF *]]) simp
  ultimately show ?thesis using * by (auto simp: fs_ok_iff)
qed

text \<open>The function is total on a well-formed file system and a name that fits its field.\<close>

lemma create_spec:
  assumes ok: "fs_ok s" and name: "no_nul name" "length name \<le> 100"
  shows "\<exists>s' msg. create_file name s = Some (s', msg) \<and> fs_ok s' \<and>
    (if files s name \<noteq> None then s' = s
     else if file_count s = 100 then s' = s \<and> msg = [Perror ''Full of file entries'']
     else if free_blocks s = 0 then s' = s \<and> msg = [Perror ''no free block'']
     else files s' = (files s)(name \<mapsto> '''') \<and> free_blocks s' + 1 = free_blocks s)"
proof -
  obtain cs where r: "fs_rel s cs" and tt: "tight s cs" using ok by (auto simp: fs_ok_iff)
  note len = fs_relD(1-4) [OF r]
  from r show ?thesis
  proof (rule find_file_ok [where name = name])
    fix i assume "find_file s name = Some (int i)" "i < 100" "files s name = Some (content_of s (cs ! i))"
    with ok show ?thesis by (simp add: create_file_def ENTRY_def)
  next
    assume f: "find_file s name = Some ENTRY" "files s name = None"
    from r show ?thesis
    proof (rule find_entry_ok)
      assume "find_entry s = Some ENTRY" "file_count s = 100"
      with f ok show ?thesis by (simp add: create_file_def ENTRY_def)
    next
      fix i assume i: "find_entry s = Some (int i)" "i < 100" "in_use (File_entries s ! i) = 0"
      have fc: "file_count s \<noteq> 100"
      proof
        assume "file_count s = 100"
        then have "filter (\<lambda>e. in_use e \<noteq> 0) (File_entries s) = File_entries s"
          using len(1) by (metis file_count_def filter_True length_filter_less nth_mem i(2,3) order_less_irrefl)
        with i len(1) show False by (metis (mono_tags, lifting) filter_id_conv nth_mem)
      qed
      show ?thesis
      proof (rule find_block_ok [OF len(2)])
        assume b: "find_block s = Some BLOCK_SIZE" "free_blocks s = 0"
        with f i fc ok show ?thesis by (simp add: create_file_def ENTRY_def)
      next
        fix b assume b: "find_block s = Some (int b)" "b < 1024" "FAT s ! b = -2"
        let ?e = "File_entries s ! i"
        let ?s1 = "s\<lparr>File_entries := (File_entries s)[i := ?e\<lparr>start := int b\<rparr>]\<rparr>"
        obtain d where d: "claim_block ?s1 (int b) = Some (?s1\<lparr>FAT := (FAT s)[b := -1], Disk := (Disk s)[b := d]\<rparr>)"
            "block_ok d" "text_of d = ''''"
          using claim_block_ok [of ?s1 b] len b(2) fs_relD(6) [OF r b(2)] by auto
        obtain nm nm' where nm: "strcpy (file_name ?e) name = Some nm" "wr nm FILE_NAME NUL = Some nm'"
            "text_of nm' = name" "length nm' = 101" "NUL \<in> set nm'"
          using name_copy [OF fs_relD(5) [OF r i(2)] name] by blast
        define e' where "e' = ?e\<lparr>start := int b, file_name := nm', file_size := 0, in_use := 1\<rparr>"
        define s' where "s' = s\<lparr>File_entries := (File_entries s)[i := e'], FAT := (FAT s)[b := -1], Disk := (Disk s)[b := d]\<rparr>"
        have "create_file name s = Some (s', [Printf (''File '' @ [CHR 0x27] @ name @ [CHR 0x27] @ '' created.'' @ [newline])])"
          using f i b d(1) nm(1,2) len by (simp add: create_file_def ENTRY_def BLOCK_SIZE_def entry_set s'_def e'_def)
        moreover have "fs_ok s' \<and> files s' = (files s)(name \<mapsto> '''') \<and> free_blocks s' + 1 = free_blocks s"
          by (rule create_new [OF r tt i(2,3) b(2,3) f(2) _ _ _ _ _ d(2,3) s'_def])
            (use nm in \<open>auto simp: e'_def entry_ok_def\<close>)
        ultimately show ?thesis using f fc free_blocks_pos [of b s] b len by simp
      qed
    qed
  qed
qed

section \<open>Walking a chain\<close>

text \<open>The three loops visit the blocks of the chain in order and stop at the last.\<close>

lemma last_block_loop:
  assumes "linked fat (b # bs)"
  shows "c_while (\<lambda>(b, v). v \<ge> 0) (\<lambda>(b, v). do { w \<leftarrow> rd fat v; Some (v, w) }) (int b, fat ! b) =
    Some (int (last (b # bs)), -1)"
  using assms
proof (induction bs arbitrary: b)
  case Nil
  then show ?case by (simp add: c_while_stop)
next
  case (Cons c bs)
  then have "fat ! b = int c" "linked fat (c # bs)" "c < length fat" by (auto dest: linked_head)
  with Cons.IH [of c] show ?case by (subst c_while_step [where s' = "(int c, fat ! c)"]) auto
qed

lemma last_block_ok: "linked (FAT s) bs \<Longrightarrow> last_block s (int (hd bs)) = Some (int (last bs))"
  using last_block_loop [of "FAT s" "hd bs" "tl bs"] linked_less [of "FAT s" bs "hd bs"]
  by (cases bs) (auto simp: last_block_def)

lemma read_loop:
  assumes "linked (FAT s) (b # bs)" "\<And>k. k \<in> set (b # bs) \<Longrightarrow> k < length (Disk s) \<and> block_ok (Disk s ! k)"
  shows "c_while (\<lambda>(b, v, txt). v \<ge> 0) (\<lambda>(b, v, txt). do {
      d \<leftarrow> rd (Disk s) b; t \<leftarrow> cstr d; w \<leftarrow> rd (FAT s) v; Some (v, w, txt @ t) }) (int b, FAT s ! b, acc) =
    Some (int (last (b # bs)), -1, acc @ content_of s (butlast (b # bs)))"
  using assms
proof (induction bs arbitrary: b acc)
  case Nil
  then show ?case by (simp add: c_while_stop content_of_def)
next
  case (Cons c bs)
  then have "FAT s ! b = int c" "linked (FAT s) (c # bs)" "c < length (FAT s)" "b < length (Disk s)" "block_ok (Disk s ! b)"
    by (auto dest: linked_head)
  with Cons.IH [of c "acc @ text_of (Disk s ! b)"] Cons.prems(2) show ?case
    by (subst c_while_step [where s' = "(int c, FAT s ! c, acc @ text_of (Disk s ! b))"])
      (auto simp: block_ok_def content_of_def)
qed

lemma read_chain_ok:
  assumes l: "linked (FAT s) bs" and d: "\<And>k. k \<in> set bs \<Longrightarrow> k < length (Disk s) \<and> block_ok (Disk s ! k)"
  shows "read_chain s (int (hd bs)) = Some (content_of s bs)"
proof -
  obtain b bs' where bs: "bs = b # bs'" using linked_nonempty [OF l] by (cases bs) auto
  have "last bs \<in> set bs" using bs by simp
  then have "rd (Disk s) (int (last bs)) = Some (Disk s ! last bs)" "cstr (Disk s ! last bs) = Some (text_of (Disk s ! last bs))"
    using d by (auto simp: block_ok_def)
  moreover have "rd (FAT s) (int b) = Some (FAT s ! b)" using linked_less [OF l] bs by simp
  ultimately show ?thesis
    using read_loop [of s b bs' "[]"] l d bs content_of_butlast [of bs s] by (simp add: read_chain_def)
qed

lemma free_loop:
  assumes "linked fat (b # bs)" "distinct (b # bs)"
  shows "\<exists>fat'. c_while (\<lambda>(b, v, fat). v \<ge> 0) (\<lambda>(b, v, fat). do {
      fat' \<leftarrow> wr fat b (-2); w \<leftarrow> rd fat' v; Some (v, w, fat') }) (int b, fat ! b, fat) =
      Some (int (last (b # bs)), -1, fat') \<and> length fat' = length fat \<and>
    (\<forall>k. fat' ! k = (if k \<in> set (butlast (b # bs)) then -2 else fat ! k))"
  using assms
proof (induction bs arbitrary: b fat)
  case Nil
  then show ?case by (simp add: c_while_stop)
next
  case (Cons c bs)
  let ?fat = "fat[b := -2]"
  have l: "fat ! b = int c" "linked fat (c # bs)" "c < length fat" "b < length fat" "c \<noteq> b"
    using Cons.prems by (auto dest: linked_head)
  have "linked ?fat (c # bs)" using l(2) Cons.prems(2) by (subst linked_update) auto
  from Cons.IH [OF this] Cons.prems(2) obtain fat' where
      "c_while (\<lambda>(b, v, fat). v \<ge> 0) (\<lambda>(b, v, fat). do {
        fat' \<leftarrow> wr fat b (-2); w \<leftarrow> rd fat' v; Some (v, w, fat') }) (int c, ?fat ! c, ?fat) =
        Some (int (last (c # bs)), -1, fat')" "length fat' = length fat"
      "\<forall>k. fat' ! k = (if k \<in> set (butlast (c # bs)) then -2 else ?fat ! k)" by auto
  with l show ?case
    by (subst c_while_step [where s' = "(int c, ?fat ! c, ?fat)"]) (auto simp: nth_list_update)
qed

lemma free_chain_ok:
  assumes l: "linked (FAT s) bs" and d: "distinct bs"
  obtains fat where "free_chain s (int (hd bs)) = Some fat" "length fat = length (FAT s)"
    "\<And>k. fat ! k = (if k \<in> set bs then -2 else FAT s ! k)"
proof -
  obtain b bs' where bs: "bs = b # bs'" using linked_nonempty [OF l] by (cases bs) auto
  obtain fat' where f: "c_while (\<lambda>(b, v, fat). v \<ge> 0) (\<lambda>(b, v, fat). do {
      fat' \<leftarrow> wr fat b (-2); w \<leftarrow> rd fat' v; Some (v, w, fat') }) (int b, FAT s ! b, FAT s) =
      Some (int (last bs), -1, fat')" "length fat' = length (FAT s)"
      "\<forall>k. fat' ! k = (if k \<in> set (butlast bs) then -2 else FAT s ! k)"
    using free_loop [of "FAT s" b bs'] l d bs by auto
  have b: "b < length (FAT s)" "last bs < length (FAT s)" using linked_less [OF l] bs by auto
  have "set bs = insert (last bs) (set (butlast bs))"
    using bs by (metis append_butlast_last_id list.simps(3) rotate1.simps(2) set_rotate1 list.simps(15))
  with f b show thesis
    by (intro that [of "fat'[last bs := -2]"]) (auto simp: free_chain_def bs [symmetric] nth_list_update, simp_all add: bs)
qed

section \<open>Reading, deleting, listing\<close>

lemma read_spec:
  assumes ok: "fs_ok s"
  shows "read_file name s = Some [Printf (''Content of '' @ [CHR 0x27] @ name @ [CHR 0x27] @ '': ''),
    Printf (case files s name of None \<Rightarrow> ''None'' | Some txt \<Rightarrow> txt), Printf [newline]]"
proof -
  obtain cs where r: "fs_rel s cs" using ok by (auto simp: fs_ok_iff)
  from r show ?thesis
  proof (rule find_file_ok [where name = name])
    fix i assume i: "find_file s name = Some (int i)" "i < 100" "in_use (File_entries s ! i) \<noteq> 0"
      "files s name = Some (content_of s (cs ! i))"
    have "k < length (Disk s) \<and> block_ok (Disk s ! k)" if "k \<in> set (cs ! i)" for k
      using fs_rel_block(1) [OF r i(2) that] fs_relD(3,6) [OF r] by simp
    from read_chain_ok [OF fs_rel_chain(1) [OF r i(2,3)] this]
    have "read_chain s (start (File_entries s ! i)) = Some (content_of s (cs ! i))"
      by (simp add: fs_rel_chain(2) [OF r i(2,3)])
    with i fs_relD(1) [OF r] show ?thesis by (simp add: read_file_def ENTRY_def)
  qed (simp add: read_file_def ENTRY_def)
qed

lemma delete_spec:
  assumes ok: "fs_ok s"
  shows "\<exists>s' msg. delete_file name s = Some (s', msg) \<and> fs_ok s' \<and> files s' = (files s)(name := None) \<and>
    (case files s name of None \<Rightarrow> s' = s
     | Some txt \<Rightarrow> free_blocks s' = free_blocks s + blocks_of (length txt))"
proof -
  obtain cs where r: "fs_rel s cs" and tt: "tight s cs" using ok by (auto simp: fs_ok_iff)
  note len = fs_relD(1-4) [OF r]
  from r show ?thesis
  proof (rule find_file_ok [where name = name])
    assume "find_file s name = Some ENTRY" "files s name = None"
    with ok show ?thesis by (auto simp: delete_file_def fun_upd_idem)
  next
    fix i assume i: "find_file s name = Some (int i)" "i < 100" "in_use (File_entries s ! i) \<noteq> 0"
      "text_of (file_name (File_entries s ! i)) = name" "files s name = Some (content_of s (cs ! i))"
    let ?e = "File_entries s ! i" and ?bs = "cs ! i"
    obtain fat where fat: "free_chain s (start ?e) = Some fat" "length fat = 1024"
        "\<And>k. fat ! k = (if k \<in> set ?bs then -2 else FAT s ! k)"
      using free_chain_ok [OF fs_rel_chain(1,3) [OF r i(2,3)]] fs_rel_chain(2) [OF r i(2,3)] len(2) by metis
    define e' where "e' = ?e\<lparr>in_use := 0\<rparr>"
    define s' where "s' = s\<lparr>FAT := fat, File_entries := (File_entries s)[i := e']\<rparr>"
    have ret: "delete_file name s = Some (s', [Printf (''File '' @ [CHR 0x27] @ name @ [CHR 0x27] @ '' deleted.'' @ [newline])])"
      using i fat len by (simp add: delete_file_def ENTRY_def entry_set s'_def e'_def)
    have *: "fs_rel s' (cs[i := []]) \<and> (\<forall>j < 100. j \<noteq> i \<longrightarrow> content_of s' (cs ! j) = content_of s (cs ! j) \<and>
        (\<forall>b \<in> set (cs ! j). Disk s' ! b = Disk s ! b))"
    proof (rule fs_rel_replace [OF r i(2), of s' e' "[]"])
      show "entry_ok e'" using fs_relD(5) [OF r i(2)] by (simp add: e'_def entry_ok_def)
      show "file_ok s' e' []" by (simp add: file_ok_def e'_def)
      show "block_ok (Disk s' ! k)" if "k < 1024" for k using fs_relD(6) [OF r that] by (simp add: s'_def)
    qed (use fat len in \<open>auto simp: s'_def e'_def\<close>)
    have "files s' n = ((files s)(name := None)) n" for n
      using files_replace [OF r conjunct1 [OF *] i(2) _ conjunct2 [OF *], of e' n] i by (simp add: s'_def e'_def)
    moreover have "tight s' (cs[i := []])" by (rule tight_replace [OF tt len(4) i(2) conjunct2 [OF *]]) simp
    moreover have "free_blocks s' = free_blocks s + blocks_of (length (content_of s ?bs))"
      using free_blocks_replace [OF r conjunct1 [OF *] i(2)] chain_length [OF r tt i(2,3)] by simp
    ultimately show ?thesis using ret * i(5) by (auto simp: fs_ok_iff)
  qed
qed

lemma list_spec:
  assumes ok: "fs_ok s"
  shows "list_files s = Some (Printf (''Files in the file system:'' @ [newline]) #
    map (\<lambda>e. list_line (text_of (file_name e)) (int (length (the (files s (text_of (file_name e)))))))
      (filter (\<lambda>e. in_use e \<noteq> 0) (File_entries s)))"
proof -
  obtain cs where r: "fs_rel s cs" using ok by (auto simp: fs_ok_iff)
  let ?es = "File_entries s"
  let ?line = "\<lambda>e. list_line (text_of (file_name e)) (file_size e)"
  let ?head = "Printf (''Files in the file system:'' @ [newline])"
  let ?f = "\<lambda>i acc. do { e \<leftarrow> rd ?es i;
      if in_use e \<noteq> 0 then do { n \<leftarrow> cstr (file_name e); Some (acc @ [list_line n (file_size e)]) } else Some acc }"
  have "\<exists>t. for_range 0 ENTRY ?f [?head] = Some t \<and>
      t = ?head # map ?line (filter (\<lambda>e. in_use e \<noteq> 0) (take (nat ENTRY) ?es))"
  proof (rule for_range_inv [where I = "\<lambda>i acc. acc = ?head # map ?line (filter (\<lambda>e. in_use e \<noteq> 0) (take (nat i) ?es))"])
    fix j acc assume j: "0 \<le> j" "j < ENTRY"
      and acc: "acc = ?head # map ?line (filter (\<lambda>e. in_use e \<noteq> 0) (take (nat j) ?es))"
    have k: "nat j < length ?es" "nat (j + 1) = Suc (nat j)" "nat j < 100"
      using j fs_relD(1) [OF r] by (auto simp: ENTRY_def)
    have "NUL \<in> set (file_name (?es ! nat j))" using fs_relD(5) [OF r k(3)] by (simp add: entry_ok_def)
    then show "\<exists>s'. ?f j acc = Some s' \<and> s' = ?head # map ?line (filter (\<lambda>e. in_use e \<noteq> 0) (take (nat (j + 1)) ?es))"
      using k j acc by (simp add: take_Suc_conv_app_nth)
  qed (auto simp: ENTRY_def)
  moreover have "file_size e = int (length (the (files s (text_of (file_name e)))))" if e: "e \<in> set ?es" "in_use e \<noteq> 0" for e
  proof -
    obtain i where i: "i < 100" "e = ?es ! i" using e(1) fs_relD(1) [OF r] by (auto simp: in_set_conv_nth)
    then have "files s (text_of (file_name e)) = Some (content_of s (cs ! i))" using files_iff [OF r] e(2) by blast
    then show ?thesis using fs_relD(7) [OF r i(1)] i e(2) by (simp add: file_ok_def)
  qed
  ultimately show ?thesis using fs_relD(1) [OF r] by (auto simp: list_files_def ENTRY_def)
qed

section \<open>Writing\<close>

text \<open>What is stored for a character: newlines become spaces.\<close>

definition stored :: "char \<Rightarrow> char" where
  "stored c = (if c = newline then CHR 0x20 else c)"

lemma put_bytes_ok:
  assumes "length d = 33" "length t = k" "take k d = t" "k \<le> 32" "0 \<le> sz" "sz + 32 - int k \<le> INT_MAX"
  shows "\<exists>d1. put_bytes d (int k) content sz = Some (d1, int (k + length (take (32 - k) content)),
      drop (32 - k) content, sz + int (length (take (32 - k) content))) \<and> length d1 = 33 \<and>
    take (k + length (take (32 - k) content)) d1 = t @ map stored (take (32 - k) content)"
  using assms
proof (induction content arbitrary: d t k sz)
  case Nil
  then show ?case by simp
next
  case (Cons c content)
  show ?case
  proof (cases "k = 32")
    case True
    with Cons.prems show ?thesis by (simp add: BYTES_def)
  next
    case False
    then have k: "k < 32" "k < length d" "32 - k = Suc (32 - Suc k)" using Cons.prems by auto
    let ?d = "d[k := stored c]" and ?t = "t @ [stored c]"
    have "take (Suc k) ?d = ?t" using Cons.prems k by (simp add: take_Suc_conv_app_nth)
    from Cons.IH [OF _ _ this, of "sz + 1"] Cons.prems k
    obtain d1 where d1: "put_bytes ?d (int (Suc k)) content (sz + 1) =
          Some (d1, int (Suc k + length (take (32 - Suc k) content)), drop (32 - Suc k) content,
            sz + 1 + int (length (take (32 - Suc k) content)))" "length d1 = 33"
        "take (Suc k + length (take (32 - Suc k) content)) d1 = ?t @ map stored (take (32 - Suc k) content)"
      by (auto simp: algebra_simps)
    have "put_bytes d (int k) (c # content) sz = put_bytes ?d (int (Suc k)) content (sz + 1)"
      using k Cons.prems by (simp add: BYTES_def stored_def INT_MIN_def add.commute)
    with d1 show ?thesis unfolding k(3) by (simp add: algebra_simps)
  qed
qed

lemma size_bound:
  assumes "fs_rel s cs" "i < 100" "in_use (File_entries s ! i) \<noteq> 0"
  shows "length (content_of s (cs ! i)) \<le> 32 * 1024"
proof -
  have "length (cs ! i) \<le> 1024"
    using free_blocks_eq [OF assms(1)] length_concat_update [of i cs "[]"] fs_relD(4) [OF assms(1)] assms(2) by simp
  then show ?thesis using content_length [OF assms] by linarith
qed

text \<open>The last block is filled as far as the contents reach; the other files do not change.\<close>

text \<open>The bytes that go into one block, and its terminator.\<close>

lemma fill_text:
  assumes d: "length d = 33" "NUL \<in> set d" and k: "k = length (text_of d)" "k \<le> 32" and c: "no_nul content"
    and sz: "0 \<le> sz" "sz + 32 - int k \<le> INT_MAX" and w: "w = map stored (take (32 - k) content)"
  obtains d1 d2 where "put_bytes d (int k) content sz = Some (d1, int (k + length w), drop (32 - k) content, sz + int (length w))"
    "wr d1 (int (k + length w)) NUL = Some d2" "text_of d2 = text_of d @ w" "block_ok d2"
proof -
  have "take k d = text_of d" using text_of_split [OF d(2)] k(1) by (metis append_eq_conv_conj)
  then obtain d1 where d1: "put_bytes d (int k) content sz = Some (d1, int (k + length w), drop (32 - k) content, sz + int (length w))"
      "length d1 = 33" "take (k + length w) d1 = text_of d @ w"
    using put_bytes_ok [OF d(1) k(1) [symmetric] _ k(2), of sz content] sz w by auto
  have kw: "k + length w \<le> 32" using k(2) w by simp
  define d2 where "d2 = d1[k + length w := NUL]"
  have wr: "wr d1 (int (k + length w)) NUL = Some d2" using kw d1(2) by (subst wr_nat) (simp_all add: d2_def)
  have eq: "d2 = (text_of d @ w) @ NUL # drop (Suc (k + length w)) d1"
    unfolding d1(3) [symmetric] using kw d1(2) by (simp add: d2_def upd_conv_take_nth_drop)
  have "no_nul w" using c w by (auto simp: no_nul_def stored_def newline_def NUL_def dest!: in_set_takeD)
  then have "no_nul (text_of d @ w)" using no_nul_text_of [of d] by (simp add: no_nul_def)
  then have "text_of d2 = text_of d @ w" unfolding eq by (rule text_of_terminated)
  moreover have "NUL \<in> set d2" unfolding eq by simp
  ultimately show thesis using that [OF d1(1) wr] d1(2) by (simp add: block_ok_def d2_def)
qed

lemma fill_block_ok:
  assumes r: "fs_rel s cs" and i: "i < 100" "in_use (File_entries s ! i) \<noteq> 0" and bs: "cs ! i = bs"
    and k: "k = length (text_of (Disk s ! last bs))" and c: "no_nul content"
  obtains s1 where "fill_block (int i) (int (last bs)) content s = Some (drop (32 - k) content, s1)"
    "fs_rel s1 cs" "FAT s1 = FAT s" "in_use (File_entries s1 ! i) = in_use (File_entries s ! i)"
    "file_name (File_entries s1 ! i) = file_name (File_entries s ! i)"
    "content_of s1 bs = content_of s bs @ map stored (take (32 - k) content)"
    "\<forall>j < 100. j \<noteq> i \<longrightarrow> content_of s1 (cs ! j) = content_of s (cs ! j) \<and> (\<forall>b \<in> set (cs ! j). Disk s1 ! b = Disk s ! b)"
    "text_of (Disk s1 ! last bs) = text_of (Disk s ! last bs) @ map stored (take (32 - k) content)"
    "\<exists>e'. File_entries s1 = (File_entries s)[i := e']"
proof -
  note len = fs_relD(1-4) [OF r]
  let ?e = "File_entries s ! i" and ?b = "last bs" and ?w = "map stored (take (32 - k) content)"
  let ?d = "Disk s ! ?b" and ?t = "text_of (Disk s ! last bs)"
  have l: "linked (FAT s) bs" "distinct bs" using fs_rel_chain [OF r i] bs by auto
  have b: "?b \<in> set bs" "?b < 1024" "block_ok ?d"
    using linked_nonempty [OF l(1)] fs_rel_block(1) [OF r i(1), of ?b] bs fs_relD(6) [OF r, of ?b] by auto
  have d: "length ?d = 33" "NUL \<in> set ?d" using b(3) by (auto simp: block_ok_def)
  have k32: "k \<le> 32" using content_length(2) [OF r i] bs k by simp
  have sz: "file_size ?e = int (length (content_of s bs))" using fs_relD(7) [OF r i(1)] i(2) bs by (simp add: file_ok_def)
  have "file_size ?e + 32 - int k \<le> INT_MAX" "0 \<le> file_size ?e" using size_bound [OF r i] bs sz by (simp_all add: INT_MAX_def)
  then obtain d1 d2 where d1: "put_bytes ?d (int k) content (file_size ?e) =
        Some (d1, int (k + length ?w), drop (32 - k) content, file_size ?e + int (length ?w))"
      and d2: "wr d1 (int (k + length ?w)) NUL = Some d2" and t2: "text_of d2 = ?t @ ?w" "block_ok d2"
    using fill_text [OF d k k32 c, of "file_size ?e" ?w] by blast
  define e' where "e' = ?e\<lparr>file_size := file_size ?e + int (length ?w)\<rparr>"
  define s1 where "s1 = s\<lparr>Disk := (Disk s)[?b := d2], File_entries := (File_entries s)[i := e']\<rparr>"
  have ret: "fill_block (int i) (int ?b) content s = Some (drop (32 - k) content, s1)"
    using b d len i d1 d2 k by (simp add: fill_block_def entry_set s1_def e'_def)
  have text1: "text_of (Disk s1 ! x) = (if x = ?b then ?t @ ?w else text_of (Disk s ! x))" for x
    using b len t2 by (auto simp: s1_def nth_list_update)
  have bl: "?b \<notin> set (butlast bs)" using l(2) linked_nonempty [OF l(1)]
    by (metis append_butlast_last_id distinct_append distinct_singleton not_distinct_conv_prefix disjoint_iff list.set_intros(1))
  have "content_of s1 (butlast bs) = content_of s (butlast bs)"
    using bl text1 unfolding content_of_def by (metis (mono_tags, lifting) map_cong)
  then have content: "content_of s1 bs = content_of s bs @ ?w"
    using content_of_butlast [OF linked_nonempty [OF l(1)]] text1 by simp
  have *: "fs_rel s1 (cs[i := bs]) \<and> (\<forall>j < 100. j \<noteq> i \<longrightarrow> content_of s1 (cs ! j) = content_of s (cs ! j) \<and>
      (\<forall>b \<in> set (cs ! j). Disk s1 ! b = Disk s ! b))"
  proof (rule fs_rel_replace [OF r i(1), of s1 e' bs])
    show "entry_ok e'" using fs_relD(5) [OF r i(1)] by (simp add: e'_def entry_ok_def)
    have "\<forall>x \<in> set (butlast bs). length (text_of (Disk s1 ! x)) = 32"
      using fs_relD(7) [OF r i(1)] i(2) bs bl text1 by (auto simp: file_ok_def)
    then show "file_ok s1 e' bs"
      using fs_relD(7) [OF r i(1)] i(2) bs content by (simp add: file_ok_def e'_def s1_def)
    show "block_ok (Disk s1 ! x)" if "x < 1024" for x
      using fs_relD(6) [OF r that] t2(2) len b by (simp add: s1_def nth_list_update)
    show "FAT s1 ! x = FAT s ! x \<and> Disk s1 ! x = Disk s ! x" if "x \<notin> set (cs ! i)" for x
    proof -
      have "x \<noteq> ?b" using that bs b(1) by auto
      then show ?thesis by (simp add: s1_def)
    qed
    show "text_of (file_name (File_entries s ! j)) \<noteq> text_of (file_name e')"
      if "j < 100" "j \<noteq> i" "in_use (File_entries s ! j) \<noteq> 0" for j
      using names_okD [OF fs_relD(10) [OF r], of j i] that i len by (auto simp: e'_def)
  qed (use len l bs in \<open>auto simp: s1_def\<close>)
  moreover have "cs[i := bs] = cs" using bs by (metis list_update_id)
  ultimately show thesis
    using ret content text1 len i by (intro that [of s1]) (auto simp: s1_def e'_def)
qed

text \<open>A full last block gets a successor.\<close>

lemma extend_ok:
  assumes r: "fs_rel s cs" and i: "i < 100" "in_use (File_entries s ! i) \<noteq> 0" and bs: "cs ! i = bs"
    and full: "length (text_of (Disk s ! last bs)) = 32" and n: "n < 1024" "FAT s ! n = -2"
    and d: "block_ok d" "text_of d = ''''"
    and s2: "s2 = s\<lparr>FAT := (FAT s)[last bs := int n, n := -1], Disk := (Disk s)[n := d]\<rparr>"
  shows "fs_rel s2 (cs[i := bs @ [n]]) \<and> content_of s2 (bs @ [n]) = content_of s bs \<and>
    (\<forall>j < 100. j \<noteq> i \<longrightarrow> content_of s2 (cs ! j) = content_of s (cs ! j) \<and> (\<forall>b \<in> set (cs ! j). Disk s2 ! b = Disk s ! b))"
proof -
  note len = fs_relD(1-4) [OF r]
  let ?e = "File_entries s ! i"
  have l: "linked (FAT s) bs" "distinct bs" using fs_rel_chain [OF r i] bs by auto
  have ne: "bs \<noteq> []" "last bs \<in> set bs" using linked_nonempty [OF l(1)] by auto
  have nn: "n \<notin> set bs" using linked_used [OF l(1)] n(2) by auto
  have disk: "Disk s2 ! x = Disk s ! x" if "x \<noteq> n" for x using that by (simp add: s2)
  have same: "map (\<lambda>b. text_of (Disk s2 ! b)) bs = map (\<lambda>b. text_of (Disk s ! b)) bs"
    by (rule map_cong [OF refl]) (metis nn disk)
  have content: "content_of s2 (bs @ [n]) = content_of s bs"
  proof -
    have "text_of (Disk s2 ! n) = []" using d(2) n(1) len by (simp add: s2)
    then show ?thesis unfolding content_of_def map_append concat_append same by simp
  qed
  have *: "fs_rel s2 (cs[i := bs @ [n]]) \<and> (\<forall>j < 100. j \<noteq> i \<longrightarrow> content_of s2 (cs ! j) = content_of s (cs ! j) \<and>
      (\<forall>b \<in> set (cs ! j). Disk s2 ! b = Disk s ! b))"
  proof (rule fs_rel_replace [OF r i(1), of s2 ?e "bs @ [n]"])
    show "entry_ok ?e" using fs_relD(5) [OF r i(1)] .
    have "linked (FAT s2) (bs @ [n])" using linked_snoc [OF l nn] n(1) len(2) by (simp add: s2)
    moreover have "\<forall>x \<in> set bs. length (text_of (Disk s2 ! x)) = 32"
    proof -
      have "\<forall>x \<in> set (butlast bs). length (text_of (Disk s ! x)) = 32"
        using fs_relD(7) [OF r i(1)] i(2) bs by (simp add: file_ok_def)
      with full have "\<forall>x \<in> set (butlast bs @ [last bs]). length (text_of (Disk s ! x)) = 32" by auto
      then show ?thesis using ne(1) nn disk by (metis append_butlast_last_id)
    qed
    ultimately show "file_ok s2 ?e (bs @ [n])"
      using fs_relD(7) [OF r i(1)] i(2) bs content ne(1) by (simp add: file_ok_def s2)
    show "distinct (bs @ [n])" using l(2) nn by simp
    show "block_ok (Disk s2 ! x)" if "x < 1024" for x
      using fs_relD(6) [OF r that] d(1) len n(1) by (simp add: s2 nth_list_update)
    show "FAT s2 ! x = FAT s ! x \<and> Disk s2 ! x = Disk s ! x" if "x \<notin> set (cs ! i)" "FAT s ! x \<noteq> -2" for x
    proof -
      have "x \<noteq> last bs" "x \<noteq> n" using that bs ne(2) n(2) by auto
      then show ?thesis by (simp add: s2)
    qed
    show "x \<in> set (cs ! i) \<or> FAT s ! x = -2" if "x \<in> set (bs @ [n])" for x using that bs n(2) by auto
    show "FAT s2 ! x = -2" if "x \<notin> set (bs @ [n])" "x \<in> set (cs ! i) \<or> FAT s ! x = -2" for x
    proof -
      have "x \<noteq> last bs" "x \<noteq> n" using that ne(2) by auto
      then show ?thesis using that bs by (simp add: s2)
    qed
    show "text_of (file_name (File_entries s ! j)) \<noteq> text_of (file_name ?e)"
      if "j < 100" "j \<noteq> i" "in_use (File_entries s ! j) \<noteq> 0" for j
      using names_okD [OF fs_relD(10) [OF r], of j i] that i len by auto
  qed (use len in \<open>auto simp: s2\<close>)
  with content show ?thesis by blast
qed

text \<open>
  The invariant of the writing loop, relative to the state \<open>s0\<close> with chains \<open>cs0\<close> at the start:
  \<open>all\<close> is the old contents followed by what is to be written.
\<close>

definition write_inv :: "fs \<Rightarrow> nat list list \<Rightarrow> nat \<Rightarrow> string \<Rightarrow> int \<times> string \<times> fs \<times> bool \<Rightarrow> bool" where
  "write_inv s0 cs0 i all = (\<lambda>(block, rest, s, full). no_nul rest \<and> (\<exists>bs.
     fs_rel s (cs0[i := bs]) \<and> block = int (last bs) \<and> in_use (File_entries s ! i) \<noteq> 0 \<and>
     file_name (File_entries s ! i) = file_name (File_entries s0 ! i) \<and>
     (\<exists>e'. File_entries s = (File_entries s0)[i := e']) \<and>
     content_of s bs @ map stored rest = all \<and>
     (rest = [] \<or> full \<longrightarrow> 1 < length bs \<longrightarrow> text_of (Disk s ! last bs) \<noteq> []) \<and>
     (full \<longrightarrow> rest \<noteq> [] \<and> free_blocks s = 0 \<and> length (text_of (Disk s ! last bs)) = 32) \<and>
     (\<forall>j < 100. j \<noteq> i \<longrightarrow> content_of s (cs0 ! j) = content_of s0 (cs0 ! j) \<and>
       (\<forall>b \<in> set (cs0 ! j). Disk s ! b = Disk s0 ! b))))"

definition write_measure :: "int \<times> string \<times> fs \<times> bool \<Rightarrow> nat" where
  "write_measure = (\<lambda>(block, rest, s, full). 3 * length rest +
     (if length (text_of (Disk s ! nat block)) = 32 then 1 else 0) + (if full then 0 else 1))"

lemma fs_rel_len: "fs_rel s (cs0[i := bs]) \<Longrightarrow> length cs0 = 100"
  using fs_relD(4) by fastforce

text \<open>The pass goes on to a new block when the last one is full.\<close>

lemma next_block_ok:
  assumes r: "fs_rel s1 (cs0[i := bs])" and i: "i < 100" "in_use (File_entries s1 ! i) \<noteq> 0" and full: "length (text_of (Disk s1 ! last bs)) = 32"
    and n: "n < 1024" "FAT s1 ! n = -2"
  obtains d s2 where "wr (FAT s1) (int (last bs)) (int n) = Some ((FAT s1)[last bs := int n])"
    "claim_block (s1\<lparr>FAT := (FAT s1)[last bs := int n]\<rparr>) (int n) = Some s2" "text_of d = ''''"
    "s2 = s1\<lparr>FAT := (FAT s1)[last bs := int n, n := -1], Disk := (Disk s1)[n := d]\<rparr>"
    "fs_rel s2 (cs0[i := bs @ [n]])" "content_of s2 (bs @ [n]) = content_of s1 bs"
    "\<forall>j < 100. j \<noteq> i \<longrightarrow> content_of s2 (cs0[i := bs] ! j) = content_of s1 (cs0[i := bs] ! j) \<and>
      (\<forall>b \<in> set (cs0[i := bs] ! j). Disk s2 ! b = Disk s1 ! b)"
proof -
  let ?fat = "(FAT s1)[last bs := int n]"
  note len = fs_relD(1-4) [OF r]
  have ci: "cs0[i := bs] ! i = bs" using fs_rel_len [OF r] i by simp
  have lb: "last bs < 1024"
    using fs_rel_block(1) [OF r i(1), of "last bs"] linked_nonempty [OF fs_rel_chain(1) [OF r i]] ci by simp
  obtain d where d: "claim_block (s1\<lparr>FAT := ?fat\<rparr>) (int n) = Some (s1\<lparr>FAT := ?fat[n := -1], Disk := (Disk s1)[n := d]\<rparr>)"
      "block_ok d" "text_of d = ''''"
    using claim_block_ok [of "s1\<lparr>FAT := ?fat\<rparr>" n] len n(1) fs_relD(6) [OF r n(1)] by auto
  define s2 where "s2 = s1\<lparr>FAT := ?fat[n := -1], Disk := (Disk s1)[n := d]\<rparr>"
  from extend_ok [OF r i ci full n d(2,3) s2_def]
  have e: "fs_rel s2 (cs0[i := bs @ [n]])" "content_of s2 (bs @ [n]) = content_of s1 bs"
      "\<forall>j < 100. j \<noteq> i \<longrightarrow> content_of s2 (cs0[i := bs] ! j) = content_of s1 (cs0[i := bs] ! j) \<and>
        (\<forall>b \<in> set (cs0[i := bs] ! j). Disk s2 ! b = Disk s1 ! b)" by auto
  have "wr (FAT s1) (int (last bs)) (int n) = Some ?fat" using lb len by (subst wr_nat) simp_all
  from that [OF this _ d(3) s2_def e] d(1) show thesis by (simp add: s2_def)
qed

lemma write_pass_ok:
  assumes inv: "write_inv s0 cs0 i all (block, rest, s, False)" and i: "i < 100" and rest: "rest \<noteq> []"
  shows "\<exists>st. write_pass (int i) (block, rest, s, False) = Some st \<and> write_inv s0 cs0 i all st \<and>
    write_measure st < write_measure (block, rest, s, False)"
proof -
  obtain bs e0 where r: "fs_rel s (cs0[i := bs])" and b: "block = int (last bs)" and u: "in_use (File_entries s ! i) \<noteq> 0"
    and nm: "file_name (File_entries s ! i) = file_name (File_entries s0 ! i)" "File_entries s = (File_entries s0)[i := e0]"
    and c: "content_of s bs @ map stored rest = all" and nn: "no_nul rest"
    and oth: "\<forall>j < 100. j \<noteq> i \<longrightarrow> content_of s (cs0 ! j) = content_of s0 (cs0 ! j) \<and>
       (\<forall>b \<in> set (cs0 ! j). Disk s ! b = Disk s0 ! b)"
    using inv by (auto simp: write_inv_def)
  have ci: "cs0[i := bs] ! i = bs" using fs_rel_len [OF r] i by simp
  define k where "k = length (text_of (Disk s ! last bs))"
  have k32: "k \<le> 32" using content_length(2) [OF r i u] ci k_def by simp
  let ?w = "take (32 - k) rest" and ?rest = "drop (32 - k) rest"
  obtain s1 where s1: "fill_block (int i) (int (last bs)) rest s = Some (?rest, s1)" "fs_rel s1 (cs0[i := bs])"
      "FAT s1 = FAT s" "in_use (File_entries s1 ! i) = in_use (File_entries s ! i)"
      "file_name (File_entries s1 ! i) = file_name (File_entries s ! i)"
      "content_of s1 bs = content_of s bs @ map stored ?w"
      "\<forall>j < 100. j \<noteq> i \<longrightarrow> content_of s1 (cs0[i := bs] ! j) = content_of s (cs0[i := bs] ! j) \<and>
        (\<forall>b \<in> set (cs0[i := bs] ! j). Disk s1 ! b = Disk s ! b)"
      "text_of (Disk s1 ! last bs) = text_of (Disk s ! last bs) @ map stored ?w"
      "\<exists>e'. File_entries s1 = (File_entries s)[i := e']"
    using fill_block_ok [OF r i u ci k_def nn] by blast
  have nn': "no_nul ?rest" using nn by (auto simp: no_nul_def dest: in_set_dropD)
  have all: "content_of s1 bs @ map stored ?rest = all" unfolding s1(6) c [symmetric]
    by (metis append.assoc append_take_drop_id map_append)
  have oth1: "\<forall>j < 100. j \<noteq> i \<longrightarrow> content_of s1 (cs0 ! j) = content_of s0 (cs0 ! j) \<and>
       (\<forall>b \<in> set (cs0 ! j). Disk s1 ! b = Disk s0 ! b)" using s1(7) oth by auto
  have es: "\<exists>e'. File_entries s1 = (File_entries s0)[i := e']" using s1(9) nm(2) by auto
  have tx: "length (text_of (Disk s1 ! last bs)) = k + length ?w" using s1(8) k_def by simp
  show ?thesis
  proof (cases "?rest = []")
    case True
    have w: "0 < length ?w" using True rest k32 by (cases rest) auto
    have "write_pass (int i) (block, rest, s, False) = Some (block, [], s1, False)"
      using s1(1) b True by (simp add: write_pass_def)
    moreover have "write_inv s0 cs0 i all (block, [], s1, False)"
      using s1 b u nm all True oth1 es w tx unfolding write_inv_def by (auto simp: no_nul_def intro!: exI [of _ bs])
    moreover have "write_measure (block, [], s1, False) < write_measure (block, rest, s, False)"
      using rest by (cases rest) (simp_all add: write_measure_def)
    ultimately show ?thesis by blast
  next
    case False
    then have wl: "k + length ?w = 32" using k32 by simp
    show ?thesis
    proof (rule find_block_ok [OF fs_relD(2) [OF s1(2)]])
      assume f: "find_block s1 = Some BLOCK_SIZE" "free_blocks s1 = 0"
      have "write_pass (int i) (block, rest, s, False) = Some (block, ?rest, s1, True)"
        using s1(1) b False f(1) by (simp add: write_pass_def)
      moreover have "write_inv s0 cs0 i all (block, ?rest, s1, True)"
        using s1 b u nm all False oth1 es f(2) tx wl nn' unfolding write_inv_def by (auto intro!: exI [of _ bs])
      moreover have "write_measure (block, ?rest, s1, True) < write_measure (block, rest, s, False)"
        using wl b k_def rest tx by (cases "k = 32") (auto simp: write_measure_def)
      ultimately show ?thesis by blast
    next
      fix n assume n: "find_block s1 = Some (int n)" "n < 1024" "FAT s1 ! n = -2"
      have full: "length (text_of (Disk s1 ! last bs)) = 32" and u1: "in_use (File_entries s1 ! i) \<noteq> 0"
        using tx wl u s1(4) by simp_all
      obtain d s2 where wr: "wr (FAT s1) (int (last bs)) (int n) = Some ((FAT s1)[last bs := int n])"
        and d: "claim_block (s1\<lparr>FAT := (FAT s1)[last bs := int n]\<rparr>) (int n) = Some s2" "text_of d = ''''"
        and s2: "s2 = s1\<lparr>FAT := (FAT s1)[last bs := int n, n := -1], Disk := (Disk s1)[n := d]\<rparr>"
        and e: "fs_rel s2 (cs0[i := bs @ [n]])" "content_of s2 (bs @ [n]) = content_of s1 bs"
          "\<forall>j < 100. j \<noteq> i \<longrightarrow> content_of s2 (cs0[i := bs] ! j) = content_of s1 (cs0[i := bs] ! j) \<and>
            (\<forall>b \<in> set (cs0[i := bs] ! j). Disk s2 ! b = Disk s1 ! b)"
        by (rule next_block_ok [OF s1(2) i u1 full n(2,3)])
      have "write_pass (int i) (block, rest, s, False) = Some (int n, ?rest, s2, False)"
        using s1(1) b False n d(1) wr by (simp add: write_pass_def BLOCK_SIZE_def)
      moreover have "write_inv s0 cs0 i all (int n, ?rest, s2, False)"
        using e s1(4,5) u nm all False oth1 es nn' unfolding write_inv_def
        by (auto simp: s2 intro!: exI [of _ "bs @ [n]"])
      moreover have "write_measure (int n, ?rest, s2, False) < write_measure (block, rest, s, False)"
        using wl b k_def rest n(2) fs_relD(1-4) [OF s1(2)] d(2) by (cases "k = 32") (auto simp: write_measure_def s2)
      ultimately show ?thesis by blast
    qed
  qed
qed

text \<open>The whole operation: as much of the contents is appended as there are blocks for.\<close>

definition capacity :: "fs \<Rightarrow> nat \<Rightarrow> nat" where
  "capacity s n = 32 * (blocks_of n + free_blocks s)"

lemma write_done:
  assumes r0: "fs_rel s0 cs0" and t0: "tight s0 cs0" and i: "i < 100" "in_use (File_entries s0 ! i) \<noteq> 0"
    and all: "all = content_of s0 (cs0 ! i) @ map stored content"
    and inv: "write_inv s0 cs0 i all (block, rest, s, full)" and dn: "\<not> (rest \<noteq> [] \<and> \<not> full)"
    and name: "name = text_of (file_name (File_entries s0 ! i))"
  shows "fs_ok s \<and> files s = (files s0)(name \<mapsto> take (capacity s0 (length (content_of s0 (cs0 ! i)))) all) \<and>
    (full \<longleftrightarrow> capacity s0 (length (content_of s0 (cs0 ! i))) < length all)"
proof -
  let ?cap = "capacity s0 (length (content_of s0 (cs0 ! i)))"
  obtain bs e' where r: "fs_rel s (cs0[i := bs])" and u: "in_use (File_entries s ! i) \<noteq> 0"
    and nm: "file_name (File_entries s ! i) = file_name (File_entries s0 ! i)" "File_entries s = (File_entries s0)[i := e']"
    and c: "content_of s bs @ map stored rest = all"
    and tt: "1 < length bs \<Longrightarrow> text_of (Disk s ! last bs) \<noteq> []"
    and fl: "full \<Longrightarrow> rest \<noteq> [] \<and> free_blocks s = 0 \<and> length (text_of (Disk s ! last bs)) = 32"
    and oth: "\<forall>j < 100. j \<noteq> i \<longrightarrow> content_of s (cs0 ! j) = content_of s0 (cs0 ! j) \<and>
       (\<forall>b \<in> set (cs0 ! j). Disk s ! b = Disk s0 ! b)"
    using inv dn by (auto simp: write_inv_def)
  have len: "length cs0 = 100" using fs_relD(4) [OF r0] .
  have ok: "fs_ok s" using r tight_replace [OF t0 len i(1) oth tt] by (auto simp: fs_ok_iff)
  have e': "File_entries s ! i = e'" using nm(2) i fs_relD(1) [OF r0] by simp
  have "files s n = ((files s0)(name \<mapsto> content_of s bs)) n" for n
    using files_replace [OF r0 r i(1) nm(2) oth, of n] u nm(1) e' name by auto
  then have fs: "files s = (files s0)(name \<mapsto> content_of s bs)" by blast
  have cap: "?cap = 32 * (length bs + free_blocks s)"
    using free_blocks_replace [OF r0 r i(1)] chain_length [OF r0 t0 i] by (simp add: capacity_def)
  have cl: "length (content_of s bs) + 32 = 32 * length bs + length (text_of (Disk s ! last bs))"
      "length (text_of (Disk s ! last bs)) \<le> 32" using content_length [OF r i(1) u] i len by auto
  have "content_of s bs = take ?cap all \<and> (full \<longleftrightarrow> ?cap < length all)"
  proof (cases full)
    case True
    then have "length (content_of s bs) = ?cap" "rest \<noteq> []" using fl cl cap by auto
    with c True show ?thesis by auto
  next
    case False
    then have "all = content_of s bs" "length (content_of s bs) \<le> ?cap" using c dn cl cap by auto
    with False show ?thesis by simp
  qed
  with ok fs show ?thesis by simp
qed

lemma write_spec:
  assumes ok: "fs_ok s" and content: "no_nul content"
  shows "\<exists>s' msg. write_file name content s = Some (s', msg) \<and> fs_ok s' \<and>
    (case files s name of None \<Rightarrow> s' = s
     | Some old \<Rightarrow> files s' = (files s)(name \<mapsto> take (capacity s (length old)) (old @ map stored content)) \<and>
         (msg = [Perror ''no free block, partial write''] \<longleftrightarrow>
          capacity s (length old) < length old + length content))"
proof -
  obtain cs where r: "fs_rel s cs" and tt: "tight s cs" using ok by (auto simp: fs_ok_iff)
  from r show ?thesis
  proof (rule find_file_ok [where name = name])
    assume "find_file s name = Some ENTRY" "files s name = None"
    with ok show ?thesis by (simp add: write_file_def)
  next
    fix i assume i: "find_file s name = Some (int i)" "i < 100" "in_use (File_entries s ! i) \<noteq> 0"
      "text_of (file_name (File_entries s ! i)) = name" "files s name = Some (content_of s (cs ! i))"
    let ?all = "content_of s (cs ! i) @ map stored content" and ?b = "int (last (cs ! i))"
    have lb: "last_block s (start (File_entries s ! i)) = Some ?b"
      using last_block_ok [OF fs_rel_chain(1) [OF r i(2,3)]] fs_rel_chain(2) [OF r i(2,3)] by simp
    have "1 < length (cs ! i) \<Longrightarrow> text_of (Disk s ! last (cs ! i)) \<noteq> []"
      using tt i(2) fs_relD(4) [OF r] by (auto simp: tight_def)
    then have inv: "write_inv s cs i ?all (?b, content, s, False)"
      using r i content by (auto simp: write_inv_def list_update_id intro!: exI [of _ "cs ! i"])
        (metis list_update_id)
    have "\<exists>st. c_while (\<lambda>(b, content, s, full). content \<noteq> [] \<and> \<not> full) (write_pass (int i)) (?b, content, s, False) = Some st \<and>
        write_inv s cs i ?all st \<and> \<not> (case st of (b, content, s, full) \<Rightarrow> content \<noteq> [] \<and> \<not> full)"
    proof (rule c_while_total [where m = write_measure and I = "write_inv s cs i ?all", OF _ inv])
      fix st assume "write_inv s cs i ?all st" "case st of (b, content, s, full) \<Rightarrow> content \<noteq> [] \<and> \<not> full"
      then show "\<exists>st'. write_pass (int i) st = Some st' \<and> write_inv s cs i ?all st' \<and> write_measure st' < write_measure st"
        using write_pass_ok [OF _ i(2)] by (cases st) auto
    qed
    then obtain b rest s' full where w: "c_while (\<lambda>(b, content, s, full). content \<noteq> [] \<and> \<not> full) (write_pass (int i))
          (?b, content, s, False) = Some (b, rest, s', full)" "write_inv s cs i ?all (b, rest, s', full)"
        "\<not> (rest \<noteq> [] \<and> \<not> full)" by auto
    from write_done [OF r tt i(2,3) refl w(2,3) i(4) [symmetric]]
    have "fs_ok s'" "files s' = (files s)(name \<mapsto> take (capacity s (length (content_of s (cs ! i)))) ?all)"
      "full \<longleftrightarrow> capacity s (length (content_of s (cs ! i))) < length ?all" by auto
    then show ?thesis using i lb w(1) fs_relD(1) [OF r] by (simp add: write_file_def ENTRY_def)
  qed
qed

end
