(* ===== verification/Fat_Spec.thy ===== *)
theory Fat_Spec
  imports Fat_Ops
begin

text \<open>
  The abstract file system, a map from names to contents with 1024 blocks of 32 bytes and 100
  entries, the interface that relates an implementation to it, and the proof that \<open>fat.c\<close>
  implements it.
\<close>

section \<open>The specification\<close>

definition used_blocks :: "(string \<rightharpoonup> string) \<Rightarrow> nat" where
  "used_blocks m = (\<Sum>n \<in> dom m. blocks_of (length (the (m n))))"

definition spare :: "(string \<rightharpoonup> string) \<Rightarrow> nat" where
  "spare m = 1024 - used_blocks m"

definition spec_create :: "string \<Rightarrow> (string \<rightharpoonup> string) \<Rightarrow> (string \<rightharpoonup> string)" where
  "spec_create name m = (if m name \<noteq> None \<or> card (dom m) = 100 \<or> spare m = 0 then m else m(name \<mapsto> ''''))"

definition spec_write :: "string \<Rightarrow> string \<Rightarrow> (string \<rightharpoonup> string) \<Rightarrow> (string \<rightharpoonup> string)" where
  "spec_write name content m = (case m name of None \<Rightarrow> m
     | Some old \<Rightarrow> m(name \<mapsto> take (32 * (blocks_of (length old) + spare m)) (old @ map stored content)))"

definition spec_delete :: "string \<Rightarrow> (string \<rightharpoonup> string) \<Rightarrow> (string \<rightharpoonup> string)" where
  "spec_delete name m = m(name := None)"

section \<open>The resources are functions of the map\<close>

lemma dom_files:
  assumes r: "fs_rel s cs"
  shows "dom (files s) = (\<lambda>i. text_of (file_name (File_entries s ! i))) ` {i. i < 100 \<and> in_use (File_entries s ! i) \<noteq> 0}"
  using files_iff [OF r] by (auto simp: dom_def)

lemma inj_names:
  assumes r: "fs_rel s cs"
  shows "inj_on (\<lambda>i. text_of (file_name (File_entries s ! i))) {i. i < 100 \<and> in_use (File_entries s ! i) \<noteq> 0}"
  using names_okD [OF fs_relD(10) [OF r]] fs_relD(1) [OF r] by (auto simp: inj_on_def)

lemma file_count_eq:
  assumes r: "fs_rel s cs"
  shows "file_count s = card (dom (files s))"
  unfolding dom_files [OF r] card_image [OF inj_names [OF r]]
  using fs_relD(1) [OF r] by (simp add: file_count_def length_filter_conv_card)

lemma used_blocks_eq:
  assumes r: "fs_rel s cs" and t: "tight s cs"
  shows "used_blocks (files s) = length (concat cs)"
proof -
  let ?U = "{i. i < 100 \<and> in_use (File_entries s ! i) \<noteq> 0}"
  have len: "length cs = 100" using fs_relD(4) [OF r] .
  have "used_blocks (files s) = (\<Sum>i \<in> ?U. length (cs ! i))"
    unfolding used_blocks_def dom_files [OF r] sum.reindex [OF inj_names [OF r]]
  proof (rule sum.cong [OF refl])
    fix i assume i: "i \<in> ?U"
    then have "files s (text_of (file_name (File_entries s ! i))) = Some (content_of s (cs ! i))"
      using files_iff [OF r] by blast
    with chain_length [OF r t] i
    show "((\<lambda>n. blocks_of (length (the (files s n)))) \<circ> (\<lambda>i. text_of (file_name (File_entries s ! i)))) i = length (cs ! i)"
      by simp
  qed
  also have "\<dots> = (\<Sum>i < 100. length (cs ! i))"
    using fs_relD(7) [OF r] by (intro sum.mono_neutral_left) (auto simp: file_ok_def)
  also have "\<dots> = length (concat cs)"
    using len by (simp add: length_concat sum_list_sum_nth atLeast0LessThan)
  finally show ?thesis .
qed

lemma free_blocks_spare: "fs_ok s \<Longrightarrow> free_blocks s = spare (files s)"
  using free_blocks_eq used_blocks_eq by (fastforce simp: fs_ok_iff spare_def)

lemma file_count_card: "fs_ok s \<Longrightarrow> file_count s = card (dom (files s))"
  using file_count_eq by (auto simp: fs_ok_iff)

section \<open>The interface\<close>

datatype fs_cmd = Create string | Write string string | Delete string

fun spec_step :: "fs_cmd \<Rightarrow> (string \<rightharpoonup> string) \<Rightarrow> (string \<rightharpoonup> string)" where
  "spec_step (Create name) = spec_create name"
| "spec_step (Write name content) = spec_write name content"
| "spec_step (Delete name) = spec_delete name"

text \<open>Any number of commands, each a step that may fail.\<close>

fun run_cmds :: "('c \<Rightarrow> 's \<Rightarrow> 's option) \<Rightarrow> 'c list \<Rightarrow> 's \<Rightarrow> 's option" where
  "run_cmds step [] s = Some s"
| "run_cmds step (c # cs) s = Option.bind (step c s) (run_cmds step cs)"

text \<open>
  An implementation of the specification: an invariant, the files a state holds, and a step
  that never fails on admissible commands, keeps the invariant and acts as specified.
\<close>

locale map_store =
  fixes ok :: "'s \<Rightarrow> bool" and contents :: "'s \<Rightarrow> string \<rightharpoonup> string"
    and step :: "fs_cmd \<Rightarrow> 's \<Rightarrow> 's option" and cmd_ok :: "fs_cmd \<Rightarrow> bool"
  assumes step_law: "ok s \<Longrightarrow> cmd_ok c \<Longrightarrow>
      \<exists>s'. step c s = Some s' \<and> ok s' \<and> contents s' = spec_step c (contents s)"
begin

lemma run_refines:
  "ok s \<Longrightarrow> \<forall>c \<in> set cs. cmd_ok c \<Longrightarrow>
    \<exists>s'. run_cmds step cs s = Some s' \<and> ok s' \<and> contents s' = fold spec_step cs (contents s)"
proof (induction cs arbitrary: s)
  case (Cons c cs)
  then obtain s1 where s1: "step c s = Some s1" "ok s1" "contents s1 = spec_step c (contents s)"
    using step_law [of s c] by auto
  with Cons.IH [OF s1(2)] Cons.prems(2) show ?case by auto
qed simp

text \<open>What was written to a file that exists comes back, while there is room.\<close>

lemma written:
  assumes "ok s" "cmd_ok (Write name content)" "contents s name = Some old"
    and "length old + length content \<le> 32 * (blocks_of (length old) + spare (contents s))"
  shows "\<exists>s'. step (Write name content) s = Some s' \<and> ok s' \<and>
    contents s' = (contents s)(name \<mapsto> old @ map stored content)"
  using step_law [OF assms(1,2)] assms(3,4) by (auto simp: spec_write_def)

end

section \<open>The file system in memory implements it\<close>

definition fat_step :: "fs_cmd \<Rightarrow> fs \<Rightarrow> fs option" where
  "fat_step c s = map_option fst (case c of Create name \<Rightarrow> create_file name s
     | Write name content \<Rightarrow> write_file name content s | Delete name \<Rightarrow> delete_file name s)"

fun fat_cmd_ok :: "fs_cmd \<Rightarrow> bool" where
  "fat_cmd_ok (Create name) = (no_nul name \<and> length name \<le> 100)"
| "fat_cmd_ok (Write name content) = no_nul content"
| "fat_cmd_ok (Delete name) = True"

lemma fat_step_law:
  assumes ok: "fs_ok s" and c: "fat_cmd_ok c"
  shows "\<exists>s'. fat_step c s = Some s' \<and> fs_ok s' \<and> files s' = spec_step c (files s)"
proof (cases c)
  case (Create name)
  with create_spec [OF ok, of name] c show ?thesis
    by (auto simp: fat_step_def spec_create_def free_blocks_spare [OF ok] file_count_card [OF ok] split: if_splits)
next
  case (Write name content)
  with write_spec [OF ok, of content name] c show ?thesis
    by (auto simp: fat_step_def spec_write_def free_blocks_spare [OF ok] capacity_def split: option.splits)
next
  case (Delete name)
  with delete_spec [OF ok, of name] show ?thesis
    by (auto simp: fat_step_def spec_delete_def)
qed

interpretation fat: map_store fs_ok files fat_step fat_cmd_ok
  by unfold_locales (rule fat_step_law)

text \<open>The state \<open>load_file_system\<close> starts from when nothing was saved.\<close>

definition fs_fresh :: fs where
  "fs_fresh = \<lparr>File_entries = replicate 100 \<lparr>file_name = replicate 101 NUL, start = 0, file_size = 0, in_use = 0\<rparr>,
     FAT = replicate 1024 (-2), Disk = replicate 1024 (replicate 33 NUL)\<rparr>"

lemma fs_fresh_ok: "fs_ok fs_fresh" "files fs_fresh = Map.empty"
proof -
  have "fs_rel fs_fresh (replicate 100 [])"
    by (auto simp: fs_rel_def fs_fresh_def shape_ok_def entry_ok_def block_ok_def file_ok_def names_ok_def)
  then show "fs_ok fs_fresh" by (auto simp: fs_ok_iff tight_def)
  show "files fs_fresh = Map.empty" by (simp add: files_def fs_fresh_def)
qed

text \<open>A file system with one file.\<close>

lemma one_file: "\<exists>s. fs_ok s \<and> files s = [''a'' \<mapsto> ''hello'']"
proof -
  have "\<forall>c \<in> set [Create ''a'', Write ''a'' ''hello'']. fat_cmd_ok c" by (simp add: no_nul_def NUL_def)
  from fat.run_refines [OF fs_fresh_ok(1) this] show ?thesis
    by (auto simp: fs_fresh_ok(2) spec_create_def spec_write_def spare_def used_blocks_def
        blocks_of_def stored_def newline_def)
qed

section \<open>Results\<close>

text \<open>
  C8. Any sequence of create, write and delete calls with names of at most 100 characters, on a
  well-formed file system, runs without undefined behaviour, keeps the invariant (acyclic,
  disjoint chains, no lost block, distinct names, sizes that match) and has on the map from
  names to contents exactly the effect of the specification, limits included.
\<close>

theorem fat_implements_map:
  assumes "fs_ok s" "\<forall>c \<in> set cmds. fat_cmd_ok c"
  shows "\<exists>s'. run_cmds fat_step cmds s = Some s' \<and> fs_ok s' \<and> files s' = fold spec_step cmds (files s)"
  using fat.run_refines [OF assms] .

theorem fat_implements_map_witness:
  "\<exists>s'. run_cmds fat_step [Create ''a'', Write ''a'' ''hello'', Create ''b'', Delete ''b''] fs_fresh = Some s' \<and>
    fs_ok s' \<and> files s' = [''a'' \<mapsto> ''hello'']"
proof -
  have "\<forall>c \<in> set [Create ''a'', Write ''a'' ''hello'', Create ''b'', Delete ''b'']. fat_cmd_ok c"
    by (simp add: no_nul_def NUL_def)
  from fat_implements_map [OF fs_fresh_ok(1) this] show ?thesis
    by (simp add: fs_fresh_ok(2) spec_create_def spec_write_def spec_delete_def spare_def used_blocks_def
        blocks_of_def stored_def newline_def fun_upd_twist)
qed

text \<open>
  C19. \<open>write_file\<close> appends to an existing file as many characters as its last block and the
  free blocks hold, newlines turned into spaces, and prints the partial-write error exactly
  when not all fit; all other files keep their contents; without the file nothing changes.
\<close>

theorem write_file_correct:
  assumes "fs_ok s" "no_nul content"
  shows "\<exists>s' msg. write_file name content s = Some (s', msg) \<and> fs_ok s' \<and>
    (case files s name of None \<Rightarrow> s' = s
     | Some old \<Rightarrow> files s' = (files s)(name \<mapsto> take (capacity s (length old)) (old @ map stored content)) \<and>
         (msg = [Perror ''no free block, partial write''] \<longleftrightarrow>
          capacity s (length old) < length old + length content))"
  using write_spec [OF assms] .

theorem write_file_correct_witness:
  "\<exists>s s' msg. fs_ok s \<and> files s = [''a'' \<mapsto> ''hello''] \<and> write_file ''a'' '' you'' s = Some (s', msg) \<and>
    fs_ok s' \<and> files s' = [''a'' \<mapsto> ''hello you'']"
proof -
  obtain s where s: "fs_ok s" "files s = [''a'' \<mapsto> ''hello'']" using one_file by blast
  from write_file_correct [OF s(1), of "'' you''" "''a''"] s show ?thesis
    by (fastforce simp: no_nul_def NUL_def capacity_def free_blocks_spare [OF s(1)] spare_def used_blocks_def
        blocks_of_def stored_def newline_def)
qed

text \<open>
  \<open>read_file\<close> prints exactly the contents of the file, or None when there is no such
  file, following the whole chain and ending.
\<close>

theorem read_file_correct:
  assumes "fs_ok s"
  shows "read_file name s = Some [Printf (''Content of '' @ [CHR 0x27] @ name @ [CHR 0x27] @ '': ''),
    Printf (case files s name of None \<Rightarrow> ''None'' | Some txt \<Rightarrow> txt), Printf [newline]]"
  using read_spec [OF assms] .

theorem read_file_correct_witness:
  "\<exists>s. fs_ok s \<and> files s = [''a'' \<mapsto> ''hello''] \<and>
    read_file ''a'' s = Some [Printf (''Content of '' @ [CHR 0x27] @ ''a'' @ [CHR 0x27] @ '': ''),
      Printf ''hello'', Printf [newline]]"
proof -
  obtain s where s: "fs_ok s" "files s = [''a'' \<mapsto> ''hello'']" using one_file by blast
  from read_file_correct [OF s(1), of "''a''"] s show ?thesis by auto
qed

text \<open>
  \<open>delete_file\<close> removes exactly the named file and gives all its blocks back: the free
  blocks grow by the number of blocks a file of its length needs.
\<close>

theorem delete_file_correct:
  assumes "fs_ok s"
  shows "\<exists>s' msg. delete_file name s = Some (s', msg) \<and> fs_ok s' \<and> files s' = (files s)(name := None) \<and>
    (case files s name of None \<Rightarrow> s' = s | Some txt \<Rightarrow> free_blocks s' = free_blocks s + blocks_of (length txt))"
  using delete_spec [OF assms] .

theorem delete_file_correct_witness:
  "\<exists>s s' msg. files s = [''a'' \<mapsto> ''hello''] \<and> delete_file ''a'' s = Some (s', msg) \<and> fs_ok s' \<and>
    files s' = Map.empty \<and> free_blocks s' = free_blocks s + 1"
proof -
  obtain s where s: "fs_ok s" "files s = [''a'' \<mapsto> ''hello'']" using one_file by blast
  from delete_file_correct [OF s(1), of "''a''"] s show ?thesis by (auto simp: blocks_of_def)
qed

text \<open>
  \<open>list_files\<close> prints one line for each file, in the order of the entries, and the size it
  prints is the length of the contents.
\<close>

theorem list_files_correct:
  assumes "fs_ok s"
  shows "list_files s = Some (Printf (''Files in the file system:'' @ [newline]) #
    map (\<lambda>e. list_line (text_of (file_name e)) (int (length (the (files s (text_of (file_name e)))))))
      (filter (\<lambda>e. in_use e \<noteq> 0) (File_entries s)))"
  using list_spec [OF assms] .

theorem list_files_correct_witness:
  "list_files fs_fresh = Some [Printf (''Files in the file system:'' @ [newline])]"
  using list_files_correct [OF fs_fresh_ok(1)] by (simp add: fs_fresh_def)

text \<open>
  A name of more than 100 characters overflows the name field: \<open>strcpy\<close> runs before the
  terminator is forced at index 100, so the intended truncation comes too late.
\<close>

theorem create_long_name_undefined:
  assumes "fs_ok s" "100 < length name" "files s name = None" "file_count s < 100" "0 < free_blocks s"
  shows "create_file name s = None"
proof -
  obtain cs where r: "fs_rel s cs" using assms(1) by (auto simp: fs_ok_iff)
  note len = fs_relD(1-4) [OF r]
  obtain i where i: "find_entry s = Some (int i)" "i < 100" using find_entry_ok [OF r] assms(4) by force
  obtain b where b: "find_block s = Some (int b)" "b < 1024" using find_block_ok [OF len(2)] assms(5) by force
  have f: "find_file s name = Some ENTRY" using find_file_ok [OF r, of name] assms(3) by force
  let ?s1 = "s\<lparr>File_entries := (File_entries s)[i := (File_entries s ! i)\<lparr>start := int b\<rparr>]\<rparr>"
  obtain d where d: "claim_block ?s1 (int b) = Some (?s1\<lparr>FAT := (FAT s)[b := -1], Disk := (Disk s)[b := d]\<rparr>)"
    using claim_block_ok [of ?s1 b] len b(2) fs_relD(6) [OF r b(2)] by auto
  have "strcpy (file_name (File_entries s ! i)) name = None"
    using fs_relD(5) [OF r i(2)] assms(2) by (intro strcpy_None) (simp add: entry_ok_def)
  then show ?thesis
    using f i b d len by (simp add: create_file_def ENTRY_def BLOCK_SIZE_def entry_set)
qed

theorem create_long_name_undefined_witness:
  "create_file (replicate 101 (CHR ''a'')) fs_fresh = None"
proof -
  have "free_blocks fs_fresh = 1024" "file_count fs_fresh = 0"
    by (simp_all add: free_blocks_def file_count_def fs_fresh_def)
  then show ?thesis
    using create_long_name_undefined [OF fs_fresh_ok(1), of "replicate 101 (CHR ''a'')"] by (simp add: fs_fresh_ok(2))
qed

end
