(* ===== verification/Fat_Persist.thy ===== *)
theory Fat_Persist
  imports Fat_Spec
begin

text \<open>
  Saving and loading the file system of \<open>Assignment5-2/fat.c\<close> and its \<open>main\<close>. The three files on
  the host are texts, absent ones \<open>None\<close>. The program starts with its globals zero, loads,
  executes one command and saves; the last sections show that what was saved is what is
  loaded, and that a sequence of runs of the program implements the same specification as
  the operations in memory.
\<close>

section \<open>The code\<close>

record host =
  entry_text :: "string option"
  fat_text :: "string option"
  disk_text :: "string option"

text \<open>One line of each file, as \<open>fprintf\<close> writes it.\<close>

definition entry_line :: "file_entry \<Rightarrow> string option" where
  "entry_line e = do {
     n \<leftarrow> cstr (file_name e);
     Some (n @ '' '' @ print_int (file_size e) @ '' '' @ print_int (start e) @ '' '' @ print_int (in_use e) @ [newline]) }"

definition block_line :: "char list \<Rightarrow> string option" where
  "block_line d = do { t \<leftarrow> cstr d; Some (t @ [newline]) }"

text \<open>The loops that print one line for each element of an array.\<close>

fun print_all :: "('a \<Rightarrow> string option) \<Rightarrow> 'a list \<Rightarrow> string option" where
  "print_all f [] = Some ''''"
| "print_all f (x # xs) = do { l \<leftarrow> f x; r \<leftarrow> print_all f xs; Some (l @ r) }"

text \<open>
  \<open>can_open\<close> says which files the host lets the program open for writing; opening one empties
  it.
\<close>

definition save_file_system :: "(string \<Rightarrow> bool) \<Rightarrow> fs \<Rightarrow> host \<Rightarrow> (int \<times> host) option" where
  "save_file_system can_open s h =
    (if \<not> can_open ''File_entry'' then Some (-1, h)
     else let h = h\<lparr>entry_text := Some ''''\<rparr> in
     if \<not> can_open ''FAT'' then Some (-1, h)
     else let h = h\<lparr>fat_text := Some ''''\<rparr> in
     if \<not> can_open ''Disk'' then Some (-1, h)
     else do {
       e \<leftarrow> print_all entry_line (File_entries s);
       f \<leftarrow> print_all (\<lambda>v. Some (print_int v @ [newline])) (FAT s);
       d \<leftarrow> print_all block_line (Disk s);
       Some (0, \<lparr>entry_text = Some e, fat_text = Some f, disk_text = Some d\<rparr>) })"

text \<open>
  \<open>fscanf(FE, "%s %d %d %d", ...)\<close> for one entry: the conversions stop at the first that fails,
  and what they did not reach keeps its value.
\<close>

definition scan_entry :: "file_entry \<Rightarrow> string \<Rightarrow> (file_entry \<times> string) option" where
  "scan_entry e tex = (case scan_word tex of
     (Val w, t) \<Rightarrow> do {
       nm \<leftarrow> strcpy (file_name e) w;
       st \<leftarrow> scan_field (\<lambda>v e. e\<lparr>file_size := v\<rparr>) (e\<lparr>file_name := nm\<rparr>, t, True);
       st \<leftarrow> scan_field (\<lambda>v e. e\<lparr>start := v\<rparr>) st;
       (e, t, more) \<leftarrow> scan_field (\<lambda>v e. e\<lparr>in_use := v\<rparr>) st;
       Some (e, t) }
   | (_, t) \<Rightarrow> Some (e, t))"

fun load_entries :: "file_entry list \<Rightarrow> string \<Rightarrow> file_entry list option" where
  "load_entries [] tex = Some []"
| "load_entries (e # es) tex = do { (e', t) \<leftarrow> scan_entry e tex; es' \<leftarrow> load_entries es t; Some (e' # es') }"

fun load_fat :: "int list \<Rightarrow> string \<Rightarrow> int list option" where
  "load_fat [] tex = Some []"
| "load_fat (v # vs) tex = do {
     (v', t, more) \<leftarrow> scan_field (\<lambda>x _. x) (v, tex, True);
     vs' \<leftarrow> load_fat vs t;
     Some (v' # vs') }"

fun load_disk :: "char list list \<Rightarrow> string \<Rightarrow> char list list option" where
  "load_disk [] tex = Some []"
| "load_disk (d # ds) tex = (case fgets (nat BYTES + 2) tex of
     None \<Rightarrow> Some (d # ds)
   | Some (buf, t) \<Rightarrow> (let b = text_of buf in
       if b = [] then None
       else do { d' \<leftarrow> strcpy d (butlast b); ds' \<leftarrow> load_disk ds t; Some (d' # ds') }))"

definition load_file_system :: "host \<Rightarrow> fs \<Rightarrow> (int \<times> fs \<times> out list) option" where
  "load_file_system h s = (case entry_text h of
     None \<Rightarrow> Some (0, s\<lparr>File_entries := map (\<lambda>e. e\<lparr>in_use := 0\<rparr>) (File_entries s), FAT := map (\<lambda>v. -2) (FAT s)\<rparr>,
       [Printf (''Warning: No saved state found. Starting fresh.'' @ [newline])])
   | Some e \<Rightarrow> (case fat_text h of None \<Rightarrow> Some (-1, s, [])
     | Some f \<Rightarrow> (case disk_text h of None \<Rightarrow> Some (-1, s, [])
       | Some d \<Rightarrow> do {
           es \<leftarrow> load_entries (File_entries s) e;
           fat \<leftarrow> load_fat (FAT s) f;
           disk \<leftarrow> load_disk (Disk s) d;
           Some (0, \<lparr>File_entries = es, FAT = fat, Disk = disk\<rparr>, []) })))"

text \<open>The globals of a program that starts.\<close>

definition fs_zero :: fs where
  "fs_zero = \<lparr>File_entries = replicate 100 \<lparr>file_name = replicate 101 NUL, start = 0, file_size = 0, in_use = 0\<rparr>,
     FAT = replicate 1024 0, Disk = replicate 1024 (replicate 33 NUL)\<rparr>"

definition run_command :: "string list \<Rightarrow> fs \<Rightarrow> (fs \<times> out list) option" where
  "run_command argv s =
    (if argv ! 0 = ''create'' \<and> length argv = 2 then create_file (argv ! 1) s
     else if argv ! 0 = ''list'' \<and> length argv = 1 then map_option (Pair s) (list_files s)
     else if argv ! 0 = ''write'' \<and> length argv = 3 then write_file (argv ! 1) (argv ! 2) s
     else if argv ! 0 = ''read'' \<and> length argv = 2 then map_option (Pair s) (read_file (argv ! 1) s)
     else if argv ! 0 = ''delete'' \<and> length argv = 2 then delete_file (argv ! 1) s
     else Some (s, [Perror ''wrong command or wrong argument'']))"

text \<open>\<open>argv\<close> without the program name.\<close>

definition fat_main :: "(string \<Rightarrow> bool) \<Rightarrow> string list \<Rightarrow> host \<Rightarrow> (host \<times> out list) option" where
  "fat_main can_open argv h =
    (if length argv < 1 \<or> 3 < length argv
     then Some (h, [Perror ''Argument format: [API] [file name] [contents to write]''])
     else do {
       (r, s, o1) \<leftarrow> load_file_system h fs_zero;
       if r < 0 then Some (h, o1 @ [Perror ''files are not loaded''])
       else do {
         (s, o2) \<leftarrow> run_command argv s;
         (r, h) \<leftarrow> save_file_system can_open s h;
         Some (h, o1 @ o2 @ (if r < 0 then [Perror ''disk is damaged''] else [])) } })"

section \<open>Reading back the entries\<close>

text \<open>A line with a proper name is read back whole; its newline stays for the next call.\<close>

lemma scan_entry_line:
  assumes "is_word n" "length n < length (file_name e)" "int_range sz" "int_range st" "int_range us"
    and "\<forall>c \<in> set ws. is_space c"
  shows "scan_entry e (ws @ n @ '' '' @ print_int sz @ '' '' @ print_int st @ '' '' @ print_int us @ newline # r) =
    Some (e\<lparr>file_name := n @ NUL # drop (Suc (length n)) (file_name e), file_size := sz, start := st, in_use := us\<rparr>, newline # r)"
proof -
  have "scan_word (ws @ n @ CHR '' '' # x) = (Val n, CHR '' '' # x)" for x
    using scan_word_print [OF assms(6,1), of "CHR '' '' # x"] by simp
  then show ?thesis
    using assms(2-5) by (simp add: scan_entry_def strcpy_def scan_field_one)
qed

text \<open>
  The lines of entries that were never used have no name, so that \<open>%s\<close> reads a number and the
  following conversions run into the next line. All of it is zeros and space.
\<close>

inductive ztoks :: "string \<Rightarrow> bool" where
  none: "\<forall>c \<in> set ws. is_space c \<Longrightarrow> ztoks ws"
| more: "\<forall>c \<in> set ws. is_space c \<Longrightarrow> r = [] \<or> is_space (hd r) \<Longrightarrow> ztoks r \<Longrightarrow> ztoks (ws @ ''0'' @ r)"

lemma print_zero [simp]: "print_int 0 = ''0''"
proof -
  have "char_of (48::nat) = CHR ''0''" by code_simp
  then show ?thesis by (simp add: print_int_def print_nat.simps digit_char_def)
qed

lemma ztoks_scan_word:
  assumes "ztoks z"
  obtains (eof) "scan_word z = (Eof, [])" | (zero) r where "scan_word z = (Val ''0'', r)" "ztoks r"
  using assms
proof (cases rule: ztoks.cases)
  case none
  then have "skip_space z = []" by (simp add: skip_space_def)
  then show thesis using eof by (simp add: scan_word_def Let_def)
next
  case (more ws r)
  have "is_word ''0''" using print_int_word [of 0] by simp
  from scan_word_print [OF more(2) this more(3)] show thesis using zero [of r] more(1,4) by simp
qed

lemma ztoks_scan_field:
  assumes "ztoks z"
  obtains r b where "scan_field put (e, z, go) = Some (if b then put 0 e else e, r, b)" "ztoks r"
proof (cases go)
  case False
  then show thesis using that [of False z] assms by (simp add: scan_field_def)
next
  case True
  from assms show thesis
  proof (cases rule: ztoks.cases)
    case none
    then have "skip_space z = []" by (simp add: skip_space_def)
    then show thesis using that [of False "[]"] True ztoks.none [of "[]"] by (simp add: scan_field_def scan_int_def Let_def)
  next
    case (more ws r)
    have "no_digit_first r" using more(3) by (auto simp: no_digit_first_def is_space_def is_digit_def)
    then show thesis
      using that [of True r] True more scan_field_print [of 0 ws r put e] by (simp add: int_range_def INT_MIN_def INT_MAX_def)
  qed
qed

text \<open>An entry as the program starts with it, and the two forms that a loaded entry can have.\<close>

definition blank :: "file_entry \<Rightarrow> bool" where
  "blank e \<longleftrightarrow> entry_ok e \<and> text_of (file_name e) = '''' \<and> file_size e = 0 \<and> start e = 0 \<and> in_use e = 0"

definition named :: "file_entry \<Rightarrow> bool" where
  "named e \<longleftrightarrow> entry_ok e \<and> is_word (text_of (file_name e)) \<and> int_range (file_size e) \<and> int_range (start e) \<and>
     int_range (in_use e)"

text \<open>All entries with a name come first.\<close>

fun tidy :: "file_entry list \<Rightarrow> bool" where
  "tidy [] = True"
| "tidy (e # es) \<longleftrightarrow> named e \<and> tidy es \<or> (\<forall>x \<in> set (e # es). blank x)"

text \<open>The same entry as far as the file system is concerned.\<close>

definition same_entry :: "file_entry \<Rightarrow> file_entry \<Rightarrow> bool" where
  "same_entry e e' \<longleftrightarrow> in_use e' = in_use e \<and> (in_use e \<noteq> 0 \<longrightarrow>
     text_of (file_name e') = text_of (file_name e) \<and> file_size e' = file_size e \<and> start e' = start e)"

lemma blank_tidy: "\<forall>e \<in> set es. blank e \<Longrightarrow> tidy es"
  by (cases es) simp_all

lemma zero_word: "is_word ''0''" "no_nul ''0''"
  using print_int_word [of 0] by (simp_all add: no_nul_def NUL_def)

lemma scan_entry_zeros:
  assumes "ztoks z" "blank e"
  obtains (eof) "scan_entry e z = Some (e, [])" "skip_space z = []"
    | (zero) e' r where "scan_entry e z = Some (e', r)" "ztoks r" "named e'" "in_use e' = 0"
  using assms(1)
proof (cases rule: ztoks_scan_word)
  case eof': eof
  then have "skip_space z = []" by (auto simp: scan_word_def Let_def split: if_splits)
  then show thesis using eof eof' by (simp add: scan_entry_def)
next
  case z0: (zero r)
  have len: "length (file_name e) = 101" using assms(2) by (simp add: blank_def entry_ok_def)
  let ?nm = "''0'' @ NUL # drop 2 (file_name e)" and ?e = "e\<lparr>file_name := ''0'' @ NUL # drop 2 (file_name e)\<rparr>"
  obtain r1 b1 where 1: "scan_field (\<lambda>v e. e\<lparr>file_size := v\<rparr>) (?e, r, True) = Some (if b1 then ?e\<lparr>file_size := 0\<rparr> else ?e, r1, b1)" "ztoks r1"
    by (rule ztoks_scan_field [OF z0(2)])
  have e1: "(if b1 then ?e\<lparr>file_size := 0\<rparr> else ?e) = ?e" using assms(2) by (simp add: blank_def)
  obtain r2 b2 where 2: "scan_field (\<lambda>v e. e\<lparr>start := v\<rparr>) (?e, r1, b1) = Some (if b2 then ?e\<lparr>start := 0\<rparr> else ?e, r2, b2)" "ztoks r2"
    by (rule ztoks_scan_field [OF 1(2)])
  have e2: "(if b2 then ?e\<lparr>start := 0\<rparr> else ?e) = ?e" using assms(2) by (simp add: blank_def)
  obtain r3 b3 where 3: "scan_field (\<lambda>v e. e\<lparr>in_use := v\<rparr>) (?e, r2, b2) = Some (if b3 then ?e\<lparr>in_use := 0\<rparr> else ?e, r3, b3)" "ztoks r3"
    by (rule ztoks_scan_field [OF 2(2)])
  have e3: "(if b3 then ?e\<lparr>in_use := 0\<rparr> else ?e) = ?e" using assms(2) by (simp add: blank_def)
  have "strcpy (file_name e) ''0'' = Some ?nm" using len by (simp add: strcpy_def numeral_2_eq_2)
  then have "scan_entry e z = Some (?e, r3)" using z0(1) 1(1) 2(1) 3(1) unfolding e1 e2 e3 by (simp add: scan_entry_def)
  moreover have "text_of ?nm = ''0''" by (rule text_of_terminated) (rule zero_word(2))
  then have "named ?e"
    using assms(2) zero_word(1) len by (simp add: named_def blank_def entry_ok_def int_range_def INT_MIN_def INT_MAX_def)
  moreover have "in_use ?e = 0" using assms(2) by (simp add: blank_def)
  ultimately show thesis using 3(2) zero by blast
qed

lemma load_nothing: "skip_space z = [] \<Longrightarrow> load_entries es z = Some es"
proof (induction es arbitrary: z)
  case (Cons e es)
  have "scan_entry e z = Some (e, [])" using Cons.prems by (simp add: scan_entry_def scan_word_def)
  with Cons.IH [of "[]"] show ?case by (simp add: skip_space_def)
qed simp

lemma load_zeros:
  assumes "ztoks z" "\<forall>e \<in> set es. blank e"
  shows "\<exists>es'. load_entries es z = Some es' \<and> length es' = length es \<and> tidy es' \<and> (\<forall>e \<in> set es'. in_use e = 0)"
  using assms
proof (induction es arbitrary: z)
  case (Cons e es)
  have "blank e" using Cons.prems(2) by simp
  with Cons.prems(1) show ?case
  proof (cases rule: scan_entry_zeros)
    case eof
    then have "load_entries (e # es) z = Some (e # es)" by (intro load_nothing)
    with Cons.prems(2) show ?thesis by (auto simp: blank_def)
  next
    case (zero e' r)
    then show ?thesis using Cons.IH [OF zero(2)] Cons.prems(2) by auto
  qed
qed simp

lemma entry_line_eq: "entry_ok e \<Longrightarrow> entry_line e = Some (text_of (file_name e) @ '' '' @ print_int (file_size e) @ '' '' @
    print_int (start e) @ '' '' @ print_int (in_use e) @ [newline])"
  by (simp add: entry_line_def entry_ok_def)

lemma tidy_entry_ok: "tidy es \<Longrightarrow> e \<in> set es \<Longrightarrow> entry_ok e"
  by (induction es) (auto simp: named_def blank_def)

lemma print_all_total: "(\<And>x. x \<in> set xs \<Longrightarrow> f x \<noteq> None) \<Longrightarrow> \<exists>tex. print_all f xs = Some tex"
proof (induction xs)
  case (Cons x xs)
  then obtain r where "print_all f xs = Some r" by auto
  moreover obtain l where "f x = Some l" using Cons.prems [of x] by auto
  ultimately show ?case by simp
qed simp

lemma blank_lines:
  assumes "\<forall>e \<in> set es. blank e" "\<forall>c \<in> set ws. is_space c"
  shows "\<exists>tex. print_all entry_line es = Some tex \<and> ztoks (ws @ tex)"
  using assms
proof (induction es arbitrary: ws)
  case Nil
  then show ?case by (simp add: ztoks.none)
next
  case (Cons e es)
  obtain tex where tx: "print_all entry_line es = Some tex" "ztoks ([newline] @ tex)"
    using Cons.IH [of "[newline]"] Cons.prems(1) by auto
  have "ztoks ('' '' @ ''0'' @ [newline] @ tex)" by (rule ztoks.more [OF _ _ tx(2)]) simp_all
  then have "ztoks ('' '' @ ''0'' @ '' '' @ ''0'' @ [newline] @ tex)" by (rule ztoks.more [rotated -1]) simp_all
  then have "ztoks ((ws @ '' '') @ ''0'' @ '' '' @ ''0'' @ '' '' @ ''0'' @ [newline] @ tex)"
    by (rule ztoks.more [rotated -1]) (use Cons.prems(2) in auto)
  moreover have "entry_line e = Some ('' '' @ ''0'' @ '' '' @ ''0'' @ '' '' @ ''0'' @ [newline])"
    using Cons.prems(1) entry_line_eq [of e] by (simp add: blank_def)
  ultimately show ?case using tx(1) by simp
qed

text \<open>Loading what was printed gives entries that are the same to the file system, and tidy again.\<close>

lemma load_printed_entries:
  assumes "tidy es" "length gs = length es" "\<forall>g \<in> set gs. blank g" "\<forall>c \<in> set ws. is_space c"
  shows "\<exists>tex es'. print_all entry_line es = Some tex \<and> load_entries gs (ws @ tex) = Some es' \<and>
    length es' = length es \<and> tidy es' \<and> list_all2 same_entry es es'"
  using assms
proof (induction es arbitrary: gs ws)
  case Nil
  then show ?case by simp
next
  case (Cons e es)
  show ?case
  proof (cases "\<forall>x \<in> set (e # es). blank x")
    case True
    obtain tex where tx: "print_all entry_line (e # es) = Some tex" "ztoks (ws @ tex)"
      using blank_lines [OF True Cons.prems(4)] by blast
    obtain es' where es': "load_entries gs (ws @ tex) = Some es'" "length es' = length gs" "tidy es'" "\<forall>e \<in> set es'. in_use e = 0"
      using load_zeros [OF tx(2) Cons.prems(3)] by blast
    have "list_all2 same_entry (e # es) es'"
    proof (rule list_all2_all_nthI)
      show "length (e # es) = length es'" using es'(2) Cons.prems(2) by simp
      fix i assume i: "i < length (e # es)"
      then have "in_use ((e # es) ! i) = 0" using True nth_mem [OF i] by (simp only: blank_def)
      moreover have "in_use (es' ! i) = 0" using es'(2,4) Cons.prems(2) i by simp
      ultimately show "same_entry ((e # es) ! i) (es' ! i)" by (simp add: same_entry_def)
    qed
    with tx(1) es' Cons.prems(2) show ?thesis by auto
  next
    case False
    then have ne: "named e" "tidy es" using Cons.prems(1) by auto
    obtain g gs' where gs: "gs = g # gs'" "blank g" using Cons.prems(2,3) by (cases gs) auto
    obtain tex es' where IH: "print_all entry_line es = Some tex" "load_entries gs' ([newline] @ tex) = Some es'"
        "length es' = length es" "tidy es'" "list_all2 same_entry es es'"
      using Cons.IH [of gs' "[newline]"] ne(2) gs Cons.prems(2,3) by auto
    let ?n = "text_of (file_name e)"
    have len: "length (file_name g) = 101" "length ?n < 101"
      using gs(2) ne(1) text_of_less [of "file_name e"] by (auto simp: blank_def named_def entry_ok_def)
    let ?e' = "g\<lparr>file_name := ?n @ NUL # drop (Suc (length ?n)) (file_name g), file_size := file_size e, start := start e, in_use := in_use e\<rparr>"
    have line: "entry_line e = Some (?n @ '' '' @ print_int (file_size e) @ '' '' @ print_int (start e) @ '' '' @ print_int (in_use e) @ [newline])"
      using ne(1) by (intro entry_line_eq) (simp add: named_def)
    have "scan_entry g (ws @ ?n @ '' '' @ print_int (file_size e) @ '' '' @ print_int (start e) @ '' '' @ print_int (in_use e) @ newline # tex) =
        Some (?e', newline # tex)"
      using ne(1) len Cons.prems(4) by (intro scan_entry_line) (simp_all add: named_def)
    moreover have "named ?e'" using ne(1) len by (simp add: named_def entry_ok_def)
    moreover have "same_entry e ?e'" by (simp add: same_entry_def)
    ultimately show ?thesis using line IH gs(1) by auto
  qed
qed

section \<open>Reading back the FAT and the disk\<close>

lemma load_printed_fat:
  assumes "\<forall>v \<in> set vs. int_range v" "length gs = length vs" "\<forall>c \<in> set ws. is_space c"
  shows "\<exists>tex. print_all (\<lambda>v. Some (print_int v @ [newline])) vs = Some tex \<and> load_fat gs (ws @ tex) = Some vs"
  using assms
proof (induction vs arbitrary: gs ws)
  case Nil
  then show ?case by simp
next
  case (Cons v vs)
  obtain g gs' where gs: "gs = g # gs'" using Cons.prems(2) by (cases gs) auto
  obtain tex where IH: "print_all (\<lambda>v. Some (print_int v @ [newline])) vs = Some tex" "load_fat gs' ([newline] @ tex) = Some vs"
    using Cons.IH [of gs' "[newline]"] Cons.prems gs by auto
  have "scan_field (\<lambda>x _. x) (g, ws @ print_int v @ newline # tex, True) = Some (v, newline # tex, True)"
    using Cons.prems(1,3) by (intro scan_field_print) simp_all
  then show ?case using IH gs by simp
qed

definition plain_block :: "char list \<Rightarrow> bool" where
  "plain_block d \<longleftrightarrow> block_ok d \<and> newline \<notin> set d"

lemma text_of_no_nul: "no_nul s \<Longrightarrow> text_of s = s"
  by (auto simp: text_of_def no_nul_def takeWhile_eq_all_conv)

lemma fgets_line:
  assumes "newline \<notin> set t" "length t \<le> 32"
  shows "fgets 34 (t @ newline # r) = Some (t @ [newline], r)"
proof -
  have "33 - length t = Suc (32 - length t)" using assms(2) by simp
  then have m: "take 33 (t @ newline # r) = t @ newline # take (32 - length t) r" using assms(2) by simp
  have "takeWhile (\<lambda>c. c \<noteq> newline) (t @ newline # x) = t" for x
    using assms(1) by (induction t) auto
  then show ?thesis by (simp add: fgets_def m Let_def del: take_append)
qed

lemma load_printed_disk:
  assumes "\<forall>d \<in> set ds. plain_block d" "length gs = length ds" "\<forall>g \<in> set gs. plain_block g"
  shows "\<exists>tex ds'. print_all block_line ds = Some tex \<and> load_disk gs tex = Some ds' \<and> length ds' = length ds \<and>
    (\<forall>d \<in> set ds'. plain_block d) \<and> list_all2 (\<lambda>d d'. text_of d' = text_of d) ds ds'"
  using assms
proof (induction ds arbitrary: gs)
  case Nil
  then show ?case by simp
next
  case (Cons d ds)
  obtain g gs' where gs: "gs = g # gs'" "plain_block g" using Cons.prems(2,3) by (cases gs) auto
  obtain tex ds' where IH: "print_all block_line ds = Some tex" "load_disk gs' tex = Some ds'" "length ds' = length ds"
      "\<forall>d \<in> set ds'. plain_block d" "list_all2 (\<lambda>d d'. text_of d' = text_of d) ds ds'"
    using Cons.IH [of gs'] Cons.prems gs by auto
  let ?t = "text_of d"
  have d: "NUL \<in> set d" "length d = 33" "newline \<notin> set d" "length g = 33" "newline \<notin> set g"
    using Cons.prems(1) gs(2) by (auto simp: plain_block_def block_ok_def)
  have t: "newline \<notin> set ?t" "length ?t \<le> 32"
    using d(2,3) text_of_less [OF d(1)] by (auto simp: text_of_def dest: set_takeWhileD)
  have nn: "no_nul (?t @ [newline])"
    using no_nul_text_of [of d] by (auto simp: no_nul_def NUL_def newline_def)
  have tt: "text_of (?t @ [newline]) = ?t @ [newline]" by (rule text_of_no_nul [OF nn])
  let ?d' = "?t @ NUL # drop (Suc (length ?t)) g"
  have "strcpy g ?t = Some ?d'" using t(2) d(4) by (simp add: strcpy_def)
  moreover have "plain_block ?d'"
    using t d(4,5) in_set_dropD by (fastforce simp: plain_block_def block_ok_def newline_def NUL_def)
  moreover have "block_line d = Some (?t @ [newline])" using d(1) by (simp add: block_line_def)
  moreover have "load_disk gs (?t @ newline # tex) = Some (?d' # ds')"
    using gs(1) fgets_line [OF t] tt IH(2) \<open>strcpy g ?t = Some ?d'\<close> by (simp add: BYTES_def)
  ultimately show ?case using IH by auto
qed

section \<open>The round trip\<close>

text \<open>What a state must satisfy to survive being saved, beyond well-formedness.\<close>

definition saveable :: "fs \<Rightarrow> bool" where
  "saveable s \<longleftrightarrow> tidy (File_entries s) \<and> (\<forall>d \<in> set (Disk s). plain_block d)"

text \<open>The same file system in other buffers.\<close>

definition same_fs :: "fs \<Rightarrow> fs \<Rightarrow> bool" where
  "same_fs s s' \<longleftrightarrow> list_all2 same_entry (File_entries s) (File_entries s') \<and> FAT s' = FAT s \<and>
     list_all2 (\<lambda>d d'. text_of d' = text_of d) (Disk s) (Disk s')"

lemma linked_value: "linked fat bs \<Longrightarrow> b \<in> set bs \<Longrightarrow> fat ! b = -1 \<or> (\<exists>c < length fat. fat ! b = int c)"
proof (induction fat bs rule: linked.induct)
  case (3 fat b' c bs)
  have "c < length fat" using linked_less [of fat "c # bs" c] 3(2) by simp
  with 3 show ?case by auto
qed auto

lemma fat_int_range:
  assumes "fs_rel s cs" "v \<in> set (FAT s)"
  shows "int_range v"
proof -
  note r = assms(1)
  obtain b where b: "b < 1024" "v = FAT s ! b" using assms(2) fs_relD(2) [OF r] by (auto simp: in_set_conv_nth)
  show ?thesis
  proof (cases "b \<in> set (concat cs)")
    case False
    then show ?thesis using fs_relD(9) [OF r b(1)] b(2) by (simp add: int_range_def INT_MIN_def INT_MAX_def)
  next
    case True
    then obtain i where i: "i < 100" "b \<in> set (cs ! i)" using fs_relD(4) [OF r] in_concat_iff [of b cs] by auto
    have "in_use (File_entries s ! i) \<noteq> 0" using fs_rel_block(3) [OF r i] .
    then have "linked (FAT s) (cs ! i)" using fs_rel_chain(1) [OF r i(1)] by simp
    then show ?thesis
      using linked_value [of "FAT s" "cs ! i" b] i(2) b(2) fs_relD(2) [OF r] by (auto simp: int_range_def INT_MIN_def INT_MAX_def)
  qed
qed

lemma same_fs_files:
  assumes "fs_ok s" "same_fs s s'" "saveable s'"
  shows "fs_ok s' \<and> files s' = files s"
proof -
  obtain cs where r: "fs_rel s cs" and t: "tight s cs" using assms(1) by (auto simp: fs_ok_iff)
  note len = fs_relD(1-4) [OF r]
  have es: "length (File_entries s') = 100" "\<And>i. i < 100 \<Longrightarrow> same_entry (File_entries s ! i) (File_entries s' ! i)"
    and fat: "FAT s' = FAT s"
    and ds: "length (Disk s') = 1024" "\<And>b. b < 1024 \<Longrightarrow> text_of (Disk s' ! b) = text_of (Disk s ! b)"
    using assms(2) len by (auto simp: same_fs_def list_all2_conv_all_nth)
  have block: "b < 1024" if "i < 100" "b \<in> set (cs ! i)" for i b using fs_rel_block(1) [OF r that] .
  have content: "content_of s' (cs ! i) = content_of s (cs ! i)" if "i < 100" for i
    unfolding content_of_def using ds(2) block [OF that] by (intro arg_cong [where f = concat] map_cong) auto
  have "shape_ok s'"
    using es(1) ds(1) fat len assms(3) tidy_entry_ok by (auto simp: shape_ok_def saveable_def plain_block_def)
  moreover have "file_ok s' (File_entries s' ! i) (cs ! i)" if i: "i < 100" for i
    using fs_relD(7) [OF r i] es(2) [OF i] content [OF i] fat ds(2) block [OF i] in_set_butlastD [of _ "cs ! i"]
    by (auto simp: file_ok_def same_entry_def)
  moreover have "names_ok (File_entries s')"
    unfolding names_ok_def es(1)
  proof (intro allI impI)
    fix i j assume ij: "i < 100" "j < 100" and "in_use (File_entries s' ! i) \<noteq> 0 \<and> in_use (File_entries s' ! j) \<noteq> 0 \<and>
        text_of (file_name (File_entries s' ! i)) = text_of (file_name (File_entries s' ! j))"
    then show "i = j"
      using names_okD [OF fs_relD(10) [OF r], of i j] es(2) [OF ij(1)] es(2) [OF ij(2)] len(1) by (simp add: same_entry_def)
  qed
  ultimately have r': "fs_rel s' cs" using r fat by (simp add: fs_rel_def)
  have "tight s' cs"
    unfolding tight_def
  proof (intro ballI impI)
    fix bs assume bs: "bs \<in> set cs" "1 < length bs"
    then obtain i where "i < 100" "bs = cs ! i" using len(4) by (auto simp: in_set_conv_nth)
    moreover have "last bs \<in> set bs" using bs(2) by (cases bs) auto
    ultimately show "text_of (Disk s' ! last bs) \<noteq> []" using t bs ds(2) block by (simp add: tight_def)
  qed
  moreover have "files s' n = Some c \<longleftrightarrow> files s n = Some c" for n c
    unfolding files_iff [OF r] files_iff [OF r'] using es(2) content by (auto simp: same_entry_def)
  then have "files s' = files s" by (intro ext map_eqI) simp
  ultimately show ?thesis using r' by (auto simp: fs_ok_iff)
qed

lemma zero_blank: "\<forall>e \<in> set (File_entries fs_zero). blank e" "\<forall>d \<in> set (Disk fs_zero). plain_block d"
  by (auto simp: fs_zero_def blank_def entry_ok_def plain_block_def block_ok_def text_of_def newline_def NUL_def)

lemma load_save:
  assumes "fs_ok s" "saveable s"
  obtains h s' where "save_file_system (\<lambda>f. True) s h0 = Some (0, h)" "load_file_system h fs_zero = Some (0, s', [])"
    "fs_ok s'" "saveable s'" "files s' = files s"
proof -
  obtain cs where r: "fs_rel s cs" using assms(1) by (auto simp: fs_ok_iff)
  note len = fs_relD(1-3) [OF r]
  have z: "length (File_entries fs_zero) = 100" "length (FAT fs_zero) = 1024" "length (Disk fs_zero) = 1024"
    by (simp_all add: fs_zero_def)
  obtain e es' where e: "print_all entry_line (File_entries s) = Some e" "load_entries (File_entries fs_zero) e = Some es'"
      "tidy es'" "list_all2 same_entry (File_entries s) es'"
    using load_printed_entries [of "File_entries s" "File_entries fs_zero" "[]"] assms(2) len z zero_blank by (auto simp: saveable_def)
  obtain f where f: "print_all (\<lambda>v. Some (print_int v @ [newline])) (FAT s) = Some f" "load_fat (FAT fs_zero) f = Some (FAT s)"
    using load_printed_fat [of "FAT s" "FAT fs_zero" "[]"] fat_int_range [OF r] len z by auto
  obtain d ds' where d: "print_all block_line (Disk s) = Some d" "load_disk (Disk fs_zero) d = Some ds'"
      "\<forall>d \<in> set ds'. plain_block d" "list_all2 (\<lambda>d d'. text_of d' = text_of d) (Disk s) ds'"
    using load_printed_disk [of "Disk s" "Disk fs_zero"] assms(2) len z zero_blank by (auto simp: saveable_def)
  define s' where "s' = \<lparr>File_entries = es', FAT = FAT s, Disk = ds'\<rparr>"
  have sv: "saveable s'" using e(3) d(3) by (simp add: saveable_def s'_def)
  have "same_fs s s'" using e(4) d(4) by (simp add: same_fs_def s'_def)
  note ok = same_fs_files [OF assms(1) this sv]
  show thesis
    using ok sv e(1,2) f d(1,2)
    by (intro that [of "\<lparr>entry_text = Some e, fat_text = Some f, disk_text = Some d\<rparr>" s'])
      (simp_all add: save_file_system_def load_file_system_def s'_def Let_def)
qed

section \<open>The operations keep a state that can be saved\<close>

lemma tidy_used: "tidy es \<Longrightarrow> i < length es \<Longrightarrow> in_use (es ! i) \<noteq> 0 \<Longrightarrow> named (es ! i)"
proof (induction es arbitrary: i)
  case (Cons e es)
  show ?case
  proof (cases "\<forall>x \<in> set (e # es). blank x")
    case True
    then have "blank ((e # es) ! i)" using nth_mem [OF Cons.prems(2)] by blast
    then show ?thesis using Cons.prems(3) by (simp add: blank_def)
  next
    case False
    then show ?thesis using Cons by (cases i) auto
  qed
qed simp

text \<open>An entry may be replaced when all before it are in use.\<close>

lemma tidy_update: "tidy es \<Longrightarrow> \<forall>j < i. in_use (es ! j) \<noteq> 0 \<Longrightarrow> named e' \<Longrightarrow> tidy (es[i := e'])"
proof (induction es arbitrary: i)
  case (Cons e es)
  show ?case
  proof (cases i)
    case 0
    have "tidy es" using Cons.prems(1) blank_tidy by auto
    then show ?thesis using 0 Cons.prems(3) by simp
  next
    case (Suc k)
    have "in_use e \<noteq> 0" using Cons.prems(2) Suc by force
    then have "named e" "tidy es" using Cons.prems(1) by (auto simp: blank_def)
    moreover have "\<forall>j < k. in_use (es ! j) \<noteq> 0" using Cons.prems(2) Suc by force
    ultimately show ?thesis using Cons.IH Cons.prems(3) Suc by simp
  qed
qed simp

lemma tidy_replace:
  "tidy es \<Longrightarrow> i < length es \<Longrightarrow> in_use (es ! i) \<noteq> 0 \<Longrightarrow> named e' \<Longrightarrow> tidy (es[i := e'])"
proof (induction es arbitrary: i)
  case (Cons e es)
  have nb: "\<not> (\<forall>x \<in> set (e # es). blank x)"
  proof
    assume "\<forall>x \<in> set (e # es). blank x"
    then have "blank ((e # es) ! i)" using nth_mem [OF Cons.prems(2)] by blast
    then show False using Cons.prems(3) by (simp add: blank_def)
  qed
  then show ?case using Cons by (cases i) auto
qed simp

lemma plain_update: "\<forall>d \<in> set ds. plain_block d \<Longrightarrow> plain_block d' \<Longrightarrow> \<forall>d \<in> set (ds[b := d']). plain_block d"
  using set_update_subset_insert [of ds b d'] by auto

lemma claim_block_keeps:
  assumes "claim_block s b = Some s'"
  shows "File_entries s' = File_entries s"
    and "\<forall>d \<in> set (Disk s). plain_block d \<Longrightarrow> \<forall>d \<in> set (Disk s'). plain_block d"
proof -
  obtain fat d d' disk where c: "rd (Disk s) b = Some d" "strcpy d '''' = Some d'" "wr (Disk s) b d' = Some disk"
      "s' = s\<lparr>FAT := fat, Disk := disk\<rparr>"
    using assms by (auto simp: claim_block_def split: bind_splits)
  then show "File_entries s' = File_entries s" by simp
  assume pl: "\<forall>d \<in> set (Disk s). plain_block d"
  have "plain_block d" using c(1) pl by (auto simp: rd_eq_Some_iff)
  moreover have "d' = NUL # drop 1 d" "d \<noteq> []" using c(2) by (auto simp: strcpy_def split: if_splits)
  ultimately have "plain_block d'"
    by (cases d) (auto simp: plain_block_def block_ok_def newline_def NUL_def)
  then show "\<forall>d \<in> set (Disk s'). plain_block d" using plain_update [OF pl] c(3,4) by (auto simp: wr_eq_Some_iff)
qed

lemma put_bytes_keeps:
  "put_bytes d k content sz = Some (d', k', rest, sz') \<Longrightarrow> newline \<notin> set d \<Longrightarrow> int_range sz \<Longrightarrow>
    newline \<notin> set d' \<and> length d' = length d \<and> int_range sz'"
proof (induction d k content sz rule: put_bytes.induct)
  case (2 d k c content sz)
  show ?case
  proof (cases "k < BYTES")
    case True
    obtain d1 sz1 where d1: "wr d k (if c = newline then CHR 0x20 else c) = Some d1" "c_int (sz + 1) = Some sz1"
        "put_bytes d1 (k + 1) content sz1 = Some (d', k', rest, sz')"
      using 2(2) True by (auto split: bind_splits)
    have "newline \<notin> set d1" "length d1 = length d"
      using d1(1) 2(3) set_update_subset_insert [of d "nat k" "if c = newline then CHR 0x20 else c"]
      by (auto simp: wr_eq_Some_iff newline_def split: if_splits)
    moreover have "int_range sz1" using c_int_SomeD [OF d1(2)] by (simp add: int_range_def)
    ultimately show ?thesis using 2(1) [OF True d1(1,2,3)] by simp
  next
    case False
    then show ?thesis using 2(2,3,4) by simp
  qed
qed auto

definition writing :: "int \<Rightarrow> fs \<Rightarrow> bool" where
  "writing i s \<longleftrightarrow> saveable s \<and> 0 \<le> i \<and> i < int (length (File_entries s)) \<and> in_use (File_entries s ! nat i) \<noteq> 0"

lemma writing_fat [simp]: "writing i (s\<lparr>FAT := f\<rparr>) = writing i s"
  by (simp add: writing_def saveable_def)

lemma writing_claim:
  assumes "writing i s" "claim_block s b = Some s'"
  shows "writing i s'"
  using assms(1) claim_block_keeps [OF assms(2)] by (simp add: writing_def saveable_def)

lemma writing_fill:
  assumes "writing i s" "fill_block i b content s = Some (rest, s')"
  shows "writing i s'"
proof -
  let ?e = "File_entries s ! nat i"
  have i: "nat i < length (File_entries s)" "0 \<le> i" and u: "in_use ?e \<noteq> 0" and t: "tidy (File_entries s)"
    and pl: "\<forall>d \<in> set (Disk s). plain_block d"
    using assms(1) by (auto simp: writing_def saveable_def)
  have n: "named ?e" by (rule tidy_used [OF t i(1) u])
  obtain d d1 k sz d2 disk where d: "rd (Disk s) b = Some d" "put_bytes d (int (length (text_of d))) content (file_size ?e) = Some (d1, k, rest, sz)"
      "wr d1 k NUL = Some d2" "wr (Disk s) b d2 = Some disk"
      "s' = s\<lparr>Disk := disk, File_entries := (File_entries s)[nat i := ?e\<lparr>file_size := sz\<rparr>]\<rparr>"
    using assms(2) i by (auto simp: fill_block_def set_entry_def rd_eq_Some_iff wr_eq_Some_iff cstr_def text_of_def split: bind_splits if_splits)
  have pd: "plain_block d" using d(1) pl by (auto simp: rd_eq_Some_iff)
  have p: "newline \<notin> set d1" "length d1 = length d" "int_range sz"
    using put_bytes_keeps [OF d(2)] pd n by (auto simp: plain_block_def named_def)
  have "plain_block d2"
    using d(3) p pd set_update_subset_insert [of d1 "nat k" NUL] set_update_memI [of "nat k" d1 NUL]
    by (auto simp: plain_block_def block_ok_def wr_eq_Some_iff newline_def NUL_def)
  then have "\<forall>d \<in> set disk. plain_block d" using plain_update [OF pl] d(4) by (auto simp: wr_eq_Some_iff)
  moreover have "named (?e\<lparr>file_size := sz\<rparr>)" using n p(3) by (simp add: named_def entry_ok_def)
  then have "tidy ((File_entries s)[nat i := ?e\<lparr>file_size := sz\<rparr>])" by (rule tidy_replace [OF t i(1) u])
  ultimately show ?thesis using d(5) i u by (simp add: writing_def saveable_def)
qed

lemma writing_pass:
  assumes "writing i s" "write_pass i (b, content, s, f) = Some (b', content', s', f')"
  shows "writing i s'"
proof -
  obtain rest s1 where s1: "fill_block i b content s = Some (rest, s1)"
    using assms(2) by (auto simp: write_pass_def split: bind_splits)
  note w = writing_fill [OF assms(1) s1]
  consider "s' = s1" | fat nb where "claim_block (s1\<lparr>FAT := fat\<rparr>) nb = Some s'"
    using assms(2) s1 by (auto simp: write_pass_def split: bind_splits if_splits)
  then show ?thesis
  proof cases
    case 2
    then show ?thesis using writing_claim [of i "s1\<lparr>FAT := fat\<rparr>"] w by simp
  qed (use w in simp)
qed

lemma write_keeps:
  assumes "fs_ok s" "saveable s" "write_file name content s = Some (s', msg)"
  shows "saveable s'"
proof -
  obtain cs where r: "fs_rel s cs" using assms(1) by (auto simp: fs_ok_iff)
  from r show ?thesis
  proof (rule find_file_ok [where name = name])
    assume "find_file s name = Some ENTRY"
    then show ?thesis using assms(2,3) by (simp add: write_file_def)
  next
    fix i assume i: "find_file s name = Some (int i)" "i < 100" "in_use (File_entries s ! i) \<noteq> 0"
    have w: "writing (int i) s" using assms(2) i(2,3) fs_relD(1) [OF r] by (simp add: writing_def)
    obtain block b rest full where
      "c_while (\<lambda>(b, content, s, full). content \<noteq> [] \<and> \<not> full) (write_pass (int i)) (block, content, s, False) = Some (b, rest, s', full)"
      using assms(3) i(1,2) by (auto simp: write_file_def ENTRY_def split: bind_splits if_splits)
    then have "(\<lambda>(b, c, s, f). writing (int i) s) (b, rest, s', full) \<and>
        \<not> (\<lambda>(b, content, s, full). content \<noteq> [] \<and> \<not> full) (b, rest, s', full)"
    proof (rule c_while_inv)
      fix x y
      assume "(\<lambda>(b, c, s, f). writing (int i) s) x" "write_pass (int i) x = Some y"
      then show "(\<lambda>(b, c, s, f). writing (int i) s) y"
        by (cases x; cases y) (auto intro: writing_pass)
    qed (use w in simp)
    then show ?thesis by (simp add: writing_def)
  qed
qed

lemma delete_keeps:
  assumes "fs_ok s" "saveable s" "delete_file name s = Some (s', msg)"
  shows "saveable s'"
proof -
  obtain cs where r: "fs_rel s cs" using assms(1) by (auto simp: fs_ok_iff)
  from r show ?thesis
  proof (rule find_file_ok [where name = name])
    assume "find_file s name = Some ENTRY"
    then show ?thesis using assms(2,3) by (simp add: delete_file_def)
  next
    fix i assume i: "find_file s name = Some (int i)" "i < 100" "in_use (File_entries s ! i) \<noteq> 0"
    let ?e = "(File_entries s ! i)\<lparr>in_use := 0\<rparr>"
    have t: "tidy (File_entries s)" "i < length (File_entries s)" using assms(2) i(2) fs_relD(1) [OF r] by (auto simp: saveable_def)
    have "named ?e" using tidy_used [OF t i(3)] by (simp add: named_def entry_ok_def int_range_def INT_MIN_def INT_MAX_def)
    then have "tidy ((File_entries s)[i := ?e])" by (rule tidy_replace [OF t i(3)])
    moreover obtain fat where "s' = s\<lparr>FAT := fat, File_entries := (File_entries s)[i := ?e]\<rparr>"
      using assms(3) i fs_relD(1) [OF r] by (auto simp: delete_file_def ENTRY_def entry_set split: bind_splits)
    ultimately show ?thesis using assms(2) by (simp add: saveable_def)
  qed
qed

lemma find_entry_first:
  assumes "length (File_entries s) = 100" "find_entry s = Some k"
  shows "\<forall>j < nat k. in_use (File_entries s ! j) \<noteq> 0"
proof -
  let ?f = "\<lambda>i. do { e \<leftarrow> rd (File_entries s) i; Some (in_use e = 0) }"
  have "?f j = Some (in_use (File_entries s ! nat j) = 0)" if "0 \<le> j" "j < ENTRY" for j
    using that assms(1) by (auto simp: ENTRY_def)
  then obtain k' where k': "find_entry s = Some k'" "0 \<le> k'" "k' \<le> ENTRY"
      "\<And>j. 0 \<le> j \<Longrightarrow> j < k' \<Longrightarrow> in_use (File_entries s ! nat j) \<noteq> 0" "k' < ENTRY \<Longrightarrow> in_use (File_entries s ! nat k') = 0"
    using find_range_ok [of 0 ENTRY ?f "\<lambda>j. in_use (File_entries s ! nat j) = 0"] by (auto simp: find_entry_def ENTRY_def)
  show ?thesis
  proof (intro allI impI)
    fix j assume "j < nat k"
    then show "in_use (File_entries s ! j) \<noteq> 0" using k'(4) [of "int j"] k'(1) assms(2) by simp
  qed
qed

lemma create_keeps:
  assumes "fs_ok s" "saveable s" "is_word name" "no_nul name" "length name \<le> 100" "create_file name s = Some (s', msg)"
  shows "saveable s'"
proof -
  obtain cs where r: "fs_rel s cs" using assms(1) by (auto simp: fs_ok_iff)
  obtain i where i: "find_file s name = Some i" using find_file_ok [OF r, of name] by metis
  show ?thesis
  proof (cases "s' = s")
    case False
    obtain free b s1 s2 nm nm' where f: "find_entry s = Some free" "free < ENTRY" "find_block s = Some b"
        "set_entry s free (\<lambda>e. e\<lparr>start := b\<rparr>) = Some s1" "claim_block s1 b = Some s2"
        "strcpy (file_name (File_entries s2 ! nat free)) name = Some nm" "wr nm FILE_NAME NUL = Some nm'"
        "set_entry s2 free (\<lambda>e. e\<lparr>file_name := nm', file_size := 0, in_use := 1\<rparr>) = Some s'"
      using assms(6) i False by (auto simp: create_file_def rd_eq_Some_iff split: bind_splits if_splits)
    note len = fs_relD(1,2) [OF r]
    have free: "0 \<le> free" "nat free < 100" using f(2,4) len(1) by (auto simp: set_entry_def rd_eq_Some_iff split: bind_splits)
    let ?e = "File_entries s ! nat free" and ?es = "File_entries s"
    let ?e' = "?e\<lparr>start := b, file_name := nm', file_size := 0, in_use := 1\<rparr>"
    have s1: "s1 = s\<lparr>File_entries := ?es[nat free := ?e\<lparr>start := b\<rparr>]\<rparr>"
      using f(4) entry_set [OF len(1) free(2), of "\<lambda>e. e\<lparr>start := b\<rparr>"] free(1) by simp
    have s2: "File_entries s2 = ?es[nat free := ?e\<lparr>start := b\<rparr>]" "\<forall>d \<in> set (Disk s2). plain_block d"
      using claim_block_keeps [OF f(5)] s1 assms(2) by (simp_all add: saveable_def)
    have s': "s' = s2\<lparr>File_entries := ?es[nat free := ?e']\<rparr>"
      using f(8) entry_set [of s2 "nat free" "\<lambda>e. e\<lparr>file_name := nm', file_size := 0, in_use := 1\<rparr>"] s2(1) len(1) free by simp
    have e: "entry_ok ?e" by (rule fs_relD(5) [OF r free(2)])
    have "text_of nm' = name" "length nm' = 101" "NUL \<in> set nm'"
      by (rule name_copy [OF e assms(4,5)]; use f(6,7) s2(1) len(1) free in simp)+
    moreover have "int_range b"
      by (rule find_block_ok [OF len(2)]) (use f(3) in \<open>auto simp: int_range_def INT_MIN_def INT_MAX_def BLOCK_SIZE_def\<close>)
    ultimately have "named ?e'" using assms(3) by (simp add: named_def entry_ok_def int_range_def INT_MIN_def INT_MAX_def)
    then have "tidy (?es[nat free := ?e'])"
      using assms(2) find_entry_first [OF len(1) f(1)] by (intro tidy_update) (simp_all add: saveable_def)
    with s' s2(2) show ?thesis by (simp add: saveable_def)
  qed (use assms(2) in simp)
qed

section \<open>Runs of the program\<close>

definition host_ok :: "host \<Rightarrow> bool" where
  "host_ok h \<longleftrightarrow> (\<exists>s o1. load_file_system h fs_zero = Some (0, s, o1) \<and> fs_ok s \<and> saveable s)"

text \<open>The files that a program started now would find.\<close>

definition host_files :: "host \<Rightarrow> string \<rightharpoonup> string" where
  "host_files h = (case load_file_system h fs_zero of None \<Rightarrow> Map.empty | Some (r, s, o1) \<Rightarrow> files s)"

fun argv_of :: "fs_cmd \<Rightarrow> string list" where
  "argv_of (Create name) = [''create'', name]"
| "argv_of (Write name content) = [''write'', name, content]"
| "argv_of (Delete name) = [''delete'', name]"

definition host_step :: "fs_cmd \<Rightarrow> host \<Rightarrow> host option" where
  "host_step c h = map_option fst (fat_main (\<lambda>f. True) (argv_of c) h)"

fun host_cmd_ok :: "fs_cmd \<Rightarrow> bool" where
  "host_cmd_ok (Create name) = (is_word name \<and> no_nul name \<and> length name \<le> 100)"
| "host_cmd_ok c = fat_cmd_ok c"

text \<open>One run with a command that is defined and keeps a state that can be saved.\<close>

lemma main_run:
  assumes "load_file_system h fs_zero = Some (0, s, o1)" "run_command argv s = Some (s', o2)" "fs_ok s'" "saveable s'"
    and "0 < length argv" "length argv \<le> 3"
  shows "\<exists>h'. fat_main (\<lambda>f. True) argv h = Some (h', o1 @ o2) \<and> host_ok h' \<and> host_files h' = files s'"
proof -
  obtain h' s'' where sv: "save_file_system (\<lambda>f. True) s' h = Some (0, h')" "load_file_system h' fs_zero = Some (0, s'', [])"
    "fs_ok s''" "saveable s''" "files s'' = files s'"
    by (rule load_save [OF assms(3,4)])
  then have "fat_main (\<lambda>f. True) argv h = Some (h', o1 @ o2)"
    using assms(1,2,5,6) by (simp add: fat_main_def)
  with sv show ?thesis by (auto simp: host_ok_def host_files_def)
qed

lemma run_command_step:
  assumes "fs_ok s" "saveable s" "host_cmd_ok c"
  obtains s' o2 where "run_command (argv_of c) s = Some (s', o2)" "fs_ok s'" "saveable s'" "files s' = spec_step c (files s)"
proof -
  have "fat_cmd_ok c" using assms(3) by (cases c) auto
  then obtain s' where s': "fat_step c s = Some s'" "fs_ok s'" "files s' = spec_step c (files s)"
    using fat_step_law [OF assms(1)] by blast
  obtain o2 where o2: "run_command (argv_of c) s = Some (s', o2)"
    using s'(1) by (cases c) (auto simp: fat_step_def run_command_def)
  moreover have "saveable s'"
    using o2 assms create_keeps [OF assms(1,2)] write_keeps [OF assms(1,2)] delete_keeps [OF assms(1,2)]
    by (cases c) (auto simp: run_command_def)
  ultimately show thesis using that s' by blast
qed

lemma host_step_law:
  assumes "host_ok h" "host_cmd_ok c"
  shows "\<exists>h'. host_step c h = Some h' \<and> host_ok h' \<and> host_files h' = spec_step c (host_files h)"
proof -
  obtain s o1 where l: "load_file_system h fs_zero = Some (0, s, o1)" "fs_ok s" "saveable s"
    using assms(1) by (auto simp: host_ok_def)
  obtain s' o2 where r: "run_command (argv_of c) s = Some (s', o2)" "fs_ok s'" "saveable s'" "files s' = spec_step c (files s)"
    by (rule run_command_step [OF l(2,3) assms(2)])
  have "0 < length (argv_of c)" "length (argv_of c) \<le> 3" by (cases c; simp)+
  from main_run [OF l(1) r(1-3) this] r(4) l(1) show ?thesis by (auto simp: host_step_def host_files_def)
qed

interpretation host: map_store host_ok host_files host_step host_cmd_ok
  by unfold_locales (rule host_step_law)

definition host_empty :: host where
  "host_empty = \<lparr>entry_text = None, fat_text = None, disk_text = None\<rparr>"

lemma load_empty: "load_file_system host_empty fs_zero =
    Some (0, fs_fresh, [Printf (''Warning: No saved state found. Starting fresh.'' @ [newline])])"
  by (simp add: load_file_system_def host_empty_def fs_zero_def fs_fresh_def)

lemma host_empty_ok: "host_ok host_empty" "host_files host_empty = Map.empty"
proof -
  have "saveable fs_fresh"
    using zero_blank by (intro saveable_def [THEN iffD2] conjI blank_tidy) (simp_all add: fs_fresh_def fs_zero_def)
  then show "host_ok host_empty" "host_files host_empty = Map.empty"
    using load_empty fs_fresh_ok by (simp_all add: host_ok_def host_files_def)
qed

section \<open>Results\<close>

text \<open>
  C18. What is saved is what is loaded: a well-formed file system whose names are words (not
  empty, without space) is written to the three files and read back by the next start of
  the program as a well-formed file system with the same files, although the lines of
  entries that were never used are read out of step.
\<close>

theorem save_load_roundtrip:
  assumes "fs_ok s" "saveable s"
  shows "\<exists>h s'. save_file_system (\<lambda>f. True) s h0 = Some (0, h) \<and> load_file_system h fs_zero = Some (0, s', []) \<and>
    fs_ok s' \<and> saveable s' \<and> files s' = files s"
  by (rule load_save [OF assms, of h0]) blast

theorem save_load_roundtrip_witness:
  "\<exists>h s'. save_file_system (\<lambda>f. True) fs_fresh host_empty = Some (0, h) \<and> load_file_system h fs_zero = Some (0, s', []) \<and>
    fs_ok s' \<and> files s' = Map.empty"
proof -
  have "saveable fs_fresh" using host_empty_ok(1) load_empty by (simp add: host_ok_def)
  from save_load_roundtrip [OF fs_fresh_ok(1) this, of host_empty] fs_fresh_ok(2) show ?thesis by auto
qed

text \<open>
  C1. The whole program is a persistent map: any sequence of runs of \<open>fat\<close> with the commands
  create, write and delete, each run loading the files, executing and saving, never fails
  and leaves the host with exactly the files that the specification prescribes, from an
  empty host on.
\<close>

theorem fat_program_persists:
  assumes "host_ok h" "\<forall>c \<in> set cmds. host_cmd_ok c"
  shows "\<exists>h'. run_cmds host_step cmds h = Some h' \<and> host_ok h' \<and> host_files h' = fold spec_step cmds (host_files h)"
  using host.run_refines [OF assms] .

theorem fat_program_persists_witness:
  "\<exists>h'. run_cmds host_step [Create ''a'', Write ''a'' ''hello'', Create ''b'', Delete ''b''] host_empty = Some h' \<and>
    host_files h' = [''a'' \<mapsto> ''hello'']"
proof -
  have w: "is_word ''a''" "is_word ''b''" by (simp_all add: is_word_def is_space_def)
  have "\<forall>c \<in> set [Create ''a'', Write ''a'' ''hello'', Create ''b'', Delete ''b'']. host_cmd_ok c"
    using w by (simp add: no_nul_def NUL_def)
  from fat_program_persists [OF host_empty_ok(1) this] show ?thesis
    by (auto simp: host_empty_ok(2) spec_create_def spec_write_def spec_delete_def spare_def used_blocks_def
        blocks_of_def stored_def newline_def fun_upd_twist)
qed

text \<open>
  C38. A run of \<open>fat read\<close> prints the contents of the file, as the earlier runs left it, or None,
  and leaves the files on the host as they are.
\<close>

theorem fat_program_reads:
  assumes "host_ok h"
  shows "\<exists>h' o1. fat_main (\<lambda>f. True) [''read'', name] h =
      Some (h', o1 @ [Printf (''Content of '' @ [CHR 0x27] @ name @ [CHR 0x27] @ '': ''),
        Printf (case host_files h name of None \<Rightarrow> ''None'' | Some c \<Rightarrow> c), Printf [newline]]) \<and>
    host_ok h' \<and> host_files h' = host_files h"
proof -
  obtain s o1 where l: "load_file_system h fs_zero = Some (0, s, o1)" "fs_ok s" "saveable s"
    using assms by (auto simp: host_ok_def)
  have "run_command [''read'', name] s = Some (s, [Printf (''Content of '' @ [CHR 0x27] @ name @ [CHR 0x27] @ '': ''),
      Printf (case files s name of None \<Rightarrow> ''None'' | Some c \<Rightarrow> c), Printf [newline]])"
    using read_spec [OF l(2), of name] by (simp add: run_command_def)
  from main_run [OF l(1) this l(2,3)] l(1) show ?thesis by (auto simp: host_files_def)
qed

theorem fat_program_reads_witness:
  "\<exists>h' o1. fat_main (\<lambda>f. True) [''read'', ''a''] host_empty =
      Some (h', o1 @ [Printf (''Content of '' @ [CHR 0x27] @ ''a'' @ [CHR 0x27] @ '': ''), Printf ''None'', Printf [newline]]) \<and>
    host_files h' = Map.empty"
  using fat_program_reads [OF host_empty_ok(1), of "''a''"] by (auto simp: host_empty_ok(2))

text \<open>
  A name with a space does not survive: when the line of such an entry is read, \<open>%s\<close> takes
  the first word, the next conversion meets the second word and fails, and the entry stays
  free, so that the file is lost.
\<close>

theorem name_with_space_lost:
  assumes "blank g" "is_word v" "no_nul v" "length v \<le> 100" "is_word w" "\<not> is_digit (hd w)" "hd w \<noteq> CHR ''-''" "hd w \<noteq> CHR ''+''"
  shows "\<exists>e' t. scan_entry g (v @ '' '' @ w @ rest) = Some (e', t) \<and> in_use e' = 0 \<and> text_of (file_name e') = v"
proof -
  have sw: "scan_word (v @ '' '' @ w @ rest) = (Val v, '' '' @ w @ rest)"
    using scan_word_print [of "[]" v "'' '' @ w @ rest"] assms(2) by simp
  obtain c w' where w: "w = c # w'" "\<not> is_space c" using assms(5) by (cases w) (auto simp: is_word_def)
  then have "scan_int ('' '' @ w @ rest) = (NoMatch, w @ rest)"
    using assms(6-8) by (simp add: scan_int_def skip_space_def scan_sign_def)
  moreover have "length v < length (file_name g)" using assms(1,4) by (simp add: blank_def entry_ok_def)
  then obtain nm where "strcpy (file_name g) v = Some nm" "text_of nm = v" using strcpy_ok [of v] assms(3) by blast
  ultimately show ?thesis using sw assms(1) by (simp add: scan_entry_def scan_field_def blank_def)
qed

theorem name_with_space_lost_witness:
  "\<exists>e' t. scan_entry (File_entries fs_zero ! 0) (''my file 5 0 1'' @ [newline]) = Some (e', t) \<and> in_use e' = 0 \<and>
    text_of (file_name e') = ''my''"
proof -
  have "blank (File_entries fs_zero ! 0)" using zero_blank by (simp add: fs_zero_def)
  from name_with_space_lost [OF this, of "''my''" "''file''" "'' 5 0 1'' @ [newline]"] show ?thesis
    by (simp add: is_word_def is_space_def is_digit_def no_nul_def NUL_def)
qed

end
