(* ===== verification/Kernel_Hook.thy ===== *)
theory Kernel_Hook
  imports C_Base "HOL-Library.Word"
begin

text \<open>
  The system call table as the hooking modules change it. Kernel memory maps addresses to
  function pointers, and a page table entry says whether a page may be written. A store to
  a page that is not writable is a fault, which is \<open>None\<close>. What the modules take from the
  kernel is the record \<open>kapi\<close>: the page walk, the symbol table, the write bit of an entry
  and the numbers of the system calls. \<open>'h\<close> is the type of function pointers.
\<close>

unbundle bit_operations_syntax

record kapi =
  lookup_address :: "64 word \<Rightarrow> nat option"
  kallsyms_lookup_name :: "string \<Rightarrow> 64 word"
  PAGE_RW :: "64 word"
  NR_os_ftrace :: nat
  NR_openat :: nat
  NR_close :: nat
  NR_read :: nat
  NR_write :: nat
  NR_lseek :: nat

record 'h kernel =
  ptes :: "nat \<Rightarrow> 64 word"
  kmem :: "64 word \<Rightarrow> 'h"

section \<open>Page permissions and the table\<close>

definition make_rw :: "kapi \<Rightarrow> 64 word \<Rightarrow> 'h kernel \<Rightarrow> 'h kernel option" where
  "make_rw api addr k = do {
     pte \<leftarrow> lookup_address api addr;
     Some (if ptes k pte AND NOT (PAGE_RW api) \<noteq> 0
           then k\<lparr>ptes := (ptes k)(pte := ptes k pte OR PAGE_RW api)\<rparr> else k) }"

definition make_ro :: "kapi \<Rightarrow> 64 word \<Rightarrow> 'h kernel \<Rightarrow> 'h kernel option" where
  "make_ro api addr k = do {
     pte \<leftarrow> lookup_address api addr;
     Some (k\<lparr>ptes := (ptes k)(pte := ptes k pte AND NOT (PAGE_RW api))\<rparr>) }"

text \<open>\<open>syscall_table[n]\<close> is the word at \<open>syscall_table + 8 n\<close>; the accesses fault when the
  address is not mapped, and a store also when its page is not writable.\<close>

definition entry :: "64 word \<Rightarrow> nat \<Rightarrow> 64 word" where
  "entry tab n = tab + 8 * of_nat n"

definition fetch :: "kapi \<Rightarrow> 64 word \<Rightarrow> 'h kernel \<Rightarrow> 'h option" where
  "fetch api a k = do { _ \<leftarrow> lookup_address api a; Some (kmem k a) }"

definition store :: "kapi \<Rightarrow> 64 word \<Rightarrow> 'h \<Rightarrow> 'h kernel \<Rightarrow> 'h kernel option" where
  "store api a v k = do {
     pte \<leftarrow> lookup_address api a;
     if ptes k pte AND PAGE_RW api \<noteq> 0 then Some (k\<lparr>kmem := (kmem k)(a := v)\<rparr>) else None }"

section \<open>Tables a module can hook\<close>

text \<open>
  A module can hook the entries \<open>ns\<close> of the table at \<open>tab\<close>: the page walk finds the table's
  page and the entries are in the same page, the page table entry has some bit besides the
  write bit (a present page has the present bit), and the entries are different words.
\<close>

definition hookable :: "kapi \<Rightarrow> 64 word \<Rightarrow> nat list \<Rightarrow> 'h kernel \<Rightarrow> bool" where
  "hookable api tab ns k \<longleftrightarrow>
     (case lookup_address api tab of None \<Rightarrow> False
      | Some p \<Rightarrow> (\<forall>n \<in> set ns. lookup_address api (entry tab n) = Some p) \<and>
          PAGE_RW api \<noteq> 0 \<and> ptes k p AND NOT (PAGE_RW api) \<noteq> 0 \<and> distinct (map (entry tab) ns))"

definition writable :: "kapi \<Rightarrow> 64 word \<Rightarrow> 'h kernel \<Rightarrow> bool" where
  "writable api a k \<longleftrightarrow>
     (case lookup_address api a of None \<Rightarrow> False | Some p \<Rightarrow> ptes k p AND PAGE_RW api \<noteq> 0)"

text \<open>The page table after a change of the entry of one address.\<close>

definition with_pte :: "kapi \<Rightarrow> 64 word \<Rightarrow> (64 word \<Rightarrow> 64 word) \<Rightarrow> 'h kernel \<Rightarrow> 'h kernel" where
  "with_pte api a f k =
     (case lookup_address api a of None \<Rightarrow> k | Some p \<Rightarrow> k\<lparr>ptes := (ptes k)(p := f (ptes k p))\<rparr>)"

lemma word_or_mask [simp]: "(x OR m) AND (m :: 'a :: len word) = m"
  by (auto simp: bit_eq_iff bit_simps)

lemma word_or_andnot [simp]: "(x OR m) AND NOT (m :: 'a :: len word) = x AND NOT m"
  by (auto simp: bit_eq_iff bit_simps)

lemma word_andnot_twice [simp]: "(x AND NOT (m :: 'a :: len word)) AND NOT m = x AND NOT m"
  by (auto simp: bit_eq_iff bit_simps)

lemma word_andnot_mask [simp]: "(x AND NOT (m :: 'a :: len word)) AND m = 0"
  by (auto simp: bit_eq_iff bit_simps)

lemma make_rw_ok:
  assumes "hookable api tab ns k"
  shows "make_rw api tab k = Some (with_pte api tab (\<lambda>e. e OR PAGE_RW api) k)"
  using assms by (auto simp: make_rw_def hookable_def with_pte_def split: option.splits)

lemma make_ro_ok:
  assumes "hookable api tab ns k"
  shows "make_ro api tab k = Some (with_pte api tab (\<lambda>e. e AND NOT (PAGE_RW api)) k)"
  using assms by (auto simp: make_ro_def hookable_def with_pte_def split: option.splits)

lemma kmem_with_pte [simp]: "kmem (with_pte api a f k) = kmem k"
  by (simp add: with_pte_def split: option.splits)

lemma hookable_with_pte:
  assumes "\<And>e. e AND NOT (PAGE_RW api) \<noteq> 0 \<Longrightarrow> f e AND NOT (PAGE_RW api) \<noteq> 0"
  shows "hookable api tab ns k \<Longrightarrow> hookable api tab ns (with_pte api tab f k)"
  using assms by (simp add: hookable_def with_pte_def split: option.splits)

lemma hookable_rw [simp]:
  "hookable api tab ns k \<Longrightarrow> hookable api tab ns (with_pte api tab (\<lambda>e. e OR PAGE_RW api) k)"
  by (rule hookable_with_pte) simp_all

lemma hookable_ro [simp]:
  "hookable api tab ns k \<Longrightarrow> hookable api tab ns (with_pte api tab (\<lambda>e. e AND NOT (PAGE_RW api)) k)"
  by (rule hookable_with_pte) simp_all

lemma hookable_kmem [simp]: "hookable api tab ns (k\<lparr>kmem := m\<rparr>) = hookable api tab ns k"
  by (simp add: hookable_def split: option.splits)

lemma with_pte_kmem [simp]: "with_pte api a f (k\<lparr>kmem := m\<rparr>) = (with_pte api a f k)\<lparr>kmem := m\<rparr>"
  by (simp add: with_pte_def split: option.splits)

lemma writable_kmem [simp]: "writable api a (k\<lparr>kmem := m\<rparr>) = writable api a k"
  by (simp add: writable_def split: option.splits)

lemma writable_entry:
  "hookable api tab ns k \<Longrightarrow> n \<in> set ns \<Longrightarrow> writable api (entry tab n) k = writable api tab k"
  by (auto simp: hookable_def writable_def split: option.splits)

lemma writable_rw: "hookable api tab ns k \<Longrightarrow> writable api tab (with_pte api tab (\<lambda>e. e OR PAGE_RW api) k)"
  by (auto simp: hookable_def writable_def with_pte_def split: option.splits)

lemma writable_ro: "\<not> writable api tab (with_pte api tab (\<lambda>e. e AND NOT (PAGE_RW api)) k)"
  by (auto simp: writable_def with_pte_def split: option.splits)

lemma store_ok:
  "writable api a k \<Longrightarrow> store api a v k = Some (k\<lparr>kmem := (kmem k)(a := v)\<rparr>)"
  by (auto simp: writable_def store_def split: option.splits)

lemma store_fault: "\<not> writable api a k \<Longrightarrow> store api a v k = None"
  by (auto simp: writable_def store_def split: option.splits bind_splits)

lemma fetch_ok:
  "hookable api tab ns k \<Longrightarrow> n \<in> set ns \<Longrightarrow> fetch api (entry tab n) k = Some (kmem k (entry tab n))"
  by (auto simp: hookable_def fetch_def split: option.splits)

lemma with_pte_rw_ro [simp]:
  "with_pte api tab (\<lambda>e. e AND NOT (PAGE_RW api)) (with_pte api tab (\<lambda>e. e OR PAGE_RW api) k) =
   with_pte api tab (\<lambda>e. e AND NOT (PAGE_RW api)) k"
  by (simp add: with_pte_def split: option.splits)

text \<open>On a table whose page is read-only, write-protecting it again changes nothing.\<close>

lemma with_pte_ro_id:
  assumes "\<not> writable api tab k"
  shows "with_pte api tab (\<lambda>e. e AND NOT (PAGE_RW api)) k = k"
proof (cases "lookup_address api tab")
  case (Some p)
  with assms have "ptes k p AND PAGE_RW api = 0" by (simp add: writable_def)
  then have "ptes k p AND NOT (PAGE_RW api) = ptes k p"
    by (simp add: bit_eq_iff bit_simps) blast
  with Some show ?thesis by (simp add: with_pte_def)
qed (simp add: with_pte_def)

text \<open>The memory with a list of words overwritten.\<close>

definition patch :: "('a \<times> 'h) list \<Rightarrow> ('a \<Rightarrow> 'h) \<Rightarrow> 'a \<Rightarrow> 'h" where
  "patch ws m = foldl (\<lambda>m w. m(fst w := snd w)) m ws"

lemma patch_simps [simp]: "patch [] m = m" "patch (w # ws) m = patch ws (m(fst w := snd w))"
  by (simp_all add: patch_def)

lemma patch_other: "a \<notin> fst ` set ws \<Longrightarrow> patch ws m a = m a"
  by (induction ws arbitrary: m) auto

lemma patch_in: "distinct (map fst ws) \<Longrightarrow> (a, v) \<in> set ws \<Longrightarrow> patch ws m a = v"
proof (induction ws arbitrary: m)
  case (Cons w ws)
  show ?case
  proof (cases "w = (a, v)")
    case True
    then have "a \<notin> fst ` set ws" using Cons.prems(1) by auto
    then show ?thesis using True by (simp add: patch_other)
  next
    case False
    then show ?thesis using Cons by simp
  qed
qed simp

lemma patch_cong: "m a = m' a \<Longrightarrow> patch ws m a = patch ws m' a"
proof (induction ws arbitrary: m m')
  case (Cons w ws)
  have "(m(fst w := snd w)) a = (m'(fst w := snd w)) a" using Cons.prems by (cases "a = fst w") simp_all
  then have "patch ws (m(fst w := snd w)) a = patch ws (m'(fst w := snd w)) a"
    by (rule Cons.IH [of "m(fst w := snd w)" "m'(fst w := snd w)"])
  then show ?case by simp
qed simp

section \<open>The contract of a hooking module\<close>

text \<open>
  What a hooking module promises, with the entries it hooks. Loading it on a table it can
  hook succeeds, saves the words of its entries and puts its hooks there. Unloading it
  later succeeds and writes the saved words back. Neither changes any other word.
  \<open>saved\<close> reads the words kept in the module's variables, and \<open>armed\<close> is what the module
  relies on while it is loaded; it says nothing about the words of memory.
\<close>

locale hook_module =
  fixes init exit :: "'h kernel \<times> 'g \<Rightarrow> ('h kernel \<times> 'g) option"
    and hooks :: "(64 word \<times> 'h) list"
    and ready armed :: "'h kernel \<Rightarrow> bool"
    and loaded :: "'g \<Rightarrow> bool"
    and saved :: "'g \<Rightarrow> 'h list"
  assumes hooks_distinct: "ready k \<Longrightarrow> distinct (map fst hooks)"
    and armed_kmem: "armed (k\<lparr>kmem := m\<rparr>) = armed k"
    and init_ok: "ready k \<Longrightarrow> \<exists>k' g'. init (k, g) = Some (k', g') \<and> armed k' \<and> loaded g' \<and>
        kmem k' = patch hooks (kmem k) \<and> saved g' = map (\<lambda>w. kmem k (fst w)) hooks"
    and exit_ok: "armed k \<Longrightarrow> loaded g \<Longrightarrow> \<exists>k'. exit (k, g) = Some (k', g) \<and> ready k' \<and>
        kmem k' = patch (zip (map fst hooks) (saved g)) (kmem k)"
begin

text \<open>Every hooked entry leads to its hook while the module is loaded.\<close>

lemma hooked:
  assumes "ready k" "(a, h) \<in> set hooks"
  shows "\<exists>k' g'. init (k, g) = Some (k', g') \<and> kmem k' a = h"
  using init_ok [OF assms(1), of g] patch_in [OF hooks_distinct [OF assms(1)] assms(2)] by metis

text \<open>
  Loading and unloading gives back every word, whatever other code wrote in between to
  words the module does not hook, which keep those writes.
\<close>

lemma load_unload:
  assumes r: "ready k" and other: "\<And>a. a \<in> fst ` set hooks \<Longrightarrow> a \<notin> fst ` set ws"
  shows "\<exists>k1 g1 k2. init (k, g) = Some (k1, g1) \<and>
      exit (k1\<lparr>kmem := patch ws (kmem k1)\<rparr>, g1) = Some (k2, g1) \<and> ready k2 \<and>
      kmem k2 = patch ws (kmem k)"
proof -
  obtain k1 g1 where k1: "init (k, g) = Some (k1, g1)" "armed k1" "loaded g1"
      "kmem k1 = patch hooks (kmem k)" "saved g1 = map (\<lambda>w. kmem k (fst w)) hooks"
    using init_ok [OF r] by blast
  obtain k2 where k2: "exit (k1\<lparr>kmem := patch ws (kmem k1)\<rparr>, g1) = Some (k2, g1)" "ready k2"
      "kmem k2 = patch (zip (map fst hooks) (saved g1)) (patch ws (kmem k1))"
    using exit_ok [of "k1\<lparr>kmem := patch ws (kmem k1)\<rparr>" g1] k1(2,3) by (auto simp: armed_kmem)
  let ?again = "map (\<lambda>w. (fst w, kmem k (fst w))) hooks"
  have restore: "zip (map fst hooks) (saved g1) = ?again"
    using k1(5) by (simp add: zip_map_map zip_same_conv_map)
  have "kmem k2 a = patch ws (kmem k) a" for a
  proof (cases "a \<in> fst ` set hooks")
    case True
    then have "(a, kmem k a) \<in> set ?again" by force
    moreover have "distinct (map fst ?again)" using hooks_distinct [OF r] by (simp add: comp_def)
    ultimately have "patch ?again (patch ws (kmem k1)) a = kmem k a" by (rule patch_in [rotated])
    then show ?thesis using k2(3) restore other [OF True] by (simp add: patch_other)
  next
    case False
    then have "a \<notin> fst ` set ?again" by force
    then have "kmem k2 a = patch ws (kmem k1) a" using k2(3) restore patch_other by metis
    also have "\<dots> = patch ws (kmem k) a"
      using False k1(4) by (metis patch_cong patch_other)
    finally show ?thesis .
  qed
  with k1(1) k2(1,2) show ?thesis by blast
qed

end

end
