(* ===== verification/Sched_H.thy ===== *)
theory Sched_H
  imports C_String "HOL-Library.Word"
begin

text \<open>
  The part of \<open>Assignment3-1/sched.h\<close> that the assignments read or change: the task state
  bits, the per-process flags, \<open>task_struct\<close> with the added field \<open>fork_count\<close>, and the
  inline helpers on them. A \<open>task_struct\<close> lives in a heap, a map from addresses; a
  \<open>list_head\<close> of children is the list of the addresses of the child tasks in list order.
  The bit-search \<open>fls\<close> of the architecture is a parameter.
\<close>

unbundle bit_operations_syntax

named_theorems task_state_defs \<open>the values of the task state bits\<close>
named_theorems pf_defs \<open>the values of the per-process flags\<close>

section \<open>Task state bits\<close>

definition TASK_RUNNING :: "64 word" where [task_state_defs]: "TASK_RUNNING = 0x0000"
definition TASK_INTERRUPTIBLE :: "64 word" where [task_state_defs]: "TASK_INTERRUPTIBLE = 0x0001"
definition TASK_UNINTERRUPTIBLE :: "64 word" where [task_state_defs]: "TASK_UNINTERRUPTIBLE = 0x0002"
definition TASK_STOPPED_bit :: "64 word" where [task_state_defs]: "TASK_STOPPED_bit = 0x0004"
definition TASK_TRACED_bit :: "64 word" where [task_state_defs]: "TASK_TRACED_bit = 0x0008"
definition EXIT_DEAD :: "64 word" where [task_state_defs]: "EXIT_DEAD = 0x0010"
definition EXIT_ZOMBIE :: "64 word" where [task_state_defs]: "EXIT_ZOMBIE = 0x0020"
definition EXIT_TRACE :: "64 word" where [task_state_defs]: "EXIT_TRACE = EXIT_ZOMBIE OR EXIT_DEAD"
definition TASK_PARKED :: "64 word" where [task_state_defs]: "TASK_PARKED = 0x0040"
definition TASK_DEAD :: "64 word" where [task_state_defs]: "TASK_DEAD = 0x0080"
definition TASK_WAKEKILL :: "64 word" where [task_state_defs]: "TASK_WAKEKILL = 0x0100"
definition TASK_WAKING :: "64 word" where [task_state_defs]: "TASK_WAKING = 0x0200"
definition TASK_NOLOAD :: "64 word" where [task_state_defs]: "TASK_NOLOAD = 0x0400"
definition TASK_NEW :: "64 word" where [task_state_defs]: "TASK_NEW = 0x0800"
definition TASK_STATE_MAX :: "64 word" where [task_state_defs]: "TASK_STATE_MAX = 0x1000"
definition TASK_KILLABLE :: "64 word" where
  [task_state_defs]: "TASK_KILLABLE = TASK_WAKEKILL OR TASK_UNINTERRUPTIBLE"
definition TASK_STOPPED :: "64 word" where
  [task_state_defs]: "TASK_STOPPED = TASK_WAKEKILL OR TASK_STOPPED_bit"
definition TASK_TRACED :: "64 word" where
  [task_state_defs]: "TASK_TRACED = TASK_WAKEKILL OR TASK_TRACED_bit"
definition TASK_IDLE :: "64 word" where
  [task_state_defs]: "TASK_IDLE = TASK_UNINTERRUPTIBLE OR TASK_NOLOAD"
definition TASK_NORMAL :: "64 word" where
  [task_state_defs]: "TASK_NORMAL = TASK_INTERRUPTIBLE OR TASK_UNINTERRUPTIBLE"
definition TASK_REPORT :: "64 word" where
  [task_state_defs]: "TASK_REPORT = TASK_RUNNING OR TASK_INTERRUPTIBLE OR TASK_UNINTERRUPTIBLE
     OR TASK_STOPPED_bit OR TASK_TRACED_bit OR EXIT_DEAD OR EXIT_ZOMBIE OR TASK_PARKED"
definition TASK_REPORT_IDLE :: "64 word" where
  [task_state_defs]: "TASK_REPORT_IDLE = TASK_REPORT + 1"
definition TASK_REPORT_MAX :: "64 word" where
  [task_state_defs]: "TASK_REPORT_MAX = push_bit 1 TASK_REPORT_IDLE"

section \<open>Per-process flags\<close>

definition PF_IDLE :: "32 word" where [pf_defs]: "PF_IDLE = 0x00000002"
definition PF_EXITING :: "32 word" where [pf_defs]: "PF_EXITING = 0x00000004"
definition PF_VCPU :: "32 word" where [pf_defs]: "PF_VCPU = 0x00000010"
definition PF_WQ_WORKER :: "32 word" where [pf_defs]: "PF_WQ_WORKER = 0x00000020"
definition PF_FORKNOEXEC :: "32 word" where [pf_defs]: "PF_FORKNOEXEC = 0x00000040"
definition PF_MCE_PROCESS :: "32 word" where [pf_defs]: "PF_MCE_PROCESS = 0x00000080"
definition PF_SUPERPRIV :: "32 word" where [pf_defs]: "PF_SUPERPRIV = 0x00000100"
definition PF_DUMPCORE :: "32 word" where [pf_defs]: "PF_DUMPCORE = 0x00000200"
definition PF_SIGNALED :: "32 word" where [pf_defs]: "PF_SIGNALED = 0x00000400"
definition PF_MEMALLOC :: "32 word" where [pf_defs]: "PF_MEMALLOC = 0x00000800"
definition PF_NPROC_EXCEEDED :: "32 word" where [pf_defs]: "PF_NPROC_EXCEEDED = 0x00001000"
definition PF_USED_MATH :: "32 word" where [pf_defs]: "PF_USED_MATH = 0x00002000"
definition PF_NOFREEZE :: "32 word" where [pf_defs]: "PF_NOFREEZE = 0x00008000"
definition PF_FROZEN :: "32 word" where [pf_defs]: "PF_FROZEN = 0x00010000"
definition PF_KSWAPD :: "32 word" where [pf_defs]: "PF_KSWAPD = 0x00020000"
definition PF_MEMALLOC_NOFS :: "32 word" where [pf_defs]: "PF_MEMALLOC_NOFS = 0x00040000"
definition PF_MEMALLOC_NOIO :: "32 word" where [pf_defs]: "PF_MEMALLOC_NOIO = 0x00080000"
definition PF_LESS_THROTTLE :: "32 word" where [pf_defs]: "PF_LESS_THROTTLE = 0x00100000"
definition PF_KTHREAD :: "32 word" where [pf_defs]: "PF_KTHREAD = 0x00200000"
definition PF_RANDOMIZE :: "32 word" where [pf_defs]: "PF_RANDOMIZE = 0x00400000"
definition PF_SWAPWRITE :: "32 word" where [pf_defs]: "PF_SWAPWRITE = 0x00800000"
definition PF_MEMSTALL :: "32 word" where [pf_defs]: "PF_MEMSTALL = 0x01000000"
definition PF_UMH :: "32 word" where [pf_defs]: "PF_UMH = 0x02000000"
definition PF_NO_SETAFFINITY :: "32 word" where [pf_defs]: "PF_NO_SETAFFINITY = 0x04000000"
definition PF_MCE_EARLY :: "32 word" where [pf_defs]: "PF_MCE_EARLY = 0x08000000"
definition PF_MEMALLOC_NOCMA :: "32 word" where [pf_defs]: "PF_MEMALLOC_NOCMA = 0x10000000"
definition PF_FREEZER_SKIP :: "32 word" where [pf_defs]: "PF_FREEZER_SKIP = 0x40000000"
definition PF_SUSPEND_TASK :: "32 word" where [pf_defs]: "PF_SUSPEND_TASK = 0x80000000"

section \<open>The task structure\<close>

text \<open>
  The fields of \<open>task_struct\<close> the modelled code uses, in the groups and the order the
  structure has them. Pointers are addresses (natural numbers), optional where the code
  tests them for NULL.
\<close>

type_synonym task_ptr = nat

record task_head =
  state :: "64 word"
  fork_count :: int
  stack :: "nat option"
  usage :: nat
  flags :: "32 word"
  ptrace :: "32 word"

record task_exit = task_head +
  mm :: "nat option"
  active_mm :: "nat option"
  exit_state :: "64 word"
  exit_code :: int
  exit_signal :: int
  pdeath_signal :: int

record task_ids = task_exit +
  pid :: int
  tgid :: int
  real_parent :: task_ptr
  parent :: task_ptr
  children :: "task_ptr list"
  group_leader :: task_ptr
  thread_pid :: "nat option"
  thread_group :: "task_ptr list"
  vfork_done :: "nat option"
  set_child_tid :: "nat option"
  clear_child_tid :: "nat option"
  utime :: nat
  stime :: nat
  gtime :: nat

record task_struct = task_ids +
  nvcsw :: "64 word"
  nivcsw :: "64 word"
  start_time :: nat
  real_start_time :: nat
  min_flt :: nat
  maj_flt :: nat
  cred_uid :: int
  cred_gid :: int
  comm :: string
  fs :: "nat option"
  files :: "nat option"
  nsproxy :: nat
  signal :: "nat option"
  sighand :: "nat option"
  parent_exec_id :: nat
  self_exec_id :: nat
  io_context :: "nat option"
  rseq :: "nat option"
  rseq_sig :: "32 word"
  rseq_event_mask :: "64 word"

type_synonym task_heap = "task_ptr \<Rightarrow> task_struct option"

section \<open>Helpers on a task\<close>

definition task_is_traced :: "'a task_head_scheme \<Rightarrow> bool" where
  "task_is_traced t \<longleftrightarrow> state t AND TASK_TRACED_bit \<noteq> 0"

definition task_is_stopped :: "'a task_head_scheme \<Rightarrow> bool" where
  "task_is_stopped t \<longleftrightarrow> state t AND TASK_STOPPED_bit \<noteq> 0"

definition task_is_stopped_or_traced :: "'a task_head_scheme \<Rightarrow> bool" where
  "task_is_stopped_or_traced t \<longleftrightarrow> state t AND (TASK_STOPPED_bit OR TASK_TRACED_bit) \<noteq> 0"

definition task_contributes_to_load :: "'a task_head_scheme \<Rightarrow> bool" where
  "task_contributes_to_load t \<longleftrightarrow> state t AND TASK_UNINTERRUPTIBLE \<noteq> 0 \<and>
     flags t AND PF_FROZEN = 0 \<and> state t AND TASK_NOLOAD = 0"

definition task_state_index :: "(32 word \<Rightarrow> nat) \<Rightarrow> 'a task_exit_scheme \<Rightarrow> nat" where
  "task_state_index fls t =
    (let tsk_state = ucast (state t) :: 32 word;
         s = (tsk_state OR ucast (exit_state t)) AND ucast TASK_REPORT;
         s = (if tsk_state = ucast TASK_IDLE then ucast TASK_REPORT_IDLE else s)
     in fls s)"

text \<open>The array \<open>state_char\<close> includes its terminating NUL.\<close>

definition task_index_to_char :: "nat \<Rightarrow> char option" where
  "task_index_to_char i = rd (''RSDTtXZPI'' @ [NUL]) (int i)"

definition task_state_to_char :: "(32 word \<Rightarrow> nat) \<Rightarrow> 'a task_exit_scheme \<Rightarrow> char option" where
  "task_state_to_char fls t = task_index_to_char (task_state_index fls t)"

definition pid_alive :: "'a task_ids_scheme \<Rightarrow> bool" where
  "pid_alive p \<longleftrightarrow> thread_pid p \<noteq> None"

definition task_pid_nr :: "'a task_ids_scheme \<Rightarrow> int" where
  "task_pid_nr t = pid t"

definition task_tgid_nr :: "'a task_ids_scheme \<Rightarrow> int" where
  "task_tgid_nr t = tgid t"

definition is_global_init :: "'a task_ids_scheme \<Rightarrow> bool" where
  "is_global_init t \<longleftrightarrow> task_tgid_nr t = 1"

definition is_idle_task :: "'a task_head_scheme \<Rightarrow> bool" where
  "is_idle_task p \<longleftrightarrow> flags p AND PF_IDLE \<noteq> 0"

definition current_restore_flags :: "32 word \<Rightarrow> 32 word \<Rightarrow> 'a task_head_scheme \<Rightarrow> 'a task_head_scheme" where
  "current_restore_flags orig_flags fl t =
    (let t = t\<lparr>flags := flags t AND NOT fl\<rparr>
     in t\<lparr>flags := flags t OR (orig_flags AND fl)\<rparr>)"

text \<open>\<open>clone_vm\<close> says whether the clone flags have \<open>CLONE_VM\<close>.\<close>

definition rseq_fork :: "'b task_struct_scheme \<Rightarrow> bool \<Rightarrow> 'a task_struct_scheme \<Rightarrow> 'a task_struct_scheme" where
  "rseq_fork current clone_vm t =
    (if clone_vm then t\<lparr>rseq := None, rseq_sig := 0, rseq_event_mask := 0\<rparr>
     else t\<lparr>rseq := rseq current, rseq_sig := rseq_sig current,
            rseq_event_mask := rseq_event_mask current\<rparr>)"

definition rseq_execve :: "'a task_struct_scheme \<Rightarrow> 'a task_struct_scheme" where
  "rseq_execve t = t\<lparr>rseq := None, rseq_sig := 0, rseq_event_mask := 0\<rparr>"

section \<open>An example task\<close>

definition blank_task :: task_struct where
  "blank_task = \<lparr>state = 0, fork_count = 0, stack = None, usage = 1, flags = 0, ptrace = 0,
     mm = None, active_mm = None, exit_state = 0, exit_code = 0, exit_signal = 0, pdeath_signal = 0,
     pid = 0, tgid = 0, real_parent = 0, parent = 0, children = [], group_leader = 0,
     thread_pid = None, thread_group = [], vfork_done = None, set_child_tid = None,
     clear_child_tid = None, utime = 0, stime = 0, gtime = 0, nvcsw = 0, nivcsw = 0,
     start_time = 0, real_start_time = 0, min_flt = 0, maj_flt = 0, cred_uid = 0, cred_gid = 0,
     comm = ''swapper'', fs = None, files = None, nsproxy = 0, signal = None, sighand = None,
     parent_exec_id = 0, self_exec_id = 0, io_context = None, rseq = None, rseq_sig = 0,
     rseq_event_mask = 0\<rparr>"

end
