(* ===== verification/Ftrace.thy ===== *)
theory Ftrace
  imports Kernel_Hook Sched_H C_Stdio
begin

text \<open>
  The file tracer of Assignment 2: the system call \<open>os_ftrace\<close>, the module that hooks it
  (2-2), and the pair of modules of 2-3 that trace one process: \<open>ftracehooking.c\<close> starts,
  ends and reports a trace, \<open>iotracehooking.c\<close> hooks the file system calls and counts them.
  The kernel code that the hooks call is a parameter, with a state \<open>'w\<close> of its own;
  \<open>copy_from_user\<close> is the function from an address and a length to the bytes that end up in
  the destination.
\<close>

record pt_regs =
  di :: "64 word"
  si :: "64 word"
  dx :: "64 word"

definition pid_arg :: "pt_regs \<Rightarrow> int" where
  "pid_arg regs = sint (ucast (di regs) :: 32 word)"

section \<open>The system call and its first hook\<close>

definition os_ftrace :: "int \<Rightarrow> string list \<times> int" where
  "os_ftrace p = ([''ORIGINAL ftrace() called! PID is ['' @ print_int p @ '']'' @ ''\<newline>''], 0)"

definition hooked_my_ftrace :: "int \<Rightarrow> string list \<times> int" where
  "hooked_my_ftrace p = ([''os_ftrace() hooked! os_ftrace -> my_ftrace'' @ ''\<newline>''], 0)"

record 'h hook_vars =
  syscall_table :: "64 word"
  real_os_ftrace :: 'h

definition os_ftracehooking_init ::
  "kapi \<Rightarrow> 'h \<Rightarrow> 'h kernel \<times> 'h hook_vars \<Rightarrow> ('h kernel \<times> 'h hook_vars) option" where
  "os_ftracehooking_init api hook = (\<lambda>(k, g). do {
     let g = g\<lparr>syscall_table := kallsyms_lookup_name api ''sys_call_table''\<rparr>;
     k \<leftarrow> make_rw api (syscall_table g) k;
     f \<leftarrow> fetch api (entry (syscall_table g) (NR_os_ftrace api)) k;
     let g = g\<lparr>real_os_ftrace := f\<rparr>;
     k \<leftarrow> store api (entry (syscall_table g) (NR_os_ftrace api)) hook k;
     Some (k, g) })"

definition os_ftracehooking_exit ::
  "kapi \<Rightarrow> 'h kernel \<times> 'h hook_vars \<Rightarrow> ('h kernel \<times> 'h hook_vars) option" where
  "os_ftracehooking_exit api = (\<lambda>(k, g). do {
     k \<leftarrow> store api (entry (syscall_table g) (NR_os_ftrace api)) (real_os_ftrace g) k;
     k \<leftarrow> make_ro api (syscall_table g) k;
     Some (k, g) })"

section \<open>Tracing a process\<close>

record trace =
  cur_pid :: int
  file_name :: "char list"
  read_b :: "32 word"
  write_b :: "32 word"
  o_cnt :: "32 word"
  c_cnt :: "32 word"
  r_cnt :: "32 word"
  w_cnt :: "32 word"
  l_cnt :: "32 word"

definition print_d :: "32 word \<Rightarrow> string" where
  "print_d x = print_int (sint x)"

text \<open>The report prints \<open>file_name\<close> as a string, which is undefined when it has no NUL.\<close>

definition my_ftrace :: "task_struct \<Rightarrow> pt_regs \<Rightarrow> trace \<Rightarrow> (trace \<times> string list \<times> int) option" where
  "my_ftrace current regs g =
    (if pid_arg regs = 0 then do {
       name \<leftarrow> cstr (file_name g);
       Some (g,
         [''[2020202034] '' @ comm current @ '' file['' @ name @ ''] stats [x] read - '' @ print_d (read_b g)
            @ '' / written - '' @ print_d (write_b g) @ ''\<newline>'',
          ''open['' @ print_d (o_cnt g) @ ''] close['' @ print_d (c_cnt g) @ ''] read['' @ print_d (r_cnt g) @ ''] write[''
            @ print_d (w_cnt g) @ ''] lseek['' @ print_d (l_cnt g) @ '']'' @ ''\<newline>'',
          ''OS Assignment2 ftrace ['' @ print_int (cur_pid g) @ ''] End'' @ ''\<newline>''], 0) }
     else
       let g = g\<lparr>read_b := 0, write_b := 0, o_cnt := 0, c_cnt := 0, r_cnt := 0, w_cnt := 0,
                 l_cnt := 0, cur_pid := pid_arg regs\<rparr>
       in Some (g, [''OS Assignment2 ftrace ['' @ print_int (cur_pid g) @ ''] Start'' @ ''\<newline>''], cur_pid g))"

definition ftracehooking_init ::
  "kapi \<Rightarrow> 'h \<Rightarrow> 'h kernel \<times> 'h hook_vars \<Rightarrow> ('h kernel \<times> 'h hook_vars) option" where
  "ftracehooking_init api hook = (\<lambda>(k, g). do {
     let g = g\<lparr>syscall_table := kallsyms_lookup_name api ''sys_call_table''\<rparr>;
     k \<leftarrow> make_rw api (syscall_table g) k;
     f \<leftarrow> fetch api (entry (syscall_table g) (NR_os_ftrace api)) k;
     let g = g\<lparr>real_os_ftrace := f\<rparr>;
     k \<leftarrow> store api (entry (syscall_table g) (NR_os_ftrace api)) hook k;
     k \<leftarrow> make_ro api (syscall_table g) k;
     Some (k, g) })"

definition ftracehooking_exit ::
  "kapi \<Rightarrow> 'h kernel \<times> 'h hook_vars \<Rightarrow> ('h kernel \<times> 'h hook_vars) option" where
  "ftracehooking_exit api = (\<lambda>(k, g). do {
     k \<leftarrow> make_rw api (syscall_table g) k;
     k \<leftarrow> store api (entry (syscall_table g) (NR_os_ftrace api)) (real_os_ftrace g) k;
     k \<leftarrow> make_ro api (syscall_table g) k;
     Some (k, g) })"

section \<open>Hooks of the file system calls\<close>

type_synonym 'w syscall = "pt_regs \<Rightarrow> 'w \<Rightarrow> 64 word \<times> 'w"

definition ftrace_openat ::
  "(64 word \<Rightarrow> nat \<Rightarrow> char list) \<Rightarrow> 'w syscall \<Rightarrow> task_struct \<Rightarrow> pt_regs \<Rightarrow> trace \<times> 'w \<Rightarrow> (trace \<times> 'w) \<times> 64 word" where
  "ftrace_openat copy_from_user real_openat current regs = (\<lambda>(g, w).
     let g = (if cur_pid g = pid current
              then g\<lparr>o_cnt := o_cnt g + 1, file_name := copy_from_user (si regs) 50\<rparr> else g);
         (r, w) = real_openat regs w
     in ((g, w), r))"

definition ftrace_close :: "'w syscall \<Rightarrow> task_struct \<Rightarrow> pt_regs \<Rightarrow> trace \<times> 'w \<Rightarrow> (trace \<times> 'w) \<times> 64 word" where
  "ftrace_close real_close current regs = (\<lambda>(g, w).
     let g = (if cur_pid g = pid current then g\<lparr>c_cnt := c_cnt g + 1\<rparr> else g);
         (r, w) = real_close regs w
     in ((g, w), r))"

definition ftrace_read :: "'w syscall \<Rightarrow> task_struct \<Rightarrow> pt_regs \<Rightarrow> trace \<times> 'w \<Rightarrow> (trace \<times> 'w) \<times> 64 word" where
  "ftrace_read real_read current regs = (\<lambda>(g, w).
     let (read_return, w) = real_read regs w;
         g = (if cur_pid g = pid current
              then g\<lparr>r_cnt := r_cnt g + 1, read_b := ucast (scast (read_b g) + read_return)\<rparr> else g)
     in ((g, w), read_return))"

definition ftrace_write :: "'w syscall \<Rightarrow> task_struct \<Rightarrow> pt_regs \<Rightarrow> trace \<times> 'w \<Rightarrow> (trace \<times> 'w) \<times> 64 word" where
  "ftrace_write real_write current regs = (\<lambda>(g, w).
     let (write_return, w) = real_write regs w;
         g = (if cur_pid g = pid current
              then g\<lparr>w_cnt := w_cnt g + 1, write_b := ucast (scast (write_b g) + write_return)\<rparr> else g)
     in ((g, w), write_return))"

definition ftrace_lseek :: "'w syscall \<Rightarrow> task_struct \<Rightarrow> pt_regs \<Rightarrow> trace \<times> 'w \<Rightarrow> (trace \<times> 'w) \<times> 64 word" where
  "ftrace_lseek real_lseek current regs = (\<lambda>(g, w).
     let g = (if cur_pid g = pid current then g\<lparr>l_cnt := l_cnt g + 1\<rparr> else g);
         (r, w) = real_lseek regs w
     in ((g, w), r))"

record 'h io_vars =
  io_table :: "64 word"
  real_openat :: 'h
  real_close :: 'h
  real_read :: 'h
  real_write :: 'h
  real_lseek :: 'h

definition iotracehooking_init ::
  "kapi \<Rightarrow> 'h \<Rightarrow> 'h \<Rightarrow> 'h \<Rightarrow> 'h \<Rightarrow> 'h \<Rightarrow> 'h kernel \<times> 'h io_vars \<Rightarrow> ('h kernel \<times> 'h io_vars) option" where
  "iotracehooking_init api f_openat f_close f_read f_write f_lseek = (\<lambda>(k, g). do {
     let g = g\<lparr>io_table := kallsyms_lookup_name api ''sys_call_table''\<rparr>;
     k \<leftarrow> make_rw api (io_table g) k;
     f \<leftarrow> fetch api (entry (io_table g) (NR_openat api)) k;
     let g = g\<lparr>real_openat := f\<rparr>;
     k \<leftarrow> store api (entry (io_table g) (NR_openat api)) f_openat k;
     f \<leftarrow> fetch api (entry (io_table g) (NR_close api)) k;
     let g = g\<lparr>real_close := f\<rparr>;
     k \<leftarrow> store api (entry (io_table g) (NR_close api)) f_close k;
     f \<leftarrow> fetch api (entry (io_table g) (NR_read api)) k;
     let g = g\<lparr>real_read := f\<rparr>;
     k \<leftarrow> store api (entry (io_table g) (NR_read api)) f_read k;
     f \<leftarrow> fetch api (entry (io_table g) (NR_write api)) k;
     let g = g\<lparr>real_write := f\<rparr>;
     k \<leftarrow> store api (entry (io_table g) (NR_write api)) f_write k;
     f \<leftarrow> fetch api (entry (io_table g) (NR_lseek api)) k;
     let g = g\<lparr>real_lseek := f\<rparr>;
     k \<leftarrow> store api (entry (io_table g) (NR_lseek api)) f_lseek k;
     k \<leftarrow> make_ro api (io_table g) k;
     Some (k, g) })"

definition iotracehooking_exit ::
  "kapi \<Rightarrow> 'h kernel \<times> 'h io_vars \<Rightarrow> ('h kernel \<times> 'h io_vars) option" where
  "iotracehooking_exit api = (\<lambda>(k, g). do {
     k \<leftarrow> make_rw api (io_table g) k;
     k \<leftarrow> store api (entry (io_table g) (NR_openat api)) (real_openat g) k;
     k \<leftarrow> store api (entry (io_table g) (NR_close api)) (real_close g) k;
     k \<leftarrow> store api (entry (io_table g) (NR_read api)) (real_read g) k;
     k \<leftarrow> store api (entry (io_table g) (NR_write api)) (real_write g) k;
     k \<leftarrow> store api (entry (io_table g) (NR_lseek api)) (real_lseek g) k;
     k \<leftarrow> make_ro api (io_table g) k;
     Some (k, g) })"

section \<open>Loading and unloading\<close>

abbreviation sys_call_table :: "kapi \<Rightarrow> 64 word" where
  "sys_call_table api \<equiv> kallsyms_lookup_name api ''sys_call_table''"

abbreviation ftrace_entry :: "kapi \<Rightarrow> 64 word" where
  "ftrace_entry api \<equiv> entry (sys_call_table api) (NR_os_ftrace api)"

abbreviation ftrace_hookable :: "kapi \<Rightarrow> 'h kernel \<Rightarrow> bool" where
  "ftrace_hookable api \<equiv> hookable api (sys_call_table api) [NR_os_ftrace api]"

abbreviation ftrace_loaded :: "kapi \<Rightarrow> 'h hook_vars \<Rightarrow> bool" where
  "ftrace_loaded api g \<equiv> syscall_table g = sys_call_table api"

lemma store_rw:
  assumes "hookable api tab ns k" "n \<in> set ns"
  shows "store api (entry tab n) v ((with_pte api tab (\<lambda>e. e OR PAGE_RW api) k)\<lparr>kmem := m\<rparr>) =
    Some ((with_pte api tab (\<lambda>e. e OR PAGE_RW api) k)\<lparr>kmem := m(entry tab n := v)\<rparr>)"
  using assms writable_rw [OF assms(1)] writable_entry [OF hookable_rw [OF assms(1)] assms(2)]
  by (simp add: store_ok)

lemma store_rw0:
  assumes "hookable api tab ns k" "n \<in> set ns"
  shows "store api (entry tab n) v (with_pte api tab (\<lambda>e. e OR PAGE_RW api) k) =
    Some ((with_pte api tab (\<lambda>e. e OR PAGE_RW api) k)\<lparr>kmem := (kmem k)(entry tab n := v)\<rparr>)"
  using assms writable_rw [OF assms(1)] writable_entry [OF hookable_rw [OF assms(1)] assms(2)]
  by (simp add: store_ok)

lemmas hook_steps = make_rw_ok make_ro_ok store_rw store_rw0 fetch_ok

lemma ftracehooking_init_eq:
  assumes "ftrace_hookable api k"
  shows "ftracehooking_init api hook (k, g) =
    Some ((with_pte api (sys_call_table api) (\<lambda>e. e AND NOT (PAGE_RW api)) k)
            \<lparr>kmem := (kmem k)(ftrace_entry api := hook)\<rparr>,
          g\<lparr>syscall_table := sys_call_table api, real_os_ftrace := kmem k (ftrace_entry api)\<rparr>)"
  using assms by (simp add: ftracehooking_init_def hook_steps [of api _ "[NR_os_ftrace api]"])

lemma ftracehooking_exit_eq:
  assumes "ftrace_hookable api k" "ftrace_loaded api g"
  shows "ftracehooking_exit api (k, g) =
    Some ((with_pte api (sys_call_table api) (\<lambda>e. e AND NOT (PAGE_RW api)) k)
            \<lparr>kmem := (kmem k)(ftrace_entry api := real_os_ftrace g)\<rparr>, g)"
  using assms by (simp add: ftracehooking_exit_def hook_steps [of api _ "[NR_os_ftrace api]"])

interpretation ftracehooking: hook_module "ftracehooking_init api hook" "ftracehooking_exit api"
    "[(ftrace_entry api, hook)]" "ftrace_hookable api" "ftrace_hookable api" "ftrace_loaded api"
    "\<lambda>g. [real_os_ftrace g]" for api hook
  by unfold_locales (simp_all add: ftracehooking_init_eq ftracehooking_exit_eq)

text \<open>The module of 2-2 leaves the page writable while it is loaded.\<close>

lemma os_ftracehooking_init_eq:
  assumes "ftrace_hookable api k"
  shows "os_ftracehooking_init api hook (k, g) =
    Some ((with_pte api (sys_call_table api) (\<lambda>e. e OR PAGE_RW api) k)
            \<lparr>kmem := (kmem k)(ftrace_entry api := hook)\<rparr>,
          g\<lparr>syscall_table := sys_call_table api, real_os_ftrace := kmem k (ftrace_entry api)\<rparr>)"
  using assms by (simp add: os_ftracehooking_init_def hook_steps [of api _ "[NR_os_ftrace api]"])

lemma os_ftracehooking_exit_eq:
  assumes "ftrace_hookable api k" "writable api (sys_call_table api) k" "ftrace_loaded api g"
  shows "os_ftracehooking_exit api (k, g) =
    Some ((with_pte api (sys_call_table api) (\<lambda>e. e AND NOT (PAGE_RW api)) k)
            \<lparr>kmem := (kmem k)(ftrace_entry api := real_os_ftrace g)\<rparr>, g)"
  using assms by (simp add: os_ftracehooking_exit_def make_ro_ok [of api _ "[NR_os_ftrace api]"]
      store_ok writable_entry)

interpretation os_ftracehooking: hook_module "os_ftracehooking_init api hook" "os_ftracehooking_exit api"
    "[(ftrace_entry api, hook)]" "ftrace_hookable api"
    "\<lambda>k. ftrace_hookable api k \<and> writable api (sys_call_table api) k" "ftrace_loaded api"
    "\<lambda>g. [real_os_ftrace g]" for api hook
  by unfold_locales (simp_all add: os_ftracehooking_init_eq os_ftracehooking_exit_eq writable_rw)

abbreviation io_numbers :: "kapi \<Rightarrow> nat list" where
  "io_numbers api \<equiv> [NR_openat api, NR_close api, NR_read api, NR_write api, NR_lseek api]"

abbreviation io_hookable :: "kapi \<Rightarrow> 'h kernel \<Rightarrow> bool" where
  "io_hookable api \<equiv> hookable api (sys_call_table api) (io_numbers api)"

abbreviation io_hooks :: "kapi \<Rightarrow> 'h list \<Rightarrow> (64 word \<times> 'h) list" where
  "io_hooks api hs \<equiv> zip (map (entry (sys_call_table api)) (io_numbers api)) hs"

abbreviation io_saved :: "'h io_vars \<Rightarrow> 'h list" where
  "io_saved g \<equiv> [real_openat g, real_close g, real_read g, real_write g, real_lseek g]"

lemma io_hookable_distinct:
  "io_hookable api k \<Longrightarrow> distinct (map (entry (sys_call_table api)) (io_numbers api))"
  by (auto simp: hookable_def split: option.splits)

lemma iotracehooking_init_eq:
  assumes "io_hookable api k"
  shows "iotracehooking_init api f1 f2 f3 f4 f5 (k, g) =
      Some ((with_pte api (sys_call_table api) (\<lambda>e. e AND NOT (PAGE_RW api)) k)
              \<lparr>kmem := patch (io_hooks api [f1, f2, f3, f4, f5]) (kmem k)\<rparr>,
        g\<lparr>io_table := sys_call_table api,
          real_openat := kmem k (entry (sys_call_table api) (NR_openat api)),
          real_close := kmem k (entry (sys_call_table api) (NR_close api)),
          real_read := kmem k (entry (sys_call_table api) (NR_read api)),
          real_write := kmem k (entry (sys_call_table api) (NR_write api)),
          real_lseek := kmem k (entry (sys_call_table api) (NR_lseek api))\<rparr>)"
proof -
  let ?e = "entry (sys_call_table api)"
  have ne: "?e (NR_openat api) \<noteq> ?e (NR_close api)" "?e (NR_openat api) \<noteq> ?e (NR_read api)"
    "?e (NR_openat api) \<noteq> ?e (NR_write api)" "?e (NR_openat api) \<noteq> ?e (NR_lseek api)"
    "?e (NR_close api) \<noteq> ?e (NR_read api)" "?e (NR_close api) \<noteq> ?e (NR_write api)"
    "?e (NR_close api) \<noteq> ?e (NR_lseek api)" "?e (NR_read api) \<noteq> ?e (NR_write api)"
    "?e (NR_read api) \<noteq> ?e (NR_lseek api)" "?e (NR_write api) \<noteq> ?e (NR_lseek api)"
    using io_hookable_distinct [OF assms] by simp_all
  show ?thesis
    using assms by (simp add: iotracehooking_init_def hook_steps [of api _ "io_numbers api"] ne ne [symmetric])
qed

lemma iotracehooking_exit_eq:
  assumes "io_hookable api k" "io_table g = sys_call_table api"
  shows "iotracehooking_exit api (k, g) =
    Some ((with_pte api (sys_call_table api) (\<lambda>e. e AND NOT (PAGE_RW api)) k)
            \<lparr>kmem := patch (io_hooks api (io_saved g)) (kmem k)\<rparr>, g)"
  using assms by (simp add: iotracehooking_exit_def hook_steps [of api _ "io_numbers api"])

interpretation iotracehooking: hook_module "iotracehooking_init api f1 f2 f3 f4 f5"
    "iotracehooking_exit api" "io_hooks api [f1, f2, f3, f4, f5]" "io_hookable api" "io_hookable api"
    "\<lambda>g. io_table g = sys_call_table api" io_saved for api f1 f2 f3 f4 f5
proof (unfold_locales, goal_cases)
  case (1 k)
  then show ?case using io_hookable_distinct [OF 1] by simp
qed (simp_all add: iotracehooking_init_eq iotracehooking_exit_eq)

section \<open>A trace session\<close>

datatype io_call = Openat | Close | Read | Write | Lseek

type_synonym io_event = "task_struct \<times> io_call \<times> pt_regs"

text \<open>The table with the five hooks, and the table without them, on a sequence of calls.\<close>

definition io_hook ::
  "(64 word \<Rightarrow> nat \<Rightarrow> char list) \<Rightarrow> (io_call \<Rightarrow> 'w syscall) \<Rightarrow> io_event \<Rightarrow> trace \<times> 'w \<Rightarrow> (trace \<times> 'w) \<times> 64 word" where
  "io_hook cpy real = (\<lambda>(current, c, regs). case c of
      Openat \<Rightarrow> ftrace_openat cpy (real Openat) current regs
    | Close \<Rightarrow> ftrace_close (real Close) current regs
    | Read \<Rightarrow> ftrace_read (real Read) current regs
    | Write \<Rightarrow> ftrace_write (real Write) current regs
    | Lseek \<Rightarrow> ftrace_lseek (real Lseek) current regs)"

fun io_run ::
  "(64 word \<Rightarrow> nat \<Rightarrow> char list) \<Rightarrow> (io_call \<Rightarrow> 'w syscall) \<Rightarrow> io_event list \<Rightarrow> trace \<times> 'w \<Rightarrow> (trace \<times> 'w) \<times> 64 word list" where
  "io_run cpy real [] s = (s, [])"
| "io_run cpy real (e # es) s =
     (let (s, r) = io_hook cpy real e s; (s, rs) = io_run cpy real es s in (s, r # rs))"

fun real_run :: "(io_call \<Rightarrow> 'w syscall) \<Rightarrow> io_event list \<Rightarrow> 'w \<Rightarrow> 'w \<times> 64 word list" where
  "real_run real [] w = (w, [])"
| "real_run real (e # es) w =
     (let (r, w) = real (fst (snd e)) (snd (snd e)) w; (w, rs) = real_run real es w in (w, r # rs))"

text \<open>The results of the calls of one kind that the process \<open>p\<close> made.\<close>

fun results_of :: "int \<Rightarrow> io_call \<Rightarrow> io_event list \<Rightarrow> 64 word list \<Rightarrow> 64 word list" where
  "results_of p c (e # es) (r # rs) =
     (if pid (fst e) = p \<and> fst (snd e) = c then [r] else []) @ results_of p c es rs"
| "results_of p c _ _ = []"

definition count_of :: "int \<Rightarrow> io_call \<Rightarrow> io_event list \<Rightarrow> 64 word list \<Rightarrow> 32 word" where
  "count_of p c es rs = of_nat (length (results_of p c es rs))"

definition bytes_of :: "int \<Rightarrow> io_call \<Rightarrow> io_event list \<Rightarrow> 64 word list \<Rightarrow> 32 word" where
  "bytes_of p c es rs = sum_list (map ucast (results_of p c es rs))"

lemma take_bit_wide:
  assumes "n \<le> Suc m" "n \<le> k"
  shows "take_bit n (signed_take_bit m x + y) = take_bit n (x + take_bit k (y :: int))"
proof -
  have "take_bit n (x + take_bit k y) = take_bit n (take_bit n x + take_bit n (take_bit k y))"
    by (simp only: take_bit_add)
  also have "\<dots> = take_bit n (take_bit n (signed_take_bit m x) + take_bit n y)"
    using assms by (simp add: take_bit_signed_take_bit min_def)
  finally show ?thesis by (simp only: take_bit_add)
qed

lemma ucast_scast_add: "(ucast (scast (x :: 32 word) + (y :: 64 word)) :: 32 word) = x + ucast y"
  by transfer (simp add: take_bit_wide)

lemmas io_hook_defs = io_hook_def ftrace_openat_def ftrace_close_def ftrace_read_def
  ftrace_write_def ftrace_lseek_def Let_def

text \<open>The hooks return what the real call returns and have no effect of their own on the kernel.\<close>

lemma io_hook_real:
  assumes "io_hook cpy real e (g, w) = ((g', w'), r)"
  shows "real (fst (snd e)) (snd (snd e)) w = (r, w')" "cur_pid g' = cur_pid g"
  using assms by (cases e; cases "fst (snd e)"; auto simp: io_hook_defs split: prod.splits if_splits)+

lemma io_run_real:
  "io_run cpy real es (g, w) = ((g', w'), rs) \<Longrightarrow>
    real_run real es w = (w', rs) \<and> length rs = length es \<and> cur_pid g' = cur_pid g"
proof (induction es arbitrary: g w rs)
  case (Cons e es)
  from Cons.prems obtain g1 w1 r rs' where h: "io_hook cpy real e (g, w) = ((g1, w1), r)"
      "io_run cpy real es (g1, w1) = ((g', w'), rs')" "rs = r # rs'"
    by (auto split: prod.splits)
  show ?case using Cons.IH [OF h(2)] io_hook_real [OF h(1)] h(3) by simp
qed simp

text \<open>What one call adds to the counters.\<close>

definition count_step :: "trace \<Rightarrow> io_event \<Rightarrow> 64 word \<Rightarrow> trace \<Rightarrow> bool" where
  "count_step g e r g' \<longleftrightarrow>
     o_cnt g' = o_cnt g + count_of (cur_pid g) Openat [e] [r] \<and>
     c_cnt g' = c_cnt g + count_of (cur_pid g) Close [e] [r] \<and>
     r_cnt g' = r_cnt g + count_of (cur_pid g) Read [e] [r] \<and>
     w_cnt g' = w_cnt g + count_of (cur_pid g) Write [e] [r] \<and>
     l_cnt g' = l_cnt g + count_of (cur_pid g) Lseek [e] [r] \<and>
     read_b g' = read_b g + bytes_of (cur_pid g) Read [e] [r] \<and>
     write_b g' = write_b g + bytes_of (cur_pid g) Write [e] [r]"

lemma io_hook_counts:
  assumes "io_hook cpy real e (g, w) = ((g', w'), r)"
  shows "count_step g e r g'"
proof -
  obtain t c regs where e: "e = (t, c, regs)" by (cases e)
  show ?thesis
    using assms by (cases c) (auto simp: e io_hook_defs count_step_def count_of_def bytes_of_def
        ucast_scast_add split: prod.splits if_splits)
qed

lemma count_of_Cons: "count_of p c (e # es) (r # rs) = count_of p c [e] [r] + count_of p c es rs"
  by (simp add: count_of_def)

lemma bytes_of_Cons: "bytes_of p c (e # es) (r # rs) = bytes_of p c [e] [r] + bytes_of p c es rs"
  by (simp add: bytes_of_def)

lemma io_run_counts:
  "io_run cpy real es (g, w) = ((g', w'), rs) \<Longrightarrow>
     o_cnt g' = o_cnt g + count_of (cur_pid g) Openat es rs \<and>
     c_cnt g' = c_cnt g + count_of (cur_pid g) Close es rs \<and>
     r_cnt g' = r_cnt g + count_of (cur_pid g) Read es rs \<and>
     w_cnt g' = w_cnt g + count_of (cur_pid g) Write es rs \<and>
     l_cnt g' = l_cnt g + count_of (cur_pid g) Lseek es rs \<and>
     read_b g' = read_b g + bytes_of (cur_pid g) Read es rs \<and>
     write_b g' = write_b g + bytes_of (cur_pid g) Write es rs"
proof (induction es arbitrary: g w rs)
  case Nil
  then show ?case by (simp add: count_of_def bytes_of_def)
next
  case (Cons e es)
  from Cons.prems obtain g1 w1 r rs' where h: "io_hook cpy real e (g, w) = ((g1, w1), r)"
      "io_run cpy real es (g1, w1) = ((g', w'), rs')" "rs = r # rs'"
    by (auto split: prod.splits)
  show ?case
    using Cons.IH [OF h(2)] io_hook_counts [OF h(1)] io_hook_real(2) [OF h(1)]
    by (simp add: h(3) count_step_def count_of_Cons [of _ _ e es] bytes_of_Cons [of _ _ e es] add.assoc)
qed

section \<open>Properties\<close>

text \<open>
  C23. A trace session counts what it promises. After \<open>ftrace(pid)\<close> with a pid other than 0,
  and after any sequence of file system calls by any processes through the hooked table,
  each counter is the number of calls of its kind made by that process since the start
  (modulo the width of \<open>int\<close>), \<open>read_b\<close> and \<open>write_b\<close> are the sums of the results of its
  reads and writes, and the calls returned and changed exactly what they would have without
  the hooks.
\<close>

theorem trace_session:
  assumes "my_ftrace current regs g = Some (g0, lines, ret)" "pid_arg regs = p" "p \<noteq> 0"
    and "io_run cpy real es (g0, w) = ((g1, w1), rs)"
  shows "ret = p \<and> real_run real es w = (w1, rs) \<and> cur_pid g1 = p \<and>
    o_cnt g1 = count_of p Openat es rs \<and> c_cnt g1 = count_of p Close es rs \<and>
    r_cnt g1 = count_of p Read es rs \<and> w_cnt g1 = count_of p Write es rs \<and>
    l_cnt g1 = count_of p Lseek es rs \<and>
    read_b g1 = bytes_of p Read es rs \<and> write_b g1 = bytes_of p Write es rs"
proof -
  have g0: "cur_pid g0 = p" "ret = p" "o_cnt g0 = 0" "c_cnt g0 = 0" "r_cnt g0 = 0" "w_cnt g0 = 0"
      "l_cnt g0 = 0" "read_b g0 = 0" "write_b g0 = 0"
    using assms(1-3) by (auto simp: my_ftrace_def Let_def)
  show ?thesis
    using io_run_real [OF assms(4)] io_run_counts [OF assms(4)] by (simp add: g0)
qed

definition sample_trace :: trace where
  "sample_trace = \<lparr>cur_pid = 0, file_name = replicate 50 NUL, read_b = 7, write_b = 0, o_cnt = 1,
     c_cnt = 0, r_cnt = 2, w_cnt = 0, l_cnt = 0\<rparr>"

definition sample_regs :: pt_regs where
  "sample_regs = \<lparr>di = 5, si = 0, dx = 0\<rparr>"

definition traced_task :: task_struct where
  "traced_task = blank_task\<lparr>pid := 5\<rparr>"

definition sample_real :: "io_call \<Rightarrow> nat syscall" where
  "sample_real c regs w = ((if c = Read then 12 else 3), Suc w)"

definition zero_copy :: "64 word \<Rightarrow> nat \<Rightarrow> char list" where
  "zero_copy a n = replicate n NUL"

lemmas sample_defs = sample_trace_def sample_regs_def traced_task_def sample_real_def zero_copy_def
  blank_task_def

definition sample_events :: "io_event list" where
  "sample_events = [(traced_task, Read, sample_regs), (blank_task, Read, sample_regs),
     (traced_task, Close, sample_regs)]"

theorem trace_session_witness:
  "\<exists>g0 lines ret g1 w1 rs. my_ftrace blank_task sample_regs sample_trace = Some (g0, lines, ret) \<and>
     io_run zero_copy sample_real sample_events (g0, 0) = ((g1, w1), rs) \<and>
     r_cnt g1 = 1 \<and> c_cnt g1 = 1 \<and> read_b g1 = 12"
proof -
  have p: "pid_arg sample_regs = 5" by (simp add: pid_arg_def sample_regs_def)
  obtain g0 lines ret where s: "my_ftrace blank_task sample_regs sample_trace = Some (g0, lines, ret)"
    by (simp add: my_ftrace_def p Let_def)
  obtain g1 w1 rs where r: "io_run zero_copy sample_real sample_events (g0, 0) = ((g1, w1), rs)"
    by (metis surj_pair)
  have "real_run sample_real sample_events 0 = (3, [12, 12, 3])"
    by (simp add: sample_events_def sample_real_def)
  with trace_session [OF s p _ r] have "r_cnt g1 = count_of 5 Read sample_events [12, 12, 3]"
      "c_cnt g1 = count_of 5 Close sample_events [12, 12, 3]"
      "read_b g1 = bytes_of 5 Read sample_events [12, 12, 3]"
    by simp_all
  then have "r_cnt g1 = 1 \<and> c_cnt g1 = 1 \<and> read_b g1 = 12"
    by (simp add: count_of_def bytes_of_def sample_events_def traced_task_def blank_task_def)
  with s r show ?thesis by blast
qed

lemma ucast_eq_of_sint: "(ucast (x :: 64 word) :: 32 word) = of_int (sint x)"
  by transfer (simp add: take_bit_signed_take_bit)

lemma sum_ucast_eq_of_int: "sum_list (map ucast xs) = (of_int (sum_list (map sint xs)) :: 32 word)"
  for xs :: "64 word list"
  by (induction xs) (simp_all add: ucast_eq_of_sint)

lemma sum_map_nonneg: "\<forall>x \<in> set xs. (0 :: int) \<le> f x \<Longrightarrow> 0 \<le> sum_list (map f xs)"
  by (induction xs) auto

text \<open>
  The byte total of a trace session is exact within the range of \<open>int\<close>: when no read of
  the traced process failed and the results of its reads sum to less than 2 GiB, the number
  the report prints for the bytes read is that sum.
\<close>

theorem traced_bytes_exact:
  assumes "my_ftrace current regs g = Some (g0, lines, ret)" "pid_arg regs = p" "p \<noteq> 0"
    and "io_run cpy real es (g0, w) = ((g1, w1), rs)"
    and "\<forall>r \<in> set (results_of p Read es rs). 0 \<le> sint r"
    and "sum_list (map sint (results_of p Read es rs)) < 2 ^ 31"
  shows "print_d (read_b g1) = print_int (sum_list (map sint (results_of p Read es rs)))"
proof -
  have g0: "cur_pid g0 = p" "read_b g0 = 0" using assms(1-3) by (auto simp: my_ftrace_def Let_def)
  have "read_b g1 = of_int (sum_list (map sint (results_of p Read es rs)))"
    using io_run_counts [OF assms(4)] g0 by (simp add: bytes_of_def sum_ucast_eq_of_int)
  moreover have "0 \<le> sum_list (map sint (results_of p Read es rs))"
    using assms(5) by (rule sum_map_nonneg)
  ultimately have "sint (read_b g1) = sum_list (map sint (results_of p Read es rs))"
    using assms(6) by (simp add: signed_of_int signed_take_bit_int_eq_self)
  then show ?thesis by (simp add: print_d_def)
qed

theorem traced_bytes_exact_witness:
  "\<exists>g0 lines ret g1 w1 rs. my_ftrace blank_task sample_regs sample_trace = Some (g0, lines, ret) \<and>
     io_run zero_copy sample_real sample_events (g0, 0) = ((g1, w1), rs) \<and>
     print_d (read_b g1) = print_int 12"
proof -
  have p: "pid_arg sample_regs = 5" by (simp add: pid_arg_def sample_regs_def)
  obtain g0 lines ret where s: "my_ftrace blank_task sample_regs sample_trace = Some (g0, lines, ret)"
    by (simp add: my_ftrace_def p Let_def)
  obtain g1 w1 rs where r: "io_run zero_copy sample_real sample_events (g0, 0) = ((g1, w1), rs)"
    by (metis surj_pair)
  have "real_run sample_real sample_events 0 = (3, [12, 12, 3])"
    by (simp add: sample_events_def sample_real_def)
  with io_run_real [OF r] have "rs = [12, 12, 3]" by simp
  then have "results_of 5 Read sample_events rs = [12]"
    by (simp add: sample_events_def traced_task_def blank_task_def)
  with traced_bytes_exact [OF s p _ r] s r show ?thesis by auto
qed

text \<open>
  A failed read is counted as a negative number of bytes: a read by the traced process
  that returns the error \<open>-e\<close> lowers the byte total of the session by \<open>e\<close>.
\<close>

theorem failed_read_lowers_total:
  assumes "cur_pid g = pid current" "real regs w = (- of_nat e, w')"
  shows "ftrace_read real current regs (g, w) =
    ((g\<lparr>r_cnt := r_cnt g + 1, read_b := read_b g - of_nat e\<rparr>, w'), - of_nat e)"
proof -
  have "(ucast (- of_nat e :: 64 word) :: 32 word) = - of_nat e"
    by transfer (simp add: take_bit_minus)
  with assms show ?thesis by (simp add: ftrace_read_def ucast_scast_add)
qed

theorem failed_read_lowers_total_witness:
  "read_b (fst (fst (ftrace_read (\<lambda>regs w. (- of_nat 9, w)) traced_task sample_regs
     (sample_trace\<lparr>cur_pid := 5\<rparr>, 0 :: nat)))) = 7 - 9"
  using failed_read_lowers_total [of "sample_trace\<lparr>cur_pid := 5\<rparr>" traced_task
      "\<lambda>regs w. (- of_nat 9, w)" sample_regs "0 :: nat" 9 "0 :: nat"]
  by (simp add: traced_task_def sample_trace_def)

text \<open>
  A path that fills the name buffer breaks the report: after the traced process opens a
  file whose first 50 path bytes have no NUL, \<open>ftrace(0)\<close> reads past the end of \<open>file_name\<close>.
\<close>

theorem long_path_breaks_report:
  assumes "cur_pid g = pid current" "NUL \<notin> set (cpy (si regs) 50)" "pid_arg end_regs = 0"
  shows "my_ftrace reporter end_regs (fst (fst (ftrace_openat cpy real current regs (g, w)))) = None"
  using assms by (simp add: ftrace_openat_def my_ftrace_def cstr_def split: prod.splits)

theorem long_path_breaks_report_witness:
  "my_ftrace blank_task (sample_regs\<lparr>di := 0\<rparr>)
     (fst (fst (ftrace_openat (\<lambda>a n. replicate n CHR ''a'') (sample_real Openat) traced_task sample_regs
        (sample_trace\<lparr>cur_pid := 5\<rparr>, 0)))) = None"
  by (rule long_path_breaks_report)
    (simp_all add: traced_task_def sample_trace_def NUL_def pid_arg_def sample_regs_def)

lemma hookable_subset:
  "hookable api tab ns k \<Longrightarrow> set ms \<subseteq> set ns \<Longrightarrow> distinct (map (entry tab) ms) \<Longrightarrow> hookable api tab ms k"
  by (auto simp: hookable_def split: option.splits)

lemma hookable_distinct: "hookable api tab ns k \<Longrightarrow> distinct (map (entry tab) ns)"
  by (auto simp: hookable_def split: option.splits)

lemma ftrace_hookable_pair:
  assumes "hookable api (sys_call_table api) (NR_os_ftrace api # io_numbers api) k"
  shows "ftrace_hookable api k" "io_hookable api k"
  using hookable_subset [OF assms, of "[NR_os_ftrace api]"] hookable_subset [OF assms, of "io_numbers api"]
    hookable_distinct [OF assms] by auto

definition ro_page :: "kapi \<Rightarrow> 'h kernel \<Rightarrow> 'h kernel" where
  "ro_page api k = with_pte api (sys_call_table api) (\<lambda>e. e AND NOT (PAGE_RW api)) k"

lemma ro_page_simps [simp]:
  "kmem (ro_page api k) = kmem k" "ro_page api (k\<lparr>kmem := m\<rparr>) = (ro_page api k)\<lparr>kmem := m\<rparr>"
  "ro_page api (ro_page api k) = ro_page api k" "\<not> writable api (sys_call_table api) (ro_page api k)"
  "hookable api (sys_call_table api) ns k \<Longrightarrow> hookable api (sys_call_table api) ns (ro_page api k)"
  by (simp_all add: ro_page_def with_pte_ro_id writable_ro)

lemma patch_fetch:
  assumes "distinct as" "length vs = length as"
  shows "map (patch (zip as vs) m) as = vs"
proof (rule nth_equalityI)
  fix i assume "i < length (map (patch (zip as vs) m) as)"
  then have "(as ! i, vs ! i) \<in> set (zip as vs)" using assms(2) by (simp add: in_set_zip) blast
  with assms \<open>i < _\<close> show "map (patch (zip as vs) m) as ! i = vs ! i"
    using patch_in [of "zip as vs"] by simp
qed (use assms in simp)

lemma patch_restore:
  assumes "distinct as" "length vs = length as"
  shows "patch (zip as (map m as)) (patch (zip as vs) m) = m"
proof
  fix a
  show "patch (zip as (map m as)) (patch (zip as vs) m) a = m a"
  proof (cases "a \<in> set as")
    case True
    then have "(a, m a) \<in> set (zip as (map m as))" by (simp add: zip_map2 zip_same_conv_map)
    then show ?thesis using assms(1) by (intro patch_in) simp_all
  next
    case False
    then show ?thesis
      using assms by (metis length_map list.set_map map_fst_zip patch_other)
  qed
qed

lemma patch_upd: "a \<notin> fst ` set ws \<Longrightarrow> (patch ws m)(a := v) = patch ws (m(a := v))"
proof (induction ws arbitrary: m)
  case (Cons w ws)
  then have "(m(fst w := snd w))(a := v) = (m(a := v))(fst w := snd w)"
    by (intro fun_upd_twist) auto
  moreover have "(patch ws (m(fst w := snd w)))(a := v) = patch ws ((m(fst w := snd w))(a := v))"
    using Cons.prems by (intro Cons.IH) auto
  ultimately show ?case by (simp only: patch_simps)
qed simp

text \<open>
  C34. Loading and unloading the file tracer gives the system call table back. With the
  modules \<open>ftracehooking\<close> and \<open>iotracehooking\<close> loaded, the six entries lead to the hooks;
  after both are unloaded, in either order, every word of memory is what it was, and the
  page of the table is read-only.
\<close>

theorem tracer_modules_roundtrip:
  assumes "hookable api (sys_call_table api) (NR_os_ftrace api # io_numbers api) k"
  shows "\<exists>k1 g1 k2 h2 k3 k4 k5 k6.
    ftracehooking_init api f0 (k, g) = Some (k1, g1) \<and>
    iotracehooking_init api f1 f2 f3 f4 f5 (k1, h) = Some (k2, h2) \<and>
    map (kmem k2) (map (entry (sys_call_table api)) (NR_os_ftrace api # io_numbers api)) =
      [f0, f1, f2, f3, f4, f5] \<and>
    iotracehooking_exit api (k2, h2) = Some (k3, h2) \<and>
    ftracehooking_exit api (k3, g1) = Some (k4, g1) \<and> kmem k4 = kmem k \<and>
    ftracehooking_exit api (k2, g1) = Some (k5, g1) \<and>
    iotracehooking_exit api (k5, h2) = Some (k6, h2) \<and> kmem k6 = kmem k \<and>
    \<not> writable api (sys_call_table api) k4 \<and> \<not> writable api (sys_call_table api) k6"
proof -
  let ?e = "entry (sys_call_table api)" and ?ro = "ro_page api k"
  let ?a0 = "ftrace_entry api" and ?as = "map ?e (io_numbers api)"
  have fh: "ftrace_hookable api k" and ih: "io_hookable api k"
    using ftrace_hookable_pair [OF assms] by auto
  have dist: "distinct ?as" and a0: "?a0 \<notin> set ?as" using hookable_distinct [OF assms] by auto
  define m1 where "m1 = (kmem k)(?a0 := f0)"
  define m2 where "m2 = patch (io_hooks api [f1, f2, f3, f4, f5]) m1"
  define g1 where "g1 = g\<lparr>syscall_table := sys_call_table api, real_os_ftrace := kmem k ?a0\<rparr>"
  have i1: "ftracehooking_init api f0 (k, g) = Some (?ro\<lparr>kmem := m1\<rparr>, g1)"
    using ftracehooking_init_eq [OF fh] by (simp add: m1_def ro_page_def g1_def)
  define h2 where "h2 = h\<lparr>io_table := sys_call_table api, real_openat := m1 (?e (NR_openat api)),
      real_close := m1 (?e (NR_close api)), real_read := m1 (?e (NR_read api)),
      real_write := m1 (?e (NR_write api)), real_lseek := m1 (?e (NR_lseek api))\<rparr>"
  have i2: "iotracehooking_init api f1 f2 f3 f4 f5 (?ro\<lparr>kmem := m1\<rparr>, h) = Some (?ro\<lparr>kmem := m2\<rparr>, h2)"
      "io_table h2 = sys_call_table api" "io_saved h2 = map m1 ?as"
    using iotracehooking_init_eq [of api "?ro\<lparr>kmem := m1\<rparr>" f1 f2 f3 f4 f5 h] ih
    by (simp_all add: m2_def h2_def flip: ro_page_def)
  have m1_as: "map m1 ?as = map (kmem k) ?as" using a0 by (auto simp: m1_def)
  have undo: "patch (zip ?as (map m ?as)) (patch (io_hooks api [f1, f2, f3, f4, f5]) m) = m" for m
    by (rule patch_restore [OF dist]) simp
  have x1: "iotracehooking_exit api (?ro\<lparr>kmem := m2\<rparr>, h2) = Some (?ro\<lparr>kmem := m1\<rparr>, h2)"
    using iotracehooking_exit_eq [of api "?ro\<lparr>kmem := m2\<rparr>" h2] ih i2(2) undo [of m1]
    by (simp only: i2(3) m2_def flip: ro_page_def) simp
  have x2: "ftracehooking_exit api (?ro\<lparr>kmem := m\<rparr>, g1) = Some (?ro\<lparr>kmem := m(?a0 := kmem k ?a0)\<rparr>, g1)" for m
    using ftracehooking_exit_eq [of api "?ro\<lparr>kmem := m\<rparr>" g1] fh by (simp add: g1_def flip: ro_page_def)
  have m2_back: "m2(?a0 := kmem k ?a0) = patch (io_hooks api [f1, f2, f3, f4, f5]) (kmem k)"
    using a0 by (simp add: m2_def m1_def patch_upd del: patch_simps)
  have x4: "iotracehooking_exit api (?ro\<lparr>kmem := m2(?a0 := kmem k ?a0)\<rparr>, h2) = Some (?ro\<lparr>kmem := kmem k\<rparr>, h2)"
    using iotracehooking_exit_eq [of api "?ro\<lparr>kmem := m2(?a0 := kmem k ?a0)\<rparr>" h2] ih i2(2) undo [of "kmem k"]
    by (simp only: i2(3) m1_as m2_back flip: ro_page_def) simp
  have "map m2 ?as = [f1, f2, f3, f4, f5]" unfolding m2_def by (rule patch_fetch [OF dist]) simp
  moreover have "m2 ?a0 = f0"
    using a0 by (simp add: m2_def m1_def patch_other del: patch_simps)
  ultimately show ?thesis
    using i1 i2(1) x1 x2 [of m1] x2 [of m2] x4 by (auto simp: m1_def)
qed

definition sample_api :: kapi where
  "sample_api = \<lparr>lookup_address = (\<lambda>a. Some 0), kallsyms_lookup_name = (\<lambda>s. 0x1000), PAGE_RW = 2,
     NR_os_ftrace = 336, NR_openat = 257, NR_close = 3, NR_read = 0, NR_write = 1, NR_lseek = 8\<rparr>"

definition sample_kernel :: "nat kernel" where
  "sample_kernel = \<lparr>ptes = (\<lambda>p. 1), kmem = (\<lambda>a. 7)\<rparr>"

definition sample_vars :: "nat hook_vars" where
  "sample_vars = \<lparr>syscall_table = 0, real_os_ftrace = 0\<rparr>"

definition sample_io_vars :: "nat io_vars" where
  "sample_io_vars = \<lparr>io_table = 0, real_openat = 0, real_close = 0, real_read = 0, real_write = 0,
     real_lseek = 0\<rparr>"

lemma sample_hookable:
  "hookable sample_api (sys_call_table sample_api) (NR_os_ftrace sample_api # io_numbers sample_api) sample_kernel"
  "ftrace_hookable sample_api sample_kernel"
  by (simp_all add: hookable_def sample_api_def sample_kernel_def entry_def)

theorem tracer_modules_roundtrip_witness:
  "\<exists>k1 g1 k2 h2 k3 k4. ftracehooking_init sample_api 10 (sample_kernel, sample_vars) = Some (k1, g1) \<and>
     iotracehooking_init sample_api 11 12 13 14 15 (k1, sample_io_vars) = Some (k2, h2) \<and>
     iotracehooking_exit sample_api (k2, h2) = Some (k3, h2) \<and>
     ftracehooking_exit sample_api (k3, g1) = Some (k4, g1) \<and> kmem k4 = (\<lambda>a. 7)"
proof -
  have "kmem sample_kernel = (\<lambda>a. 7)" by (simp add: sample_kernel_def)
  with tracer_modules_roundtrip [OF sample_hookable(1), of 10 sample_vars 11 12 13 14 15 sample_io_vars]
  show ?thesis by metis
qed

text \<open>
  C35. Which module keeps the table protected. \<open>ftracehooking\<close> leaves the page of the table
  read-only while it is loaded, so that any other store to its entry faults, and the module
  of 2-2 leaves it writable, so that any code can change the entry until the module is
  unloaded; its unloading writes without asking for the permission and faults when the page
  is read-only.
\<close>

theorem hook_page_protection:
  assumes "ftrace_hookable api k"
  shows "\<exists>k1 g1 k2 g2.
    ftracehooking_init api hook (k, g) = Some (k1, g1) \<and> store api (ftrace_entry api) v k1 = None \<and>
    os_ftracehooking_init api hook (k, g) = Some (k2, g2) \<and>
    store api (ftrace_entry api) v k2 = Some (k2\<lparr>kmem := (kmem k2)(ftrace_entry api := v)\<rparr>) \<and>
    os_ftracehooking_exit api (k1, g1) = None"
proof -
  let ?ro = "with_pte api (sys_call_table api) (\<lambda>e. e AND NOT (PAGE_RW api)) k"
  let ?m = "(kmem k)(ftrace_entry api := hook)"
  have "\<not> writable api (ftrace_entry api) (?ro\<lparr>kmem := ?m\<rparr>)"
    using writable_entry [OF hookable_ro [OF assms], of "NR_os_ftrace api"] writable_ro by simp
  then have "store api (ftrace_entry api) u (?ro\<lparr>kmem := ?m\<rparr>) = None" for u
    by (rule store_fault)
  then show ?thesis
    using assms by (simp add: ftracehooking_init_eq os_ftracehooking_init_eq os_ftracehooking_exit_def
        store_rw [of api _ "[NR_os_ftrace api]"])
qed

theorem hook_page_protection_witness:
  "\<exists>k1 g1. ftracehooking_init sample_api 10 (sample_kernel, sample_vars) = Some (k1, g1) \<and>
     os_ftracehooking_exit sample_api (k1, g1) = None"
  using hook_page_protection [OF sample_hookable(2), of 10 sample_vars 0] by blast

text \<open>
  The guard of \<open>make_rw\<close> tests the other bits of the entry: an entry with no other bit set
  is left unwritable.
\<close>

lemma make_rw_bare_entry:
  "lookup_address api a = Some p \<Longrightarrow> ptes k p = 0 \<Longrightarrow> make_rw api a k = Some k"
  by (simp add: make_rw_def)

end
