(* ===== verification/Process_Tracer.thy ===== *)
theory Process_Tracer
  imports Ftrace
begin

text \<open>
  The process tracer of Assignment 3-1, \<open>Process_tracer.c\<close>, which reports a task with its
  relatives, and the memory map report of Assignment 4-1, \<open>file_varea.c\<close>. Both hook
  \<open>os_ftrace\<close>. Tasks, memory descriptors and memory areas are read from heaps, where a
  missing address is a wild pointer (\<open>None\<close>). The search of a task by its pid and \<open>d_path\<close>
  are parameters.
\<close>

section \<open>Process tracer\<close>

definition task_state_line :: "task_struct \<Rightarrow> string" where
  "task_state_line t = ''- task state : '' @
    (if state t = 0 then ''Running or ready''
     else if state t AND TASK_INTERRUPTIBLE \<noteq> 0 then ''Wait''
     else if state t AND TASK_UNINTERRUPTIBLE \<noteq> 0 then ''Wait with ignoring all signals''
     else if state t AND TASK_STOPPED \<noteq> 0 then ''Stopped''
     else if exit_state t AND EXIT_DEAD \<noteq> 0 then ''Dead''
     else if exit_state t AND EXIT_ZOMBIE \<noteq> 0 then ''Zombie process''
     else ''etc.'') @ ''\<newline>''"

definition relative_line :: "task_struct \<Rightarrow> string" where
  "relative_line t = ''   > ['' @ print_int (pid t) @ ''] '' @ comm t @ ''\<newline>''"

text \<open>The two \<open>list_for_each_entry\<close> loops: the lines printed so far and the counter.\<close>

fun sibling_loop :: "task_heap \<Rightarrow> task_ptr \<Rightarrow> task_ptr list \<Rightarrow> string list \<times> int \<Rightarrow> (string list \<times> int) option" where
  "sibling_loop h trace_ptr [] acc = Some acc"
| "sibling_loop h trace_ptr (tmp_ptr # ps) (lines, cnt) = do {
     t \<leftarrow> h tmp_ptr;
     if tmp_ptr \<noteq> trace_ptr then do {
       cnt \<leftarrow> c_int (cnt + 1);
       sibling_loop h trace_ptr ps (lines @ [relative_line t], cnt) }
     else sibling_loop h trace_ptr ps (lines, cnt) }"

fun child_loop :: "task_heap \<Rightarrow> task_ptr list \<Rightarrow> string list \<times> int \<Rightarrow> (string list \<times> int) option" where
  "child_loop h [] acc = Some acc"
| "child_loop h (tmp_ptr # ps) (lines, cnt) = do {
     t \<leftarrow> h tmp_ptr;
     cnt \<leftarrow> c_int (cnt + 1);
     child_loop h ps (lines @ [relative_line t], cnt) }"

text \<open>
  The lines before the relatives. \<open>%d\<close> prints the low 32 bits of the \<open>unsigned long\<close> sum of
  the context switches as a signed number.
\<close>

definition header_lines :: "task_struct \<Rightarrow> task_struct \<Rightarrow> task_struct \<Rightarrow> string list" where
  "header_lines t leader par =
           [''##### TASK INFORMATION of '' @ [CHR 0x27, CHR 0x27] @ ''['' @ print_int (pid t) @ ''] '' @ comm t
              @ [CHR 0x27, CHR 0x27] @ '' #####'' @ ''\<newline>'',
            task_state_line t,
            ''- Process Group Leader : ['' @ print_int (pid leader) @ ''] '' @ comm leader @ ''\<newline>'',
            ''- Number of context switches : '' @ print_d (ucast (nvcsw t + nivcsw t)) @ ''\<newline>'',
            ''- Number of calling fork() : '' @ print_int (fork_count t) @ ''\<newline>'',
            ''- it'' @ [CHR 0x27] @ ''s parent process : ['' @ print_int (pid par) @ ''] '' @ comm par @ ''\<newline>'',
            ''- it'' @ [CHR 0x27] @ ''s sibling process(es) :'' @ ''\<newline>'']"

definition sibling_total :: "int \<Rightarrow> string" where
  "sibling_total cnt = (if cnt = 0 then ''   > It has no sibling.'' @ ''\<newline>''
     else ''   > This process has '' @ print_int cnt @ '' sibling process(es)'' @ ''\<newline>'')"

definition child_total :: "int \<Rightarrow> string" where
  "child_total cnt = (if cnt = 0 then ''   > It has no child.'' @ ''\<newline>''
     else ''   > This process has '' @ print_int cnt @ '' child process(es)'' @ ''\<newline>'')"

definition child_header :: string where
  "child_header = ''- it'' @ [CHR 0x27] @ ''s child process(es) :'' @ ''\<newline>''"

definition end_line :: string where
  "end_line = ''##### END OF INFORMATION #####'' @ ''\<newline>''"

definition process_tracer :: "(int \<Rightarrow> task_ptr option) \<Rightarrow> task_heap \<Rightarrow> pt_regs \<Rightarrow> (string list \<times> int) option" where
  "process_tracer pid_task h regs =
    (case pid_task (pid_arg regs) of None \<Rightarrow> Some ([], -1)
     | Some trace_ptr \<Rightarrow> do {
         t \<leftarrow> h trace_ptr;
         leader \<leftarrow> h (group_leader t);
         par \<leftarrow> h (real_parent t);
         let lines = header_lines t leader par;
         (lines, cnt) \<leftarrow> sibling_loop h trace_ptr (children par) (lines, 0);
         let lines = lines @ [sibling_total cnt, child_header];
         (lines, cnt) \<leftarrow> child_loop h (children t) (lines, 0);
         let lines = lines @ [child_total cnt, end_line];
         Some (lines, pid_arg regs) })"

definition process_tracer_init ::
  "kapi \<Rightarrow> 'h \<Rightarrow> 'h kernel \<times> 'h hook_vars \<Rightarrow> ('h kernel \<times> 'h hook_vars) option" where
  "process_tracer_init api hook = (\<lambda>(k, g). do {
     let g = g\<lparr>syscall_table := kallsyms_lookup_name api ''sys_call_table''\<rparr>;
     k \<leftarrow> make_rw api (syscall_table g) k;
     f \<leftarrow> fetch api (entry (syscall_table g) (NR_os_ftrace api)) k;
     let g = g\<lparr>real_os_ftrace := f\<rparr>;
     k \<leftarrow> store api (entry (syscall_table g) (NR_os_ftrace api)) hook k;
     k \<leftarrow> make_ro api (syscall_table g) k;
     Some (k, g) })"

definition process_tracer_exit ::
  "kapi \<Rightarrow> 'h kernel \<times> 'h hook_vars \<Rightarrow> ('h kernel \<times> 'h hook_vars) option" where
  "process_tracer_exit api = (\<lambda>(k, g). do {
     k \<leftarrow> make_rw api (syscall_table g) k;
     k \<leftarrow> store api (entry (syscall_table g) (NR_os_ftrace api)) (real_os_ftrace g) k;
     k \<leftarrow> make_ro api (syscall_table g) k;
     Some (k, g) })"

text \<open>\<open>test.c\<close> makes system call 336 with the argument 1.\<close>

definition test_main :: "(nat \<Rightarrow> 64 word \<Rightarrow> 'w \<Rightarrow> 'w) \<Rightarrow> 'w \<Rightarrow> 'w \<times> int" where
  "test_main syscall w = (syscall 336 1 w, 0)"

section \<open>Memory map report\<close>

record mm_struct =
  mmap :: "nat option"
  start_code :: nat
  end_code :: nat
  start_data :: nat
  end_data :: nat
  start_brk :: nat
  brk :: nat

record vm_area_struct =
  vm_start :: nat
  vm_end :: nat
  vm_next :: "nat option"
  vm_mm :: nat
  vm_file :: "nat option"

fun print_hex :: "nat \<Rightarrow> string" where
  "print_hex n = (let c = (if n mod 16 < 10 then digit_char (n mod 16) else char_of (87 + n mod 16)) in
     if n < 16 then [c] else print_hex (n div 16) @ [c])"

declare print_hex.simps [simp del]

definition hex_range :: "string \<Rightarrow> nat \<Rightarrow> nat \<Rightarrow> string" where
  "hex_range s a b = s @ ''('' @ print_hex a @ ''~'' @ print_hex b @ '')''"

definition area_line :: "mm_struct \<Rightarrow> vm_area_struct \<Rightarrow> string \<Rightarrow> string" where
  "area_line m v name = '' '' @ hex_range ''mem'' (vm_start v) (vm_end v) @
     '' '' @ hex_range ''code'' (start_code m) (end_code m) @
     '' '' @ hex_range ''data'' (start_data m) (end_data m) @
     '' '' @ hex_range ''heap'' (start_brk m) (brk m) @ '' '' @ name @ ''\<newline>''"

text \<open>
  One round of the loop over the areas. \<open>d_path\<close> with the size of the buffer gives the path,
  or \<open>None\<close> for the error pointer it returns when the path does not fit; printing that
  pointer with \<open>%s\<close> is undefined.
\<close>

definition varea_round ::
  "(nat \<Rightarrow> nat \<Rightarrow> string option) \<Rightarrow> (nat \<Rightarrow> mm_struct option) \<Rightarrow> (nat \<Rightarrow> vm_area_struct option) \<Rightarrow>
   nat option \<times> string list \<Rightarrow> (nat option \<times> string list) option" where
  "varea_round d_path mms vmas = (\<lambda>(vm, lines). do {
     a \<leftarrow> vm;
     v \<leftarrow> vmas a;
     name \<leftarrow> (case vm_file v of None \<Rightarrow> Some ''no file'' | Some f \<Rightarrow> d_path f 100);
     m \<leftarrow> mms (vm_mm v);
     Some (vm_next v, lines @ [area_line m v name]) })"

definition varea_header :: "task_struct \<Rightarrow> string" where
  "varea_header pcb = ''######## Loaded files of a process '' @ [CHR 0x27] @ comm pcb @ ''('' @
     print_int (pid pcb) @ '')'' @ [CHR 0x27] @ '' in VM ########'' @ ''\<newline>''"

definition varea_footer :: string where
  "varea_footer = replicate 61 CHR ''#'' @ ''\<newline>''"

definition file_varea ::
  "(int \<Rightarrow> task_ptr option) \<Rightarrow> (nat \<Rightarrow> nat \<Rightarrow> string option) \<Rightarrow> task_heap \<Rightarrow> (nat \<Rightarrow> mm_struct option) \<Rightarrow>
   (nat \<Rightarrow> vm_area_struct option) \<Rightarrow> pt_regs \<Rightarrow> (string list \<times> int) option" where
  "file_varea pid_task d_path h mms vmas regs =
    (case pid_task (pid_arg regs) of None \<Rightarrow> Some ([], -1)
     | Some p \<Rightarrow> do {
         pcb \<leftarrow> h p;
         let lines = [varea_header pcb];
         a \<leftarrow> mm pcb;
         m \<leftarrow> mms a;
         (vm, lines) \<leftarrow> c_while (\<lambda>s. fst s \<noteq> None) (varea_round d_path mms vmas) (mmap m, lines);
         Some (lines @ [varea_footer], pid_arg regs) })"

definition file_varea_init ::
  "kapi \<Rightarrow> 'h \<Rightarrow> 'h kernel \<times> 'h hook_vars \<Rightarrow> ('h kernel \<times> 'h hook_vars) option" where
  "file_varea_init api hook = (\<lambda>(k, g). do {
     let g = g\<lparr>syscall_table := kallsyms_lookup_name api ''sys_call_table''\<rparr>;
     k \<leftarrow> make_rw api (syscall_table g) k;
     f \<leftarrow> fetch api (entry (syscall_table g) (NR_os_ftrace api)) k;
     let g = g\<lparr>real_os_ftrace := f\<rparr>;
     k \<leftarrow> store api (entry (syscall_table g) (NR_os_ftrace api)) hook k;
     k \<leftarrow> make_ro api (syscall_table g) k;
     Some (k, g) })"

definition file_varea_exit ::
  "kapi \<Rightarrow> 'h kernel \<times> 'h hook_vars \<Rightarrow> ('h kernel \<times> 'h hook_vars) option" where
  "file_varea_exit api = (\<lambda>(k, g). do {
     k \<leftarrow> make_rw api (syscall_table g) k;
     k \<leftarrow> store api (entry (syscall_table g) (NR_os_ftrace api)) (real_os_ftrace g) k;
     k \<leftarrow> make_ro api (syscall_table g) k;
     Some (k, g) })"

section \<open>Loading and unloading\<close>

text \<open>Both modules are loaded and unloaded the way \<open>ftracehooking\<close> is.\<close>

lemma hook_bodies_eq:
  "process_tracer_init = ftracehooking_init" "process_tracer_exit = ftracehooking_exit"
  "file_varea_init = ftracehooking_init" "file_varea_exit = ftracehooking_exit"
  by (simp_all add: fun_eq_iff process_tracer_init_def process_tracer_exit_def file_varea_init_def
      file_varea_exit_def ftracehooking_init_def ftracehooking_exit_def)

interpretation process_tracer_mod: hook_module "process_tracer_init api hook" "process_tracer_exit api"
    "[(ftrace_entry api, hook)]" "ftrace_hookable api" "ftrace_hookable api" "ftrace_loaded api"
    "\<lambda>g. [real_os_ftrace g]" for api hook
  unfolding hook_bodies_eq by (rule ftracehooking.hook_module_axioms)

interpretation file_varea_mod: hook_module "file_varea_init api hook" "file_varea_exit api"
    "[(ftrace_entry api, hook)]" "ftrace_hookable api" "ftrace_hookable api" "ftrace_loaded api"
    "\<lambda>g. [real_os_ftrace g]" for api hook
  unfolding hook_bodies_eq by (rule ftracehooking.hook_module_axioms)

section \<open>Reports\<close>

lemma sibling_loop_eq:
  assumes "\<forall>c \<in> set ps. h c \<noteq> None" "0 \<le> cnt" "cnt + int (length ps) \<le> INT_MAX"
  shows "sibling_loop h p ps (lines, cnt) =
    Some (lines @ map (\<lambda>c. relative_line (the (h c))) (filter (\<lambda>c. c \<noteq> p) ps),
          cnt + int (length (filter (\<lambda>c. c \<noteq> p) ps)))"
  using assms
proof (induction ps arbitrary: lines cnt)
  case (Cons c ps)
  then obtain t where "h c = Some t" by auto
  with Cons show ?case by (auto simp: INT_MIN_def)
qed simp

lemma child_loop_eq:
  assumes "\<forall>c \<in> set ps. h c \<noteq> None" "0 \<le> cnt" "cnt + int (length ps) \<le> INT_MAX"
  shows "child_loop h ps (lines, cnt) =
    Some (lines @ map (\<lambda>c. relative_line (the (h c))) ps, cnt + int (length ps))"
  using assms
proof (induction ps arbitrary: lines cnt)
  case (Cons c ps)
  then obtain t where "h c = Some t" by auto
  with Cons show ?case by (auto simp: INT_MIN_def)
qed simp

text \<open>
  C25. The process tracer reports a task completely. When the pid has a task whose leader,
  parent, siblings and children are all tasks of the heap, the call prints the header, then
  one line for every child of the parent except the task itself, in list order, with their
  number, then one line for every child of the task with their number, and returns the pid.
\<close>

theorem process_tracer_report:
  assumes "pid_task (pid_arg regs) = Some p" "h p = Some t" "h (group_leader t) = Some leader"
    "h (real_parent t) = Some par"
    and "\<forall>c \<in> set (children par). h c \<noteq> None" "\<forall>c \<in> set (children t). h c \<noteq> None"
    and "int (length (children par)) \<le> INT_MAX" "int (length (children t)) \<le> INT_MAX"
  shows "process_tracer pid_task h regs =
    (let siblings = filter (\<lambda>c. c \<noteq> p) (children par) in
     Some (header_lines t leader par @ map (\<lambda>c. relative_line (the (h c))) siblings @
       [sibling_total (int (length siblings)), child_header] @
       map (\<lambda>c. relative_line (the (h c))) (children t) @
       [child_total (int (length (children t))), end_line], pid_arg regs))"
  using assms by (simp add: process_tracer_def sibling_loop_eq child_loop_eq Let_def)

definition sample_heap :: task_heap where
  "sample_heap = [1 \<mapsto> blank_task\<lparr>pid := 1, real_parent := 1, group_leader := 1, children := [2, 3]\<rparr>,
     2 \<mapsto> blank_task\<lparr>pid := 2, real_parent := 1, group_leader := 2\<rparr>,
     3 \<mapsto> blank_task\<lparr>pid := 3, real_parent := 1, group_leader := 3\<rparr>]"

theorem process_tracer_report_witness:
  "\<exists>lines. process_tracer (\<lambda>p. Some 2) sample_heap (sample_regs\<lparr>di := 2\<rparr>) = Some (lines, 2) \<and> length lines = 12"
  using process_tracer_report [of "\<lambda>p. Some 2" "sample_regs\<lparr>di := 2\<rparr>" 2 sample_heap]
  by (simp add: sample_heap_def blank_task_def INT_MAX_def pid_arg_def sample_regs_def header_lines_def)

text \<open>
  Modules that hook the same entry must be unloaded in the reverse order. When
  \<open>ftracehooking\<close> is loaded, then the process tracer, and \<open>ftracehooking\<close> is unloaded first,
  the entry ends up with the address of the unloaded module's handler.
\<close>

theorem out_of_order_unload_dangles:
  assumes "ftrace_hookable api k"
  shows "\<exists>k1 g1 k2 h2 k3 k4.
    ftracehooking_init api f (k, g) = Some (k1, g1) \<and> process_tracer_init api f' (k1, h) = Some (k2, h2) \<and>
    ftracehooking_exit api (k2, g1) = Some (k3, g1) \<and> process_tracer_exit api (k3, h2) = Some (k4, h2) \<and>
    kmem k4 (ftrace_entry api) = f"
  using assms by (simp add: hook_bodies_eq ftracehooking_init_eq ftracehooking_exit_eq)

theorem out_of_order_unload_dangles_witness:
  "\<exists>k4 h2. process_tracer_exit sample_api (k4, h2) \<noteq> None \<and>
     kmem (fst (the (process_tracer_exit sample_api (k4, h2)))) (ftrace_entry sample_api) = (10 :: nat)"
  using out_of_order_unload_dangles [OF sample_hookable(2), of 10 sample_vars 20 sample_vars] by force

text \<open>The areas of a process, as the linked list that \<open>mmap\<close> starts.\<close>

fun vma_chain :: "(nat \<Rightarrow> vm_area_struct option) \<Rightarrow> nat option \<Rightarrow> vm_area_struct list \<Rightarrow> bool" where
  "vma_chain vmas vm [] \<longleftrightarrow> vm = None"
| "vma_chain vmas vm (v # vs) \<longleftrightarrow>
     (case vm of None \<Rightarrow> False | Some a \<Rightarrow> vmas a = Some v) \<and> vma_chain vmas (vm_next v) vs"

definition area_name :: "(nat \<Rightarrow> nat \<Rightarrow> string option) \<Rightarrow> vm_area_struct \<Rightarrow> string option" where
  "area_name d_path v = (case vm_file v of None \<Rightarrow> Some ''no file'' | Some f \<Rightarrow> d_path f 100)"

lemma varea_loop:
  assumes "vma_chain vmas vm vs" "\<forall>v \<in> set vs. mms (vm_mm v) \<noteq> None \<and> area_name d_path v \<noteq> None"
  shows "c_while (\<lambda>s. fst s \<noteq> None) (varea_round d_path mms vmas) (vm, lines) =
    Some (None, lines @ map (\<lambda>v. area_line (the (mms (vm_mm v))) v (the (area_name d_path v))) vs)"
  using assms
proof (induction vs arbitrary: vm lines)
  case Nil
  then show ?case by (simp add: c_while_stop)
next
  case (Cons v vs)
  then obtain a m n where "vm = Some a" "vmas a = Some v" "mms (vm_mm v) = Some m" "area_name d_path v = Some n"
    by (auto split: option.splits)
  then have "varea_round d_path mms vmas (vm, lines) = Some (vm_next v, lines @ [area_line m v n])"
    by (simp add: varea_round_def area_name_def)
  with Cons \<open>vm = Some a\<close> \<open>mms (vm_mm v) = Some m\<close> \<open>area_name d_path v = Some n\<close> show ?case
    by (simp add: c_while_step)
qed

text \<open>
  C26. The memory map report ends and lists every area. For a task with a memory descriptor
  whose areas form a finite list, with paths that fit the buffer, the call prints the
  header, one line per area in list order with the bounds of its memory descriptor and the
  name of its file (\<open>no file\<close> without one), and the footer, and returns the pid.
\<close>

theorem file_varea_report:
  assumes "pid_task (pid_arg regs) = Some p" "h p = Some t" "mm t = Some a" "mms a = Some m"
    and "vma_chain vmas (mmap m) vs"
    and "\<forall>v \<in> set vs. mms (vm_mm v) \<noteq> None \<and> area_name d_path v \<noteq> None"
  shows "file_varea pid_task d_path h mms vmas regs =
    Some (varea_header t # map (\<lambda>v. area_line (the (mms (vm_mm v))) v (the (area_name d_path v))) vs @
      [varea_footer], pid_arg regs)"
  using assms by (simp add: file_varea_def varea_loop del: not_None_eq)

definition sample_mm :: mm_struct where
  "sample_mm = \<lparr>mmap = Some 4, start_code = 1, end_code = 2, start_data = 3, end_data = 4, start_brk = 5,
     brk = 6\<rparr>"

definition sample_vma :: vm_area_struct where
  "sample_vma = \<lparr>vm_start = 16, vm_end = 32, vm_next = None, vm_mm = 9, vm_file = Some 1\<rparr>"

theorem file_varea_report_witness:
  "file_varea (\<lambda>p. Some 2) (\<lambda>f n. Some ''/bin/sh'') [2 \<mapsto> blank_task\<lparr>mm := Some 9\<rparr>] [9 \<mapsto> sample_mm]
     [4 \<mapsto> sample_vma] (sample_regs\<lparr>di := 2\<rparr>) =
     Some ([varea_header (blank_task\<lparr>mm := Some 9\<rparr>), area_line sample_mm sample_vma ''/bin/sh'', varea_footer], 2)"
  using file_varea_report [of "\<lambda>p. Some 2" "sample_regs\<lparr>di := 2\<rparr>" 2 "[2 \<mapsto> blank_task\<lparr>mm := Some 9\<rparr>]"
      "blank_task\<lparr>mm := Some 9\<rparr>" 9 "[9 \<mapsto> sample_mm]" sample_mm "[4 \<mapsto> sample_vma]" "[sample_vma]"
      "\<lambda>f n. Some ''/bin/sh''"]
  by (simp add: pid_arg_def sample_regs_def area_name_def sample_mm_def sample_vma_def)

text \<open>
  The memory map report of a kernel thread, a task without a memory descriptor, follows
  a NULL pointer.
\<close>

theorem file_varea_kernel_thread:
  assumes "pid_task (pid_arg regs) = Some p" "h p = Some t" "mm t = None"
  shows "file_varea pid_task d_path h mms vmas regs = None"
  using assms by (simp add: file_varea_def)

theorem file_varea_kernel_thread_witness:
  "file_varea (\<lambda>p. Some 2) (\<lambda>f n. None) [2 \<mapsto> blank_task] (\<lambda>a. None) (\<lambda>a. None) sample_regs = None"
  by (rule file_varea_kernel_thread [of _ _ 2 _ blank_task]) (simp_all add: blank_task_def)

end
