(* ===== verification/Proc_Info.thy ===== *)
theory Proc_Info
  imports Sched_H C_Stdio
begin

text \<open>
  The \<open>/proc\<close> file of Assignment 5-1, \<open>proc_info.c\<close>: opening it, reading the process table
  or one process, and writing the pid to show. \<open>sprintf\<close> and \<open>strcat\<close> are undefined when the
  result does not fit its array. The search of a task by its pid, the list of all processes,
  the outcome of an allocation of a given size and \<open>kstrtol\<close> are parameters.
\<close>

definition BUF_SIZE :: int where
  "BUF_SIZE = 4096"

record proc_state =
  cur_proc :: int
  is_processed :: int

definition my_open :: "proc_state \<Rightarrow> proc_state \<times> int" where
  "my_open s = (s\<lparr>is_processed := 0\<rparr>, 0)"

section \<open>Formatted output\<close>

definition pad :: "nat \<Rightarrow> string \<Rightarrow> string" where
  "pad n s = s @ replicate (n - length s) CHR '' ''"

text \<open>\<open>sprintf(buf, ...)\<close> into \<open>char buf[512]\<close>, and \<open>strcat\<close> to an allocation of \<open>cap\<close> bytes.\<close>

definition sprintf :: "string \<Rightarrow> string option" where
  "sprintf s = (if length s < 512 then Some s else None)"

definition strcat :: "int \<Rightarrow> string \<Rightarrow> string \<Rightarrow> string option" where
  "strcat cap buffer s = (if int (length buffer + length s) < cap then Some (buffer @ s) else None)"

definition title_row :: string where
  "title_row = pad 8 ''Pid'' @ pad 8 ''PPid'' @ pad 8 ''Uid'' @ pad 8 ''Gid'' @ pad 20 ''utime'' @
     pad 20 ''stime'' @ pad 20 ''State'' @ pad 20 ''Name'' @ ''\<newline>''"

definition rule_row :: string where
  "rule_row = replicate 98 CHR ''-'' @ ''\<newline>''"

definition id_fields :: "task_struct \<Rightarrow> task_struct \<Rightarrow> string" where
  "id_fields t par = pad 8 (print_int (pid t)) @ pad 8 (print_int (pid par)) @ pad 8 (print_int (cred_uid t)) @
     pad 8 (print_int (cred_gid t)) @ pad 20 (print_nat (utime t)) @ pad 20 (print_nat (stime t))"

text \<open>
  The state column. The chain of tests has no final \<open>else\<close>: when none holds, \<open>buf\<close> keeps
  what it had.
\<close>

definition state_field :: "task_struct \<Rightarrow> string \<Rightarrow> string" where
  "state_field t buf =
    (if state t = 0 then pad 20 ''R (running)''
     else if state t AND TASK_INTERRUPTIBLE \<noteq> 0 then pad 20 ''S (sleeping)''
     else if state t AND TASK_UNINTERRUPTIBLE \<noteq> 0 then pad 20 ''D (disk sleep)''
     else if state t AND TASK_STOPPED \<noteq> 0 then pad 20 ''T (stopped)''
     else if task_is_stopped_or_traced t then pad 20 ''t (tracing stop)''
     else if exit_state t AND EXIT_DEAD \<noteq> 0 then pad 20 ''X (dead)''
     else if exit_state t AND EXIT_ZOMBIE \<noteq> 0 then pad 20 ''Z (zombie)''
     else if state t AND TASK_PARKED \<noteq> 0 then pad 20 ''P (parked)''
     else if state t AND TASK_IDLE \<noteq> 0 then pad 20 ''I (idle)''
     else buf)"

definition name_field :: "task_struct \<Rightarrow> string" where
  "name_field t = pad 20 (comm t) @ ''\<newline>''"

section \<open>Reading\<close>

text \<open>The report of one process, appended without a check of the size.\<close>

definition show_one :: "task_heap \<Rightarrow> task_ptr \<Rightarrow> string \<Rightarrow> string option" where
  "show_one h p buffer = do {
     t \<leftarrow> h p;
     par \<leftarrow> h (real_parent t);
     buf \<leftarrow> sprintf (id_fields t par);
     buffer \<leftarrow> strcat BUF_SIZE buffer buf;
     buf \<leftarrow> sprintf (state_field t buf);
     buffer \<leftarrow> strcat BUF_SIZE buffer buf;
     buf \<leftarrow> sprintf (name_field t);
     strcat BUF_SIZE buffer buf }"

text \<open>
  The append of the full table. The size test is in unsigned 64-bit arithmetic. A buffer
  that is too small is doubled; \<open>Inl ()\<close> is the early return of 0 when that fails.
\<close>

definition append_grow :: "(int \<Rightarrow> bool) \<Rightarrow> string \<Rightarrow> string \<times> int \<Rightarrow> (unit + string \<times> int) option" where
  "append_grow alloc_ok buf = (\<lambda>(buffer, buf_size).
     if int (length buf) < (buf_size - int (length buffer)) mod 2 ^ 64 then do {
       buffer \<leftarrow> strcat buf_size buffer buf;
       Some (Inr (buffer, buf_size)) }
     else if \<not> alloc_ok (buf_size * 2) then Some (Inl ())
     else do {
       buffer \<leftarrow> strcat (buf_size * 2) buffer buf;
       Some (Inr (buffer, buf_size * 2)) })"

fun show_all :: "(int \<Rightarrow> bool) \<Rightarrow> task_heap \<Rightarrow> task_ptr list \<Rightarrow> string \<times> int \<Rightarrow> (unit + string \<times> int) option" where
  "show_all alloc_ok h [] b = Some (Inr b)"
| "show_all alloc_ok h (p # ps) b = do {
     t \<leftarrow> h p;
     par \<leftarrow> h (real_parent t);
     buf \<leftarrow> sprintf (id_fields t par);
     r \<leftarrow> append_grow alloc_ok buf b;
     case r of Inl e \<Rightarrow> Some (Inl e) | Inr b \<Rightarrow> do {
       buf \<leftarrow> sprintf (state_field t buf);
       r \<leftarrow> append_grow alloc_ok buf b;
       case r of Inl e \<Rightarrow> Some (Inl e) | Inr b \<Rightarrow> do {
         buf \<leftarrow> sprintf (name_field t);
         r \<leftarrow> append_grow alloc_ok buf b;
         case r of Inl e \<Rightarrow> Some (Inl e) | Inr b \<Rightarrow> show_all alloc_ok h ps b } } }"

text \<open>\<open>find_vpid\<close> takes an \<open>int\<close>: the \<open>long\<close> pid is converted to 32 bits.\<close>

definition trunc32 :: "int \<Rightarrow> int" where
  "trunc32 x = (x + 2 ^ 31) mod 2 ^ 32 - 2 ^ 31"

text \<open>
  \<open>my_read\<close>: the new state, the bytes written to the user's buffer and the value returned.
  The length \<open>len\<close> the caller gave is not used.
\<close>

definition my_read ::
  "(int \<Rightarrow> task_ptr option) \<Rightarrow> task_ptr list \<Rightarrow> (int \<Rightarrow> bool) \<Rightarrow> task_heap \<Rightarrow> nat \<Rightarrow> proc_state \<Rightarrow>
   (proc_state \<times> char list \<times> int) option" where
  "my_read pid_task procs alloc_ok h len s =
    (if is_processed s \<noteq> 0 then Some (s, [], 0)
     else if \<not> alloc_ok BUF_SIZE then Some (s, [], 0)
     else do {
       let ptr = (if cur_proc s \<le> 0 then None else pid_task (trunc32 (cur_proc s)));
       buf \<leftarrow> sprintf title_row;
       buffer \<leftarrow> strcat BUF_SIZE [] buf;
       buffer \<leftarrow> strcat BUF_SIZE buffer rule_row;
       r \<leftarrow> (case ptr of
           Some p \<Rightarrow> do { buffer \<leftarrow> show_one h p buffer; Some (Inr (buffer, BUF_SIZE)) }
         | None \<Rightarrow> show_all alloc_ok h procs (buffer, BUF_SIZE));
       case r of Inl _ \<Rightarrow> Some (s, [], 0)
       | Inr (buffer, buf_size) \<Rightarrow>
           Some (s\<lparr>is_processed := is_processed s + 1\<rparr>, buffer @ [NUL], int (length buffer) + 1) })"

section \<open>Writing\<close>

text \<open>
  \<open>my_write\<close> copies the user's \<open>len\<close> bytes to \<open>char buf[50]\<close> and puts a NUL on the last one.
  \<open>kstrtol\<close> gives the number of a text, or \<open>None\<close> for an error, which leaves \<open>cur_proc\<close> as it was.
\<close>

definition my_write ::
  "(string \<Rightarrow> int option) \<Rightarrow> char list \<Rightarrow> char list \<Rightarrow> proc_state \<Rightarrow> (proc_state \<times> int) option" where
  "my_write kstrtol buf data s =
    (if length buf < length data then None
     else do {
       let buf = data @ drop (length data) buf;
       buf \<leftarrow> wr buf (int (length data) - 1) NUL;
       txt \<leftarrow> cstr buf;
       Some (case kstrtol txt of None \<Rightarrow> s | Some v \<Rightarrow> s\<lparr>cur_proc := v\<rparr>, int (length data)) })"

section \<open>Sizes\<close>

lemma length_pad [simp]: "length (pad n s) = max n (length s)"
  by (simp add: pad_def)

lemma length_print_nat: "n < 10 ^ k \<Longrightarrow> 0 < k \<Longrightarrow> length (print_nat n) \<le> k"
proof (induction n arbitrary: k rule: print_nat.induct)
  case (1 n)
  show ?case
  proof (cases "n < 10")
    case True
    then show ?thesis using 1(3) by (simp add: print_nat.simps [of n])
  next
    case False
    obtain j where j: "k = Suc j" using 1(3) by (cases k) simp_all
    then have "j \<noteq> 0" using False 1(2) by (intro notI) simp
    with j have k: "k = Suc j" "0 < j" by simp_all
    then have "n div 10 < 10 ^ j" using 1(2) by (simp add: less_mult_imp_div_less mult.commute)
    then have "length (print_nat (n div 10)) \<le> j" using 1(1) [OF False] k(2) by simp
    then show ?thesis using False k(1) by (simp add: print_nat.simps [of n])
  qed
qed

lemma length_print_int: "INT_MIN \<le> i \<Longrightarrow> i \<le> INT_MAX \<Longrightarrow> length (print_int i) \<le> 11"
proof -
  assume i: "INT_MIN \<le> i" "i \<le> INT_MAX"
  then have "nat i < 10 ^ 10" "nat (- i) < 10 ^ 10" by (auto simp: INT_MIN_def INT_MAX_def)
  then have "length (print_nat (nat i)) \<le> 10" "length (print_nat (nat (- i))) \<le> 10"
    using length_print_nat [of "nat i" 10] length_print_nat [of "nat (- i)" 10] by simp_all
  then show ?thesis by (simp add: print_int_def)
qed

text \<open>
  A task the table can show: it and its parent are in the heap, ids are \<open>int\<close>s, times are
  64-bit and the name is at most 15 characters and the NUL.
\<close>

definition int32 :: "int \<Rightarrow> bool" where
  "int32 i \<longleftrightarrow> INT_MIN \<le> i \<and> i \<le> INT_MAX"

definition showable :: "task_heap \<Rightarrow> task_ptr \<Rightarrow> bool" where
  "showable h p \<longleftrightarrow> (case h p of None \<Rightarrow> False | Some t \<Rightarrow>
     (case h (real_parent t) of None \<Rightarrow> False | Some par \<Rightarrow>
       int32 (pid t) \<and> int32 (pid par) \<and> int32 (cred_uid t) \<and> int32 (cred_gid t) \<and>
       utime t < 2 ^ 64 \<and> stime t < 2 ^ 64 \<and> length (comm t) \<le> 15))"

lemma showableE:
  assumes "showable h p"
  obtains t par where "h p = Some t" "h (real_parent t) = Some par" "length (id_fields t par) \<le> 84"
    "length (comm t) \<le> 15"
proof -
  from assms obtain t par where t: "h p = Some t" "h (real_parent t) = Some par"
      "int32 (pid t)" "int32 (pid par)" "int32 (cred_uid t)" "int32 (cred_gid t)"
      "utime t < 2 ^ 64" "stime t < 2 ^ 64" "length (comm t) \<le> 15"
    by (auto simp: showable_def split: option.splits)
  have i: "length (pad 8 (print_int x)) \<le> 11" if "int32 x" for x
    using that length_print_int [of x] by (auto simp: int32_def)
  have u: "length (pad 20 (print_nat x)) \<le> 20" if "x < 2 ^ 64" for x
    using length_print_nat [of x 20] that by simp
  have "length (id_fields t par) \<le> 84"
    using i [OF t(3)] i [OF t(4)] i [OF t(5)] i [OF t(6)] u [OF t(7)] u [OF t(8)]
    unfolding id_fields_def length_append by linarith
  with t that show thesis by blast
qed

lemma length_state_field: "length (state_field t buf) \<le> max 20 (length buf)"
  by (simp add: state_field_def)

lemma length_name_field: "length (comm t) \<le> 15 \<Longrightarrow> length (name_field t) \<le> 21"
  by (simp add: name_field_def)

text \<open>The row of a process.\<close>

definition row :: "task_heap \<Rightarrow> task_ptr \<Rightarrow> string" where
  "row h p = (case h p of None \<Rightarrow> [] | Some t \<Rightarrow> (case h (real_parent t) of None \<Rightarrow> []
     | Some par \<Rightarrow> id_fields t par @ state_field t (id_fields t par) @ name_field t))"

text \<open>
  The invariant of the growing buffer: the text and its NUL fit, and the buffer is its first
  size or at most twice the text.
\<close>

fun buffer_ok :: "string \<times> int \<Rightarrow> bool" where
  "buffer_ok (b, n) \<longleftrightarrow> int (length b) < n \<and> BUF_SIZE \<le> n \<and> n \<le> max BUF_SIZE (2 * int (length b))"

lemma append_grow_ok:
  assumes "buffer_ok (b, n)" "length buf < 512" "int (length b) < 2 ^ 62"
  shows "append_grow alloc_ok buf (b, n) = Some (Inl ()) \<and> \<not> alloc_ok (n * 2) \<or>
    (\<exists>n'. append_grow alloc_ok buf (b, n) = Some (Inr (b @ buf, n')) \<and> buffer_ok (b @ buf, n'))"
proof -
  have "(n - int (length b)) mod 2 ^ 64 = n - int (length b)"
    using assms by (intro mod_pos_pos_trivial) (auto simp: BUF_SIZE_def)
  then show ?thesis
    using assms by (auto simp: append_grow_def strcat_def BUF_SIZE_def)
qed

text \<open>One process of the table: three appends.\<close>

lemma show_all_Cons:
  assumes "showable h p" "buffer_ok b" "int (length (fst b)) < 2 ^ 61"
  shows "(show_all alloc_ok h (p # ps) b = Some (Inl ()) \<and> (\<exists>n. \<not> alloc_ok n)) \<or>
    (\<exists>n'. show_all alloc_ok h (p # ps) b = show_all alloc_ok h ps (fst b @ row h p, n') \<and>
       buffer_ok (fst b @ row h p, n') \<and> length (row h p) \<le> 189)"
proof -
  obtain b0 n where b: "b = (b0, n)" by (cases b)
  obtain t par where t: "h p = Some t" "h (real_parent t) = Some par" "length (id_fields t par) \<le> 84"
      "length (comm t) \<le> 15"
    using showableE [OF assms(1)] .
  let ?f1 = "id_fields t par" and ?f2 = "state_field t (id_fields t par)" and ?f3 = "name_field t"
  have l: "length ?f2 \<le> 84" "length ?f3 \<le> 21"
    using t(3) length_state_field [of t ?f1] length_name_field [OF t(4)] by auto
  have s: "sprintf ?f1 = Some ?f1" "sprintf ?f2 = Some ?f2" "sprintf ?f3 = Some ?f3"
    using t(3) l by (simp_all add: sprintf_def)
  have r: "row h p = ?f1 @ ?f2 @ ?f3" using t by (simp add: row_def)
  note step = append_grow_ok [where alloc_ok = alloc_ok]
  show ?thesis
    using step [of b0 n ?f1] step [of "b0 @ ?f1" _ ?f2] step [of "b0 @ ?f1 @ ?f2" _ ?f3] assms(2,3) t l s
    by (fastforce simp: b r simp del: buffer_ok.simps)
qed

lemma show_all_ok:
  assumes "\<forall>p \<in> set ps. showable h p" "buffer_ok b" "int (length (fst b)) + 189 * int (length ps) < 2 ^ 61"
  shows "(show_all alloc_ok h ps b = Some (Inl ()) \<and> (\<exists>n. \<not> alloc_ok n)) \<or>
    (\<exists>n'. show_all alloc_ok h ps b = Some (Inr (fst b @ concat (map (row h) ps), n')))"
  using assms
proof (induction ps arbitrary: b)
  case Nil
  then show ?case by (cases b) simp
next
  case (Cons p ps)
  have "showable h p" "int (length (fst b)) < 2 ^ 61" using Cons.prems(1,3) by auto
  from show_all_Cons [OF this(1) Cons.prems(2) this(2), of alloc_ok ps]
  show ?case
  proof (elim disjE exE conjE)
    fix n' assume n': "show_all alloc_ok h (p # ps) b = show_all alloc_ok h ps (fst b @ row h p, n')"
      "buffer_ok (fst b @ row h p, n')" "length (row h p) \<le> 189"
    then have "int (length (fst (fst b @ row h p, n'))) + 189 * int (length ps) < 2 ^ 61"
      using Cons.prems(3) by simp
    from Cons.IH [OF _ n'(2) this] Cons.prems(1) n'(1) show ?thesis by simp
  qed blast
qed

lemma show_one_ok:
  assumes "showable h p" "length b \<le> 212"
  shows "show_one h p b = Some (b @ row h p)"
proof -
  obtain t par where t: "h p = Some t" "h (real_parent t) = Some par" "length (id_fields t par) \<le> 84"
      "length (comm t) \<le> 15"
    using showableE [OF assms(1)] .
  then show ?thesis
    using assms(2) length_state_field [of t "id_fields t par"] length_name_field [OF t(4)]
    by (simp add: show_one_def row_def sprintf_def strcat_def BUF_SIZE_def)
qed

lemma length_title: "length title_row = 113" "length rule_row = 99"
  by (simp_all add: title_row_def rule_row_def)

section \<open>Properties\<close>

text \<open>The processes a read shows: the selected one when it exists, otherwise all.\<close>

definition shown :: "(int \<Rightarrow> task_ptr option) \<Rightarrow> task_ptr list \<Rightarrow> proc_state \<Rightarrow> task_ptr list" where
  "shown pid_task procs s = (if cur_proc s \<le> 0 then procs
     else case pid_task (trunc32 (cur_proc s)) of None \<Rightarrow> procs | Some p \<Rightarrow> [p])"

text \<open>A read after an open, on every outcome of the allocations.\<close>

lemma my_read_cases:
  assumes "is_processed s = 0" "\<forall>p \<in> set (shown pid_task procs s). showable h p"
    and "length procs < 2 ^ 50"
  shows "(my_read pid_task procs alloc_ok h len s = Some (s, [], 0) \<and> (\<exists>n. \<not> alloc_ok n)) \<or>
    (let text = title_row @ rule_row @ concat (map (row h) (shown pid_task procs s)) in
     my_read pid_task procs alloc_ok h len s =
       Some (s\<lparr>is_processed := 1\<rparr>, text @ [NUL], int (length text) + 1))"
proof (cases "alloc_ok BUF_SIZE")
  case False
  then show ?thesis using assms(1) by (auto simp: my_read_def)
next
  case True
  let ?b = "title_row @ rule_row"
  let ?ptr = "if cur_proc s \<le> 0 then None else pid_task (trunc32 (cur_proc s))"
  have head: "sprintf title_row = Some title_row" "strcat BUF_SIZE [] title_row = Some title_row"
      "strcat BUF_SIZE title_row rule_row = Some ?b"
    by (simp_all add: sprintf_def strcat_def BUF_SIZE_def length_title)
  show ?thesis
  proof (cases ?ptr)
    case None
    then have sh: "shown pid_task procs s = procs" by (auto simp: shown_def split: if_splits)
    have "buffer_ok (?b, BUF_SIZE)" by (simp add: BUF_SIZE_def length_title)
    moreover have "int (length procs) < 2 ^ 50" using assms(3) by (simp add: of_nat_less_iff [symmetric])
    ultimately have "(show_all alloc_ok h procs (?b, BUF_SIZE) = Some (Inl ()) \<and> (\<exists>n. \<not> alloc_ok n)) \<or>
        (\<exists>n'. show_all alloc_ok h procs (?b, BUF_SIZE) = Some (Inr (?b @ concat (map (row h) procs), n')))"
      using show_all_ok [of procs h "(?b, BUF_SIZE)" alloc_ok] assms(2) sh by (simp add: length_title)
    then show ?thesis using True head assms(1) None sh by (auto simp: my_read_def Let_def)
  next
    case (Some p)
    then have sh: "shown pid_task procs s = [p]" by (auto simp: shown_def split: if_splits)
    then have "show_one h p ?b = Some (?b @ row h p)"
      using assms(2) by (intro show_one_ok) (simp_all add: length_title)
    then show ?thesis using True head assms(1) Some sh by (auto simp: my_read_def Let_def)
  qed
qed

text \<open>
  C24. Reading the file is safe and complete. For any number of processes below 2^50, with
  names of at most 15 characters, no \<open>sprintf\<close>, \<open>strcat\<close> or growth step of \<open>my_read\<close> writes
  past its array: the first read after an open either gives the title, the rule and one row
  for each process to show, with the terminating NUL, and returns its length; or, only when
  an allocation fails, it returns 0 and changes nothing.
\<close>

theorem my_read_safe:
  assumes "is_processed s = 0" "\<forall>p \<in> set (shown pid_task procs s). showable h p"
    and "length procs < 2 ^ 50"
  shows "(my_read pid_task procs alloc_ok h len s = Some (s, [], 0) \<and> (\<exists>n. \<not> alloc_ok n)) \<or>
    (let text = title_row @ rule_row @ concat (map (row h) (shown pid_task procs s)) in
     my_read pid_task procs alloc_ok h len s =
       Some (s\<lparr>is_processed := 1\<rparr>, text @ [NUL], int (length text) + 1))"
  using my_read_cases [OF assms] .

definition sample_procs :: task_heap where
  "sample_procs = [1 \<mapsto> blank_task\<lparr>pid := 1, real_parent := 1\<rparr>, 2 \<mapsto> blank_task\<lparr>pid := 2, real_parent := 1\<rparr>]"

definition sample_proc_state :: proc_state where
  "sample_proc_state = \<lparr>cur_proc = - 1, is_processed = 0\<rparr>"

lemma sample_showable: "\<forall>p \<in> set (shown (\<lambda>n. None) [1, 2] sample_proc_state). showable sample_procs p"
  by (simp add: shown_def sample_proc_state_def showable_def sample_procs_def blank_task_def int32_def
      INT_MIN_def INT_MAX_def)

theorem my_read_safe_witness:
  "\<exists>bytes r. my_read (\<lambda>n. None) [1, 2] (\<lambda>n. True) sample_procs 4096 sample_proc_state =
     Some (\<lparr>cur_proc = - 1, is_processed = 1\<rparr>, bytes, r) \<and> 213 \<le> r"
  using my_read_safe [OF _ sample_showable, of "\<lambda>n. True" 4096]
  by (simp add: sample_proc_state_def length_title Let_def)

text \<open>
  C39. The length of the reader's buffer is ignored: a reader that asks for fewer bytes than
  the two heading lines gets more bytes written to its buffer than it has room for.
\<close>

theorem my_read_overruns_reader:
  assumes "is_processed s = 0" "\<forall>p \<in> set (shown pid_task procs s). showable h p"
    and "length procs < 2 ^ 50" "\<forall>n. alloc_ok n" "len \<le> 212"
  shows "\<exists>s' bytes. my_read pid_task procs alloc_ok h len s = Some (s', bytes, int (length bytes)) \<and>
    len < length bytes"
proof -
  have "my_read pid_task procs alloc_ok h len s =
      my_read pid_task procs alloc_ok h 0 s" by (simp add: my_read_def)
  moreover have "\<exists>s' bytes. my_read pid_task procs alloc_ok h 0 s = Some (s', bytes, int (length bytes)) \<and>
      212 < length bytes"
  proof (cases "(\<exists>n. \<not> alloc_ok n)")
    case False
    let ?text = "title_row @ rule_row @ concat (map (row h) (shown pid_task procs s))"
    from my_read_cases [OF assms(1-3), of alloc_ok 0] False
    have "my_read pid_task procs alloc_ok h 0 s = Some (s\<lparr>is_processed := 1\<rparr>, ?text @ [NUL], int (length ?text) + 1)"
      by (simp add: Let_def)
    then show ?thesis by (simp add: length_title)
  qed (use assms(4) in blast)
  ultimately show ?thesis using assms(5) by force
qed

theorem my_read_overruns_reader_witness:
  "\<exists>s' bytes. my_read (\<lambda>n. None) [1, 2] (\<lambda>n. True) sample_procs 100 sample_proc_state =
     Some (s', bytes, int (length bytes)) \<and> 100 < length bytes"
  by (rule my_read_overruns_reader [OF _ sample_showable]) (simp_all add: sample_proc_state_def)

text \<open>
  C37. A reader that reads until end of file ends: after any read that returned data, the
  next read returns 0 and writes nothing, until the file is opened again.
\<close>

theorem my_read_then_eof:
  assumes "my_read pid_task procs alloc_ok h len s = Some (s', bytes, r)" "r \<noteq> 0" "is_processed s \<ge> 0"
  shows "my_read pid_task procs' alloc_ok' h' len' s' = Some (s', [], 0) \<and>
    is_processed (fst (my_open s')) = 0"
proof -
  have "is_processed s = 0" using assms(1,2) by (auto simp: my_read_def split: if_splits)
  with assms(1,2) have "is_processed s' = 1"
    by (auto simp: my_read_def Let_def split: if_splits option.splits sum.splits bind_splits prod.splits)
  then show ?thesis by (simp add: my_read_def my_open_def)
qed

theorem my_read_then_eof_witness:
  "\<exists>s' bytes r. my_read (\<lambda>n. None) [] (\<lambda>n. True) (\<lambda>a. None) 4096 sample_proc_state = Some (s', bytes, r) \<and>
     my_read (\<lambda>n. None) [] (\<lambda>n. True) (\<lambda>a. None) 4096 s' = Some (s', [], 0)"
proof -
  have "my_read (\<lambda>n. None) [] (\<lambda>n. True) (\<lambda>a. None) 4096 sample_proc_state =
      Some (\<lparr>cur_proc = - 1, is_processed = 1\<rparr>, title_row @ rule_row @ [NUL], 213)"
    by (simp add: my_read_def sample_proc_state_def sprintf_def strcat_def BUF_SIZE_def length_title)
  from my_read_then_eof [OF this] this show ?thesis by (simp add: sample_proc_state_def)
qed

lemma print_int_no_nul: "no_nul (print_int i)"
  using print_nat_digits digit_facts(4) by (auto simp: no_nul_def print_int_def NUL_def)

lemma my_write_line:
  assumes "no_nul txt" "length txt < length buf"
  shows "my_write kstrtol buf (txt @ [c]) s =
    Some (case kstrtol txt of None \<Rightarrow> s | Some v \<Rightarrow> s\<lparr>cur_proc := v\<rparr>, int (length txt) + 1)"
proof -
  have "wr (txt @ c # drop (Suc (length txt)) buf) (int (length txt)) NUL =
      Some (txt @ NUL # drop (Suc (length txt)) buf)"
    by (simp add: wr_def list_update_append)
  then show ?thesis using assms by (simp add: my_write_def)
qed

text \<open>
  Selecting a process by writing its number works: when a decimal pid and a newline are
  written, \<open>cur_proc\<close> becomes that pid, given that \<open>kstrtol\<close> reads back the numbers that
  were printed in decimal.
\<close>

theorem my_write_selects:
  assumes "\<forall>i. int32 i \<longrightarrow> kstrtol (print_int i) = Some i" "int32 p" "length buf = 50"
  shows "my_write kstrtol buf (print_int p @ ''\<newline>'') s =
    Some (s\<lparr>cur_proc := p\<rparr>, int (length (print_int p)) + 1)"
  using assms my_write_line [of "print_int p" buf kstrtol _ s] print_int_no_nul [of p] length_print_int [of p]
  by (simp add: int32_def)

theorem my_write_selects_witness:
  "my_write atoi (replicate 50 NUL) (print_int 42 @ ''\<newline>'') sample_proc_state =
     Some (sample_proc_state\<lparr>cur_proc := 42\<rparr>, int (length (print_int 42)) + 1)"
  by (rule my_write_selects) (simp_all add: atoi_print_int int32_def INT_MIN_def INT_MAX_def)

text \<open>
  The last byte written is always dropped, and the buffer is not checked: a pid written
  without a newline loses its last digit, an empty write stores before the buffer, and a
  write of more than 50 bytes overruns it.
\<close>

theorem my_write_pitfalls:
  assumes "\<forall>i. int32 i \<longrightarrow> kstrtol (print_int i) = Some i" "int32 p" "length buf = 50"
  shows "my_write kstrtol buf (print_int p @ [c]) s = Some (s\<lparr>cur_proc := p\<rparr>, int (length (print_int p)) + 1) \<and>
    my_write kstrtol buf [] s = None \<and>
    my_write kstrtol buf (replicate 51 c) s = None"
  using assms my_write_line [of "print_int p" buf kstrtol c s] print_int_no_nul [of p] length_print_int [of p]
  by (simp add: int32_def my_write_def wr_def)

theorem my_write_pitfalls_witness:
  "my_write atoi (replicate 50 NUL) (print_int 4 @ ''2'') sample_proc_state =
     Some (sample_proc_state\<lparr>cur_proc := 4\<rparr>, int (length (print_int 4)) + 1)"
  using my_write_pitfalls [of atoi 4 "replicate 50 NUL" "CHR ''2''" sample_proc_state]
  by (simp add: atoi_print_int int32_def INT_MIN_def INT_MAX_def)

section \<open>The state column and the kernel's own report\<close>

text \<open>
  \<open>fls\<close> of the architecture: the number of the highest bit set, counted from 1, and 0 for 0.
\<close>

definition fls_ok :: "(32 word \<Rightarrow> nat) \<Rightarrow> bool" where
  "fls_ok fls \<longleftrightarrow> (\<forall>x. fls x = (if x = 0 then 0 else Suc (Max {n. bit x n})))"

lemma fls_eq:
  assumes "fls_ok fls" "bit x n" "\<And>m. n < m \<Longrightarrow> \<not> bit x m"
  shows "fls x = Suc n"
proof -
  have "{m. bit x m} \<subseteq> {..n}" using assms(3) by (metis atMost_iff leI mem_Collect_eq subsetI)
  then have "Max {m. bit x m} = n" using assms(2) by (intro Max_eqI) (auto intro: finite_subset)
  moreover have "x \<noteq> 0" using assms(2) by auto
  ultimately show ?thesis using assms(1) by (simp add: fls_ok_def)
qed

lemma fls_power: "fls_ok fls \<Longrightarrow> n < 32 \<Longrightarrow> fls (push_bit n 1) = Suc n"
  by (rule fls_eq) (auto simp: bit_simps)

lemma fls_bits:
  assumes "fls_ok fls"
  shows "fls 0 = 0" "fls 1 = 1" "fls 2 = 2" "fls 4 = 3" "fls 8 = 4" "fls 16 = 5" "fls 32 = 6" "fls 64 = 7"
    "fls 128 = 8"
  using assms fls_power [OF assms, of 0] fls_power [OF assms, of 1] fls_power [OF assms, of 2]
    fls_power [OF assms, of 3] fls_power [OF assms, of 4] fls_power [OF assms, of 5]
    fls_power [OF assms, of 6] fls_power [OF assms, of 7]
  by (simp_all add: fls_ok_def push_bit_eq_mult)

text \<open>The states of a task with their exit states that the kernel gives a letter of their own.\<close>

definition plain_states :: "(64 word \<times> 64 word) list" where
  "plain_states = [(TASK_RUNNING, 0), (TASK_INTERRUPTIBLE, 0), (TASK_UNINTERRUPTIBLE, 0), (TASK_KILLABLE, 0),
     (TASK_STOPPED, 0), (TASK_DEAD, EXIT_ZOMBIE), (TASK_DEAD, EXIT_DEAD), (TASK_PARKED, 0)]"

lemmas state_column_defs = state_field_def task_state_to_char_def task_index_to_char_def task_state_index_def
  task_is_stopped_or_traced_def Let_def pad_def rd_def task_state_defs

text \<open>
  For every plain task state, the letter in the state column is the letter that the
  kernel's own \<open>task_state_to_char\<close> gives the task.
\<close>

theorem state_column_agrees:
  assumes "fls_ok fls" "(state t, exit_state t) \<in> set plain_states"
  shows "task_state_to_char fls t = Some (hd (state_field t buf))"
proof -
  note f = fls_bits [OF assms(1)]
  from assms(2) consider "state t = TASK_RUNNING" "exit_state t = 0"
    | "state t = TASK_INTERRUPTIBLE" "exit_state t = 0" | "state t = TASK_UNINTERRUPTIBLE" "exit_state t = 0"
    | "state t = TASK_KILLABLE" "exit_state t = 0" | "state t = TASK_STOPPED" "exit_state t = 0"
    | "state t = TASK_DEAD" "exit_state t = EXIT_ZOMBIE" | "state t = TASK_DEAD" "exit_state t = EXIT_DEAD"
    | "state t = TASK_PARKED" "exit_state t = 0"
    by (auto simp: plain_states_def)
  then show ?thesis by cases (simp_all add: state_column_defs f)
qed

definition highest_bit :: "32 word \<Rightarrow> nat" where
  "highest_bit x = (if x = 0 then 0 else Suc (Max {n. bit x n}))"

theorem state_column_agrees_witness:
  "task_state_to_char highest_bit blank_task = Some (hd (state_field blank_task []))"
  by (rule state_column_agrees)
    (simp_all add: fls_ok_def highest_bit_def plain_states_def blank_task_def task_state_defs)

text \<open>
  Where the state column is wrong: a traced task is shown as stopped, an idle kernel
  thread as in disk sleep, and for a task that is new, waking, or dead without an exit state
  the column is a copy of the six columns before it.
\<close>

theorem state_column_wrong:
  assumes "fls_ok fls"
  shows "(state t = TASK_TRACED \<and> exit_state t = 0 \<longrightarrow>
      state_field t buf = pad 20 ''T (stopped)'' \<and> task_state_to_char fls t = Some CHR ''t'') \<and>
    (state t = TASK_IDLE \<and> exit_state t = 0 \<longrightarrow>
      state_field t buf = pad 20 ''D (disk sleep)'' \<and> task_state_to_char fls t = Some CHR ''I'') \<and>
    (state t \<in> {TASK_NEW, TASK_WAKING, TASK_DEAD} \<and> exit_state t = 0 \<longrightarrow> state_field t buf = buf)"
proof -
  note f = fls_bits [OF assms]
  have "state_field t buf = pad 20 ''T (stopped)'' \<and> task_state_to_char fls t = Some CHR ''t''"
    if "state t = TASK_TRACED" "exit_state t = 0"
    using that by (simp add: state_column_defs f)
  moreover have "state_field t buf = pad 20 ''D (disk sleep)'' \<and> task_state_to_char fls t = Some CHR ''I''"
    if "state t = TASK_IDLE" "exit_state t = 0"
    using that by (simp add: state_column_defs f)
  moreover have "state_field t buf = buf"
    if s: "state t \<in> {TASK_NEW, TASK_WAKING, TASK_DEAD}" "exit_state t = 0"
  proof -
    from s(1) consider "state t = TASK_NEW" | "state t = TASK_WAKING" | "state t = TASK_DEAD" by blast
    then show ?thesis using s(2) by cases (simp_all add: state_column_defs)
  qed
  ultimately show ?thesis by blast
qed

theorem state_column_wrong_witness:
  "state_field (blank_task\<lparr>state := TASK_TRACED\<rparr>) [] = pad 20 ''T (stopped)'' \<and>
   task_state_to_char highest_bit (blank_task\<lparr>state := TASK_TRACED\<rparr>) = Some CHR ''t'' \<and>
   state_field (blank_task\<lparr>state := TASK_NEW\<rparr>) ''1 0'' = ''1 0''"
  using state_column_wrong [of highest_bit "blank_task\<lparr>state := TASK_TRACED\<rparr>" "[]"]
    state_column_wrong [of highest_bit "blank_task\<lparr>state := TASK_NEW\<rparr>" "''1 0''"]
  by (simp add: fls_ok_def highest_bit_def blank_task_def)

lemma fls_le:
  assumes "fls_ok fls" "\<And>m. n \<le> m \<Longrightarrow> \<not> bit x m"
  shows "fls x \<le> n"
proof (cases "x = 0")
  case True
  then show ?thesis using assms(1) by (simp add: fls_ok_def)
next
  case False
  have fin: "finite {m. bit x m}"
    by (rule finite_subset [of _ "{..<32}"]) (auto dest: bit_imp_le_length)
  obtain m where "bit x m" using False by (metis bit_eq_iff bit_0_eq bot_apply bot_bool_def)
  then have "Max {m. bit x m} \<in> {m. bit x m}" using fin by (intro Max_in) auto
  then have "Max {m. bit x m} < n" using assms(2) not_le by blast
  then show ?thesis using assms(1) False by (simp add: fls_ok_def)
qed

text \<open>
  The kernel's \<open>task_state_to_char\<close> never reads outside its table of letters: whatever
  bits are set in the state and the exit state, the result is one of the nine letters.
\<close>

theorem task_state_to_char_in_table:
  assumes "fls_ok fls"
  shows "\<exists>c \<in> set ''RSDTtXZPI''. task_state_to_char fls t = Some c"
proof -
  have "task_state_index fls t \<le> 8"
  proof (cases "(ucast (state t) :: 32 word) = ucast TASK_IDLE")
    case True
    then show ?thesis using fls_bits [OF assms] by (simp add: task_state_index_def task_state_defs)
  next
    case False
    let ?s = "(ucast (state t) OR ucast (exit_state t)) AND (127 :: 32 word)"
    have m: "(127 :: 32 word) = mask 7" by (simp add: mask_eq_exp_minus_1)
    have "\<not> bit ?s m" if "8 \<le> m" for m
      unfolding m using that by (simp only: bit_and_iff bit_mask_iff) simp
    then have "fls ?s \<le> 8" by (rule fls_le [OF assms])
    then show ?thesis using False by (simp add: task_state_index_def task_state_defs)
  qed
  then have "task_state_index fls t \<in> {0, 1, 2, 3, 4, 5, 6, 7, 8}" by auto
  then show ?thesis by (auto simp: task_state_to_char_def task_index_to_char_def rd_def)
qed

theorem task_state_to_char_in_table_witness:
  "\<exists>c \<in> set ''RSDTtXZPI''. task_state_to_char highest_bit (blank_task\<lparr>state := - 1\<rparr>) = Some c"
  by (rule task_state_to_char_in_table) (simp add: fls_ok_def highest_bit_def)

section \<open>Loading and unloading\<close>

text \<open>
  The tree of \<open>/proc\<close> belongs to the kernel; a directory is \<open>None\<close> for the root. The module keeps
  the two pointers it is given and tests neither. 438 is the mode \<open>0666\<close>.
\<close>

record 'p proc_api =
  proc_mkdir :: "string \<Rightarrow> nat option \<Rightarrow> 'p \<Rightarrow> nat option \<times> 'p"
  proc_create :: "string \<Rightarrow> nat \<Rightarrow> nat option \<Rightarrow> 'p \<Rightarrow> nat option \<times> 'p"
  remove_proc_entry :: "string \<Rightarrow> nat option \<Rightarrow> 'p \<Rightarrow> 'p"

record proc_vars =
  fp_dir :: "nat option"
  fp_file :: "nat option"

definition my_init :: "'p proc_api \<Rightarrow> proc_vars \<times> 'p \<Rightarrow> int \<times> proc_vars \<times> 'p" where
  "my_init api = (\<lambda>(v, p).
     let (d, p) = proc_mkdir api ''proc_2020202034'' None p;
         v = v\<lparr>fp_dir := d\<rparr>;
         (f, p) = proc_create api ''processInfo'' 438 (fp_dir v) p;
         v = v\<lparr>fp_file := f\<rparr>
     in (0, v, p))"

definition my_exit :: "'p proc_api \<Rightarrow> proc_vars \<times> 'p \<Rightarrow> proc_vars \<times> 'p" where
  "my_exit api = (\<lambda>(v, p).
     let p = remove_proc_entry api ''processInfo'' (fp_dir v) p
     in (v, remove_proc_entry api ''proc_2020202034'' None p))"

text \<open>
  What the kernel promises, with \<open>ent\<close> the entry under a directory and a name: a name that is
  taken, or a lack of memory, gives NULL and changes nothing; otherwise the entry is new and
  empty; removing takes the entry away.
\<close>

definition makes_entry :: "('p \<Rightarrow> nat option \<times> string \<Rightarrow> nat option) \<Rightarrow> string \<Rightarrow> nat option \<Rightarrow> 'p \<Rightarrow> nat option \<times> 'p \<Rightarrow> bool" where
  "makes_entry ent n d p = (\<lambda>(r, p'). case r of None \<Rightarrow> ent p' = ent p
     | Some i \<Rightarrow> ent p (d, n) = None \<and> (\<forall>m. ent p (Some i, m) = None) \<and> d \<noteq> Some i \<and> ent p' = (ent p)((d, n) \<mapsto> i))"

definition proc_laws :: "'p proc_api \<Rightarrow> ('p \<Rightarrow> nat option \<times> string \<Rightarrow> nat option) \<Rightarrow> bool" where
  "proc_laws api ent \<longleftrightarrow> (\<forall>n d p mode. makes_entry ent n d p (proc_mkdir api n d p) \<and> makes_entry ent n d p (proc_create api n mode d p) \<and>
     ent (remove_proc_entry api n d p) = (ent p)((d, n) := None))"

text \<open>
  Loading makes the directory and the file in it, and unloading leaves \<open>/proc\<close> as it was. But
  when the directory cannot be made, because the name is taken or memory is short, loading
  still reports success, puts the file into the root of \<open>/proc\<close>, and unloading also removes
  the entry of that name that it did not make.
\<close>

theorem my_init_exit:
  assumes "proc_laws api ent" "my_init api (v, p) = (r, v1, p1)" "my_exit api (v1, p1) = (v2, p2)"
  shows "r = 0 \<and> (case fp_dir v1 of
      Some d \<Rightarrow> ent p1 (None, ''proc_2020202034'') = Some d \<and> ent p1 (Some d, ''processInfo'') = fp_file v1 \<and> ent p2 = ent p
    | None \<Rightarrow> (fp_file v1 \<noteq> None \<longrightarrow> ent p1 (None, ''processInfo'') = fp_file v1) \<and>
        ent p2 = (ent p)((None, ''processInfo'') := None, (None, ''proc_2020202034'') := None))"
proof -
  obtain d q where m: "proc_mkdir api ''proc_2020202034'' None p = (d, q)" by (cases "proc_mkdir api ''proc_2020202034'' None p")
  obtain f q' where c: "proc_create api ''processInfo'' 438 d q = (f, q')" by (cases "proc_create api ''processInfo'' 438 d q")
  from assms(2) m c have v: "r = 0" "fp_dir v1 = d" "fp_file v1 = f" "p1 = q'" by (auto simp: my_init_def Let_def)
  from assms(1) have laws: "makes_entry ent ''proc_2020202034'' None p (d, q)" "makes_entry ent ''processInfo'' d q (f, q')"
    using m c unfolding proc_laws_def by metis+
  have "ent p2 = (ent p1)((d, ''processInfo'') := None, (None, ''proc_2020202034'') := None)"
    using assms(1,3) v by (auto simp: my_exit_def proc_laws_def)
  then show ?thesis using laws v by (cases d; cases f) (auto simp: makes_entry_def fun_eq_iff)
qed

text \<open>A tree with the next free number, and a load when the name is taken.\<close>

definition beyond :: "nat \<Rightarrow> nat option \<Rightarrow> bool" where
  "beyond k d = (case d of None \<Rightarrow> False | Some j \<Rightarrow> k \<le> j)"

definition sample_ent :: "(nat option \<times> string \<Rightarrow> nat option) \<times> nat \<Rightarrow> nat option \<times> string \<Rightarrow> nat option" where
  "sample_ent = (\<lambda>(e, k) x. if beyond k (fst x) then None else e x)"

definition add_entry ::
  "string \<Rightarrow> nat option \<Rightarrow> (nat option \<times> string \<Rightarrow> nat option) \<times> nat \<Rightarrow> nat option \<times> (nat option \<times> string \<Rightarrow> nat option) \<times> nat" where
  "add_entry n d = (\<lambda>(e, k). if beyond k d \<or> e (d, n) \<noteq> None then (None, e, k)
     else (Some k, (\<lambda>x. if fst x = Some k then None else e x)((d, n) \<mapsto> k), Suc k))"

definition sample_proc :: "((nat option \<times> string \<Rightarrow> nat option) \<times> nat) proc_api" where
  "sample_proc = \<lparr>proc_mkdir = add_entry, proc_create = (\<lambda>n mode. add_entry n),
     remove_proc_entry = (\<lambda>n d (e, k). (e((d, n) := None), k))\<rparr>"

lemma sample_proc_laws: "proc_laws sample_proc sample_ent"
proof -
  have "makes_entry sample_ent n d (e, k) (add_entry n d (e, k))" for n d e k
    by (auto simp: makes_entry_def add_entry_def sample_ent_def beyond_def fun_eq_iff Suc_le_eq split: option.splits)
  then show ?thesis by (auto simp: proc_laws_def sample_proc_def sample_ent_def fun_eq_iff)
qed

theorem my_init_exit_witness:
  "\<exists>v1 p1 v2 p2. my_init sample_proc (\<lparr>fp_dir = None, fp_file = None\<rparr>, [(None, ''proc_2020202034'') \<mapsto> 0], 1) = (0, v1, p1) \<and>
    my_exit sample_proc (v1, p1) = (v2, p2) \<and> sample_ent p2 (None, ''proc_2020202034'') = None"
proof -
  obtain r v1 p1 where i: "my_init sample_proc (\<lparr>fp_dir = None, fp_file = None\<rparr>, [(None, ''proc_2020202034'') \<mapsto> 0], 1) = (r, v1, p1)"
    by (metis prod_cases3)
  obtain v2 p2 where e: "my_exit sample_proc (v1, p1) = (v2, p2)" by (metis surj_pair)
  have "fp_dir v1 = None" using i by (auto simp: my_init_def sample_proc_def add_entry_def beyond_def Let_def)
  with my_init_exit [OF sample_proc_laws i e] have "r = 0" "sample_ent p2 (None, ''proc_2020202034'') = None" by simp_all
  with i e show ?thesis by blast
qed

end
