(* ===== verification/Sum_Tree.thy ===== *)
theory Sum_Tree
  imports C_Stdio
begin

text \<open>
  The programs of Assignment 3-2: \<open>numgen.c\<close> writes the numbers 1 to 128, \<open>thread.c\<close> adds
  the numbers of the file pairwise with a tree of threads, and \<open>fork.c\<close> with a tree of
  processes. The sum of a thread or a process depends on nothing that runs beside it, so a
  thread is its result, which \<open>pthread_join\<close> delivers, and a process is its exit status.
  The lines the workers append to the file, and the times, are not modelled.
\<close>

definition MAX_PROCESSES :: int where
  "MAX_PROCESSES = 64"

section \<open>Number generator\<close>

definition numgen_main :: "string option" where
  "numgen_main = for_range 0 (MAX_PROCESSES * 2) (\<lambda>i f_write. do {
     n \<leftarrow> c_int (i + 1);
     Some (f_write @ print_int n @ ''\<newline>'') }) []"

text \<open>\<open>fscanf(f, "%d\n%d\n", ...)\<close> where both numbers are there.\<close>

definition read_pair :: "string \<Rightarrow> ((int \<times> int) \<times> string) option" where
  "read_pair s = (case scan_int s of (Val a, s) \<Rightarrow>
       (case scan_int (skip_space s) of (Val b, s) \<Rightarrow> do {
          a \<leftarrow> c_int a; b \<leftarrow> c_int b; Some ((a, b), skip_space s) }
        | _ \<Rightarrow> None)
     | _ \<Rightarrow> None)"

section \<open>Threads\<close>

definition thread_func :: "int \<times> int \<Rightarrow> int option" where
  "thread_func arg = c_int (fst arg + snd arg)"

text \<open>
  \<open>pthread_join\<close> stores the thread's \<open>void *\<close> result, of \<open>psize\<close> bytes, at the address of an \<open>int\<close>
  with \<open>room\<close> bytes up to the end of its object. More bytes than that are a write past the
  object. \<open>psize\<close> is \<open>sizeof(void *)\<close> of the platform; an \<open>int\<close> has 4 bytes, so the room is 8 at
  \<open>num1\<close>, the first of the two fields of \<open>struct nums\<close>, and 4 at \<open>num2\<close> and at the local \<open>sum\<close>.
\<close>

definition join_int :: "int \<Rightarrow> int \<Rightarrow> int \<Rightarrow> int option" where
  "join_int psize room res = (if psize \<le> room then Some res else None)"

text \<open>The array \<open>tid\<close> holds the result of each thread.\<close>

definition leaf_round :: "int \<Rightarrow> int list \<times> string \<Rightarrow> (int list \<times> string) option" where
  "leaf_round i = (\<lambda>(tid, f_temp). do {
     (pNum, f_temp) \<leftarrow> read_pair f_temp;
     r \<leftarrow> thread_func pNum;
     tid \<leftarrow> wr tid i r;
     Some (tid, f_temp) })"

definition node_round :: "int \<Rightarrow> int \<Rightarrow> int list \<Rightarrow> int list option" where
  "node_round psize i tid = do {
     t1 \<leftarrow> rd tid (i * 2);
     num1 \<leftarrow> join_int psize 8 t1;
     t2 \<leftarrow> rd tid (i * 2 + 1);
     num2 \<leftarrow> join_int psize 4 t2;
     r \<leftarrow> thread_func (num1, num2);
     wr tid i r }"

definition thread_main :: "int \<Rightarrow> string \<Rightarrow> int option" where
  "thread_main psize f_temp = do {
     (tid, f_temp) \<leftarrow> for_range MAX_PROCESSES (MAX_PROCESSES * 2) leaf_round
        (replicate (nat (MAX_PROCESSES * 2)) 0, f_temp);
     tid \<leftarrow> for_range 0 (MAX_PROCESSES - 1) (\<lambda>j. node_round psize (MAX_PROCESSES - 1 - j)) tid;
     t \<leftarrow> rd tid 1;
     join_int psize 4 t }"

section \<open>Processes\<close>

text \<open>
  A process in round \<open>6 - n\<close> of the loop has the rounds left in which it forks. Its children
  carry on with the next round and the index with that round's bit. \<open>exit(sum)\<close> hands the
  parent the low 8 bits, which the parent adds. The order in which the children end does not
  change the sum.
\<close>

fun proc_exit :: "(int \<times> int) list \<Rightarrow> nat \<Rightarrow> int \<Rightarrow> int option"
and proc_wait :: "(int \<times> int) list \<Rightarrow> nat \<Rightarrow> int \<Rightarrow> int \<Rightarrow> int option" where
  "proc_exit pipes n idx = do {
     pr \<leftarrow> rd pipes idx;
     s \<leftarrow> c_int (fst pr + snd pr);
     proc_wait pipes n idx s }"
| "proc_wait pipes 0 idx s = Some s"
| "proc_wait pipes (Suc n) idx s = do {
     v \<leftarrow> proc_exit pipes n (idx + 2 ^ (5 - n));
     s \<leftarrow> c_int (s + v mod 256);
     proc_wait pipes n idx s }"

definition fill_pipes :: "string \<Rightarrow> ((int \<times> int) list \<times> string) option" where
  "fill_pipes f_temp = for_range 0 MAX_PROCESSES (\<lambda>i (pipes, f_temp). do {
     (pr, f_temp) \<leftarrow> read_pair f_temp;
     pipes \<leftarrow> wr pipes i pr;
     Some (pipes, f_temp) }) (replicate (nat MAX_PROCESSES) (0, 0), f_temp)"

text \<open>The value printed: \<open>exit_value >> 8\<close> of the first child.\<close>

definition fork_main :: "string \<Rightarrow> int option" where
  "fork_main f_temp = do {
     (pipes, f_temp) \<leftarrow> fill_pipes f_temp;
     v \<leftarrow> proc_exit pipes 6 0;
     Some (v mod 256) }"

section \<open>The number file\<close>

definition num_lines :: "int list \<Rightarrow> string" where
  "num_lines ns = concat (map (\<lambda>n. print_int n @ ''\<newline>'') ns)"

definition pair_lines :: "(int \<times> int) list \<Rightarrow> string" where
  "pair_lines ps = num_lines (concat (map (\<lambda>p. [fst p, snd p]) ps))"

lemma pair_lines_simps [simp]:
  "pair_lines [] = []"
  "pair_lines (p # ps) = print_int (fst p) @ ''\<newline>'' @ print_int (snd p) @ ''\<newline>'' @ pair_lines ps"
  by (simp_all add: pair_lines_def num_lines_def)

definition pair_ok :: "int \<times> int \<Rightarrow> bool" where
  "pair_ok p \<longleftrightarrow> INT_MIN \<le> fst p \<and> fst p \<le> INT_MAX \<and> INT_MIN \<le> snd p \<and> snd p \<le> INT_MAX"

lemma skip_print_int: "skip_space (print_int i @ r) = print_int i @ r"
  using print_int_head [of i] by (intro skip_space_none) auto

lemma skip_pair_lines: "skip_space (''\<newline>'' @ pair_lines ps) = pair_lines ps"
proof -
  have "skip_space (''\<newline>'' @ pair_lines ps) = skip_space (pair_lines ps)"
    by (rule skip_space_append) (simp add: is_space_def)
  also have "\<dots> = pair_lines ps"
    by (cases ps) (simp add: skip_space_def, simp only: pair_lines_simps skip_print_int)
  finally show ?thesis .
qed

lemma read_pair_lines:
  assumes "pair_ok p"
  shows "read_pair (pair_lines (p # ps)) = Some (p, pair_lines ps)"
proof -
  let ?r = "''\<newline>'' @ pair_lines ps"
  have nl: "no_digit_first (''\<newline>'' @ r)" for r by (simp add: no_digit_first_def is_digit_def)
  have "scan_int (print_int (fst p) @ ''\<newline>'' @ print_int (snd p) @ ?r) =
      (Val (fst p), ''\<newline>'' @ print_int (snd p) @ ?r)"
    using scan_print_int [of "[]" "''\<newline>'' @ print_int (snd p) @ ?r" "fst p"] nl by simp
  moreover have "skip_space (''\<newline>'' @ print_int (snd p) @ ?r) = print_int (snd p) @ ?r"
    using skip_space_append [of "''\<newline>''" "print_int (snd p) @ ?r"] skip_print_int
    by (simp add: is_space_def)
  moreover have "scan_int (print_int (snd p) @ ?r) = (Val (snd p), ?r)"
    using scan_print_int [of "[]" ?r "snd p"] nl by simp
  ultimately show ?thesis
    using assms by (simp add: read_pair_def pair_ok_def skip_pair_lines del: append_Cons append.simps)
qed

text \<open>The loops that read all pairs.\<close>

lemma pair_lines_drop:
  "j < length ps \<Longrightarrow> pair_lines (drop j ps) = pair_lines (ps ! j # drop (Suc j) ps)"
  by (simp add: Cons_nth_drop_Suc)

definition pair_sum :: "int \<times> int \<Rightarrow> int" where
  "pair_sum p = fst p + snd p"

definition pair_abs :: "int \<times> int \<Rightarrow> int" where
  "pair_abs p = \<bar>fst p\<bar> + \<bar>snd p\<bar>"

text \<open>An input of 64 pairs whose absolute values sum to at most \<open>INT_MAX\<close>: no sum overflows.\<close>

definition input_ok :: "(int \<times> int) list \<Rightarrow> bool" where
  "input_ok ps \<longleftrightarrow> length ps = 64 \<and> sum_list (map pair_abs ps) \<le> INT_MAX"

lemma abs_le_sum: "p \<in> set ps \<Longrightarrow> pair_abs p \<le> sum_list (map pair_abs ps)"
proof (induction ps)
  case (Cons q ps)
  have "0 \<le> sum_list (map pair_abs ps)" by (rule sum_list_nonneg) (auto simp: pair_abs_def)
  moreover have "0 \<le> pair_abs q" by (simp add: pair_abs_def)
  ultimately show ?case using Cons by fastforce
qed simp

lemma input_pair:
  assumes "input_ok ps" "p \<in> set ps"
  shows "pair_ok p" "INT_MIN \<le> pair_sum p" "pair_sum p \<le> INT_MAX" "\<bar>pair_sum p\<bar> \<le> pair_abs p"
  using assms abs_le_sum [OF assms(2)]
  by (auto simp: input_ok_def pair_ok_def pair_abs_def pair_sum_def INT_MIN_def INT_MAX_def)

lemma leaf_loop:
  assumes "input_ok ps"
  shows "\<exists>tid f. for_range MAX_PROCESSES (MAX_PROCESSES * 2) leaf_round (replicate 128 0, pair_lines ps) = Some (tid, f) \<and>
    length tid = 128 \<and> (\<forall>k < 64. tid ! (64 + k) = pair_sum (ps ! k))"
proof -
  let ?I = "\<lambda>i s. case s of (tid, f) \<Rightarrow> f = pair_lines (drop (nat (i - 64)) ps) \<and> length tid = 128 \<and>
      (\<forall>k < nat (i - 64). tid ! (64 + k) = pair_sum (ps ! k))"
  have len: "length ps = 64" using assms by (simp add: input_ok_def)
  have "\<exists>t. for_range MAX_PROCESSES (MAX_PROCESSES * 2) leaf_round (replicate 128 0, pair_lines ps) = Some t \<and>
      ?I (MAX_PROCESSES * 2) t"
  proof (rule for_range_inv)
    fix i and s :: "int list \<times> string"
    assume i: "MAX_PROCESSES \<le> i" "i < MAX_PROCESSES * 2" and I: "?I i s"
    obtain tid f where s: "s = (tid, f)" by (cases s)
    define j where "j = nat (i - 64)"
    have j: "i = 64 + int j" "j < 64" using i by (simp_all add: j_def MAX_PROCESSES_def)
    have p: "ps ! j \<in> set ps" using j(2) len by simp
    have "read_pair f = Some (ps ! j, pair_lines (drop (Suc j) ps))"
      using I s j len read_pair_lines [OF input_pair(1) [OF assms p], of "drop (Suc j) ps"]
      by (simp add: pair_lines_drop del: pair_lines_simps)
    moreover have "thread_func (ps ! j) = Some (pair_sum (ps ! j))"
      using input_pair(2,3) [OF assms p] by (simp add: thread_func_def pair_sum_def)
    moreover have "wr tid i (pair_sum (ps ! j)) = Some (tid[64 + j := pair_sum (ps ! j)])"
      using I s j by (simp add: wr_def nat_add_distrib)
    moreover have "nat (i + 1 - 64) = Suc j" using j by simp
    ultimately show "\<exists>s'. leaf_round i s = Some s' \<and> ?I (i + 1) s'"
      using I s j by (auto simp: leaf_round_def nth_list_update less_Suc_eq)
  qed (simp_all add: MAX_PROCESSES_def)
  then show ?thesis by (auto simp: MAX_PROCESSES_def)
qed

text \<open>
  The second loop: before the round of \<open>i\<close> the threads created and not yet joined are
  \<open>i + 1, ..., 2 i + 1\<close>, and their results sum to the sum of all numbers.
\<close>

definition live :: "nat \<Rightarrow> nat set" where
  "live i = {i + 1..2 * i + 1}"

definition tree_inv :: "int \<Rightarrow> nat \<Rightarrow> int list \<Rightarrow> bool" where
  "tree_inv tot i tid \<longleftrightarrow> length tid = 128 \<and> (\<Sum>k \<in> live i. tid ! k) = tot \<and> (\<Sum>k \<in> live i. \<bar>tid ! k\<bar>) \<le> INT_MAX"

lemma sum_live_step:
  fixes f g :: "nat \<Rightarrow> int"
  assumes "0 < i" "\<And>k. k \<noteq> i \<Longrightarrow> g k = f k"
  shows "(\<Sum>k \<in> live (i - 1). g k) = (\<Sum>k \<in> live i. f k) - f (2 * i) - f (2 * i + 1) + g i"
proof -
  let ?M = "{i + 1..2 * i - 1}"
  have "live i = insert (2 * i) (insert (2 * i + 1) ?M)" "live (i - 1) = insert i ?M"
    using assms(1) by (auto simp: live_def)
  moreover have "2 * i \<notin> insert (2 * i + 1) ?M" "2 * i + 1 \<notin> ?M" "i \<notin> ?M" using assms(1) by auto
  moreover have "(\<Sum>k \<in> ?M. g k) = (\<Sum>k \<in> ?M. f k)"
    using assms(2) by (intro sum.cong) auto
  ultimately show ?thesis by simp
qed

lemma node_step:
  assumes "tree_inv tot i tid" "0 < i" "i < 64" "psize \<le> 4"
  shows "\<exists>tid'. node_round psize (int i) tid = Some tid' \<and> tree_inv tot (i - 1) tid'"
proof -
  let ?a = "tid ! (2 * i)" and ?b = "tid ! (2 * i + 1)"
  let ?tid = "tid[i := ?a + ?b]"
  have len: "length tid = 128" using assms(1) by (simp add: tree_inv_def)
  have in_live: "{2 * i, 2 * i + 1} \<subseteq> live i" "finite (live i)" using assms(2) by (auto simp: live_def)
  have "\<bar>?a\<bar> + \<bar>?b\<bar> = (\<Sum>k \<in> {2 * i, 2 * i + 1}. \<bar>tid ! k\<bar>)" by simp
  also have "\<dots> \<le> (\<Sum>k \<in> live i. \<bar>tid ! k\<bar>)" using in_live by (intro sum_mono2) auto
  also have "\<dots> \<le> INT_MAX" using assms(1) by (simp add: tree_inv_def)
  finally have ab: "\<bar>?a\<bar> + \<bar>?b\<bar> \<le> INT_MAX" .
  then have "thread_func (?a, ?b) = Some (?a + ?b)"
    by (auto simp: thread_func_def INT_MIN_def INT_MAX_def)
  moreover have "rd tid (int i * 2) = Some ?a" "rd tid (int i * 2 + 1) = Some ?b"
    using assms(2,3) len by (simp_all add: rd_def nat_add_distrib nat_mult_distrib mult.commute)
  ultimately have "node_round psize (int i) tid = Some ?tid"
    using assms len by (simp add: node_round_def join_int_def)
  moreover have "tree_inv tot (i - 1) ?tid"
    using assms ab len abs_triangle_ineq [of ?a ?b] sum_live_step [OF assms(2), of "(!) ?tid" "(!) tid"]
      sum_live_step [OF assms(2), of "\<lambda>k. \<bar>?tid ! k\<bar>" "\<lambda>k. \<bar>tid ! k\<bar>"]
    by (auto simp: tree_inv_def)
  ultimately show ?thesis by blast
qed

lemma thread_main_eq:
  assumes "input_ok ps" "psize \<le> 4"
  shows "thread_main psize (pair_lines ps) = Some (sum_list (map pair_sum ps))"
proof -
  obtain tid f where leaf: "for_range MAX_PROCESSES (MAX_PROCESSES * 2) leaf_round (replicate 128 0, pair_lines ps) = Some (tid, f)"
      "length tid = 128" "\<forall>k < 64. tid ! (64 + k) = pair_sum (ps ! k)"
    using leaf_loop [OF assms(1)] by blast
  have len: "length ps = 64" using assms(1) by (simp add: input_ok_def)
  have live: "live 63 = (+) 64 ` {0..<64}" by (auto simp: live_def)
  have S: "(\<Sum>k \<in> live 63. g (tid ! k)) = sum_list (map (\<lambda>p. g (pair_sum p)) ps)" for g :: "int \<Rightarrow> int"
    unfolding live using leaf(3) len by (simp add: sum.reindex sum_list_sum_nth atLeast0LessThan)
  have "sum_list (map (\<lambda>p. \<bar>pair_sum p\<bar>) ps) \<le> sum_list (map pair_abs ps)"
    by (rule sum_list_mono) (auto simp: pair_sum_def pair_abs_def)
  then have inv0: "tree_inv (sum_list (map pair_sum ps)) 63 tid"
    using S [of "\<lambda>x. x"] S [of abs] leaf(2) assms(1) by (simp add: tree_inv_def input_ok_def)
  have "\<exists>t. for_range 0 (MAX_PROCESSES - 1) (\<lambda>j. node_round psize (MAX_PROCESSES - 1 - j)) tid = Some t \<and>
      tree_inv (sum_list (map pair_sum ps)) (nat (63 - (MAX_PROCESSES - 1))) t"
  proof (rule for_range_inv [where I = "\<lambda>j t. tree_inv (sum_list (map pair_sum ps)) (nat (63 - j)) t"])
    fix j and s :: "int list"
    assume j: "0 \<le> j" "j < MAX_PROCESSES - 1" and I: "tree_inv (sum_list (map pair_sum ps)) (nat (63 - j)) s"
    have "MAX_PROCESSES - 1 - j = int (nat (63 - j))" "nat (63 - (j + 1)) = nat (63 - j) - 1"
      using j by (simp_all add: MAX_PROCESSES_def)
    with node_step [OF I _ _ assms(2)] j
    show "\<exists>s'. node_round psize (MAX_PROCESSES - 1 - j) s = Some s' \<and>
        tree_inv (sum_list (map pair_sum ps)) (nat (63 - (j + 1))) s'"
      by (simp add: MAX_PROCESSES_def)
  qed (use inv0 in \<open>simp_all add: MAX_PROCESSES_def\<close>)
  then obtain t where t: "for_range 0 (MAX_PROCESSES - 1) (\<lambda>j. node_round psize (MAX_PROCESSES - 1 - j)) tid = Some t"
      "tree_inv (sum_list (map pair_sum ps)) 0 t"
    by (auto simp: MAX_PROCESSES_def)
  then have "rd t 1 = Some (sum_list (map pair_sum ps))"
    by (auto simp: tree_inv_def live_def rd_def)
  with leaf(1) t(1) assms(2) show ?thesis by (simp add: thread_main_def join_int_def MAX_PROCESSES_def)
qed

lemma thread_main_overflow:
  assumes "input_ok ps" "4 < psize"
  shows "thread_main psize (pair_lines ps) = None"
proof -
  obtain tid f where leaf: "for_range MAX_PROCESSES (MAX_PROCESSES * 2) leaf_round (replicate 128 0, pair_lines ps) = Some (tid, f)"
      "length tid = 128"
    using leaf_loop [OF assms(1)] by blast
  have "node_round psize 63 tid = None"
    using assms(2) leaf(2) by (simp add: node_round_def join_int_def)
  then have "for_range 0 (MAX_PROCESSES - 1) (\<lambda>j. node_round psize (MAX_PROCESSES - 1 - j)) tid = None"
    by (simp add: for_range_unfold MAX_PROCESSES_def)
  with leaf(1) show ?thesis by (simp add: thread_main_def MAX_PROCESSES_def)
qed

text \<open>The pipes hold the pairs of the file.\<close>

lemma fill_pipes_eq:
  assumes "input_ok ps"
  shows "\<exists>f. fill_pipes (pair_lines ps) = Some (ps, f)"
proof -
  let ?body = "\<lambda>i (pipes, f_temp). do {
     (pr, f_temp) \<leftarrow> read_pair f_temp;
     pipes \<leftarrow> wr pipes i pr;
     Some (pipes, f_temp) }"
  let ?I = "\<lambda>i s. case s of (pipes, f) \<Rightarrow> f = pair_lines (drop (nat i) ps) \<and> length pipes = 64 \<and>
      take (nat i) pipes = take (nat i) ps"
  have len: "length ps = 64" using assms by (simp add: input_ok_def)
  have "\<exists>t. for_range 0 MAX_PROCESSES ?body (replicate (nat MAX_PROCESSES) (0, 0), pair_lines ps) = Some t \<and>
      ?I MAX_PROCESSES t"
  proof (rule for_range_inv)
    fix i and s :: "(int \<times> int) list \<times> string"
    assume i: "0 \<le> i" "i < MAX_PROCESSES" and I: "?I i s"
    obtain pipes f where s: "s = (pipes, f)" by (cases s)
    obtain j where j: "i = int j" "j < 64" using i by (cases i) (auto simp: MAX_PROCESSES_def)
    have p: "ps ! j \<in> set ps" using j(2) len by simp
    have "read_pair f = Some (ps ! j, pair_lines (drop (Suc j) ps))"
      using I s j len read_pair_lines [OF input_pair(1) [OF assms p], of "drop (Suc j) ps"]
      by (simp add: pair_lines_drop del: pair_lines_simps)
    moreover have "nat (i + 1) = Suc j" using j by simp
    ultimately show "\<exists>s'. ?body i s = Some s' \<and> ?I (i + 1) s'"
      using I s j len by (simp add: take_Suc_conv_app_nth)
  qed (simp_all add: MAX_PROCESSES_def)
  then show ?thesis using len by (auto simp: fill_pipes_def MAX_PROCESSES_def)
qed

text \<open>The pairs a process and its descendants add: its index plus the multiples of its stride.\<close>

definition subtree :: "(int \<times> int) list \<Rightarrow> nat \<Rightarrow> nat \<Rightarrow> int" where
  "subtree ps n idx = (\<Sum>m < 2 ^ n. pair_sum (ps ! (idx + m * 2 ^ (6 - n))))"

lemma sum_even_odd:
  fixes f :: "nat \<Rightarrow> int"
  shows "(\<Sum>m < 2 * k. f m) = (\<Sum>m < k. f (2 * m)) + (\<Sum>m < k. f (2 * m + 1))"
  by (induction k) simp_all

lemma subtree_Suc:
  assumes "n < 6"
  shows "subtree ps (Suc n) idx = subtree ps n idx + subtree ps n (idx + 2 ^ (5 - n))"
proof -
  have "6 - n = Suc (5 - n)" using assms by simp
  then have e: "(2::nat) ^ (6 - n) = 2 * 2 ^ (5 - n)" by simp
  have "subtree ps (Suc n) idx = (\<Sum>m < 2 * 2 ^ n. pair_sum (ps ! (idx + m * 2 ^ (5 - n))))"
    using assms by (simp add: subtree_def)
  also have "\<dots> = subtree ps n idx + subtree ps n (idx + 2 ^ (5 - n))"
    unfolding sum_even_odd subtree_def e by (simp add: algebra_simps)
  finally show ?thesis .
qed

definition pipes_ok :: "(int \<times> int) list \<Rightarrow> bool" where
  "pipes_ok ps \<longleftrightarrow> length ps = 64 \<and> (\<forall>p \<in> set ps. INT_MIN \<le> pair_sum p \<and> pair_sum p + 255 * 6 \<le> INT_MAX)"

lemma proc_wait_eq:
  assumes "pipes_ok ps" "n \<le> 6" "idx < 2 ^ (6 - n)" "INT_MIN \<le> s" "s + 255 * int n \<le> INT_MAX"
  shows "\<exists>v. proc_wait ps n (int idx) s = Some v \<and> s \<le> v \<and> v \<le> s + 255 * int n \<and>
    v mod 256 = (s + subtree ps n idx - pair_sum (ps ! idx)) mod 256"
  using assms(2-5)
proof (induction n arbitrary: idx s)
  case 0
  then show ?case by (simp add: subtree_def)
next
  case (Suc n)
  have "6 - n = Suc (5 - n)" using Suc.prems(1) by simp
  then have pw: "(2::nat) ^ (6 - n) = 2 * 2 ^ (5 - n)" by simp
  let ?c = "idx + 2 ^ (5 - n)"
  have idx: "idx < 2 ^ (5 - n)" "?c < 2 ^ (6 - n)" "idx < 2 ^ (6 - n)"
    using Suc.prems(2) pw by simp_all
  have "(2::nat) ^ (6 - n) \<le> 2 ^ 6" by (rule power_increasing) simp_all
  then have c64: "?c < 64" using idx(2) by simp
  then have pc: "ps ! ?c \<in> set ps" using assms(1) by (simp add: pipes_ok_def)
  have rdc: "rd ps (int ?c) = Some (ps ! ?c)"
    using c64 assms(1) by (intro rd_nat) (simp add: pipes_ok_def)
  have bc: "INT_MIN \<le> pair_sum (ps ! ?c)" "pair_sum (ps ! ?c) + 255 * 6 \<le> INT_MAX"
    using assms(1) pc by (simp_all add: pipes_ok_def)
  obtain v1 where v1: "proc_wait ps n (int ?c) (pair_sum (ps ! ?c)) = Some v1"
      "v1 mod 256 = subtree ps n ?c mod 256"
    using Suc.IH [of ?c "pair_sum (ps ! ?c)"] idx bc Suc.prems(1) by auto
  have ex: "proc_exit ps n (int ?c) = Some v1"
    using rdc v1(1) bc by (simp add: pair_sum_def del: of_nat_add)
  have m: "0 \<le> v1 mod 256" "v1 mod 256 \<le> 255" using pos_mod_bound [of 256 v1] by simp_all
  obtain v where v: "proc_wait ps n (int idx) (s + v1 mod 256) = Some v" "s + v1 mod 256 \<le> v"
      "v \<le> s + v1 mod 256 + 255 * int n"
      "v mod 256 = (s + v1 mod 256 + subtree ps n idx - pair_sum (ps ! idx)) mod 256"
    using Suc.IH [of idx "s + v1 mod 256"] idx(3) m Suc.prems by auto
  have "c_int (s + v1 mod 256) = Some (s + v1 mod 256)" using m Suc.prems by simp
  then have "proc_wait ps (Suc n) (int idx) s = Some v"
    using ex v(1) by (simp del: proc_exit.simps)
  moreover have "v mod 256 = (s + subtree ps (Suc n) idx - pair_sum (ps ! idx)) mod 256"
  proof -
    have "v mod 256 = ((v1 mod 256) mod 256 + (s + subtree ps n idx - pair_sum (ps ! idx))) mod 256"
      using v(4) by (simp add: algebra_simps)
    also have "\<dots> = (subtree ps n ?c + (s + subtree ps n idx - pair_sum (ps ! idx))) mod 256"
      by (simp only: v1(2) mod_add_left_eq mod_mod_trivial)
    also have "\<dots> = (s + subtree ps (Suc n) idx - pair_sum (ps ! idx)) mod 256"
      using Suc.prems(1) by (simp add: subtree_Suc algebra_simps)
    finally show ?thesis .
  qed
  ultimately show ?case using v(2,3) m by auto
qed

lemma subtree_all: "length ps = 64 \<Longrightarrow> subtree ps 6 0 = sum_list (map pair_sum ps)"
  by (simp add: subtree_def sum_list_sum_nth atLeast0LessThan)

lemma proc_exit_root:
  assumes "pipes_ok ps"
  shows "\<exists>v. proc_exit ps 6 0 = Some v \<and> v mod 256 = sum_list (map pair_sum ps) mod 256"
proof -
  have len: "length ps = 64" using assms by (simp add: pipes_ok_def)
  have b: "INT_MIN \<le> pair_sum (ps ! 0)" "pair_sum (ps ! 0) + 255 * 6 \<le> INT_MAX"
    using assms len by (simp_all add: pipes_ok_def)
  obtain v where "proc_wait ps 6 0 (pair_sum (ps ! 0)) = Some v" "v mod 256 = subtree ps 6 0 mod 256"
    using proc_wait_eq [OF assms, of 6 0 "pair_sum (ps ! 0)"] b by auto
  moreover have "rd ps 0 = Some (ps ! 0)" using len by (simp add: rd_def)
  ultimately show ?thesis using b subtree_all [OF len] by (simp add: pair_sum_def)
qed

section \<open>Properties\<close>

text \<open>The file of the number generator.\<close>

definition numgen_pairs :: "(int \<times> int) list" where
  "numgen_pairs = map (\<lambda>i. (2 * i + 1, 2 * i + 2)) [0..63]"

lemma numgen_main_eq: "numgen_main = Some (pair_lines numgen_pairs)"
proof -
  let ?body = "\<lambda>i f_write. do { n \<leftarrow> c_int (i + 1); Some (f_write @ print_int n @ ''\<newline>'') }"
  have "\<exists>t. for_range 0 (MAX_PROCESSES * 2) ?body [] = Some t \<and> t = num_lines [1..MAX_PROCESSES * 2]"
  proof (rule for_range_inv [where I = "\<lambda>i t. t = num_lines [1..i]"])
    fix j s assume j: "0 \<le> j" "j < MAX_PROCESSES * 2" and "s = num_lines [1..j]"
    moreover have "[1..j + 1] = [1..j] @ [j + 1]" using j(1) by (simp add: upto_rec2)
    ultimately show "\<exists>s'. ?body j s = Some s' \<and> s' = num_lines [1..j + 1]"
      by (simp add: num_lines_def MAX_PROCESSES_def INT_MIN_def INT_MAX_def)
  qed (simp_all add: num_lines_def MAX_PROCESSES_def)
  moreover have "[1..128] = concat (map (\<lambda>p. [fst p, snd p]) numgen_pairs)"
    by (simp add: numgen_pairs_def upto.simps)
  ultimately show ?thesis by (simp add: numgen_main_def pair_lines_def MAX_PROCESSES_def)
qed

lemma numgen_input: "input_ok numgen_pairs" "pipes_ok numgen_pairs" "sum_list (map pair_sum numgen_pairs) = 8256"
  by (simp_all add: numgen_pairs_def input_ok_def pipes_ok_def pair_abs_def pair_sum_def INT_MAX_def INT_MIN_def upto.simps)

text \<open>
  C31. What the tree of threads prints depends on the size of a pointer. For every file of 64
  pairs whose absolute values sum to at most \<open>INT_MAX\<close>: where a pointer has at most the four bytes
  of an \<open>int\<close>, the program joins every thread it needs, does not overflow, and prints the sum of
  the 128 numbers. Where it has more, as on 64-bit machines, the run always writes past the
  end of an object: joining the second child of the first node stores a pointer into the
  last four bytes of an allocation.
\<close>

theorem thread_main_sum:
  assumes "input_ok ps"
  shows "thread_main psize (pair_lines ps) = (if psize \<le> 4 then Some (sum_list (map pair_sum ps)) else None)"
  using thread_main_eq [OF assms] thread_main_overflow [OF assms] by simp

theorem thread_main_sum_witness:
  "numgen_main = Some (pair_lines numgen_pairs) \<and> thread_main 4 (pair_lines numgen_pairs) = Some 8256 \<and>
    thread_main 8 (pair_lines numgen_pairs) = None"
  using thread_main_sum [OF numgen_input(1), of 4] thread_main_sum [OF numgen_input(1), of 8] numgen_main_eq numgen_input(3) by simp

text \<open>
  C32. The tree of processes prints the sum modulo 256: for every file of 64 pairs whose sums
  leave room for six exit statuses below \<open>INT_MAX\<close>, every process ends and the program prints
  the sum of the 128 numbers modulo 256, which for the file of the number generator is 64
  and not 8256.
\<close>

theorem fork_main_sum:
  assumes "input_ok ps" "pipes_ok ps"
  shows "fork_main (pair_lines ps) = Some (sum_list (map pair_sum ps) mod 256)"
  using fill_pipes_eq [OF assms(1)] proc_exit_root [OF assms(2)]
  by (auto simp: fork_main_def simp del: proc_exit.simps)

theorem fork_main_sum_witness:
  "numgen_main = Some (pair_lines numgen_pairs) \<and> fork_main (pair_lines numgen_pairs) = Some 64"
  using fork_main_sum [OF numgen_input(1,2)] numgen_main_eq numgen_input(3) by simp

end
