(* ===== verification/Fork_Base.thy ===== *)
theory Fork_Base
  imports Sched_H
begin

text \<open>
  The kernel state that \<open>Assignment3-1/fork.c\<close> works on. A word of clone flags is the set of
  its \<open>CLONE_\<close> bits, with \<open>CSIGNAL_BITS\<close> when a bit of the signal byte is set and
  \<open>UNKNOWN_FLAG\<close> when one of the upper 32 bits is. Tasks, file system structures, descriptor tables, signal handler
  tables, signal structures and memory descriptors live in heaps, the shared ones with
  their reference counts. Resources that belong to code outside this file are named in
  \<open>held\<close>, a stack: releasing one that is not on top is a fault (\<open>None\<close>), so a run that
  returns has released in the reverse order and nothing twice. Locks are resources.
\<close>

datatype clone_flag = CLONE_VM | CLONE_FS | CLONE_FILES | CLONE_SIGHAND | CLONE_PIDFD | CLONE_PTRACE
  | CLONE_VFORK | CLONE_PARENT | CLONE_THREAD | CLONE_NEWNS | CLONE_SYSVSEM | CLONE_SETTLS
  | CLONE_PARENT_SETTID | CLONE_CHILD_CLEARTID | CLONE_DETACHED | CLONE_UNTRACED | CLONE_CHILD_SETTID
  | CLONE_NEWCGROUP | CLONE_NEWUTS | CLONE_NEWIPC | CLONE_NEWUSER | CLONE_NEWPID | CLONE_NEWNET | CLONE_IO
  | CSIGNAL_BITS | UNKNOWN_FLAG

datatype errno = EINVAL | EACCES | ENOMEM | EAGAIN | EINTR | ERESTARTNOINTR | E2BIG | EBADF | OTHER_ERR int

datatype resource = Stack | Creds | Delayacct | Mempolicy | Perf | Audit | Security | Semundo | Namespaces
  | Io | Thread | Pid | Unused_fd | Pidfile | Threadgroup_change | Cgroup | Tasklist_lock | Siglock

record fs_struct =
  users :: int
  in_exec :: bool

record signal_struct =
  unkillable :: bool
  sig_nr_threads :: int
  sig_live :: int
  sigcnt :: int
  multiprocess :: nat
  has_child_subreaper :: bool
  is_child_subreaper :: bool
  oom_score_adj :: int
  oom_score_adj_min :: int

record kst =
  tasks :: task_heap
  fs_tab :: "nat \<Rightarrow> fs_struct option"
  files_tab :: "nat \<Rightarrow> int option"
  sighand_tab :: "nat \<Rightarrow> int option"
  signal_tab :: "nat \<Rightarrow> signal_struct option"
  mm_tab :: "nat \<Rightarrow> int option"
  nr_threads :: int
  max_threads :: int
  total_forks :: int
  process_counts :: int
  user_processes :: int
  task_list :: "task_ptr list"
  held :: "resource list"

section \<open>Primitive steps\<close>

definition acquire :: "resource \<Rightarrow> kst \<Rightarrow> kst" where
  "acquire r s = s\<lparr>held := r # held s\<rparr>"

definition release :: "resource \<Rightarrow> kst \<Rightarrow> kst option" where
  "release r s = (case held s of [] \<Rightarrow> None | q # qs \<Rightarrow> if q = r then Some (s\<lparr>held := qs\<rparr>) else None)"

definition upd_task :: "task_ptr \<Rightarrow> (task_struct \<Rightarrow> task_struct) \<Rightarrow> kst \<Rightarrow> kst" where
  "upd_task p f s = s\<lparr>tasks := (tasks s)(p := map_option f (tasks s p))\<rparr>"

text \<open>\<open>atomic_inc\<close>, and \<open>atomic_dec_and_test\<close> with the release of the object at zero.\<close>

definition get_ref :: "(nat \<Rightarrow> int option) \<Rightarrow> nat \<Rightarrow> (nat \<Rightarrow> int option) option" where
  "get_ref tab a = (case tab a of None \<Rightarrow> None | Some n \<Rightarrow> Some (tab(a \<mapsto> n + 1)))"

definition put_ref :: "(nat \<Rightarrow> int option) \<Rightarrow> nat \<Rightarrow> (nat \<Rightarrow> int option) option" where
  "put_ref tab a = (case tab a of None \<Rightarrow> None
     | Some n \<Rightarrow> if n \<le> 0 then None else Some (if n = 1 then tab(a := None) else tab(a \<mapsto> n - 1)))"

text \<open>A step that may fail with an error code, with the state after it in both cases.\<close>

type_synonym step = "kst \<Rightarrow> (errno option \<times> kst) option"

text \<open>A call to code outside this file that takes a resource unless it fails.\<close>

definition ext_step :: "errno option \<Rightarrow> resource \<Rightarrow> step" where
  "ext_step e r s = Some (case e of None \<Rightarrow> (None, acquire r s) | Some er \<Rightarrow> (Some er, s))"

text \<open>The arguments of a clone: user addresses are optional, NULL is \<open>None\<close>.\<close>

record kernel_clone_args =
  args_flags :: "clone_flag set"
  args_pidfd :: "nat option"
  args_child_tid :: "nat option"
  args_parent_tid :: "nat option"
  args_exit_signal :: int
  args_stack :: nat
  args_stack_size :: nat
  args_tls :: nat

section \<open>The outcomes of other code\<close>

text \<open>
  What the code outside this file answers during one call: addresses that allocators return
  (\<open>None\<close> for NULL), error codes (\<open>None\<close> for success), tests, and the two releasing calls
  that change state modelled here. \<open>ptrace_init_task\<close> gives the fields \<open>ptrace\<close> and \<open>parent\<close> that the
  function of that name, told by the flags and the argument \<open>trace\<close> of this call whether the
  child is traced, sets in the child.
\<close>

record fork_env =
  signal_pending :: bool
  new_task :: "task_ptr option"
  new_stack :: "nat option"
  memcg_charge_err :: "errno option"
  arch_dup_err :: "errno option"
  over_nproc_limit :: bool
  nproc_privileged :: bool
  copy_creds_err :: "errno option"
  mpol_dup_err :: "errno option"
  sched_fork_err :: "errno option"
  perf_err :: "errno option"
  audit_err :: "errno option"
  security_err :: "errno option"
  semundo_err :: "errno option"
  dup_fd_result :: "nat + errno"
  new_fs :: "nat option"
  new_sighand :: "nat option"
  new_signal :: "nat option"
  new_mm :: "nat option"
  mm_init_ok :: bool
  dup_mmap_err :: "errno option"
  binfmt_get_ok :: bool
  namespaces_err :: "errno option"
  ioprio_valid :: bool
  new_io :: "nat option"
  thread_err :: "errno option"
  alloc_pid_result :: "(nat \<times> int) + errno"
  unused_fd_err :: "errno option"
  pidfile_err :: "errno option"
  put_user_err :: "errno option"
  cgroup_err :: "errno option"
  pidns_adding :: bool
  fatal_signal :: bool
  is_child_reaper :: bool
  other_pid_ns :: bool
  ptrace_init_task :: "task_struct \<Rightarrow> 32 word \<times> task_ptr"
  thread_group_leader :: "task_struct \<Rightarrow> bool"
  now :: nat
  exit_files :: "task_ptr \<Rightarrow> kst \<Rightarrow> kst option"
  exit_fs :: "task_ptr \<Rightarrow> kst \<Rightarrow> kst option"

end
