(* ===== verification/Copy_Process.thy ===== *)
theory Copy_Process
  imports Fork_Base
begin

text \<open>
  \<open>copy_process\<close> of \<open>Assignment3-1/fork.c\<close>: the checks of the clone flags, the steps that copy
  or share each part of the parent, the linking of the child, and the ladder of labels that
  undoes a failed call. A step is listed with the label its failure jumps to; a jump runs
  the actions of the ladder from that label down.
\<close>

section \<open>Flag checks\<close>

definition clone_flags_err :: "clone_flag set \<Rightarrow> bool \<Rightarrow> bool \<Rightarrow> errno option" where
  "clone_flags_err fl signal_unkillable other_ns =
    (if {CLONE_NEWNS, CLONE_FS} \<subseteq> fl then Some EINVAL
     else if {CLONE_NEWUSER, CLONE_FS} \<subseteq> fl then Some EINVAL
     else if CLONE_THREAD \<in> fl \<and> CLONE_SIGHAND \<notin> fl then Some EINVAL
     else if CLONE_SIGHAND \<in> fl \<and> CLONE_VM \<notin> fl then Some EINVAL
     else if CLONE_PARENT \<in> fl \<and> signal_unkillable then Some EINVAL
     else if CLONE_THREAD \<in> fl \<and> (CLONE_NEWUSER \<in> fl \<or> CLONE_NEWPID \<in> fl \<or> other_ns) then Some EINVAL
     else if CLONE_PIDFD \<in> fl \<and> (CLONE_DETACHED \<in> fl \<or> CLONE_THREAD \<in> fl) then Some EINVAL
     else None)"

section \<open>Copying the parts of the parent\<close>

definition dup_task_struct :: "fork_env \<Rightarrow> task_ptr \<Rightarrow> kst \<Rightarrow> (task_ptr option \<times> kst) option" where
  "dup_task_struct env orig s =
    (case new_task env of None \<Rightarrow> Some (None, s)
     | Some tsk \<Rightarrow> (case new_stack env of None \<Rightarrow> Some (None, s)
       | Some st \<Rightarrow> do {
           let s = acquire Stack s;
           if memcg_charge_err env \<noteq> None then do { s \<leftarrow> release Stack s; Some (None, s) }
           else do {
             src \<leftarrow> tasks s orig;
             let s = s\<lparr>tasks := (tasks s)(tsk \<mapsto> src\<lparr>stack := Some st\<rparr>)\<rparr>;
             if arch_dup_err env \<noteq> None then do {
               s \<leftarrow> release Stack s;
               Some (None, s\<lparr>tasks := (tasks s)(tsk := None)\<rparr>) }
             else Some (Some tsk, upd_task tsk (\<lambda>t. t\<lparr>usage := 1\<rparr>) s) } }))"

definition mmget :: "nat \<Rightarrow> kst \<Rightarrow> kst option" where
  "mmget a s = do { tab \<leftarrow> get_ref (mm_tab s) a; Some (s\<lparr>mm_tab := tab\<rparr>) }"

definition mmput :: "nat \<Rightarrow> kst \<Rightarrow> kst option" where
  "mmput a s = do { tab \<leftarrow> put_ref (mm_tab s) a; Some (s\<lparr>mm_tab := tab\<rparr>) }"

text \<open>\<open>dup_mm\<close>: \<open>mm_init\<close> sets the use count to 1 and frees the descriptor itself on failure.\<close>

definition dup_mm :: "fork_env \<Rightarrow> kst \<Rightarrow> (nat option \<times> kst) option" where
  "dup_mm env s =
    (case new_mm env of None \<Rightarrow> Some (None, s)
     | Some a \<Rightarrow>
         if \<not> mm_init_ok env then Some (None, s)
         else do {
           let s = s\<lparr>mm_tab := (mm_tab s)(a \<mapsto> 1)\<rparr>;
           if dup_mmap_err env \<noteq> None \<or> \<not> binfmt_get_ok env then do { s \<leftarrow> mmput a s; Some (None, s) }
           else Some (Some a, s) })"

definition copy_mm :: "fork_env \<Rightarrow> clone_flag set \<Rightarrow> task_ptr \<Rightarrow> task_ptr \<Rightarrow> step" where
  "copy_mm env fl current tsk s = do {
     let s = upd_task tsk (\<lambda>t. t\<lparr>min_flt := 0, maj_flt := 0, nvcsw := 0, nivcsw := 0, mm := None, active_mm := None\<rparr>) s;
     c \<leftarrow> tasks s current;
     case mm c of None \<Rightarrow> Some (None, s)
     | Some oldmm \<Rightarrow>
         if CLONE_VM \<in> fl then do {
           s \<leftarrow> mmget oldmm s;
           Some (None, upd_task tsk (\<lambda>t. t\<lparr>mm := Some oldmm, active_mm := Some oldmm\<rparr>) s) }
         else do {
           (r, s) \<leftarrow> dup_mm env s;
           Some (case r of None \<Rightarrow> (Some ENOMEM, s)
             | Some a \<Rightarrow> (None, upd_task tsk (\<lambda>t. t\<lparr>mm := Some a, active_mm := Some a\<rparr>) s)) } }"

definition copy_fs :: "fork_env \<Rightarrow> clone_flag set \<Rightarrow> task_ptr \<Rightarrow> task_ptr \<Rightarrow> step" where
  "copy_fs env fl current tsk s = do {
     c \<leftarrow> tasks s current;
     if CLONE_FS \<in> fl then do {
       a \<leftarrow> fs c;
       f \<leftarrow> fs_tab s a;
       if in_exec f then Some (Some EAGAIN, s)
       else Some (None, s\<lparr>fs_tab := (fs_tab s)(a \<mapsto> f\<lparr>users := users f + 1\<rparr>)\<rparr>) }
     else
       let s = upd_task tsk (\<lambda>t. t\<lparr>fs := new_fs env\<rparr>) s in
       Some (case new_fs env of None \<Rightarrow> (Some ENOMEM, s)
         | Some a \<Rightarrow> (None, s\<lparr>fs_tab := (fs_tab s)(a \<mapsto> \<lparr>users = 1, in_exec = False\<rparr>)\<rparr>)) }"

definition copy_files :: "fork_env \<Rightarrow> clone_flag set \<Rightarrow> task_ptr \<Rightarrow> task_ptr \<Rightarrow> step" where
  "copy_files env fl current tsk s = do {
     c \<leftarrow> tasks s current;
     case files c of None \<Rightarrow> Some (None, s)
     | Some oldf \<Rightarrow>
         if CLONE_FILES \<in> fl then do {
           tab \<leftarrow> get_ref (files_tab s) oldf;
           Some (None, s\<lparr>files_tab := tab\<rparr>) }
         else Some (case dup_fd_result env of Inr err \<Rightarrow> (Some err, s)
           | Inl newf \<Rightarrow> (None, upd_task tsk (\<lambda>t. t\<lparr>files := Some newf\<rparr>) (s\<lparr>files_tab := (files_tab s)(newf \<mapsto> 1)\<rparr>))) }"

definition copy_io :: "fork_env \<Rightarrow> clone_flag set \<Rightarrow> task_ptr \<Rightarrow> task_ptr \<Rightarrow> step" where
  "copy_io env fl current tsk s = do {
     c \<leftarrow> tasks s current;
     case io_context c of None \<Rightarrow> Some (None, s)
     | Some ioc \<Rightarrow>
         if CLONE_IO \<in> fl then Some (None, upd_task tsk (\<lambda>t. t\<lparr>io_context := Some ioc\<rparr>) (acquire Io s))
         else if ioprio_valid env then Some (case new_io env of None \<Rightarrow> (Some ENOMEM, s)
           | Some a \<Rightarrow> (None, upd_task tsk (\<lambda>t. t\<lparr>io_context := Some a\<rparr>) (acquire Io s)))
         else Some (None, s) }"

definition copy_sighand :: "fork_env \<Rightarrow> clone_flag set \<Rightarrow> task_ptr \<Rightarrow> task_ptr \<Rightarrow> step" where
  "copy_sighand env fl current tsk s =
    (if CLONE_SIGHAND \<in> fl then do {
       c \<leftarrow> tasks s current;
       a \<leftarrow> sighand c;
       tab \<leftarrow> get_ref (sighand_tab s) a;
       Some (None, s\<lparr>sighand_tab := tab\<rparr>) }
     else
       let s = upd_task tsk (\<lambda>t. t\<lparr>sighand := new_sighand env\<rparr>) s in
       Some (case new_sighand env of None \<Rightarrow> (Some ENOMEM, s)
         | Some a \<Rightarrow> (None, s\<lparr>sighand_tab := (sighand_tab s)(a \<mapsto> 1)\<rparr>)))"

definition cleanup_sighand :: "nat \<Rightarrow> kst \<Rightarrow> kst option" where
  "cleanup_sighand a s = do { tab \<leftarrow> put_ref (sighand_tab s) a; Some (s\<lparr>sighand_tab := tab\<rparr>) }"

definition copy_signal :: "fork_env \<Rightarrow> clone_flag set \<Rightarrow> task_ptr \<Rightarrow> task_ptr \<Rightarrow> step" where
  "copy_signal env fl current tsk s =
    (if CLONE_THREAD \<in> fl then Some (None, s)
     else do {
       c \<leftarrow> tasks s current;
       a \<leftarrow> signal c;
       old \<leftarrow> signal_tab s a;
       let s = upd_task tsk (\<lambda>t. t\<lparr>signal := new_signal env\<rparr>) s;
       Some (case new_signal env of None \<Rightarrow> (Some ENOMEM, s)
         | Some sig \<Rightarrow> (None, s\<lparr>signal_tab := (signal_tab s)(sig \<mapsto>
             \<lparr>unkillable = False, sig_nr_threads = 1, sig_live = 1, sigcnt = 1, multiprocess = 0,
              has_child_subreaper = False, is_child_subreaper = False,
              oom_score_adj = oom_score_adj old, oom_score_adj_min = oom_score_adj_min old\<rparr>)\<rparr>)) })"

definition free_signal_struct :: "nat \<Rightarrow> kst \<Rightarrow> kst option" where
  "free_signal_struct a s =
    (case signal_tab s a of None \<Rightarrow> None | Some _ \<Rightarrow> Some (s\<lparr>signal_tab := (signal_tab s)(a := None)\<rparr>))"

definition copy_oom_score_adj :: "clone_flag set \<Rightarrow> task_ptr \<Rightarrow> task_ptr \<Rightarrow> kst \<Rightarrow> kst option" where
  "copy_oom_score_adj fl current tsk s = do {
     t \<leftarrow> tasks s tsk;
     if mm t = None then Some s
     else if fl \<inter> {CLONE_VM, CLONE_THREAD, CLONE_VFORK} \<noteq> {CLONE_VM} then Some s
     else do {
       c \<leftarrow> tasks s current;
       a \<leftarrow> signal t; sig \<leftarrow> signal_tab s a;
       b \<leftarrow> signal c; old \<leftarrow> signal_tab s b;
       Some (s\<lparr>signal_tab := (signal_tab s)(a \<mapsto> sig\<lparr>oom_score_adj := oom_score_adj old,
                oom_score_adj_min := oom_score_adj_min old\<rparr>)\<rparr>) } }"

section \<open>The steps\<close>

text \<open>
  The new signals are collected on the list \<open>multiprocess\<close> of the current signal structure
  for as long as the call runs, unless a thread is made.
\<close>

definition add_delayed :: "clone_flag set \<Rightarrow> int \<Rightarrow> task_ptr \<Rightarrow> kst \<Rightarrow> kst option" where
  "add_delayed fl n current s =
    (if CLONE_THREAD \<in> fl then Some s
     else do {
       c \<leftarrow> tasks s current;
       a \<leftarrow> signal c;
       sig \<leftarrow> signal_tab s a;
       let m = int (multiprocess sig) + n;
       if m < 0 then None
       else Some (s\<lparr>signal_tab := (signal_tab s)(a \<mapsto> sig\<lparr>multiprocess := nat m\<rparr>)\<rparr>) })"

definition collect_signals :: "clone_flag set \<Rightarrow> task_ptr \<Rightarrow> step" where
  "collect_signals fl current s = do { s \<leftarrow> add_delayed fl 1 current s; Some (None, s) }"

definition check_pending :: "fork_env \<Rightarrow> step" where
  "check_pending env s = Some (if signal_pending env then Some ERESTARTNOINTR else None, s)"

definition dup_step :: "fork_env \<Rightarrow> kernel_clone_args \<Rightarrow> task_ptr \<Rightarrow> step" where
  "dup_step env args current s = do {
     (r, s) \<leftarrow> dup_task_struct env current s;
     Some (case r of None \<Rightarrow> (Some ENOMEM, s)
       | Some p \<Rightarrow> (None, upd_task p (\<lambda>t. t\<lparr>
           set_child_tid := (if CLONE_CHILD_SETTID \<in> args_flags args then args_child_tid args else None),
           clear_child_tid := (if CLONE_CHILD_CLEARTID \<in> args_flags args then args_child_tid args else None)\<rparr>) s)) }"

definition nproc_step :: "fork_env \<Rightarrow> step" where
  "nproc_step env s = Some (if over_nproc_limit env \<and> \<not> nproc_privileged env then Some EAGAIN else None, s)"

definition creds_step :: "fork_env \<Rightarrow> task_ptr \<Rightarrow> step" where
  "creds_step env current s =
    (let s = upd_task current (\<lambda>t. t\<lparr>flags := flags t AND NOT PF_NPROC_EXCEEDED\<rparr>) s in
     Some (case copy_creds_err env of Some e \<Rightarrow> (Some e, s)
       | None \<Rightarrow> (None, acquire Creds (s\<lparr>user_processes := user_processes s + 1\<rparr>))))"

definition limit_step :: step where
  "limit_step s = Some (if max_threads s \<le> nr_threads s then Some EAGAIN else None, s)"

definition reset_step :: "task_ptr \<Rightarrow> step" where
  "reset_step p s = Some (None, upd_task p (\<lambda>t. t\<lparr>
     flags := (flags t AND NOT (PF_SUPERPRIV OR PF_WQ_WORKER OR PF_IDLE)) OR PF_FORKNOEXEC,
     children := [], vfork_done := None, utime := 0, stime := 0, gtime := 0, io_context := None\<rparr>)
     (acquire Delayacct s))"

text \<open>\<open>idle\<close> says that the caller passed \<open>init_struct_pid\<close>; no pid is then allocated.\<close>

definition pid_step :: "fork_env \<Rightarrow> bool \<Rightarrow> step" where
  "pid_step env idle s =
    (if idle then Some (None, s)
     else Some (case alloc_pid_result env of Inr e \<Rightarrow> (Some e, s) | Inl _ \<Rightarrow> (None, acquire Pid s)))"

definition pidfd_step :: "fork_env \<Rightarrow> clone_flag set \<Rightarrow> step" where
  "pidfd_step env fl s =
    (if CLONE_PIDFD \<notin> fl then Some (None, s)
     else case unused_fd_err env of Some e \<Rightarrow> Some (Some e, s)
       | None \<Rightarrow> (let s = acquire Unused_fd s in
           case pidfile_err env of Some e \<Rightarrow> do { s \<leftarrow> release Unused_fd s; Some (Some e, s) }
           | None \<Rightarrow> Some (None, acquire Pidfile s)))"

definition put_pidfd_step :: "fork_env \<Rightarrow> clone_flag set \<Rightarrow> step" where
  "put_pidfd_step env fl s = Some (if CLONE_PIDFD \<in> fl then put_user_err env else None, s)"

definition pid_of :: "fork_env \<Rightarrow> bool \<Rightarrow> nat \<times> int" where
  "pid_of env idle = (if idle then (0, 0) else case alloc_pid_result env of Inl x \<Rightarrow> x | Inr _ \<Rightarrow> (0, 0))"

definition ids_step :: "fork_env \<Rightarrow> clone_flag set \<Rightarrow> bool \<Rightarrow> task_ptr \<Rightarrow> task_ptr \<Rightarrow> step" where
  "ids_step env fl idle current p s = do {
     c \<leftarrow> tasks s current;
     let n = snd (pid_of env idle);
     let s = upd_task p (\<lambda>t. t\<lparr>pid := n,
       group_leader := (if CLONE_THREAD \<in> fl then group_leader c else p),
       tgid := (if CLONE_THREAD \<in> fl then tgid c else n),
       pdeath_signal := 0, thread_group := []\<rparr>) s;
     Some (None, acquire Threadgroup_change s) }"

text \<open>
  Under the task list lock and the lock of the signal handlers the child gets its parent;
  then the last two checks are made.
\<close>

definition parent_step :: "fork_env \<Rightarrow> kernel_clone_args \<Rightarrow> task_ptr \<Rightarrow> task_ptr \<Rightarrow> step" where
  "parent_step env args current p s = do {
     c \<leftarrow> tasks s current;
     leader \<leftarrow> tasks s (group_leader c);
     let fl = args_flags args;
     let s = acquire Tasklist_lock (upd_task p (\<lambda>t. t\<lparr>start_time := now env, real_start_time := now env\<rparr>) s);
     let s = upd_task p (\<lambda>t.
       if CLONE_PARENT \<in> fl \<or> CLONE_THREAD \<in> fl
       then t\<lparr>real_parent := real_parent c, parent_exec_id := parent_exec_id c,
              exit_signal := (if CLONE_THREAD \<in> fl then -1 else exit_signal leader)\<rparr>
       else t\<lparr>real_parent := current, parent_exec_id := self_exec_id c, exit_signal := args_exit_signal args\<rparr>) s;
     let s = acquire Siglock s;
     Some (None, upd_task p (rseq_fork c (CLONE_VM \<in> fl)) s) }"

definition alive_step :: "fork_env \<Rightarrow> step" where
  "alive_step env s =
     Some (if \<not> pidns_adding env then Some ENOMEM else if fatal_signal env then Some EINTR else None, s)"

section \<open>Linking the child\<close>

text \<open>
  Lists are those of the tasks, of the children of a parent and of the threads of a leader;
  the list \<open>thread_head\<close> of the signal structure, which has the same threads, the tables of
  \<open>attach_pid\<close> and the terminal are not modelled.
\<close>

definition upd_signal :: "task_ptr \<Rightarrow> (signal_struct \<Rightarrow> signal_struct) \<Rightarrow> kst \<Rightarrow> kst option" where
  "upd_signal p f s = do {
     t \<leftarrow> tasks s p;
     a \<leftarrow> signal t;
     sig \<leftarrow> signal_tab s a;
     Some (s\<lparr>signal_tab := (signal_tab s)(a \<mapsto> f sig)\<rparr>) }"

definition link_leader :: "fork_env \<Rightarrow> task_ptr \<Rightarrow> kst \<Rightarrow> kst option" where
  "link_leader env p s = do {
     t \<leftarrow> tasks s p;
     par \<leftarrow> tasks s (real_parent t);
     a \<leftarrow> signal par;
     psig \<leftarrow> signal_tab s a;
     s \<leftarrow> upd_signal p (\<lambda>sig. sig\<lparr>unkillable := unkillable sig \<or> is_child_reaper env,
            has_child_subreaper := has_child_subreaper psig \<or> is_child_subreaper psig\<rparr>) s;
     let s = upd_task (real_parent t) (\<lambda>q. q\<lparr>children := children q @ [p]\<rparr>) s;
     Some (s\<lparr>task_list := task_list s @ [p], process_counts := process_counts s + 1\<rparr>) }"

definition link_thread :: "task_ptr \<Rightarrow> task_ptr \<Rightarrow> kst \<Rightarrow> kst option" where
  "link_thread current p s = do {
     s \<leftarrow> upd_signal current (\<lambda>sig. sig\<lparr>sig_nr_threads := sig_nr_threads sig + 1,
            sig_live := sig_live sig + 1, sigcnt := sigcnt sig + 1\<rparr>) s;
     t \<leftarrow> tasks s p;
     Some (upd_task (group_leader t) (\<lambda>q. q\<lparr>thread_group := thread_group q @ [p]\<rparr>) s) }"

definition link_task :: "fork_env \<Rightarrow> bool \<Rightarrow> task_ptr \<Rightarrow> task_ptr \<Rightarrow> kst \<Rightarrow> kst option" where
  "link_task env idle current p s = do {
     t \<leftarrow> tasks s p;
     if pid t = 0 then Some s
     else do {
       let s = upd_task p (\<lambda>t. t\<lparr>ptrace := fst (ptrace_init_task env t), parent := snd (ptrace_init_task env t)\<rparr>) s;
       let s = upd_task p (\<lambda>t. t\<lparr>thread_pid := Some (fst (pid_of env idle))\<rparr>) s;
       s \<leftarrow> (if thread_group_leader env t then link_leader env p s else link_thread current p s);
       Some (s\<lparr>nr_threads := nr_threads s + 1\<rparr>) } }"

definition publish :: "fork_env \<Rightarrow> kernel_clone_args \<Rightarrow> bool \<Rightarrow> task_ptr \<Rightarrow> task_ptr \<Rightarrow> kst \<Rightarrow> kst option" where
  "publish env args idle current p s = do {
     s \<leftarrow> link_task env idle current p s;
     let s = s\<lparr>total_forks := total_forks s + 1\<rparr>;
     s \<leftarrow> add_delayed (args_flags args) (-1) current s;
     s \<leftarrow> release Siglock s;
     s \<leftarrow> release Tasklist_lock s;
     s \<leftarrow> release Cgroup s;
     s \<leftarrow> release Threadgroup_change s;
     copy_oom_score_adj (args_flags args) current p s }"

section \<open>Undoing a failed call\<close>

datatype label = Cancel_cgroup | Threadgroup_change_end | Put_pidfd | Free_pid | Cleanup_thread | Cleanup_io
  | Cleanup_namespaces | Cleanup_mm | Cleanup_signal | Cleanup_sighand | Cleanup_fs | Cleanup_files
  | Cleanup_semundo | Cleanup_security | Cleanup_audit | Cleanup_perf | Cleanup_policy
  | Cleanup_threadgroup_lock | Cleanup_count | Free | Fork_out

definition put_task_stack :: "task_ptr \<Rightarrow> kst \<Rightarrow> kst option" where
  "put_task_stack p s = do {
     t \<leftarrow> tasks s p;
     if state t \<noteq> TASK_DEAD then Some s
     else do { s \<leftarrow> release Stack s; Some (upd_task p (\<lambda>t. t\<lparr>stack := None\<rparr>) s) } }"

text \<open>
  Of \<open>free_task\<close> what is modelled is that the structure is gone. The calls before it give back what
  other parts of the kernel keep for the task and no state here has: the seccomp filter, the
  data of a kernel thread (\<open>free_kthread_struct\<close>, when \<open>PF_KTHREAD\<close> is set), and hooks of tracers and
  of the architecture.
\<close>

definition free_task :: "task_ptr \<Rightarrow> kst \<Rightarrow> kst option" where
  "free_task p s = (case tasks s p of None \<Rightarrow> None | Some _ \<Rightarrow> Some (s\<lparr>tasks := (tasks s)(p := None)\<rparr>))"

text \<open>The actions between two labels, where they are more than one call.\<close>

definition bad_fork_cancel_cgroup :: "kst \<Rightarrow> kst option" where
  "bad_fork_cancel_cgroup s = do { s \<leftarrow> release Siglock s; s \<leftarrow> release Tasklist_lock s; release Cgroup s }"

definition bad_fork_put_pidfd :: "clone_flag set \<Rightarrow> kst \<Rightarrow> kst option" where
  "bad_fork_put_pidfd fl s = (if CLONE_PIDFD \<in> fl then do { s \<leftarrow> release Pidfile s; release Unused_fd s } else Some s)"

definition bad_fork_free_pid :: "bool \<Rightarrow> kst \<Rightarrow> kst option" where
  "bad_fork_free_pid idle s = (if idle then Some s else release Pid s)"

definition bad_fork_cleanup_io :: "task_ptr \<Rightarrow> kst \<Rightarrow> kst option" where
  "bad_fork_cleanup_io p s = do { t \<leftarrow> tasks s p; if io_context t \<noteq> None then release Io s else Some s }"

definition bad_fork_cleanup_mm :: "task_ptr \<Rightarrow> kst \<Rightarrow> kst option" where
  "bad_fork_cleanup_mm p s = do { t \<leftarrow> tasks s p; case mm t of None \<Rightarrow> Some s | Some a \<Rightarrow> mmput a s }"

definition bad_fork_cleanup_signal :: "clone_flag set \<Rightarrow> task_ptr \<Rightarrow> kst \<Rightarrow> kst option" where
  "bad_fork_cleanup_signal fl p s =
    (if CLONE_THREAD \<in> fl then Some s else do { t \<leftarrow> tasks s p; a \<leftarrow> signal t; free_signal_struct a s })"

definition bad_fork_cleanup_sighand :: "task_ptr \<Rightarrow> kst \<Rightarrow> kst option" where
  "bad_fork_cleanup_sighand p s = do { t \<leftarrow> tasks s p; a \<leftarrow> sighand t; cleanup_sighand a s }"

definition bad_fork_cleanup_count :: "kst \<Rightarrow> kst option" where
  "bad_fork_cleanup_count s = release Creds (s\<lparr>user_processes := user_processes s - 1\<rparr>)"

definition bad_fork_free :: "task_ptr \<Rightarrow> kst \<Rightarrow> kst option" where
  "bad_fork_free p s = do {
     let s = upd_task p (\<lambda>t. t\<lparr>state := TASK_DEAD\<rparr>) s;
     s \<leftarrow> put_task_stack p s;
     free_task p s }"

definition ladder ::
  "fork_env \<Rightarrow> clone_flag set \<Rightarrow> bool \<Rightarrow> task_ptr \<Rightarrow> task_ptr \<Rightarrow> (label \<times> (kst \<Rightarrow> kst option)) list" where
  "ladder env fl idle current p =
   [(Cancel_cgroup, bad_fork_cancel_cgroup),
    (Threadgroup_change_end, release Threadgroup_change),
    (Put_pidfd, bad_fork_put_pidfd fl),
    (Free_pid, bad_fork_free_pid idle),
    (Cleanup_thread, release Thread),
    (Cleanup_io, bad_fork_cleanup_io p),
    (Cleanup_namespaces, release Namespaces),
    (Cleanup_mm, bad_fork_cleanup_mm p),
    (Cleanup_signal, bad_fork_cleanup_signal fl p),
    (Cleanup_sighand, bad_fork_cleanup_sighand p),
    (Cleanup_fs, exit_fs env p),
    (Cleanup_files, exit_files env p),
    (Cleanup_semundo, release Semundo),
    (Cleanup_security, release Security),
    (Cleanup_audit, release Audit),
    (Cleanup_perf, release Perf),
    (Cleanup_policy, release Mempolicy),
    (Cleanup_threadgroup_lock, release Delayacct),
    (Cleanup_count, bad_fork_cleanup_count),
    (Free, bad_fork_free p),
    (Fork_out, add_delayed fl (-1) current)]"

fun unwind :: "(label \<times> (kst \<Rightarrow> kst option)) list \<Rightarrow> kst \<Rightarrow> kst option" where
  "unwind [] s = Some s"
| "unwind ((l, u) # us) s = do { s \<leftarrow> u s; unwind us s }"

definition goto_label :: "label \<Rightarrow> (label \<times> (kst \<Rightarrow> kst option)) list \<Rightarrow> kst \<Rightarrow> kst option" where
  "goto_label l us s = unwind (dropWhile (\<lambda>u. fst u \<noteq> l) us) s"

section \<open>The whole call\<close>

definition fork_steps ::
  "fork_env \<Rightarrow> kernel_clone_args \<Rightarrow> bool \<Rightarrow> task_ptr \<Rightarrow> task_ptr \<Rightarrow> (label option \<times> step) list" where
  "fork_steps env args idle current p = (let fl = args_flags args in
   [(None, collect_signals fl current),
    (Some Fork_out, check_pending env),
    (Some Fork_out, dup_step env args current),
    (Some Free, nproc_step env),
    (Some Free, creds_step env current),
    (Some Cleanup_count, limit_step),
    (None, reset_step p),
    (Some Cleanup_threadgroup_lock, ext_step (mpol_dup_err env) Mempolicy),
    (Some Cleanup_policy, \<lambda>s. Some (sched_fork_err env, s)),
    (Some Cleanup_policy, ext_step (perf_err env) Perf),
    (Some Cleanup_perf, ext_step (audit_err env) Audit),
    (Some Cleanup_audit, ext_step (security_err env) Security),
    (Some Cleanup_security, ext_step (semundo_err env) Semundo),
    (Some Cleanup_semundo, copy_files env fl current p),
    (Some Cleanup_files, copy_fs env fl current p),
    (Some Cleanup_fs, copy_sighand env fl current p),
    (Some Cleanup_sighand, copy_signal env fl current p),
    (Some Cleanup_signal, copy_mm env fl current p),
    (Some Cleanup_mm, ext_step (namespaces_err env) Namespaces),
    (Some Cleanup_namespaces, copy_io env fl current p),
    (Some Cleanup_io, ext_step (thread_err env) Thread),
    (Some Cleanup_thread, pid_step env idle),
    (Some Free_pid, pidfd_step env fl),
    (Some Put_pidfd, put_pidfd_step env fl),
    (None, ids_step env fl idle current p),
    (Some Threadgroup_change_end, ext_step (cgroup_err env) Cgroup),
    (None, parent_step env args current p),
    (Some Cancel_cgroup, alive_step env)])"

text \<open>A step that cannot fail has no label.\<close>

fun run_steps :: "(label option \<times> step) list \<Rightarrow> kst \<Rightarrow> (kst + label \<times> errno \<times> kst) option" where
  "run_steps [] s = Some (Inl s)"
| "run_steps ((l, f) # rest) s = do {
     (e, s) \<leftarrow> f s;
     case e of None \<Rightarrow> run_steps rest s
     | Some er \<Rightarrow> do { l \<leftarrow> l; Some (Inr (l, er, s)) } }"

definition copy_process ::
  "fork_env \<Rightarrow> bool \<Rightarrow> kernel_clone_args \<Rightarrow> task_ptr \<Rightarrow> kst \<Rightarrow> ((task_ptr + errno) \<times> kst) option" where
  "copy_process env idle args current s = do {
     c \<leftarrow> tasks s current;
     a \<leftarrow> signal c;
     sig \<leftarrow> signal_tab s a;
     case clone_flags_err (args_flags args) (unkillable sig) (other_pid_ns env) of
       Some e \<Rightarrow> Some (Inr e, s)
     | None \<Rightarrow> do {
         let p = (case new_task env of None \<Rightarrow> 0 | Some p \<Rightarrow> p);
         r \<leftarrow> run_steps (fork_steps env args idle current p) s;
         case r of
           Inl s \<Rightarrow> do { s \<leftarrow> publish env args idle current p s; Some (Inl p, s) }
         | Inr (l, er, s) \<Rightarrow> do {
             s \<leftarrow> goto_label l (ladder env (args_flags args) idle current p) s;
             Some (Inr er, s) } } }"

section \<open>A concrete kernel\<close>

text \<open>
  A small state on which the theorems are evaluated: the task 1 is \<open>init\<close>, the task 2 its child
  with one of each shared object, and the other code answers success. The two releasing calls
  drop one reference.
\<close>

definition drop_files :: "task_ptr \<Rightarrow> kst \<Rightarrow> kst option" where
  "drop_files p s = (case tasks s p of None \<Rightarrow> None
     | Some t \<Rightarrow> (case files t of None \<Rightarrow> Some s
       | Some a \<Rightarrow> (case put_ref (files_tab s) a of None \<Rightarrow> None
         | Some tab \<Rightarrow> Some (upd_task p (\<lambda>t. t\<lparr>files := None\<rparr>) (s\<lparr>files_tab := tab\<rparr>)))))"

definition drop_fs :: "task_ptr \<Rightarrow> kst \<Rightarrow> kst option" where
  "drop_fs p s = (case tasks s p of None \<Rightarrow> None
     | Some t \<Rightarrow> (case fs t of None \<Rightarrow> Some s
       | Some a \<Rightarrow> (case fs_tab s a of None \<Rightarrow> None
         | Some f \<Rightarrow> Some (upd_task p (\<lambda>t. t\<lparr>fs := None\<rparr>)
             (s\<lparr>fs_tab := (if users f = 1 then (fs_tab s)(a := None)
                else (fs_tab s)(a \<mapsto> f\<lparr>users := users f - 1\<rparr>))\<rparr>)))))"

definition demo_env :: fork_env where
  "demo_env = \<lparr>signal_pending = False, new_task = Some 3, new_stack = Some 9, memcg_charge_err = None,
     arch_dup_err = None, over_nproc_limit = False, nproc_privileged = False, copy_creds_err = None,
     mpol_dup_err = None, sched_fork_err = None, perf_err = None, audit_err = None, security_err = None,
     semundo_err = None, dup_fd_result = Inl 4, new_fs = Some 5, new_sighand = Some 6, new_signal = Some 7,
     new_mm = Some 8, mm_init_ok = True, dup_mmap_err = None, binfmt_get_ok = True, namespaces_err = None,
     ioprio_valid = False, new_io = None, thread_err = None, alloc_pid_result = Inl (11, 1234),
     unused_fd_err = None, pidfile_err = None, put_user_err = None, cgroup_err = None, pidns_adding = True,
     fatal_signal = False, is_child_reaper = False, other_pid_ns = False,
     ptrace_init_task = (\<lambda>t. (0, real_parent t)),
     thread_group_leader = (\<lambda>t. exit_signal t \<ge> 0), now = 77, exit_files = drop_files, exit_fs = drop_fs\<rparr>"

definition demo_signal :: signal_struct where
  "demo_signal = \<lparr>unkillable = False, sig_nr_threads = 1, sig_live = 1, sigcnt = 1, multiprocess = 0,
     has_child_subreaper = False, is_child_subreaper = False, oom_score_adj = 0, oom_score_adj_min = 0\<rparr>"

definition demo_task :: "int \<Rightarrow> task_ptr \<Rightarrow> task_struct" where
  "demo_task n q = blank_task\<lparr>pid := n, tgid := n, group_leader := q, real_parent := 1, parent := 1,
     exit_signal := 17, files := Some q, fs := Some q, sighand := Some q, signal := Some q, mm := Some q\<rparr>"

definition demo_kst :: kst where
  "demo_kst = \<lparr>tasks = [1 \<mapsto> (demo_task 1 1)\<lparr>children := [2]\<rparr>, 2 \<mapsto> demo_task 50 2],
     fs_tab = [1 \<mapsto> \<lparr>users = 1, in_exec = False\<rparr>, 2 \<mapsto> \<lparr>users = 1, in_exec = False\<rparr>],
     files_tab = [1 \<mapsto> 1, 2 \<mapsto> 1], sighand_tab = [1 \<mapsto> 1, 2 \<mapsto> 1],
     signal_tab = [1 \<mapsto> demo_signal, 2 \<mapsto> demo_signal], mm_tab = [1 \<mapsto> 1, 2 \<mapsto> 1],
     nr_threads = 2, max_threads = 100, total_forks = 1, process_counts = 2, user_processes = 2,
     task_list = [1, 2], held = []\<rparr>"

definition demo_args :: kernel_clone_args where
  "demo_args = \<lparr>args_flags = {}, args_pidfd = None, args_child_tid = None, args_parent_tid = None,
     args_exit_signal = 17, args_stack = 0, args_stack_size = 0, args_tls = 0\<rparr>"

lemmas demo_defs = demo_env_def demo_signal_def demo_task_def demo_kst_def demo_args_def blank_task_def

text \<open>The definitions that evaluate a call on a concrete state.\<close>

lemmas copy_process_evals = copy_process_def fork_steps_def goto_label_def ladder_def clone_flags_err_def
  collect_signals_def add_delayed_def check_pending_def dup_step_def dup_task_struct_def nproc_step_def
  creds_step_def limit_step_def reset_step_def ext_step_def copy_files_def copy_fs_def copy_sighand_def
  copy_signal_def copy_mm_def dup_mm_def mmget_def mmput_def copy_io_def pid_step_def pidfd_step_def
  put_pidfd_step_def pid_of_def ids_step_def parent_step_def alive_step_def publish_def link_task_def
  link_leader_def link_thread_def upd_signal_def copy_oom_score_adj_def acquire_def release_def upd_task_def
  get_ref_def put_ref_def bad_fork_cancel_cgroup_def bad_fork_put_pidfd_def bad_fork_free_pid_def
  bad_fork_cleanup_io_def bad_fork_cleanup_mm_def bad_fork_cleanup_signal_def bad_fork_cleanup_sighand_def
  bad_fork_cleanup_count_def bad_fork_free_def put_task_stack_def free_task_def cleanup_sighand_def
  free_signal_struct_def drop_files_def drop_fs_def rseq_fork_def

end
