(* ===== verification/Fork_Unwind.thy ===== *)
theory Fork_Unwind
  imports Copy_Process
begin

text \<open>
  A failed \<open>copy_process\<close> undoes everything. Each step is paired with the action that undoes
  it; the generic part shows that unwinding a failed run gives back the state before it, up
  to the task being built and one flag bit of the current task, and the rest checks the
  pairs of \<open>copy_process\<close> and that the ladder's labels are in the right places.
\<close>

section \<open>Steps with their undoing\<close>

text \<open>
  States that agree apart from the new task \<open>p\<close> and the flag \<open>PF_NPROC_EXCEEDED\<close> of the current
  task \<open>c\<close>, and in \<open>p\<close> at least in the first \<open>n\<close> of the shared parts.
\<close>

definition parts :: "(task_struct \<Rightarrow> nat option) list" where
  "parts = [files, fs, sighand, signal, mm, io_context]"

definition clear_nproc :: "task_struct \<Rightarrow> task_struct" where
  "clear_nproc t = t\<lparr>flags := flags t AND NOT PF_NPROC_EXCEEDED\<rparr>"

definition forget :: "task_ptr \<Rightarrow> task_ptr \<Rightarrow> kst \<Rightarrow> kst" where
  "forget p c s = s\<lparr>tasks := (tasks s)(c := map_option clear_nproc (tasks s c), p := None)\<rparr>"

definition agree :: "task_ptr \<Rightarrow> task_ptr \<Rightarrow> nat \<Rightarrow> kst \<Rightarrow> kst \<Rightarrow> bool" where
  "agree p c n s t \<longleftrightarrow> forget p c s = forget p c t \<and> (tasks s p = None) = (tasks t p = None) \<and>
     (\<forall>g \<in> set (take n parts). map_option g (tasks s p) = map_option g (tasks t p))"

definition undoes ::
  "task_ptr \<Rightarrow> task_ptr \<Rightarrow> (kst \<Rightarrow> bool) \<times> nat \<Rightarrow> step \<Rightarrow> (kst \<Rightarrow> bool) \<times> nat \<Rightarrow> (kst \<Rightarrow> kst option) \<Rightarrow> bool" where
  "undoes p c = (\<lambda>(pre, n) f (post, m) u. \<forall>s. pre s \<longrightarrow>
     (\<exists>r s'. f s = Some (r, s') \<and>
        (case r of Some _ \<Rightarrow> agree p c n s s'
         | None \<Rightarrow> post s' \<and> (\<forall>t. agree p c m s' t \<longrightarrow> (\<exists>v. u t = Some v \<and> agree p c n s v)))))"

fun undo_all :: "(kst \<Rightarrow> kst option) list \<Rightarrow> kst \<Rightarrow> kst option" where
  "undo_all [] s = Some s"
| "undo_all (u # us) s = Option.bind (u s) (undo_all us)"

text \<open>A list of steps, each with what holds before it and what undoes it; a step without a label never fails.\<close>

type_synonym stage = "((kst \<Rightarrow> bool) \<times> nat) \<times> label option \<times> step \<times> (kst \<Rightarrow> kst option)"

definition label_ok :: "label option \<Rightarrow> step \<Rightarrow> bool" where
  "label_ok l f \<longleftrightarrow> l \<noteq> None \<or> (\<forall>s r s'. f s = Some (r, s') \<longrightarrow> r = None)"

fun stages_ok :: "task_ptr \<Rightarrow> task_ptr \<Rightarrow> stage list \<Rightarrow> (kst \<Rightarrow> bool) \<times> nat \<Rightarrow> bool" where
  "stages_ok p c [] q = True"
| "stages_ok p c [(q, l, f, u)] q' \<longleftrightarrow> label_ok l f \<and> undoes p c q f q' u"
| "stages_ok p c ((q, l, f, u) # (q', st) # rest) q'' \<longleftrightarrow>
     label_ok l f \<and> undoes p c q f q' u \<and> stages_ok p c ((q', st) # rest) q''"

definition stage_steps :: "stage list \<Rightarrow> (label option \<times> step) list" where
  "stage_steps ss = map (\<lambda>(q, l, f, u). (l, f)) ss"

definition stage_undos :: "stage list \<Rightarrow> (kst \<Rightarrow> kst option) list" where
  "stage_undos ss = map (\<lambda>(q, l, f, u). u) ss"

lemma agree_refl [simp]: "agree p c n s s"
  by (simp add: agree_def)

lemma agree_trans: "agree p c n s t \<Longrightarrow> agree p c n t u \<Longrightarrow> agree p c n s u"
  by (simp add: agree_def)

lemma agree_sym: "agree p c n s t \<Longrightarrow> agree p c n t s"
  by (auto simp: agree_def)

lemma undo_all_append: "undo_all (us @ vs) s = Option.bind (undo_all us s) (undo_all vs)"
  by (induction us arbitrary: s) (auto split: bind_split)

text \<open>
  The run of a list of good stages ends in the last condition, or fails in the step of some
  stage, and then undoing the stages before it, last first, gives a state that agrees with
  the one before the run.
\<close>

lemma run_or_unwind:
  assumes "stages_ok p c ss (post, m)" "ss \<noteq> []" "fst (fst (hd ss)) s"
  shows "(\<exists>s'. run_steps (stage_steps ss) s = Some (Inl s') \<and> post s') \<or>
    (\<exists>k l er s'. k < length ss \<and> fst (snd (ss ! k)) = Some l \<and> run_steps (stage_steps ss) s = Some (Inr (l, er, s')) \<and>
      (\<exists>v. undo_all (rev (take k (stage_undos ss))) s' = Some v \<and> agree p c (snd (fst (hd ss))) s v))"
  using assms
proof (induction ss arbitrary: s)
  case Nil
  then show ?case by simp
next
  case (Cons x rest)
  obtain pre n l f u where x: "x = ((pre, n), l, f, u)" by (metis surj_pair)
  let ?nxt = "if rest = [] then (post, m) else fst (hd rest)"
  have und: "undoes p c (pre, n) f ?nxt u" and lok: "label_ok l f" and rok: "rest \<noteq> [] \<Longrightarrow> stages_ok p c rest (post, m)"
    using Cons.prems(1) x by (cases rest; auto)+
  obtain post' m' where nxt: "?nxt = (post', m')" by (cases ?nxt)
  obtain r s1 where f: "f s = Some (r, s1)" and
      fr: "case r of Some _ \<Rightarrow> agree p c n s s1
        | None \<Rightarrow> post' s1 \<and> (\<forall>t. agree p c m' s1 t \<longrightarrow> (\<exists>v. u t = Some v \<and> agree p c n s v))"
    using und Cons.prems(3) x unfolding nxt undoes_def by auto
  show ?case
  proof (cases r)
    case (Some er)
    then obtain l0 where l0: "l = Some l0" using lok f by (cases l) (auto simp: label_ok_def)
    then have "run_steps (stage_steps (x # rest)) s = Some (Inr (l0, er, s1))"
      using f x Some by (simp add: stage_steps_def)
    then show ?thesis using fr Some x l0 by (intro disjI2 exI [of _ 0]) auto
  next
    case None
    then have run: "run_steps (stage_steps (x # rest)) s = run_steps (stage_steps rest) s1"
      using f x by (simp add: stage_steps_def)
    have p1: "post' s1" and undo: "\<And>t. agree p c m' s1 t \<Longrightarrow> \<exists>v. u t = Some v \<and> agree p c n s v"
      using fr None by auto
    show ?thesis
    proof (cases "rest = []")
      case True
      then show ?thesis using run p1 nxt by (simp add: stage_steps_def)
    next
      case False
      then have hd: "fst (hd rest) = (post', m')" using nxt by simp
      have "(\<exists>s'. run_steps (stage_steps rest) s1 = Some (Inl s') \<and> post s') \<or>
          (\<exists>k l er s'. k < length rest \<and> fst (snd (rest ! k)) = Some l \<and>
            run_steps (stage_steps rest) s1 = Some (Inr (l, er, s')) \<and>
            (\<exists>v. undo_all (rev (take k (stage_undos rest))) s' = Some v \<and> agree p c m' s1 v))"
        using Cons.IH [OF rok [OF False] False, of s1] p1 by (simp only: hd fst_conv snd_conv)
      then consider s' where "run_steps (stage_steps rest) s1 = Some (Inl s')" "post s'"
        | k l er s' v where "k < length rest" "fst (snd (rest ! k)) = Some l"
          "run_steps (stage_steps rest) s1 = Some (Inr (l, er, s'))"
          "undo_all (rev (take k (stage_undos rest))) s' = Some v" "agree p c m' s1 v"
        by blast
      then show ?thesis
      proof cases
        case 1
        then show ?thesis using run by auto
      next
        case 2
        obtain w where "u v = Some w" "agree p c n s w" using undo [OF 2(5)] by blast
        then have "undo_all (rev (take (Suc k) (stage_undos (x # rest)))) s' = Some w"
          using 2(4) x by (simp add: stage_undos_def undo_all_append)
        then show ?thesis
          using 2 run x \<open>agree p c n s w\<close> by (intro disjI2 exI [of _ "Suc k"]) auto
      qed
    qed
  qed
qed

section \<open>Agreement and the primitive steps\<close>

lemma forget_simps [simp]:
  "fs_tab (forget p c s) = fs_tab s" "files_tab (forget p c s) = files_tab s"
  "sighand_tab (forget p c s) = sighand_tab s" "signal_tab (forget p c s) = signal_tab s"
  "mm_tab (forget p c s) = mm_tab s" "held (forget p c s) = held s"
  "nr_threads (forget p c s) = nr_threads s" "max_threads (forget p c s) = max_threads s"
  "user_processes (forget p c s) = user_processes s"
  by (simp_all add: forget_def)

lemma forget_upds [simp]:
  "forget p c (s\<lparr>fs_tab := f1\<rparr>) = (forget p c s)\<lparr>fs_tab := f1\<rparr>"
  "forget p c (s\<lparr>files_tab := f2\<rparr>) = (forget p c s)\<lparr>files_tab := f2\<rparr>"
  "forget p c (s\<lparr>sighand_tab := f3\<rparr>) = (forget p c s)\<lparr>sighand_tab := f3\<rparr>"
  "forget p c (s\<lparr>signal_tab := f4\<rparr>) = (forget p c s)\<lparr>signal_tab := f4\<rparr>"
  "forget p c (s\<lparr>mm_tab := f5\<rparr>) = (forget p c s)\<lparr>mm_tab := f5\<rparr>"
  "forget p c (s\<lparr>user_processes := f6\<rparr>) = (forget p c s)\<lparr>user_processes := f6\<rparr>"
  "forget p c (s\<lparr>held := f7\<rparr>) = (forget p c s)\<lparr>held := f7\<rparr>"
  "forget p c (upd_task p f s) = forget p c s"
  "forget p c (s\<lparr>tasks := (tasks s)(p := v)\<rparr>) = forget p c s"
  by (simp_all add: forget_def upd_task_def)

lemma forget_self [simp]:
  "(forget p c s)\<lparr>fs_tab := fs_tab s\<rparr> = forget p c s" "(forget p c s)\<lparr>files_tab := files_tab s\<rparr> = forget p c s"
  "(forget p c s)\<lparr>sighand_tab := sighand_tab s\<rparr> = forget p c s"
  "(forget p c s)\<lparr>signal_tab := signal_tab s\<rparr> = forget p c s" "(forget p c s)\<lparr>mm_tab := mm_tab s\<rparr> = forget p c s"
  "(forget p c s)\<lparr>held := held s\<rparr> = forget p c s"
  "(forget p c s)\<lparr>user_processes := user_processes s\<rparr> = forget p c s"
  by (cases s; simp add: forget_def)+

lemma forget_acquire [simp]: "forget p c (acquire r s) = acquire r (forget p c s)"
  by (simp add: acquire_def)

lemma clear_nproc_twice [simp]: "clear_nproc (clear_nproc t) = clear_nproc t"
  by (simp add: clear_nproc_def)

lemma forget_clear [simp]: "p \<noteq> c \<Longrightarrow> forget p c (upd_task c clear_nproc s) = forget p c s"
  by (cases "tasks s c") (auto simp: forget_def upd_task_def fun_eq_iff)

text \<open>What agreement gives about the other state.\<close>

lemma agree_tables:
  assumes "agree p c n s t"
  shows "fs_tab t = fs_tab s" "files_tab t = files_tab s" "sighand_tab t = sighand_tab s"
    "signal_tab t = signal_tab s" "mm_tab t = mm_tab s" "held t = held s" "user_processes t = user_processes s"
proof -
  have f: "forget p c t = forget p c s" using assms by (simp add: agree_def)
  show "fs_tab t = fs_tab s" using f by (metis forget_simps(1))
  show "files_tab t = files_tab s" using f by (metis forget_simps(2))
  show "sighand_tab t = sighand_tab s" using f by (metis forget_simps(3))
  show "signal_tab t = signal_tab s" using f by (metis forget_simps(4))
  show "mm_tab t = mm_tab s" using f by (metis forget_simps(5))
  show "held t = held s" using f by (metis forget_simps(6))
  show "user_processes t = user_processes s" using f by (metis forget_simps(9))
qed

lemma agree_child:
  assumes "agree p c n s t" "tasks s p = Some x"
  shows "\<exists>y. tasks t p = Some y \<and> (\<forall>g \<in> set (take n parts). g y = g x)"
  using assms by (cases "tasks t p") (auto simp: agree_def)

lemma agree_current:
  assumes "agree p c n s t" "p \<noteq> c" "tasks s c = Some x"
  obtains y where "tasks t c = Some y" "clear_nproc y = clear_nproc x"
proof -
  have "map_option clear_nproc (tasks t c) = map_option clear_nproc (tasks s c)"
  proof -
    have "tasks (forget p c t) c = tasks (forget p c s) c" using assms(1) by (simp add: agree_def)
    then show ?thesis using assms(2) by (simp add: forget_def)
  qed
  with assms(3) that show thesis by (cases "tasks t c") auto
qed

lemma clear_nproc_signal: "clear_nproc y = clear_nproc x \<Longrightarrow> signal y = signal x"
proof -
  assume "clear_nproc y = clear_nproc x"
  then have "signal (clear_nproc y) = signal (clear_nproc x)" by simp
  then show ?thesis by (simp add: clear_nproc_def)
qed

lemma release_acquired [simp]: "release r (acquire r s) = Some s"
  by (simp add: release_def acquire_def)

text \<open>Steps of code outside the file, and tests.\<close>

lemma release_agree:
  assumes "agree p c n (acquire r s) t"
  shows "\<exists>v. release r t = Some v \<and> agree p c n s v"
proof -
  have "held t = r # held s" using agree_tables(6) [OF assms] by (simp add: acquire_def)
  moreover have "forget p c t = (forget p c s)\<lparr>held := r # held s\<rparr>"
    using assms by (simp add: agree_def acquire_def)
  then have "agree p c n s (t\<lparr>held := held s\<rparr>)"
    using assms by (simp add: agree_def acquire_def)
  ultimately show ?thesis by (simp add: release_def)
qed

lemma undoes_ext:
  assumes "\<And>s. pre s \<Longrightarrow> post (acquire r s)"
  shows "undoes p c (pre, n) (ext_step e r) (post, n) (release r)"
  using assms release_agree by (auto simp: undoes_def ext_step_def split: option.splits)

lemma undoes_test:
  assumes "\<And>s. f s = Some (e s, s)" "\<And>s. pre s \<Longrightarrow> post s"
  shows "undoes p c (pre, n) f (post, n) Some"
  using assms by (auto simp: undoes_def split: option.splits)

section \<open>States in which a process can be copied\<close>

text \<open>
  The current task and what it refers to: its objects exist with positive counts, and the
  addresses that the allocators return are not in use. \<open>k\<close> parts have been copied already.
\<close>

definition refs_ok :: "fork_env \<Rightarrow> nat \<Rightarrow> task_struct \<Rightarrow> kst \<Rightarrow> bool" where
  "refs_ok env k ct s \<longleftrightarrow>
     (k \<le> 0 \<longrightarrow> (\<forall>a. files ct = Some a \<longrightarrow> (\<exists>m \<ge> 1. files_tab s a = Some m)) \<and>
        (\<forall>a. dup_fd_result env = Inl a \<longrightarrow> files_tab s a = None)) \<and>
     (k \<le> 1 \<longrightarrow> (\<exists>a f. fs ct = Some a \<and> fs_tab s a = Some f \<and> 1 \<le> users f) \<and>
        (\<forall>a. new_fs env = Some a \<longrightarrow> fs_tab s a = None)) \<and>
     (k \<le> 2 \<longrightarrow> (\<exists>a m. sighand ct = Some a \<and> sighand_tab s a = Some m \<and> 1 \<le> m) \<and>
        (\<forall>a. new_sighand env = Some a \<longrightarrow> sighand_tab s a = None)) \<and>
     (\<exists>a x. signal ct = Some a \<and> signal_tab s a = Some x) \<and>
     (k \<le> 3 \<longrightarrow> (\<forall>a. new_signal env = Some a \<longrightarrow> signal_tab s a = None)) \<and>
     (k \<le> 4 \<longrightarrow> (\<forall>a. mm ct = Some a \<longrightarrow> (\<exists>m \<ge> 1. mm_tab s a = Some m)) \<and>
        (\<forall>a. new_mm env = Some a \<longrightarrow> mm_tab s a = None))"

definition startable :: "fork_env \<Rightarrow> task_ptr \<Rightarrow> task_ptr \<Rightarrow> kst \<Rightarrow> bool" where
  "startable env c p s \<longleftrightarrow> p \<noteq> c \<and> tasks s p = None \<and>
     (\<exists>ct. tasks s c = Some ct \<and> tasks s (group_leader ct) \<noteq> None \<and> refs_ok env 0 ct s)"

text \<open>The child after \<open>dup_task_struct\<close>: it still has the current task's parts that are not copied yet.\<close>

definition building :: "fork_env \<Rightarrow> task_ptr \<Rightarrow> task_ptr \<Rightarrow> nat \<Rightarrow> bool \<Rightarrow> kst \<Rightarrow> bool" where
  "building env c p k io s \<longleftrightarrow> p \<noteq> c \<and>
     (\<exists>ct pt. tasks s c = Some ct \<and> tasks s p = Some pt \<and> tasks s (group_leader ct) \<noteq> None \<and>
        refs_ok env k ct s \<and> (k \<le> 0 \<longrightarrow> files pt = files ct) \<and> (k \<le> 1 \<longrightarrow> fs pt = fs ct) \<and>
        (k \<le> 2 \<longrightarrow> sighand pt = sighand ct) \<and> (io \<and> k \<le> 5 \<longrightarrow> io_context pt = None))"

lemma buildingE:
  assumes "building env c p k io s"
  obtains ct pt where "p \<noteq> c" "tasks s c = Some ct" "tasks s p = Some pt" "tasks s (group_leader ct) \<noteq> None"
    "refs_ok env k ct s" "k \<le> 0 \<longrightarrow> files pt = files ct" "k \<le> 1 \<longrightarrow> fs pt = fs ct"
    "k \<le> 2 \<longrightarrow> sighand pt = sighand ct" "io \<and> k \<le> 5 \<longrightarrow> io_context pt = None"
  using assms by (auto simp: building_def)

lemma refs_ok_mono: "refs_ok env k ct s \<Longrightarrow> k \<le> k' \<Longrightarrow> refs_ok env k' ct s"
  by (auto simp: refs_ok_def)

lemma building_mono:
  assumes "building env c p k io s" "k \<le> k'"
  shows "building env c p k' io s"
proof -
  obtain ct pt where "p \<noteq> c" "tasks s c = Some ct" "tasks s p = Some pt" "tasks s (group_leader ct) \<noteq> None"
    "refs_ok env k ct s" "k \<le> 0 \<longrightarrow> files pt = files ct" "k \<le> 1 \<longrightarrow> fs pt = fs ct"
    "k \<le> 2 \<longrightarrow> sighand pt = sighand ct" "io \<and> k \<le> 5 \<longrightarrow> io_context pt = None"
    by (rule buildingE [OF assms(1)])
  with refs_ok_mono [OF _ assms(2)] assms(2) show ?thesis by (simp add: building_def)
qed

lemma building_acquire [simp]: "building env c p k io (acquire r s) = building env c p k io s"
  by (simp add: building_def refs_ok_def acquire_def)

text \<open>What \<open>exit_files\<close> and \<open>exit_fs\<close> do: they drop the task's reference.\<close>

definition exit_files_ok :: "fork_env \<Rightarrow> bool" where
  "exit_files_ok env \<longleftrightarrow> (\<forall>p s t. tasks s p = Some t \<longrightarrow> exit_files env p s =
     (case files t of None \<Rightarrow> Some s
      | Some a \<Rightarrow> do {
          tab \<leftarrow> put_ref (files_tab s) a;
          Some (upd_task p (\<lambda>t. t\<lparr>files := None\<rparr>) (s\<lparr>files_tab := tab\<rparr>)) }))"

definition exit_fs_ok :: "fork_env \<Rightarrow> bool" where
  "exit_fs_ok env \<longleftrightarrow> (\<forall>p s t a f. tasks s p = Some t \<and> fs t = Some a \<and> fs_tab s a = Some f \<and> 1 \<le> users f \<longrightarrow>
     exit_fs env p s = Some (upd_task p (\<lambda>t. t\<lparr>fs := None\<rparr>)
       (s\<lparr>fs_tab := (if users f = 1 then (fs_tab s)(a := None)
          else (fs_tab s)(a \<mapsto> f\<lparr>users := users f - 1\<rparr>))\<rparr>)))"

lemma put_get_ref: "get_ref tab a = Some tab' \<Longrightarrow> tab a = Some m \<Longrightarrow> 1 \<le> m \<Longrightarrow> put_ref tab' a = Some tab"
  by (auto simp: get_ref_def put_ref_def fun_upd_idem)

lemma put_new_ref: "tab a = None \<Longrightarrow> put_ref (tab(a \<mapsto> 1)) a = Some tab"
  by (auto simp: put_ref_def fun_upd_idem)

lemma upd_task_simps [simp]:
  "tasks (upd_task p f s) = (tasks s)(p := map_option f (tasks s p))"
  "fs_tab (upd_task p f s) = fs_tab s" "files_tab (upd_task p f s) = files_tab s"
  "sighand_tab (upd_task p f s) = sighand_tab s" "signal_tab (upd_task p f s) = signal_tab s"
  "mm_tab (upd_task p f s) = mm_tab s" "held (upd_task p f s) = held s"
  "user_processes (upd_task p f s) = user_processes s"
  by (simp_all add: upd_task_def)

text \<open>The usual way to show that undoing one part gives agreement with the state before.\<close>

lemma agree_undone:
  assumes "forget p c v = forget p c s" "tasks v p \<noteq> None" "tasks s p \<noteq> None"
    and "\<And>g. g \<in> set (take n parts) \<Longrightarrow> map_option g (tasks s p) = map_option g (tasks v p)"
  shows "agree p c n s v"
  using assms by (auto simp: agree_def)

text \<open>The two ways in which a step of a stage ends well.\<close>

definition stage_done ::
  "task_ptr \<Rightarrow> task_ptr \<Rightarrow> nat \<Rightarrow> kst \<Rightarrow> (kst \<Rightarrow> bool) \<times> nat \<Rightarrow> (kst \<Rightarrow> kst option) \<Rightarrow> (errno option \<times> kst) option \<Rightarrow> bool" where
  "stage_done p c n s = (\<lambda>(post, m) u x. \<exists>r s'. x = Some (r, s') \<and>
     (case r of Some _ \<Rightarrow> agree p c n s s'
      | None \<Rightarrow> post s' \<and> (\<forall>t. agree p c m s' t \<longrightarrow> (\<exists>v. u t = Some v \<and> agree p c n s v))))"

lemma undoesI: "(\<And>s. pre s \<Longrightarrow> stage_done p c n s (post, m) u (f s)) \<Longrightarrow> undoes p c (pre, n) f (post, m) u"
  by (simp add: undoes_def stage_done_def)

lemma stage_failed [simp]: "stage_done p c n s q u (Some (Some e, s')) = agree p c n s s'"
  by (cases q) (simp add: stage_done_def)

lemma stage_doneI:
  assumes "x = Some (None, s')" "post s'" "\<And>t. agree p c m s' t \<Longrightarrow> \<exists>v. u t = Some v \<and> agree p c n s v"
  shows "stage_done p c n s (post, m) u x"
  using assms by (auto simp: stage_done_def)

lemmas parts_eval = parts_def eval_nat_numeral

text \<open>
  For each part: when \<open>t\<close> agrees with a state that differs from \<open>s\<close> in the table of the part by one
  reference, which the child holds, then undoing the part in \<open>t\<close> gives agreement with \<open>s\<close>.
\<close>

lemma files_undone:
  assumes "exit_files_ok env" "agree p c 1 s' t" "tasks s' p = Some pt'" "files pt' = Some x" "tasks s p = Some pt"
    "forget p c s' = (forget p c s)\<lparr>files_tab := files_tab s'\<rparr>" "put_ref (files_tab s') x = Some (files_tab s)"
  shows "\<exists>v. exit_files env p t = Some v \<and> agree p c 0 s v"
proof -
  obtain y where y: "tasks t p = Some y" "files y = Some x"
    using agree_child [OF assms(2,3)] assms(4) by (auto simp: parts_def)
  have "exit_files env p t = Some (upd_task p (\<lambda>t. t\<lparr>files := None\<rparr>) (t\<lparr>files_tab := files_tab s\<rparr>))"
    using assms(1,7) y agree_tables(2) [OF assms(2)] by (simp add: exit_files_ok_def)
  moreover have "forget p c t = (forget p c s)\<lparr>files_tab := files_tab s'\<rparr>" using assms(2,6) by (simp add: agree_def)
  ultimately show ?thesis using y assms(5) by (auto intro!: agree_undone)
qed

lemma undoes_files:
  assumes "exit_files_ok env"
  shows "undoes p c (building env c p 0 io, 0) (copy_files env fl c p) (building env c p 1 io, 1) (exit_files env p)"
proof (rule undoesI)
  fix s assume b: "building env c p 0 io s"
  obtain ct pt where ct: "p \<noteq> c" "tasks s c = Some ct" "tasks s p = Some pt" "tasks s (group_leader ct) \<noteq> None"
      "refs_ok env 0 ct s" "files pt = files ct" "fs pt = fs ct" "sighand pt = sighand ct" "io \<longrightarrow> io_context pt = None"
    using b unfolding building_def by (simp del: not_None_eq) blast
  have b1: "building env c p 1 io s" using b by (rule building_mono) simp
  consider (none) "files ct = None" | (share) old where "files ct = Some old" "CLONE_FILES \<in> fl"
    | (fail) old e where "files ct = Some old" "CLONE_FILES \<notin> fl" "dup_fd_result env = Inr e"
    | (new) old a where "files ct = Some old" "CLONE_FILES \<notin> fl" "dup_fd_result env = Inl a"
    by (cases "files ct"; cases "CLONE_FILES \<in> fl"; cases "dup_fd_result env") auto
  then show "stage_done p c 0 s (building env c p 1 io, 1) (exit_files env p) (copy_files env fl c p s)"
  proof cases
    case none
    have "\<exists>v. exit_files env p t = Some v \<and> agree p c 0 s v" if a: "agree p c 1 s t" for t
    proof -
      obtain y where "tasks t p = Some y" "files y = None"
        using agree_child [OF a ct(3)] ct(6) none by (auto simp: parts_def)
      then have "exit_files env p t = Some t" using assms by (simp add: exit_files_ok_def)
      with a show ?thesis by (auto simp: agree_def)
    qed
    with b1 none ct(2) show ?thesis by (intro stage_doneI [where s' = s]) (simp_all add: copy_files_def)
  next
    case (share old)
    then obtain m where m: "files_tab s old = Some m" "1 \<le> m" using ct(5) by (auto simp: refs_ok_def)
    have g: "get_ref (files_tab s) old = Some ((files_tab s)(old \<mapsto> m + 1))" using m by (simp add: get_ref_def)
    show ?thesis
      by (rule stage_doneI [where s' = "s\<lparr>files_tab := (files_tab s)(old \<mapsto> m + 1)\<rparr>"])
        (use b1 share ct(2,3,6) g put_get_ref [OF g m] in \<open>auto simp: copy_files_def building_def refs_ok_def intro: files_undone [OF assms]\<close>)
  next
    case (fail old e) then show ?thesis using ct(2) by (simp add: copy_files_def)
  next
    case (new old a)
    let ?s = "upd_task p (\<lambda>t. t\<lparr>files := Some a\<rparr>) (s\<lparr>files_tab := (files_tab s)(a \<mapsto> 1)\<rparr>)"
    have "building env c p 1 io ?s" using ct refs_ok_mono [OF ct(5), of 1] by (auto simp: building_def refs_ok_def)
    moreover have "files_tab s a = None" using ct(5) new by (simp add: refs_ok_def)
    ultimately show ?thesis
      by (intro stage_doneI [where s' = ?s])
        (use new ct(2,3) put_new_ref [of "files_tab s" a] in \<open>auto simp: copy_files_def intro: files_undone [OF assms]\<close>)
  qed
qed

lemma fs_undone:
  assumes "exit_fs_ok env" "agree p c 2 s' t" "tasks s' p = Some pt'" "fs pt' = Some x" "files pt' = files pt" "tasks s p = Some pt"
    "forget p c s' = (forget p c s)\<lparr>fs_tab := fs_tab s'\<rparr>" "fs_tab s' x = Some g" "1 \<le> users g"
    "(if users g = 1 then (fs_tab s')(x := None) else (fs_tab s')(x \<mapsto> g\<lparr>users := users g - 1\<rparr>)) = fs_tab s"
  shows "\<exists>v. exit_fs env p t = Some v \<and> agree p c 1 s v"
proof -
  obtain y where y: "tasks t p = Some y" "fs y = Some x" "files y = files pt"
    using agree_child [OF assms(2,3)] assms(4,5) by (auto simp: parts_eval)
  have "exit_fs env p t = Some (upd_task p (\<lambda>t. t\<lparr>fs := None\<rparr>) (t\<lparr>fs_tab := fs_tab s\<rparr>))"
    using assms(1,8-10) y agree_tables(1) [OF assms(2)] by (simp add: exit_fs_ok_def split: if_splits)
  moreover have "forget p c t = (forget p c s)\<lparr>fs_tab := fs_tab s'\<rparr>" using assms(2,7) by (simp add: agree_def)
  ultimately show ?thesis using y assms(6) by (auto intro!: agree_undone simp: parts_def)
qed

lemma undoes_fs:
  assumes "exit_fs_ok env"
  shows "undoes p c (building env c p 1 io, 1) (copy_fs env fl c p) (building env c p 2 io, 2) (exit_fs env p)"
proof (rule undoesI)
  fix s assume b: "building env c p 1 io s"
  obtain ct pt where ct: "p \<noteq> c" "tasks s c = Some ct" "tasks s p = Some pt" "tasks s (group_leader ct) \<noteq> None"
      "refs_ok env 1 ct s" "fs pt = fs ct" "sighand pt = sighand ct" "io \<longrightarrow> io_context pt = None"
    using b unfolding building_def by (simp del: not_None_eq) blast
  obtain old f where old: "fs ct = Some old" "fs_tab s old = Some f" "1 \<le> users f"
    using ct(5) by (auto simp: refs_ok_def)
  have b2: "building env c p 2 io s" using b by (rule building_mono) simp
  consider (exec) "CLONE_FS \<in> fl" "in_exec f" | (share) "CLONE_FS \<in> fl" "\<not> in_exec f" | (fail) "CLONE_FS \<notin> fl" "new_fs env = None" | (new) a where "CLONE_FS \<notin> fl" "new_fs env = Some a"
    by (cases "CLONE_FS \<in> fl"; cases "new_fs env") auto
  then show "stage_done p c 1 s (building env c p 2 io, 2) (exit_fs env p) (copy_fs env fl c p s)"
  proof cases
    case exec then show ?thesis using ct(2) old by (simp add: copy_fs_def)
  next
    case share
    let ?f = "f\<lparr>users := users f + 1\<rparr>"
    let ?s = "s\<lparr>fs_tab := (fs_tab s)(old \<mapsto> ?f)\<rparr>"
    have "(fs_tab s)(old \<mapsto> f) = fs_tab s" using old(2) by (rule fun_upd_idem)
    with share show ?thesis
      by (intro stage_doneI [where s' = ?s] fs_undone [OF assms, where x = old and g = ?f and s' = ?s])
        (use b2 ct(2,3,6) old in \<open>simp_all add: copy_fs_def building_def refs_ok_def\<close>)
  next
    case fail
    have "agree p c 1 s (upd_task p (\<lambda>t. t\<lparr>fs := None\<rparr>) s)" using ct(3) by (auto intro!: agree_undone simp: parts_def)
    then show ?thesis using ct(2) fail by (simp add: copy_fs_def)
  next
    case (new a)
    let ?f = "\<lparr>users = 1, in_exec = False\<rparr>"
    let ?s = "(upd_task p (\<lambda>t. t\<lparr>fs := Some a\<rparr>) s)\<lparr>fs_tab := (fs_tab s)(a \<mapsto> ?f)\<rparr>"
    have "building env c p 2 io ?s" using ct refs_ok_mono [OF ct(5), of 2] by (auto simp: building_def refs_ok_def)
    moreover have "(fs_tab s)(a := None) = fs_tab s" using ct(5) new by (simp add: refs_ok_def fun_upd_idem)
    ultimately show ?thesis
      by (intro stage_doneI [where s' = ?s] fs_undone [OF assms, where x = a and g = ?f and s' = ?s and pt' = "pt\<lparr>fs := Some a\<rparr>"])
        (use new ct(2,3) in \<open>simp_all add: copy_fs_def\<close>)
  qed
qed

lemma sighand_undone:
  assumes "agree p c 3 s' t" "tasks s' p = Some pt'" "sighand pt' = Some x" "files pt' = files pt" "fs pt' = fs pt" "tasks s p = Some pt"
    "forget p c s' = (forget p c s)\<lparr>sighand_tab := sighand_tab s'\<rparr>" "put_ref (sighand_tab s') x = Some (sighand_tab s)"
  shows "\<exists>v. bad_fork_cleanup_sighand p t = Some v \<and> agree p c 2 s v"
proof -
  obtain y where y: "tasks t p = Some y" "sighand y = Some x" "files y = files pt" "fs y = fs pt"
    using agree_child [OF assms(1,2)] assms(3-5) by (auto simp: parts_eval)
  have "bad_fork_cleanup_sighand p t = Some (t\<lparr>sighand_tab := sighand_tab s\<rparr>)"
    using y agree_tables(3) [OF assms(1)] assms(8) by (simp add: bad_fork_cleanup_sighand_def cleanup_sighand_def)
  moreover have "forget p c t = (forget p c s)\<lparr>sighand_tab := sighand_tab s'\<rparr>" using assms(1,7) by (simp add: agree_def)
  ultimately show ?thesis using y assms(6) by (auto intro!: agree_undone simp: parts_eval)
qed

lemma undoes_sighand:
  "undoes p c (building env c p 2 io, 2) (copy_sighand env fl c p) (building env c p 3 io, 3) (bad_fork_cleanup_sighand p)"
proof (rule undoesI)
  fix s assume b: "building env c p 2 io s"
  obtain ct pt where ct: "p \<noteq> c" "tasks s c = Some ct" "tasks s p = Some pt" "tasks s (group_leader ct) \<noteq> None"
      "refs_ok env 2 ct s" "sighand pt = sighand ct" "io \<longrightarrow> io_context pt = None"
    using b unfolding building_def by (simp del: not_None_eq) blast
  obtain old m where old: "sighand ct = Some old" "sighand_tab s old = Some m" "1 \<le> m"
    using ct(5) by (auto simp: refs_ok_def)
  have b3: "building env c p 3 io s" using b by (rule building_mono) simp
  consider (share) "CLONE_SIGHAND \<in> fl" | (fail) "CLONE_SIGHAND \<notin> fl" "new_sighand env = None"
    | (new) a where "CLONE_SIGHAND \<notin> fl" "new_sighand env = Some a"
    by (cases "CLONE_SIGHAND \<in> fl"; cases "new_sighand env") auto
  then show "stage_done p c 2 s (building env c p 3 io, 3) (bad_fork_cleanup_sighand p) (copy_sighand env fl c p s)"
  proof cases
    case share
    have g: "get_ref (sighand_tab s) old = Some ((sighand_tab s)(old \<mapsto> m + 1))" using old by (simp add: get_ref_def)
    show ?thesis
      by (rule stage_doneI [where s' = "s\<lparr>sighand_tab := (sighand_tab s)(old \<mapsto> m + 1)\<rparr>"])
        (use b3 share ct(2,3,6) old(1) g put_get_ref [OF g old(2,3)] in
          \<open>auto simp: copy_sighand_def building_def refs_ok_def intro: sighand_undone\<close>)
  next
    case fail
    have "agree p c 2 s (upd_task p (\<lambda>t. t\<lparr>sighand := None\<rparr>) s)" using ct(3) by (auto intro!: agree_undone simp: parts_eval)
    then show ?thesis using fail by (simp add: copy_sighand_def)
  next
    case (new a)
    let ?s = "(upd_task p (\<lambda>t. t\<lparr>sighand := Some a\<rparr>) s)\<lparr>sighand_tab := (sighand_tab s)(a \<mapsto> 1)\<rparr>"
    have "building env c p 3 io ?s" using ct refs_ok_mono [OF ct(5), of 3] by (auto simp: building_def refs_ok_def)
    moreover have "sighand_tab s a = None" using ct(5) new by (simp add: refs_ok_def)
    ultimately show ?thesis
      by (intro stage_doneI [where s' = ?s] sighand_undone [where x = a and s' = ?s and pt' = "pt\<lparr>sighand := Some a\<rparr>"])
        (use new ct(3) put_new_ref [of "sighand_tab s" a] in \<open>simp_all add: copy_sighand_def\<close>)
  qed
qed

lemma signal_undone:
  assumes "agree p c 4 s' t" "tasks s' p = Some (pt\<lparr>signal := Some x\<rparr>)" "tasks s p = Some pt" "CLONE_THREAD \<notin> fl"
    "forget p c s' = (forget p c s)\<lparr>signal_tab := signal_tab s'\<rparr>" "signal_tab s' = (signal_tab s)(x \<mapsto> sig)"
    "signal_tab s x = None" "sigcnt sig = 1"
  shows "\<exists>v. bad_fork_cleanup_signal fl p t = Some v \<and> agree p c 3 s v"
proof -
  obtain y where y: "tasks t p = Some y" "signal y = Some x" "files y = files pt" "fs y = fs pt" "sighand y = sighand pt"
    using agree_child [OF assms(1,2)] by (auto simp: parts_eval)
  have "bad_fork_cleanup_signal fl p t = Some (t\<lparr>signal_tab := signal_tab s\<rparr>)"
    using y(1,2) agree_tables(4) [OF assms(1)] assms(4,6-8)
    by (simp add: bad_fork_cleanup_signal_def free_signal_struct_def fun_upd_idem)
  moreover have "forget p c t = (forget p c s)\<lparr>signal_tab := signal_tab s'\<rparr>" using assms(1,5) by (simp add: agree_def)
  ultimately show ?thesis using y assms(3) by (auto intro!: agree_undone simp: parts_eval)
qed

lemma undoes_signal:
  "undoes p c (building env c p 3 io, 3) (copy_signal env fl c p) (building env c p 4 io, 4) (bad_fork_cleanup_signal fl p)"
proof (rule undoesI)
  fix s assume b: "building env c p 3 io s"
  obtain ct pt where ct: "p \<noteq> c" "tasks s c = Some ct" "tasks s p = Some pt" "tasks s (group_leader ct) \<noteq> None"
      "refs_ok env 3 ct s" "io \<longrightarrow> io_context pt = None"
    using b unfolding building_def by (simp del: not_None_eq) blast
  obtain old x where old: "signal ct = Some old" "signal_tab s old = Some x" using ct(5) by (auto simp: refs_ok_def)
  have b4: "building env c p 4 io s" using b by (rule building_mono) simp
  consider (thread) "CLONE_THREAD \<in> fl" | (fail) "CLONE_THREAD \<notin> fl" "new_signal env = None"
    | (new) a where "CLONE_THREAD \<notin> fl" "new_signal env = Some a"
    by (cases "CLONE_THREAD \<in> fl"; cases "new_signal env") auto
  then show "stage_done p c 3 s (building env c p 4 io, 4) (bad_fork_cleanup_signal fl p) (copy_signal env fl c p s)"
  proof cases
    case thread
    have "agree p c 3 s t" if "agree p c 4 s t" for t using that by (auto simp: agree_def parts_eval)
    with thread b4 show ?thesis
      by (intro stage_doneI [where s' = s]) (simp_all add: copy_signal_def bad_fork_cleanup_signal_def)
  next
    case fail
    have "agree p c 3 s (upd_task p (\<lambda>t. t\<lparr>signal := None\<rparr>) s)" using ct(3) by (auto intro!: agree_undone simp: parts_eval)
    then show ?thesis using ct(2) old fail by (simp add: copy_signal_def)
  next
    case (new a)
    define sig where "sig = \<lparr>unkillable = False, sig_nr_threads = 1, sig_live = 1, sigcnt = 1, multiprocess = 0,
            has_child_subreaper = False, is_child_subreaper = False,
            oom_score_adj = oom_score_adj x, oom_score_adj_min = oom_score_adj_min x\<rparr>"
    let ?s = "(upd_task p (\<lambda>t. t\<lparr>signal := Some a\<rparr>) s)\<lparr>signal_tab := (signal_tab s)(a \<mapsto> sig)\<rparr>"
    have a: "signal_tab s a = None" using ct(5) new by (simp add: refs_ok_def)
    have "building env c p 4 io ?s" using ct old a refs_ok_mono [OF ct(5), of 4] by (auto simp: building_def refs_ok_def)
    then show ?thesis
      by (intro stage_doneI [where s' = ?s] signal_undone [where x = a and sig = sig and s' = ?s])
        (use new ct(2,3) old a in \<open>simp_all add: copy_signal_def sig_def\<close>)
  qed
qed

lemma dup_mm_cases:
  assumes "\<And>a. new_mm env = Some a \<Longrightarrow> mm_tab s a = None"
  shows "dup_mm env s = Some (None, s) \<or>
    (\<exists>a. new_mm env = Some a \<and> dup_mm env s = Some (Some a, s\<lparr>mm_tab := (mm_tab s)(a \<mapsto> 1)\<rparr>))"
proof (cases "new_mm env")
  case (Some a)
  have "mmput a (s\<lparr>mm_tab := (mm_tab s)(a \<mapsto> 1)\<rparr>) = Some s"
    using assms [OF Some] by (simp add: mmput_def put_new_ref)
  then show ?thesis using Some by (simp add: dup_mm_def Let_def)
qed (simp add: dup_mm_def)

lemma mm_undone:
  assumes "agree p c 5 s' t" "tasks s' p = Some pt'" "mm pt' = m" "\<forall>g\<in>set (take 4 parts). g pt' = g pt" "tasks s p = Some pt"
    "forget p c s' = (forget p c s)\<lparr>mm_tab := mm_tab s'\<rparr>"
    "m = None \<longrightarrow> mm_tab s' = mm_tab s" "\<forall>x. m = Some x \<longrightarrow> put_ref (mm_tab s') x = Some (mm_tab s)"
  shows "\<exists>v. bad_fork_cleanup_mm p t = Some v \<and> agree p c 4 s v"
proof -
  obtain y where y: "tasks t p = Some y" "mm y = m" "files y = files pt" "fs y = fs pt" "sighand y = sighand pt" "signal y = signal pt"
    using agree_child [OF assms(1,2)] assms(3,4) by (auto simp: parts_eval)
  have "bad_fork_cleanup_mm p t = Some (t\<lparr>mm_tab := mm_tab s\<rparr>)"
    using y(1,2) agree_tables(5) [OF assms(1)] assms(7,8) by (cases m) (simp_all add: bad_fork_cleanup_mm_def mmput_def)
  moreover have "forget p c t = (forget p c s)\<lparr>mm_tab := mm_tab s'\<rparr>" using assms(1,6) by (simp add: agree_def)
  ultimately show ?thesis using y assms(5) by (auto intro!: agree_undone simp: parts_eval)
qed

text \<open>The child after \<open>copy_mm\<close>, with descriptor \<open>m\<close>.\<close>

definition with_mm :: "task_ptr \<Rightarrow> nat option \<Rightarrow> (nat \<Rightarrow> int option) \<Rightarrow> kst \<Rightarrow> kst" where
  "with_mm p m tab s = (upd_task p (\<lambda>t. t\<lparr>min_flt := 0, maj_flt := 0, nvcsw := 0, nivcsw := 0, mm := m, active_mm := m\<rparr>) s)\<lparr>mm_tab := tab\<rparr>"

lemma copy_mm_cases:
  assumes "p \<noteq> c" "tasks s c = Some ct" "tasks s p = Some pt" "refs_ok env 4 ct s"
  obtains (fails) "copy_mm env fl c p s = Some (Some ENOMEM, with_mm p None (mm_tab s) s)"
  | (succeeds) m tab where "copy_mm env fl c p s = Some (None, with_mm p m tab s)"
      "m = None \<longrightarrow> tab = mm_tab s" "\<forall>x. m = Some x \<longrightarrow> put_ref tab x = Some (mm_tab s)"
proof -
  let ?z = "with_mm p None (mm_tab s) s"
  have z: "upd_task p (\<lambda>t. t\<lparr>min_flt := 0, maj_flt := 0, nvcsw := 0, nivcsw := 0, mm := None, active_mm := None\<rparr>) s = ?z"
    by (simp add: with_mm_def upd_task_def)
  have fresh: "mm_tab ?z a = None" if "new_mm env = Some a" for a using assms(4) that by (simp add: refs_ok_def with_mm_def)
  consider (none) "mm ct = None" | (share) old where "mm ct = Some old" "CLONE_VM \<in> fl" | (dup) old where "mm ct = Some old" "CLONE_VM \<notin> fl"
    by (cases "mm ct") auto
  then show thesis
  proof cases
    case none
    then have "copy_mm env fl c p s = Some (None, ?z)" unfolding copy_mm_def z using assms(1,2) by (simp add: with_mm_def)
    then show thesis by (rule that(2)) simp_all
  next
    case (share old)
    then obtain m where m: "mm_tab s old = Some m" "1 \<le> m" using assms(4) by (auto simp: refs_ok_def)
    then have g: "get_ref (mm_tab s) old = Some ((mm_tab s)(old \<mapsto> m + 1))" by (simp add: get_ref_def)
    then have "copy_mm env fl c p s = Some (None, with_mm p (Some old) ((mm_tab s)(old \<mapsto> m + 1)) s)"
      unfolding copy_mm_def using assms(1-3) share by (simp add: with_mm_def mmget_def upd_task_def)
    then show thesis by (rule that(2)) (simp_all add: put_get_ref [OF g m])
  next
    case (dup old)
    consider "dup_mm env ?z = Some (None, ?z)"
      | a where "new_mm env = Some a" "dup_mm env ?z = Some (Some a, ?z\<lparr>mm_tab := (mm_tab ?z)(a \<mapsto> 1)\<rparr>)"
      using dup_mm_cases [of env ?z] fresh by blast
    then show thesis
    proof cases
      case 1 then show thesis using assms(1,2) dup by (intro that(1)) (unfold copy_mm_def z, simp add: with_mm_def)
    next
      case (2 a)
      have "copy_mm env fl c p s = Some (None, with_mm p (Some a) ((mm_tab s)(a \<mapsto> 1)) s)"
        unfolding copy_mm_def z using assms(1-3) dup 2(2) by (simp add: with_mm_def upd_task_def)
      then show thesis by (rule that(2)) (use fresh [OF 2(1)] in \<open>simp_all add: put_new_ref with_mm_def\<close>)
    qed
  qed
qed

lemma undoes_mm:
  "undoes p c (building env c p 4 io, 4) (copy_mm env fl c p) (building env c p 5 io, 5) (bad_fork_cleanup_mm p)"
proof (rule undoesI)
  fix s assume b: "building env c p 4 io s"
  obtain ct pt where ct: "p \<noteq> c" "tasks s c = Some ct" "tasks s p = Some pt" "tasks s (group_leader ct) \<noteq> None"
      "refs_ok env 4 ct s" "io \<longrightarrow> io_context pt = None"
    using b unfolding building_def by (simp del: not_None_eq) blast
  from ct(1,2,3,5) show "stage_done p c 4 s (building env c p 5 io, 5) (bad_fork_cleanup_mm p) (copy_mm env fl c p s)"
  proof (cases rule: copy_mm_cases [where fl = fl])
    case fails
    then show ?thesis using ct(3) by (auto intro!: agree_undone simp: with_mm_def parts_eval)
  next
    case (succeeds m tab)
    have "building env c p 5 io (with_mm p m tab s)"
      using ct refs_ok_mono [OF ct(5), of 5] by (auto simp: building_def refs_ok_def with_mm_def)
    moreover obtain pt' where "tasks (with_mm p m tab s) p = Some pt'" "mm pt' = m" "\<forall>g\<in>set (take 4 parts). g pt' = g pt"
      using ct(3) by (simp add: with_mm_def parts_eval)
    ultimately show ?thesis using succeeds ct(3)
      by (intro stage_doneI [where s' = "with_mm p m tab s"] mm_undone [where m = m and s' = "with_mm p m tab s"]) (simp_all add: with_mm_def)
  qed
qed

lemma undoes_io:
  "undoes p c (building env c p 5 True, 5) (copy_io env fl c p) (building env c p 6 True, 6) (bad_fork_cleanup_io p)"
proof (rule undoesI)
  fix s assume b: "building env c p 5 True s"
  obtain ct pt where ct: "p \<noteq> c" "tasks s c = Some ct" "tasks s p = Some pt" "tasks s (group_leader ct) \<noteq> None"
      "refs_ok env 5 ct s" "io_context pt = None"
    using b unfolding building_def by (simp del: not_None_eq) blast
  have none: "\<exists>v. bad_fork_cleanup_io p t = Some v \<and> agree p c 5 s v" if a: "agree p c 6 s t" for t
  proof -
    obtain y where "tasks t p = Some y" "io_context y = None"
      using agree_child [OF a ct(3)] ct(6) by (auto simp: parts_def eval_nat_numeral)
    then have "bad_fork_cleanup_io p t = Some t" by (simp add: bad_fork_cleanup_io_def)
    moreover have "agree p c 5 s t" using a by (auto simp: agree_def parts_def eval_nat_numeral)
    ultimately show ?thesis by blast
  qed
  have some: "\<exists>v. bad_fork_cleanup_io p t = Some v \<and> agree p c 5 s v"
    if a: "agree p c 6 (upd_task p (\<lambda>t. t\<lparr>io_context := Some i\<rparr>) (acquire Io s)) t" for t i
  proof -
    obtain y where y: "tasks t p = Some y" "io_context y = Some i" "files y = files pt" "fs y = fs pt"
        "sighand y = sighand pt" "signal y = signal pt" "mm y = mm pt"
      using agree_child [OF a, of "pt\<lparr>io_context := Some i\<rparr>"] ct(3) by (auto simp: parts_def eval_nat_numeral acquire_def)
    have "held t = Io # held s" using agree_tables(6) [OF a] by (simp add: acquire_def)
    then have "bad_fork_cleanup_io p t = Some (t\<lparr>held := held s\<rparr>)"
      using y by (simp add: bad_fork_cleanup_io_def release_def)
    moreover have "forget p c t = (forget p c s)\<lparr>held := Io # held s\<rparr>"
      using a by (simp add: agree_def acquire_def)
    ultimately show ?thesis using y ct(3) by (auto intro!: agree_undone simp: parts_def eval_nat_numeral)
  qed
  have bld: "building env c p 6 True (upd_task p (\<lambda>t. t\<lparr>io_context := Some i\<rparr>) (acquire Io s))" for i
    using ct refs_ok_mono [OF ct(5), of 6] by (auto simp: building_def refs_ok_def acquire_def)
  show "stage_done p c 5 s (building env c p 6 True, 6) (bad_fork_cleanup_io p) (copy_io env fl c p s)"
    using ct(2) none some bld building_mono [OF b, of 6]
    by (cases "io_context ct"; cases "CLONE_IO \<in> fl"; cases "ioprio_valid env"; cases "new_io env")
      (simp_all add: copy_io_def stage_done_def)
qed

text \<open>The steps that take one resource and change only the child.\<close>

lemma undoes_take:
  assumes f: "\<And>s. pre s \<Longrightarrow> \<exists>h. f s = Some (None, upd_task p h (acquire r s)) \<and> post (upd_task p h (acquire r s)) \<and>
      (\<forall>g \<in> set (take n parts). \<forall>x. g (h x) = g x)"
    and p: "\<And>s. pre s \<Longrightarrow> tasks s p \<noteq> None"
  shows "undoes p c (pre, n) f (post, n) (release r)"
  unfolding undoes_def prod.case
proof (intro allI impI)
  fix s assume pre: "pre s"
  obtain h where h: "f s = Some (None, upd_task p h (acquire r s))" "post (upd_task p h (acquire r s))"
      "\<forall>g \<in> set (take n parts). \<forall>x. g (h x) = g x"
    using f [OF pre] by blast
  obtain pt where pt: "tasks s p = Some pt" using p [OF pre] by blast
  have "\<exists>v. release r t = Some v \<and> agree p c n s v" if a: "agree p c n (upd_task p h (acquire r s)) t" for t
  proof -
    obtain y where y: "tasks t p = Some y" "\<forall>g \<in> set (take n parts). g y = g (h pt)"
      using agree_child [OF a, of "h pt"] pt by (auto simp: acquire_def)
    have "held t = r # held s" using agree_tables(6) [OF a] by (simp add: acquire_def)
    then have "release r t = Some (t\<lparr>held := held s\<rparr>)" by (simp add: release_def)
    moreover have "forget p c t = (forget p c s)\<lparr>held := r # held s\<rparr>"
      using a by (simp add: agree_def acquire_def)
    moreover have "\<forall>g \<in> set (take n parts). g pt = g y" using y(2) h(3) by metis
    ultimately show ?thesis using y(1) pt by (auto intro!: agree_undone)
  qed
  with h(1,2) show "\<exists>ra s'. f s = Some (ra, s') \<and>
      (case ra of None \<Rightarrow> post s' \<and> (\<forall>t. agree p c n s' t \<longrightarrow> (\<exists>v. release r t = Some v \<and> agree p c n s v))
       | Some _ \<Rightarrow> agree p c n s s')" by auto
qed

lemma undoes_reset:
  "undoes p c (building env c p 0 False, 0) (reset_step p) (building env c p 0 True, 0) (release Delayacct)"
proof (rule undoes_take)
  fix s assume b: "building env c p 0 False s"
  then show "tasks s p \<noteq> None" by (auto simp: building_def)
  let ?h = "\<lambda>t :: task_struct. t\<lparr>flags := (flags t AND NOT (PF_SUPERPRIV OR PF_WQ_WORKER OR PF_IDLE)) OR PF_FORKNOEXEC,
     children := [], vfork_done := None, utime := 0, stime := 0, gtime := 0, io_context := None\<rparr>"
  have "building env c p 0 True (upd_task p ?h (acquire Delayacct s))"
    using b by (auto simp: building_def refs_ok_def acquire_def)
  then show "\<exists>h. reset_step p s = Some (None, upd_task p h (acquire Delayacct s)) \<and>
      building env c p 0 True (upd_task p h (acquire Delayacct s)) \<and> (\<forall>g \<in> set (take 0 parts). \<forall>x. g (h x) = g x)"
    unfolding reset_step_def by (intro exI [of _ ?h]) simp
qed

lemma undoes_ids:
  "undoes p c (building env c p 6 True, 6) (ids_step env fl idle c p) (building env c p 6 True, 6) (release Threadgroup_change)"
proof (rule undoes_take)
  fix s assume b: "building env c p 6 True s"
  then show "tasks s p \<noteq> None" by (auto simp: building_def)
  obtain ct where ct: "p \<noteq> c" "tasks s c = Some ct" using b by (auto simp: building_def)
  let ?n = "snd (pid_of env idle)"
  let ?h = "\<lambda>t :: task_struct. t\<lparr>pid := ?n, group_leader := (if CLONE_THREAD \<in> fl then group_leader ct else p),
       tgid := (if CLONE_THREAD \<in> fl then tgid ct else ?n), pdeath_signal := 0, thread_group := []\<rparr>"
  have "ids_step env fl idle c p s = Some (None, upd_task p ?h (acquire Threadgroup_change s))"
    using ct by (simp add: ids_step_def Let_def acquire_def upd_task_def)
  moreover have "building env c p 6 True (upd_task p ?h (acquire Threadgroup_change s))"
    using b ct by (auto simp: building_def refs_ok_def acquire_def)
  moreover have "\<forall>g \<in> set (take 6 parts). \<forall>x. g (?h x) = g x" by (simp add: parts_def)
  ultimately show "\<exists>h. ids_step env fl idle c p s = Some (None, upd_task p h (acquire Threadgroup_change s)) \<and>
      building env c p 6 True (upd_task p h (acquire Threadgroup_change s)) \<and>
      (\<forall>g \<in> set (take 6 parts). \<forall>x. g (h x) = g x)" by blast
qed

lemma undoes_pid: "undoes p c (building env c p 6 True, 6) (pid_step env idle) (building env c p 6 True, 6) (bad_fork_free_pid idle)"
proof (cases idle)
  case True
  have "undoes p c (building env c p 6 True, 6) (pid_step env idle) (building env c p 6 True, 6) Some"
    by (rule undoes_test [where e = "\<lambda>s. None"]) (simp_all add: pid_step_def True)
  moreover have "bad_fork_free_pid idle = Some" using True by (simp add: fun_eq_iff bad_fork_free_pid_def)
  ultimately show ?thesis by simp
next
  case False
  have "pid_step env idle = ext_step (case alloc_pid_result env of Inr e \<Rightarrow> Some e | Inl _ \<Rightarrow> None) Pid"
    using False by (auto simp: fun_eq_iff pid_step_def ext_step_def split: sum.splits)
  moreover have "bad_fork_free_pid idle = release Pid" using False by (simp add: fun_eq_iff bad_fork_free_pid_def)
  ultimately show ?thesis by (simp add: undoes_ext)
qed

lemma undoes_pidfd: "undoes p c (building env c p 6 True, 6) (pidfd_step env fl) (building env c p 6 True, 6) (bad_fork_put_pidfd fl)"
proof (cases "CLONE_PIDFD \<in> fl")
  case False
  have "undoes p c (building env c p 6 True, 6) (pidfd_step env fl) (building env c p 6 True, 6) Some"
    by (rule undoes_test [where e = "\<lambda>s. None"]) (simp_all add: pidfd_step_def False)
  moreover have "bad_fork_put_pidfd fl = Some" using False by (simp add: fun_eq_iff bad_fork_put_pidfd_def)
  ultimately show ?thesis by simp
next
  case True
  let ?f = "ext_step (case unused_fd_err env of Some e \<Rightarrow> Some e | None \<Rightarrow> pidfile_err env)"
  have "pidfd_step env fl s = (case ?f Pidfile s of Some (None, _) \<Rightarrow> Some (None, acquire Pidfile (acquire Unused_fd s)) | x \<Rightarrow> x)" for s
    using True by (auto simp: pidfd_step_def ext_step_def release_def acquire_def split: option.splits)
  moreover have "bad_fork_put_pidfd fl t = Option.bind (release Pidfile t) (release Unused_fd)" for t
    using True by (simp add: bad_fork_put_pidfd_def)
  moreover have "\<exists>v. Option.bind (release Pidfile t) (release Unused_fd) = Some v \<and> agree p c 6 s v"
    if "agree p c 6 (acquire Pidfile (acquire Unused_fd s)) t" for s t
    using release_agree [OF that] release_agree [of p c 6 Unused_fd s] by fastforce
  ultimately show ?thesis
    by (auto simp: undoes_def ext_step_def split: option.splits)
qed

definition release_locks :: "kst \<Rightarrow> kst option" where
  "release_locks s = Option.bind (release Siglock s) (release Tasklist_lock)"

lemma undoes_parent:
  "undoes p c (building env c p 6 True, 6) (parent_step env args c p) (building env c p 6 True, 6) release_locks"
  unfolding undoes_def prod.case
proof (intro allI impI)
  fix s assume b: "building env c p 6 True s"
  obtain ct pt where ct: "p \<noteq> c" "tasks s c = Some ct" "tasks s p = Some pt" using b by (auto simp: building_def)
  obtain ld where ld: "tasks s (group_leader ct) = Some ld" using b ct by (auto simp: building_def)
  obtain h where h: "parent_step env args c p s = Some (None, upd_task p h (acquire Siglock (acquire Tasklist_lock s)))"
      "\<And>g x. g \<in> set parts \<Longrightarrow> g (h x) = g x" "\<And>x. io_context (h x) = io_context x"
  proof -
    define h where "h = (\<lambda>t :: task_struct. rseq_fork ct (CLONE_VM \<in> args_flags args)
      ((\<lambda>t. if CLONE_PARENT \<in> args_flags args \<or> CLONE_THREAD \<in> args_flags args
       then t\<lparr>real_parent := real_parent ct, parent_exec_id := parent_exec_id ct,
              exit_signal := (if CLONE_THREAD \<in> args_flags args then -1 else exit_signal ld)\<rparr>
       else t\<lparr>real_parent := c, parent_exec_id := self_exec_id ct, exit_signal := args_exit_signal args\<rparr>)
       (t\<lparr>start_time := now env, real_start_time := now env\<rparr>)))"
    have "parent_step env args c p s = Some (None, upd_task p h (acquire Siglock (acquire Tasklist_lock s)))"
      using ct ld by (simp add: parent_step_def Let_def upd_task_def acquire_def h_def)
    moreover have "g (h x) = g x" if "g \<in> set parts" for g x
      using that by (auto simp: parts_def h_def rseq_fork_def)
    moreover have "io_context (h x) = io_context x" for x by (simp add: h_def rseq_fork_def)
    ultimately show thesis by (rule that)
  qed
  let ?s = "upd_task p h (acquire Siglock (acquire Tasklist_lock s))"
  have "building env c p 6 True ?s"
    using b ct by (auto simp: building_def refs_ok_def acquire_def)
  moreover have "\<exists>v. release_locks t = Some v \<and> agree p c 6 s v" if a: "agree p c 6 ?s t" for t
  proof -
    obtain y where y: "tasks t p = Some y" "\<forall>g \<in> set parts. g y = g pt"
      using agree_child [OF a, of "h pt"] ct h(2) by (auto simp: acquire_def parts_def)
    have "held t = Siglock # Tasklist_lock # held s" using agree_tables(6) [OF a] by (simp add: acquire_def)
    then have "release_locks t = Some (t\<lparr>held := held s\<rparr>)" by (simp add: release_locks_def release_def)
    moreover have "forget p c t = (forget p c s)\<lparr>held := Siglock # Tasklist_lock # held s\<rparr>"
      using a by (simp add: agree_def acquire_def)
    ultimately show ?thesis using y ct by (auto intro!: agree_undone simp: parts_def)
  qed
  ultimately show "\<exists>r s'. parent_step env args c p s = Some (r, s') \<and>
      (case r of None \<Rightarrow> building env c p 6 True s' \<and> (\<forall>t. agree p c 6 s' t \<longrightarrow> (\<exists>v. release_locks t = Some v \<and> agree p c 6 s v))
       | Some _ \<Rightarrow> agree p c 6 s s')" using h(1) by auto
qed

lemma undoes_collect:
  "undoes p c (startable env c p, 0) (collect_signals fl c) (startable env c p, 0) (add_delayed fl (-1) c)"
  unfolding undoes_def prod.case
proof (intro allI impI)
  fix s assume b: "startable env c p s"
  obtain ct where ct: "p \<noteq> c" "tasks s p = None" "tasks s c = Some ct" "tasks s (group_leader ct) \<noteq> None" "refs_ok env 0 ct s"
    using b by (auto simp: startable_def)
  obtain a x where a: "signal ct = Some a" "signal_tab s a = Some x" using ct(5) by (auto simp: refs_ok_def)
  show "\<exists>r s'. collect_signals fl c s = Some (r, s') \<and>
      (case r of None \<Rightarrow> startable env c p s' \<and> (\<forall>t. agree p c 0 s' t \<longrightarrow> (\<exists>v. add_delayed fl (-1) c t = Some v \<and> agree p c 0 s v))
       | Some _ \<Rightarrow> agree p c 0 s s')"
  proof (cases "CLONE_THREAD \<in> fl")
    case True
    then show ?thesis using b by (auto simp: collect_signals_def add_delayed_def)
  next
    case False
    let ?tab = "(signal_tab s)(a \<mapsto> x\<lparr>multiprocess := Suc (multiprocess x)\<rparr>)"
    have "collect_signals fl c s = Some (None, s\<lparr>signal_tab := ?tab\<rparr>)"
      using False ct(3) a by (simp add: collect_signals_def add_delayed_def Let_def nat_add_distrib)
    moreover have "startable env c p (s\<lparr>signal_tab := ?tab\<rparr>)"
      using ct a by (auto simp: startable_def refs_ok_def)
    moreover have "\<exists>v. add_delayed fl (-1) c t = Some v \<and> agree p c 0 s v" if g: "agree p c 0 (s\<lparr>signal_tab := ?tab\<rparr>) t" for t
    proof -
      obtain y where y: "tasks t c = Some y" "signal y = Some a"
        using agree_current [OF g ct(1)] ct(3) a(1) clear_nproc_signal by (metis kst.select_convs(1) kst.update_convs(5) kst.surjective)
      have "(signal_tab s)(a \<mapsto> x) = signal_tab s" using a(2) by (rule fun_upd_idem)
      then have "add_delayed fl (-1) c t = Some (t\<lparr>signal_tab := signal_tab s\<rparr>)"
        using False y agree_tables(4) [OF g] by (simp add: add_delayed_def Let_def)
      moreover have "forget p c t = (forget p c s)\<lparr>signal_tab := ?tab\<rparr>" using g by (simp add: agree_def)
      moreover have "tasks t p = None" using g ct(2) by (simp add: agree_def)
      ultimately show ?thesis using ct(2) by (simp add: agree_def)
    qed
    ultimately show ?thesis by auto
  qed
qed

lemma undoes_dup:
  assumes p: "p = (case new_task env of None \<Rightarrow> 0 | Some p \<Rightarrow> p)"
  shows "undoes p c (startable env c p, 0) (dup_step env args c) (building env c p 0 False, 0) (bad_fork_free p)"
  unfolding undoes_def prod.case
proof (intro allI impI)
  fix s assume b: "startable env c p s"
  obtain ct where ct: "p \<noteq> c" "tasks s p = None" "tasks s c = Some ct" "tasks s (group_leader ct) \<noteq> None" "refs_ok env 0 ct s"
    using b by (auto simp: startable_def)
  have pn: "(tasks s)(p := None) = tasks s" using ct(2) by (rule fun_upd_idem)
  let ?ids = "\<lambda>t :: task_struct. t\<lparr>set_child_tid := (if CLONE_CHILD_SETTID \<in> args_flags args then args_child_tid args else None),
           clear_child_tid := (if CLONE_CHILD_CLEARTID \<in> args_flags args then args_child_tid args else None)\<rparr>"
  let ?s = "\<lambda>x. (acquire Stack s)\<lparr>tasks := (tasks s)(p \<mapsto> x)\<rparr>"
  consider (fail) "dup_step env args c s = Some (Some ENOMEM, s)"
    | (ok) st where "dup_step env args c s = Some (None, ?s (?ids (ct\<lparr>stack := Some st, usage := 1\<rparr>)))"
  proof (cases "new_task env = None \<or> new_stack env = None \<or> memcg_charge_err env \<noteq> None \<or> arch_dup_err env \<noteq> None")
    case True
    have "dup_step env args c s = Some (Some ENOMEM, s)"
      using True ct(3) pn p
      by (auto simp: dup_step_def dup_task_struct_def acquire_def release_def Let_def split: option.splits)
    then show thesis by (rule fail)
  next
    case False
    then obtain st where "new_task env = Some p" "new_stack env = Some st" "memcg_charge_err env = None" "arch_dup_err env = None"
      using p by auto
    then have "dup_step env args c s = Some (None, ?s (?ids (ct\<lparr>stack := Some st, usage := 1\<rparr>)))"
      using ct(3) by (simp add: dup_step_def dup_task_struct_def acquire_def upd_task_def Let_def)
    then show thesis by (rule ok)
  qed
  then show "\<exists>r s'. dup_step env args c s = Some (r, s') \<and>
      (case r of None \<Rightarrow> building env c p 0 False s' \<and> (\<forall>t. agree p c 0 s' t \<longrightarrow> (\<exists>v. bad_fork_free p t = Some v \<and> agree p c 0 s v))
       | Some _ \<Rightarrow> agree p c 0 s s')"
  proof cases
    case fail
    then show ?thesis by simp
  next
    case (ok st)
    let ?x = "?ids (ct\<lparr>stack := Some st, usage := 1\<rparr>)"
    have "building env c p 0 False (?s ?x)"
      using ct by (auto simp: building_def refs_ok_def acquire_def)
    moreover have "\<exists>v. bad_fork_free p t = Some v \<and> agree p c 0 s v" if g: "agree p c 0 (?s ?x) t" for t
    proof -
      obtain y where y: "tasks t p = Some y" using agree_child [OF g, of ?x] by auto
      have "held t = Stack # held s" using agree_tables(6) [OF g] by (simp add: acquire_def)
      then have "bad_fork_free p t = Some (t\<lparr>held := held s, tasks := (tasks t)(p := None)\<rparr>)"
        using y by (simp add: bad_fork_free_def put_task_stack_def free_task_def release_def upd_task_def)
      moreover have "forget p c (?s ?x) = (forget p c s)\<lparr>held := Stack # held s\<rparr>"
        using ct(1) by (simp add: forget_def acquire_def fun_upd_twist [of p c])
      then have "forget p c t = (forget p c s)\<lparr>held := Stack # held s\<rparr>"
        using g by (simp add: agree_def)
      then have "agree p c 0 s (t\<lparr>held := held s, tasks := (tasks t)(p := None)\<rparr>)"
        using ct(2) forget_upds(9) [of p c "t\<lparr>held := held s\<rparr>" None] by (simp add: agree_def)
      ultimately show ?thesis by blast
    qed
    ultimately show ?thesis using ok by (intro exI [of _ None] exI [of _ "?s ?x"]) simp
  qed
qed

lemma undoes_creds:
  "undoes p c (building env c p 0 False, 0) (creds_step env c) (building env c p 0 False, 0) bad_fork_cleanup_count"
  unfolding undoes_def prod.case
proof (intro allI impI)
  fix s assume b: "building env c p 0 False s"
  obtain ct pt where ct: "p \<noteq> c" "tasks s c = Some ct" "tasks s p = Some pt" using b by (auto simp: building_def)
  let ?s = "upd_task c clear_nproc s"
  have step: "creds_step env c s = Some (case copy_creds_err env of Some e \<Rightarrow> (Some e, ?s)
       | None \<Rightarrow> (None, acquire Creds (?s\<lparr>user_processes := user_processes s + 1\<rparr>)))"
    by (simp add: creds_step_def clear_nproc_def [abs_def] split: option.splits)
  have bld: "building env c p 0 False (?s\<lparr>user_processes := n\<rparr>)" for n
  proof -
    obtain ct' pt' where "tasks s c = Some ct'" "tasks s p = Some pt'" "tasks s (group_leader ct') \<noteq> None"
      "refs_ok env 0 ct' s" "files pt' = files ct'" "fs pt' = fs ct'" "sighand pt' = sighand ct'"
      using b unfolding building_def by (simp del: not_None_eq) blast
    then show ?thesis using ct(1) by (auto simp: building_def refs_ok_def clear_nproc_def)
  qed
  have "agree p c 0 s ?s" using ct by (simp add: agree_def)
  moreover have "\<exists>v. bad_fork_cleanup_count t = Some v \<and> agree p c 0 s v"
    if g: "agree p c 0 (acquire Creds (?s\<lparr>user_processes := user_processes s + 1\<rparr>)) t" for t
  proof -
    have "held t = Creds # held s" "user_processes t = user_processes s + 1"
      using agree_tables(6,7) [OF g] by (simp_all add: acquire_def)
    then have "bad_fork_cleanup_count t = Some (t\<lparr>user_processes := user_processes s, held := held s\<rparr>)"
      by (simp add: bad_fork_cleanup_count_def release_def)
    moreover have "forget p c t = (forget p c s)\<lparr>user_processes := user_processes s + 1, held := Creds # held s\<rparr>"
      using g ct(1) by (simp add: agree_def acquire_def)
    moreover have "tasks t p \<noteq> None" using g ct by (auto simp: agree_def acquire_def)
    ultimately show ?thesis using ct(3) by (auto simp: agree_def)
  qed
  ultimately show "\<exists>r s'. creds_step env c s = Some (r, s') \<and>
      (case r of None \<Rightarrow> building env c p 0 False s' \<and> (\<forall>t. agree p c 0 s' t \<longrightarrow> (\<exists>v. bad_fork_cleanup_count t = Some v \<and> agree p c 0 s v))
       | Some _ \<Rightarrow> agree p c 0 s s')"
    unfolding step using bld by (cases "copy_creds_err env") simp_all
qed

section \<open>The stages of copy\_process\<close>

definition fork_stages :: "fork_env \<Rightarrow> kernel_clone_args \<Rightarrow> bool \<Rightarrow> task_ptr \<Rightarrow> task_ptr \<Rightarrow> stage list" where
  "fork_stages env args idle c p = (let fl = args_flags args; st = startable env c p; bu = building env c p in
   [((st, 0), None, collect_signals fl c, add_delayed fl (-1) c),
    ((st, 0), Some Fork_out, check_pending env, Some),
    ((st, 0), Some Fork_out, dup_step env args c, bad_fork_free p),
    ((bu 0 False, 0), Some Free, nproc_step env, Some),
    ((bu 0 False, 0), Some Free, creds_step env c, bad_fork_cleanup_count),
    ((bu 0 False, 0), Some Cleanup_count, limit_step, Some),
    ((bu 0 False, 0), None, reset_step p, release Delayacct),
    ((bu 0 True, 0), Some Cleanup_threadgroup_lock, ext_step (mpol_dup_err env) Mempolicy, release Mempolicy),
    ((bu 0 True, 0), Some Cleanup_policy, \<lambda>s. Some (sched_fork_err env, s), Some),
    ((bu 0 True, 0), Some Cleanup_policy, ext_step (perf_err env) Perf, release Perf),
    ((bu 0 True, 0), Some Cleanup_perf, ext_step (audit_err env) Audit, release Audit),
    ((bu 0 True, 0), Some Cleanup_audit, ext_step (security_err env) Security, release Security),
    ((bu 0 True, 0), Some Cleanup_security, ext_step (semundo_err env) Semundo, release Semundo),
    ((bu 0 True, 0), Some Cleanup_semundo, copy_files env fl c p, exit_files env p),
    ((bu 1 True, 1), Some Cleanup_files, copy_fs env fl c p, exit_fs env p),
    ((bu 2 True, 2), Some Cleanup_fs, copy_sighand env fl c p, bad_fork_cleanup_sighand p),
    ((bu 3 True, 3), Some Cleanup_sighand, copy_signal env fl c p, bad_fork_cleanup_signal fl p),
    ((bu 4 True, 4), Some Cleanup_signal, copy_mm env fl c p, bad_fork_cleanup_mm p),
    ((bu 5 True, 5), Some Cleanup_mm, ext_step (namespaces_err env) Namespaces, release Namespaces),
    ((bu 5 True, 5), Some Cleanup_namespaces, copy_io env fl c p, bad_fork_cleanup_io p),
    ((bu 6 True, 6), Some Cleanup_io, ext_step (thread_err env) Thread, release Thread),
    ((bu 6 True, 6), Some Cleanup_thread, pid_step env idle, bad_fork_free_pid idle),
    ((bu 6 True, 6), Some Free_pid, pidfd_step env fl, bad_fork_put_pidfd fl),
    ((bu 6 True, 6), Some Put_pidfd, put_pidfd_step env fl, Some),
    ((bu 6 True, 6), None, ids_step env fl idle c p, release Threadgroup_change),
    ((bu 6 True, 6), Some Threadgroup_change_end, ext_step (cgroup_err env) Cgroup, release Cgroup),
    ((bu 6 True, 6), None, parent_step env args c p, release_locks),
    ((bu 6 True, 6), Some Cancel_cgroup, alive_step env, Some)])"

lemma stage_steps_fork: "stage_steps (fork_stages env args idle c p) = fork_steps env args idle c p"
  by (simp add: stage_steps_def fork_stages_def fork_steps_def Let_def)

lemma undoes_checks:
  "undoes p c (q, n) (check_pending env) (q, n) Some" "undoes p c (q, n) (nproc_step env) (q, n) Some"
  "undoes p c (q, n) limit_step (q, n) Some" "undoes p c (q, n) (\<lambda>s. Some (e, s)) (q, n) Some"
  "undoes p c (q, n) (put_pidfd_step env fl) (q, n) Some" "undoes p c (q, n) (alive_step env) (q, n) Some"
  by (rule undoes_test; auto simp: check_pending_def nproc_step_def limit_step_def put_pidfd_step_def alive_step_def)+

lemma label_ok_simps [simp]:
  "label_ok (Some l) f" "label_ok None (collect_signals fl c)" "label_ok None (reset_step p)"
  "label_ok None (ids_step env fl idle c p)" "label_ok None (parent_step env args c p)"
  by (auto simp: label_ok_def collect_signals_def reset_step_def ids_step_def parent_step_def Let_def
      split: bind_splits)

lemma fork_stages_ok:
  assumes "p = (case new_task env of None \<Rightarrow> 0 | Some p \<Rightarrow> p)" "exit_files_ok env" "exit_fs_ok env"
  shows "stages_ok p c (fork_stages env args idle c p) (building env c p 6 True, 6)"
  unfolding fork_stages_def Let_def
  using undoes_dup [OF assms(1)]
  by (simp add: undoes_collect undoes_checks undoes_creds undoes_reset undoes_ext undoes_files [OF assms(2)]
      undoes_fs [OF assms(3)] undoes_sighand undoes_signal undoes_mm undoes_io undoes_pid undoes_pidfd
      undoes_ids undoes_parent del: One_nat_def)

lemma cancel_cgroup_eq: "bad_fork_cancel_cgroup s = Option.bind (release_locks s) (release Cgroup)"
  by (simp add: bad_fork_cancel_cgroup_def release_locks_def)

lemma undo_all_Cons: "undo_all (u # us) = (\<lambda>s. Option.bind (u s) (undo_all us))"
  by (simp add: fun_eq_iff)

lemma undo_all_simps:
  "undo_all (Some # us) = undo_all us"
  "undo_all (bad_fork_cancel_cgroup # us) = undo_all (release_locks # release Cgroup # us)"
  by (simp_all add: undo_all_Cons cancel_cgroup_eq)

lemma unwind_undo_all: "unwind us s = undo_all (map snd us) s"
proof (induction us arbitrary: s)
  case (Cons x us)
  then show ?case by (cases x; cases "snd x s") simp_all
qed simp

lemma ladder_undoes:
  assumes "k < length (fork_stages env args idle c p)" "fst (snd (fork_stages env args idle c p ! k)) = Some l"
  shows "goto_label l (ladder env (args_flags args) idle c p) s =
    undo_all (rev (take k (stage_undos (fork_stages env args idle c p)))) s"
proof -
  have "length (fork_stages env args idle c p) = 28" by (simp add: fork_stages_def Let_def)
  then have "k = 0 \<or> k = 1 \<or> k = 2 \<or> k = 3 \<or> k = 4 \<or> k = 5 \<or> k = 6 \<or> k = 7 \<or> k =
      8 \<or> k = 9 \<or> k = 10 \<or> k = 11 \<or> k = 12 \<or> k = 13 \<or> k = 14 \<or> k = 15 \<or> k
      = 16 \<or> k = 17 \<or> k = 18 \<or> k = 19 \<or> k = 20 \<or> k = 21 \<or> k = 22 \<or> k = 23
      \<or> k = 24 \<or> k = 25 \<or> k = 26 \<or> k = 27"
    using assms(1) by arith
  then show ?thesis
    using assms(2)
    by (elim disjE; clarsimp simp: fork_stages_def Let_def stage_undos_def goto_label_def ladder_def
        unwind_undo_all undo_all_simps undo_all_Cons cancel_cgroup_eq simp del: undo_all.simps unwind.simps)
qed

lemma copy_process_run:
  assumes "p = (case new_task env of None \<Rightarrow> 0 | Some p \<Rightarrow> p)" "startable env c p s"
    and "exit_files_ok env" "exit_fs_ok env"
    and "tasks s c = Some ct" "signal ct = Some a" "signal_tab s a = Some sig"
    and "clone_flags_err (args_flags args) (unkillable sig) (other_pid_ns env) = None"
  shows "(\<exists>s1. building env c p 6 True s1 \<and>
      copy_process env idle args c s = map_option (Pair (Inl p)) (publish env args idle c p s1)) \<or>
    (\<exists>er s'. copy_process env idle args c s = Some (Inr er, s') \<and> agree p c 0 s s')"
proof -
  let ?ss = "fork_stages env args idle c p"
  have ne: "?ss \<noteq> []" and hd: "fst (hd ?ss) = (startable env c p, 0)"
    by (simp_all add: fork_stages_def Let_def)
  have "(\<exists>s'. run_steps (stage_steps ?ss) s = Some (Inl s') \<and> building env c p 6 True s') \<or>
    (\<exists>k l er s'. k < length ?ss \<and> fst (snd (?ss ! k)) = Some l \<and> run_steps (stage_steps ?ss) s = Some (Inr (l, er, s')) \<and>
      (\<exists>v. undo_all (rev (take k (stage_undos ?ss))) s' = Some v \<and> agree p c 0 s v))"
    using run_or_unwind [OF fork_stages_ok [OF assms(1,3,4)] ne, of s] assms(2) by (simp add: hd)
  then consider s1 where "run_steps (fork_steps env args idle c p) s = Some (Inl s1)" "building env c p 6 True s1"
    | k l er s' v where "k < length ?ss" "fst (snd (?ss ! k)) = Some l"
      "run_steps (fork_steps env args idle c p) s = Some (Inr (l, er, s'))"
      "undo_all (rev (take k (stage_undos ?ss))) s' = Some v" "agree p c 0 s v"
    unfolding stage_steps_fork by blast
  then show ?thesis
  proof cases
    case 1
    then have "copy_process env idle args c s = map_option (Pair (Inl p)) (publish env args idle c p s1)"
      using assms(1,5-8) by (simp add: copy_process_def map_option_case Option.bind_def split: option.splits)
    with 1(2) show ?thesis by blast
  next
    case 2
    have "goto_label l (ladder env (args_flags args) idle c p) s' = Some v"
      using ladder_undoes [OF 2(1,2)] 2(4) by simp
    then have "copy_process env idle args c s = Some (Inr er, v)"
      using assms(1,5-8) 2(3) by (simp add: copy_process_def)
    with 2(5) show ?thesis by blast
  qed
qed

lemma copy_process_outcome:
  assumes "p = (case new_task env of None \<Rightarrow> 0 | Some p \<Rightarrow> p)" "startable env c p s"
    and "exit_files_ok env" "exit_fs_ok env"
  shows "case copy_process env idle args c s of
      Some (Inr er, s') \<Rightarrow> tasks s' p = None \<and> forget p c s' = forget p c s
    | r \<Rightarrow> \<exists>s1. building env c p 6 True s1 \<and> r = map_option (Pair (Inl p)) (publish env args idle c p s1)"
proof -
  obtain ct a sig where ct: "tasks s c = Some ct" "signal ct = Some a" "signal_tab s a = Some sig" "tasks s p = None"
    using assms(2) by (auto simp: startable_def refs_ok_def)
  show ?thesis
  proof (cases "clone_flags_err (args_flags args) (unkillable sig) (other_pid_ns env)")
    case (Some e)
    then show ?thesis using ct by (simp add: copy_process_def)
  next
    case None
    from copy_process_run [OF assms ct(1-3) None, of idle] show ?thesis
    proof (elim disjE exE conjE)
      fix s1
      assume s1: "building env c p 6 True s1"
        "copy_process env idle args c s = map_option (Pair (Inl p)) (publish env args idle c p s1)"
      then show ?thesis by (cases "publish env args idle c p s1") auto
    next
      fix er s'
      assume "copy_process env idle args c s = Some (Inr er, s')" "agree p c 0 s s'"
      then show ?thesis using ct(4) by (simp add: agree_def)
    qed
  qed
qed

section \<open>A failed call leaves no trace\<close>

text \<open>
  C2. \<open>copy_process\<close> never faults before the child is published, and when it reports an error,
  from a flag check, a full process table or any of its twenty-odd steps, the label that it
  jumps to undoes exactly the steps made so far: every reference count, resource, lock,
  counter, list and other task is as before the call, the new task is gone, and of the
  current task only the bit \<open>PF_NPROC_EXCEEDED\<close> may have been cleared.
\<close>

theorem copy_process_all_or_nothing:
  assumes "p = (case new_task env of None \<Rightarrow> 0 | Some p \<Rightarrow> p)" "startable env c p s"
    and "exit_files_ok env" "exit_fs_ok env"
  shows "case copy_process env idle args c s of
      Some (Inr er, s') \<Rightarrow> tasks s' p = None \<and> forget p c s' = forget p c s
    | r \<Rightarrow> \<exists>s1. building env c p 6 True s1 \<and> r = map_option (Pair (Inl p)) (publish env args idle c p s1)"
  using copy_process_outcome [OF assms] .

lemma exit_ok_drop:
  "exit_files env = drop_files \<Longrightarrow> exit_files_ok env" "exit_fs env = drop_fs \<Longrightarrow> exit_fs_ok env"
  by (auto simp: exit_files_ok_def exit_fs_ok_def drop_files_def drop_fs_def split: option.splits)

lemma startable_demo: "startable (demo_env\<lparr>thread_err := e\<rparr>) 2 3 demo_kst"
  by (simp add: startable_def refs_ok_def demo_defs)

theorem copy_process_all_or_nothing_witness:
  "case copy_process (demo_env\<lparr>thread_err := Some ENOMEM\<rparr>) False demo_args 2 demo_kst of
      Some (Inr er, s') \<Rightarrow> er = ENOMEM \<and> tasks s' 3 = None \<and> forget 3 2 s' = forget 3 2 demo_kst
    | r \<Rightarrow> False"
proof -
  let ?e = "demo_env\<lparr>thread_err := Some ENOMEM\<rparr>"
  obtain s' where s': "copy_process ?e False demo_args 2 demo_kst = Some (Inr ENOMEM, s')"
    by (simp add: copy_process_evals demo_defs Let_def)
  have "startable ?e 2 3 demo_kst" "exit_files_ok ?e" "exit_fs_ok ?e"
    by (simp_all only: startable_demo) (rule exit_ok_drop; simp add: demo_env_def)+
  then show ?thesis
    using copy_process_all_or_nothing [where p = 3 and env = ?e and c = 2 and s = demo_kst and idle = False and args = demo_args] s' by (simp add: demo_env_def)
qed

end
