(* ===== verification/Fork_Success.thy ===== *)
theory Fork_Success
  imports Fork_Unwind
begin

text \<open>
  What a successful \<open>copy_process\<close> of \<open>Assignment3-1/fork.c\<close> has made: which parts of the child
  are shared with the current task and which are fresh, its identity and its parent, and
  that of the rest of the system only the counters and the lists it is linked into change.
\<close>

section \<open>Forward steps\<close>

text \<open>A step that succeeds leads from \<open>P\<close> to \<open>Q\<close>.\<close>

definition leads :: "(kst \<Rightarrow> bool) \<Rightarrow> step \<Rightarrow> (kst \<Rightarrow> bool) \<Rightarrow> bool" where
  "leads P f Q \<longleftrightarrow> (\<forall>s s'. P s \<longrightarrow> f s = Some (None, s') \<longrightarrow> Q s')"

lemma leads_run:
  assumes "leads P f Q" "P s" "run_steps ((l, f) # rest) s = Some (Inl s')"
  obtains s1 where "f s = Some (None, s1)" "Q s1" "run_steps rest s1 = Some (Inl s')"
  using assms by (auto simp: leads_def split: bind_splits option.splits)

fun leads_all :: "(kst \<Rightarrow> bool) \<Rightarrow> ((kst \<Rightarrow> bool) \<times> step) list \<Rightarrow> bool" where
  "leads_all P [] = True"
| "leads_all P ((Q, f) # rest) \<longleftrightarrow> leads P f Q \<and> leads_all Q rest"

fun last_cond :: "(kst \<Rightarrow> bool) \<Rightarrow> ((kst \<Rightarrow> bool) \<times> step) list \<Rightarrow> kst \<Rightarrow> bool" where
  "last_cond P [] = P"
| "last_cond P ((Q, f) # rest) = last_cond Q rest"

lemma leads_all_run:
  assumes "leads_all P qs" "P s" "map snd qs = map snd ls" "run_steps ls s = Some (Inl s')"
  shows "last_cond P qs s'"
  using assms
proof (induction P qs arbitrary: s ls rule: leads_all.induct)
  case (2 P Q f rest)
  then obtain l ls' where ls: "ls = (l, f) # ls'" "map snd rest = map snd ls'" by (cases ls) auto
  obtain s1 where "Q s1" "run_steps ls' s1 = Some (Inl s')"
    using leads_run [of P f Q s l ls' s'] 2(2,3,5) ls by auto
  with 2(1) [of s1 ls'] 2(2) ls show ?case by simp
qed simp

section \<open>The child while it is built\<close>

text \<open>The rest of the system: other tasks, lists and counters are as they were.\<close>

definition frame :: "task_ptr \<Rightarrow> task_ptr \<Rightarrow> kst \<Rightarrow> kst \<Rightarrow> bool" where
  "frame p c s t \<longleftrightarrow> nr_threads t = nr_threads s \<and> total_forks t = total_forks s \<and>
     process_counts t = process_counts s \<and> task_list t = task_list s \<and>
     (\<forall>q. q \<noteq> p \<longrightarrow> q \<noteq> c \<longrightarrow> tasks t q = tasks s q) \<and>
     map_option clear_nproc (tasks t c) = map_option clear_nproc (tasks s c)"

text \<open>
  The parts of the child after \<open>k\<close> stages: 1 is the reset, 2 to 6 the copies of the files,
  the file system, the handlers, the signals and the memory, 7 the identifiers, 8 the parent.
\<close>

definition child_ids :: "clone_flag set \<Rightarrow> int \<Rightarrow> task_ptr \<Rightarrow> task_struct \<Rightarrow> task_struct \<Rightarrow> bool" where
  "child_ids fl n p ct t \<longleftrightarrow> pid t = n \<and>
     (if CLONE_THREAD \<in> fl then tgid t = tgid ct \<and> group_leader t = group_leader ct
      else tgid t = n \<and> group_leader t = p)"

text \<open>\<open>es\<close> is the exit signal of the leader of the current task's group.\<close>

definition child_parent :: "kernel_clone_args \<Rightarrow> task_ptr \<Rightarrow> task_struct \<Rightarrow> int \<Rightarrow> task_struct \<Rightarrow> bool" where
  "child_parent args c ct es t \<longleftrightarrow>
     real_parent t = (if CLONE_PARENT \<in> args_flags args \<or> CLONE_THREAD \<in> args_flags args then real_parent ct else c) \<and>
     exit_signal t = (if CLONE_THREAD \<in> args_flags args then -1
       else if CLONE_PARENT \<in> args_flags args then es else args_exit_signal args)"

definition child_parts :: "fork_env \<Rightarrow> clone_flag set \<Rightarrow> nat \<Rightarrow> task_struct \<Rightarrow> task_struct \<Rightarrow> bool" where
  "child_parts env fl k ct t \<longleftrightarrow>
     (k \<ge> 1 \<longrightarrow> children t = [] \<and> utime t = 0 \<and> stime t = 0) \<and>
     files t = (if k \<ge> 2 \<and> CLONE_FILES \<notin> fl \<and> files ct \<noteq> None
       then (case dup_fd_result env of Inl a \<Rightarrow> Some a | Inr _ \<Rightarrow> None) else files ct) \<and>
     fs t = (if k \<ge> 3 \<and> CLONE_FS \<notin> fl then new_fs env else fs ct) \<and>
     sighand t = (if k \<ge> 4 \<and> CLONE_SIGHAND \<notin> fl then new_sighand env else sighand ct) \<and>
     signal t = (if k \<ge> 5 \<and> CLONE_THREAD \<notin> fl then new_signal env else signal ct) \<and>
     (k \<ge> 6 \<longrightarrow> mm t = (if CLONE_VM \<notin> fl \<and> mm ct \<noteq> None then new_mm env else mm ct))"

definition parent_set :: "kernel_clone_args \<Rightarrow> task_ptr \<Rightarrow> task_ptr \<Rightarrow> task_struct \<Rightarrow> kst \<Rightarrow> task_struct \<Rightarrow> bool" where
  "parent_set args c p ct s0 t \<longleftrightarrow> (\<exists>es. child_parent args c ct es t \<and>
     (group_leader ct \<noteq> p \<longrightarrow> map_option exit_signal (tasks s0 (group_leader ct)) = Some es))"

definition progress ::
  "fork_env \<Rightarrow> kernel_clone_args \<Rightarrow> bool \<Rightarrow> task_ptr \<Rightarrow> task_ptr \<Rightarrow> kst \<Rightarrow> nat \<Rightarrow> kst \<Rightarrow> bool" where
  "progress env args idle c p s0 k s \<longleftrightarrow> p \<noteq> c \<and> frame p c s0 s \<and>
     (\<exists>ct pt. tasks s c = Some ct \<and> tasks s p = Some pt \<and> child_parts env (args_flags args) k ct pt \<and>
        (k \<ge> 7 \<longrightarrow> child_ids (args_flags args) (snd (pid_of env idle)) p ct pt \<and> thread_group pt = []) \<and>
        (k \<ge> 8 \<longrightarrow> parent_set args c p ct s0 pt))"

lemma clear_nproc_field:
  assumes "clear_nproc x = clear_nproc y" "\<And>t. g (clear_nproc t) = g t"
  shows "g x = g y"
  using assms by metis

lemma clear_nproc_fields:
  assumes "clear_nproc x = clear_nproc y"
  shows "files x = files y" "fs x = fs y" "sighand x = sighand y" "signal x = signal y" "mm x = mm y"
    "tgid x = tgid y" "group_leader x = group_leader y" "real_parent x = real_parent y" "children x = children y"
    "exit_signal x = exit_signal y" "thread_group x = thread_group y"
  by (rule clear_nproc_field [OF assms]; simp add: clear_nproc_def)+

lemma frame_refl [simp]: "frame p c s s"
  by (simp add: frame_def)

lemma frame_child [simp]: "p \<noteq> c \<Longrightarrow> frame p c s0 (upd_task p f s) = frame p c s0 s"
  by (simp add: frame_def upd_task_def)

lemma frame_simps [simp]:
  "frame p c s0 (acquire r s) = frame p c s0 s" "frame p c s0 (s\<lparr>files_tab := a\<rparr>) = frame p c s0 s"
  "frame p c s0 (s\<lparr>fs_tab := b\<rparr>) = frame p c s0 s" "frame p c s0 (s\<lparr>sighand_tab := a\<rparr>) = frame p c s0 s"
  "frame p c s0 (s\<lparr>signal_tab := d\<rparr>) = frame p c s0 s" "frame p c s0 (s\<lparr>mm_tab := a\<rparr>) = frame p c s0 s"
  "frame p c s0 (s\<lparr>user_processes := i\<rparr>) = frame p c s0 s"
  by (simp_all add: frame_def acquire_def)

lemma progress_simps [simp]:
  "progress env args idle c p s0 k (acquire r s) = progress env args idle c p s0 k s"
  "progress env args idle c p s0 k (s\<lparr>files_tab := a\<rparr>) = progress env args idle c p s0 k s"
  "progress env args idle c p s0 k (s\<lparr>fs_tab := b\<rparr>) = progress env args idle c p s0 k s"
  "progress env args idle c p s0 k (s\<lparr>sighand_tab := a\<rparr>) = progress env args idle c p s0 k s"
  "progress env args idle c p s0 k (s\<lparr>signal_tab := d\<rparr>) = progress env args idle c p s0 k s"
  "progress env args idle c p s0 k (s\<lparr>mm_tab := a\<rparr>) = progress env args idle c p s0 k s"
  "progress env args idle c p s0 k (s\<lparr>user_processes := i\<rparr>) = progress env args idle c p s0 k s"
  by (simp_all add: progress_def) (simp_all add: acquire_def)

text \<open>Moving on by a change of the child alone.\<close>

lemma progress_upd:
  assumes "progress env args idle c p s0 k s"
    and "\<And>ct t. tasks s c = Some ct \<Longrightarrow> child_parts env (args_flags args) k ct t \<Longrightarrow> child_parts env (args_flags args) k' ct (f t)"
    and "\<And>ct t. tasks s c = Some ct \<Longrightarrow> (7 \<le> k \<longrightarrow> child_ids (args_flags args) (snd (pid_of env idle)) p ct t \<and> thread_group t = []) \<Longrightarrow> 7 \<le> k' \<Longrightarrow>
      child_ids (args_flags args) (snd (pid_of env idle)) p ct (f t) \<and> thread_group (f t) = []"
    and "\<And>ct t. tasks s c = Some ct \<Longrightarrow> (8 \<le> k \<longrightarrow> parent_set args c p ct s0 t) \<Longrightarrow> 8 \<le> k' \<Longrightarrow> parent_set args c p ct s0 (f t)"
  shows "progress env args idle c p s0 k' (upd_task p f s)"
proof -
  obtain ct pt where "p \<noteq> c" "frame p c s0 s" and ct: "tasks s c = Some ct" and "tasks s p = Some pt"
    and pt: "child_parts env (args_flags args) k ct pt"
      "7 \<le> k \<longrightarrow> child_ids (args_flags args) (snd (pid_of env idle)) p ct pt \<and> thread_group pt = []"
      "8 \<le> k \<longrightarrow> parent_set args c p ct s0 pt"
    using assms(1) by (auto simp: progress_def)
  then show ?thesis
    using assms(2) [OF ct pt(1)] assms(3) [OF ct pt(2)] assms(4) [OF ct pt(3)]
    by (auto simp: progress_def)
qed

lemma leads_ext: "leads (progress env args idle c p s0 k) (ext_step e r) (progress env args idle c p s0 k)"
  by (auto simp: leads_def ext_step_def split: option.splits)

lemma leads_test:
  assumes "\<And>s s'. f s = Some (None, s') \<Longrightarrow> s' = s"
  shows "leads P f P"
  using assms by (auto simp: leads_def)

lemma leads_reset: "leads (progress env args idle c p s0 0) (reset_step p) (progress env args idle c p s0 1)"
  unfolding leads_def reset_step_def
  by (auto intro!: progress_upd [where k = 0] simp: child_parts_def)

lemma progress_keep:
  assumes "progress env args idle c p s0 k s"
    and "\<And>ct t. tasks s c = Some ct \<Longrightarrow> child_parts env (args_flags args) k ct t \<Longrightarrow> child_parts env (args_flags args) k' ct t"
    and "7 \<le> k' \<Longrightarrow> 7 \<le> k" "8 \<le> k' \<Longrightarrow> 8 \<le> k"
  shows "progress env args idle c p s0 k' s"
proof -
  have "upd_task p (\<lambda>t. t) s = s" by (simp add: upd_task_def option.map_ident)
  with progress_upd [where f = "\<lambda>t. t" and k' = k', OF assms(1)] assms(2-4) show ?thesis by simp
qed

lemma leads_files:
  "leads (progress env args idle c p s0 1) (copy_files env (args_flags args) c p) (progress env args idle c p s0 2)"
  unfolding leads_def copy_files_def
  by (auto split: bind_splits option.splits if_splits sum.splits intro!: progress_upd [where k = 1]
      elim!: progress_keep simp: child_parts_def)

lemma leads_fs:
  "leads (progress env args idle c p s0 2) (copy_fs env (args_flags args) c p) (progress env args idle c p s0 3)"
  unfolding leads_def copy_fs_def
  by (auto split: bind_splits option.splits if_splits intro!: progress_upd [where k = 2]
      elim!: progress_keep simp: child_parts_def Let_def)

lemma leads_sighand:
  "leads (progress env args idle c p s0 3) (copy_sighand env (args_flags args) c p) (progress env args idle c p s0 4)"
  unfolding leads_def copy_sighand_def
  by (auto split: bind_splits option.splits if_splits intro!: progress_upd [where k = 3]
      elim!: progress_keep simp: child_parts_def Let_def)

lemma leads_signal:
  "leads (progress env args idle c p s0 4) (copy_signal env (args_flags args) c p) (progress env args idle c p s0 5)"
  unfolding leads_def copy_signal_def
  by (auto split: bind_splits option.splits if_splits intro!: progress_upd [where k = 4]
      elim!: progress_keep simp: child_parts_def Let_def)

lemma leads_io:
  "leads (progress env args idle c p s0 6) (copy_io env (args_flags args) c p) (progress env args idle c p s0 6)"
  unfolding leads_def copy_io_def
  by (auto split: bind_splits option.splits if_splits intro!: progress_upd [where k = 6] simp: child_parts_def)

lemma leads_ids:
  "leads (progress env args idle c p s0 6) (ids_step env (args_flags args) idle c p) (progress env args idle c p s0 7)"
  unfolding leads_def ids_step_def
  by (auto split: bind_splits if_splits intro!: progress_upd [where k = 6] simp: child_parts_def child_ids_def Let_def)

lemma leads_parent:
  "leads (progress env args idle c p s0 7) (parent_step env args c p) (progress env args idle c p s0 8)"
  unfolding leads_def
proof (intro allI impI)
  fix s s'
  assume s: "progress env args idle c p s0 7 s" and f: "parent_step env args c p s = Some (None, s')"
  let ?P = "progress env args idle c p s0"
  let ?s1 = "upd_task p (\<lambda>t. t\<lparr>start_time := now env, real_start_time := now env\<rparr>) s"
  obtain ct leader where ct: "tasks s c = Some ct" "tasks s (group_leader ct) = Some leader" "p \<noteq> c"
    using s f by (auto simp: progress_def parent_step_def split: bind_splits)
  let ?g = "\<lambda>t. if CLONE_PARENT \<in> args_flags args \<or> CLONE_THREAD \<in> args_flags args
       then t\<lparr>real_parent := real_parent ct, parent_exec_id := parent_exec_id ct,
              exit_signal := (if CLONE_THREAD \<in> args_flags args then -1 else exit_signal leader)\<rparr>
       else t\<lparr>real_parent := c, parent_exec_id := self_exec_id ct, exit_signal := args_exit_signal args\<rparr>"
  have fr: "frame p c s0 s" using s by (simp add: progress_def)
  have es: "map_option exit_signal (tasks s0 (group_leader ct)) = Some (exit_signal leader)" if "group_leader ct \<noteq> p"
  proof (cases "group_leader ct = c")
    case True
    with fr ct(2) show ?thesis by (cases "tasks s0 c") (auto simp: frame_def dest: clear_nproc_fields(10))
  qed (use fr ct(2) that in \<open>simp add: frame_def\<close>)
  have s': "s' = upd_task p (rseq_fork ct (CLONE_VM \<in> args_flags args))
      (acquire Siglock (upd_task p ?g (acquire Tasklist_lock ?s1)))"
    using f ct(1,2) by (simp add: parent_step_def Let_def)
  have "?P 7 ?s1"
    using s by (rule progress_upd) (auto simp: child_parts_def child_ids_def)
  then have "?P 7 (acquire Tasklist_lock ?s1)" by simp
  then have "?P 8 (upd_task p ?g (acquire Tasklist_lock ?s1))"
    by (rule progress_upd)
      (use ct es in \<open>auto simp: child_parts_def child_ids_def child_parent_def parent_set_def acquire_def upd_task_def\<close>)
  then have "?P 8 (acquire Siglock (upd_task p ?g (acquire Tasklist_lock ?s1)))" by simp
  then show "?P 8 s'"
    unfolding s'
    by (rule progress_upd) (auto simp: child_parts_def child_ids_def child_parent_def parent_set_def rseq_fork_def)
qed

lemma dup_mm_frame:
  assumes "dup_mm env s = Some (r, s')"
  shows "s' = s\<lparr>mm_tab := mm_tab s'\<rparr>" "r = None \<or> r = new_mm env"
  using assms by (auto simp: dup_mm_def mmput_def Let_def split: bind_splits option.splits if_splits)

lemma leads_mm:
  "leads (progress env args idle c p s0 5) (copy_mm env (args_flags args) c p) (progress env args idle c p s0 6)"
  unfolding leads_def
proof (intro allI impI)
  fix s s'
  assume s: "progress env args idle c p s0 5 s" and f: "copy_mm env (args_flags args) c p s = Some (None, s')"
  let ?s1 = "upd_task p (\<lambda>t. t\<lparr>min_flt := 0, maj_flt := 0, nvcsw := 0, nivcsw := 0, mm := None, active_mm := None\<rparr>) s"
  obtain ct where ct: "tasks s c = Some ct" "p \<noteq> c" using s by (auto simp: progress_def)
  have s1: "progress env args idle c p s0 5 ?s1" and m1: "\<exists>pt. tasks ?s1 p = Some pt \<and> mm pt = None"
    using s by (auto intro!: progress_upd [where k = 5] simp: child_parts_def) (auto simp: progress_def)
  have c1: "tasks ?s1 c = Some ct" using ct by simp
  show "progress env args idle c p s0 6 s'"
  proof (cases "mm ct")
    case None
    then have "s' = ?s1" using f c1 by (simp add: copy_mm_def Let_def)
    with s1 m1 None c1 show ?thesis by (auto simp: progress_def child_parts_def)
  next
    case (Some a)
    obtain tab b where "s' = upd_task p (\<lambda>t. t\<lparr>mm := Some b, active_mm := Some b\<rparr>) (?s1\<lparr>mm_tab := tab\<rparr>)"
      "Some b = (if CLONE_VM \<in> args_flags args then mm ct else new_mm env)"
    proof (cases "CLONE_VM \<in> args_flags args")
      case True
      then show thesis using f c1 Some that by (auto simp: copy_mm_def Let_def mmget_def split: bind_splits)
    next
      case False
      then obtain b s2 where "dup_mm env ?s1 = Some (Some b, s2)"
        "s' = upd_task p (\<lambda>t. t\<lparr>mm := Some b, active_mm := Some b\<rparr>) s2"
        using f c1 Some by (auto simp: copy_mm_def Let_def split: bind_splits option.splits)
      then show thesis using that [of b "mm_tab s2"] False dup_mm_frame [of env ?s1 "Some b" s2] by auto
    qed
    moreover have "progress env args idle c p s0 5 (?s1\<lparr>mm_tab := tab\<rparr>)" using s1 by simp
    ultimately show ?thesis
      using Some c1 by (auto intro!: progress_upd [where k = 5] simp: child_parts_def split: if_splits)
  qed
qed

text \<open>The steps before the child exists.\<close>

definition started :: "task_ptr \<Rightarrow> task_ptr \<Rightarrow> kst \<Rightarrow> kst \<Rightarrow> bool" where
  "started p c s0 s \<longleftrightarrow> p \<noteq> c \<and> frame p c s0 s"

lemma leads_collect: "leads (started p c s0) (collect_signals fl c) (started p c s0)"
  by (auto simp: leads_def started_def collect_signals_def add_delayed_def Let_def split: bind_splits if_splits)

lemma leads_dup:
  assumes "new_task env = Some p"
  shows "leads (started p c s0) (dup_step env args c) (progress env args idle c p s0 0)"
  using assms unfolding leads_def dup_step_def dup_task_struct_def started_def Let_def
  by (auto split: bind_splits option.splits if_splits simp: child_parts_def progress_def frame_def acquire_def upd_task_def)

lemma leads_creds: "leads (progress env args idle c p s0 0) (creds_step env c) (progress env args idle c p s0 0)"
proof -
  have "progress env args idle c p s0 0 (upd_task c clear_nproc s)" if pr: "progress env args idle c p s0 0 s" for s
  proof -
    obtain ct pt where ct: "tasks s c = Some ct" "tasks s p = Some pt" "child_parts env (args_flags args) 0 ct pt"
      using pr by (auto simp: progress_def)
    have "child_parts env (args_flags args) 0 (clear_nproc ct) pt"
      using ct(3) by (simp add: child_parts_def clear_nproc_def)
    then show ?thesis using pr ct(1,2) by (cases "tasks s0 c") (auto simp: progress_def frame_def upd_task_def)
  qed
  then show ?thesis
    by (auto simp: leads_def creds_step_def Let_def clear_nproc_def [abs_def, symmetric] split: option.splits)
qed

lemma leads_checks:
  "leads P (check_pending env) P" "leads P (nproc_step env) P" "leads P limit_step P"
  "leads P (\<lambda>s. Some (e, s)) P" "leads P (put_pidfd_step env fl) P" "leads P (alive_step env) P"
  by (rule leads_test; simp add: check_pending_def nproc_step_def limit_step_def put_pidfd_step_def alive_step_def)+

lemma leads_pid:
  "leads (progress env args idle c p s0 6) (pid_step env idle) (progress env args idle c p s0 6)"
  "leads (progress env args idle c p s0 6) (pidfd_step env fl) (progress env args idle c p s0 6)"
  by (auto simp: leads_def pid_step_def pidfd_step_def Let_def split: option.splits sum.splits if_splits bind_splits)

lemma fork_steps_progress:
  assumes "new_task env = Some p" "p \<noteq> c" "run_steps (fork_steps env args idle c p) s = Some (Inl s1)"
  shows "progress env args idle c p s 8 s1"
proof -
  let ?P = "progress env args idle c p s" and ?S = "started p c s" and ?fl = "args_flags args"
  let ?qs = "[(?S, collect_signals ?fl c), (?S, check_pending env), (?P 0, dup_step env args c),
    (?P 0, nproc_step env), (?P 0, creds_step env c), (?P 0, limit_step), (?P 1, reset_step p),
    (?P 1, ext_step (mpol_dup_err env) Mempolicy), (?P 1, \<lambda>s. Some (sched_fork_err env, s)),
    (?P 1, ext_step (perf_err env) Perf), (?P 1, ext_step (audit_err env) Audit),
    (?P 1, ext_step (security_err env) Security), (?P 1, ext_step (semundo_err env) Semundo),
    (?P 2, copy_files env ?fl c p), (?P 3, copy_fs env ?fl c p), (?P 4, copy_sighand env ?fl c p),
    (?P 5, copy_signal env ?fl c p), (?P 6, copy_mm env ?fl c p), (?P 6, ext_step (namespaces_err env) Namespaces),
    (?P 6, copy_io env ?fl c p), (?P 6, ext_step (thread_err env) Thread), (?P 6, pid_step env idle),
    (?P 6, pidfd_step env ?fl), (?P 6, put_pidfd_step env ?fl), (?P 7, ids_step env ?fl idle c p),
    (?P 7, ext_step (cgroup_err env) Cgroup), (?P 8, parent_step env args c p), (?P 8, alive_step env)]"
  have "leads_all ?S ?qs"
    using assms(1) by (simp add: leads_collect leads_checks leads_dup leads_creds leads_reset leads_ext leads_files
        leads_fs leads_sighand leads_signal leads_mm leads_io leads_pid leads_ids leads_parent del: One_nat_def)
  moreover have "?S s" using assms(2) by (simp add: started_def)
  moreover have "map snd ?qs = map snd (fork_steps env args idle c p)" by (simp add: fork_steps_def Let_def)
  ultimately have "last_cond ?S ?qs s1" using assms(3) by (rule leads_all_run)
  then show ?thesis by simp
qed

section \<open>The published child\<close>

definition leader_ok :: "fork_env \<Rightarrow> bool" where
  "leader_ok env \<longleftrightarrow> (\<forall>t. thread_group_leader env t = (0 \<le> exit_signal t))"

text \<open>A change of signal structures and of what is held is not seen in the tasks, lists and counters.\<close>

definition same_tasks :: "kst \<Rightarrow> kst \<Rightarrow> bool" where
  "same_tasks s t \<longleftrightarrow> tasks t = tasks s \<and> nr_threads t = nr_threads s \<and> total_forks t = total_forks s \<and>
     process_counts t = process_counts s \<and> task_list t = task_list s"

lemma same_tasks_refl [simp]: "same_tasks s s"
  by (simp add: same_tasks_def)

lemma same_tasks_trans [trans]: "same_tasks s t \<Longrightarrow> same_tasks t u \<Longrightarrow> same_tasks s u"
  by (simp add: same_tasks_def)

lemma same_tasks_upds [simp]: "same_tasks s (s\<lparr>signal_tab := d\<rparr>)" "same_tasks s (s\<lparr>held := h\<rparr>)"
  by (simp_all add: same_tasks_def)

lemma same_tasks_delayed: "add_delayed fl n c s = Some s' \<Longrightarrow> same_tasks s s'"
  by (auto simp: add_delayed_def Let_def split: bind_splits if_splits)

lemma same_tasks_release: "release r s = Some s' \<Longrightarrow> same_tasks s s'"
  by (auto simp: release_def split: if_splits list.splits)

lemma same_tasks_signal: "upd_signal q f s = Some s' \<Longrightarrow> same_tasks s s'"
  by (auto simp: upd_signal_def split: bind_splits)

lemma same_tasks_oom:
  assumes "copy_oom_score_adj fl c p s = Some s'"
  shows "same_tasks s s'"
  using assms unfolding copy_oom_score_adj_def
  by (elim bind_eq_Some_conv [THEN iffD1, elim_format] exE conjE) (simp split: if_splits bind_splits, metis same_tasks_upds(1))

lemma publish_tasks:
  assumes "publish env args idle c p s = Some s'"
  obtains s1 where "link_task env idle c p s = Some s1" "same_tasks (s1\<lparr>total_forks := total_forks s1 + 1\<rparr>) s'"
proof -
  obtain s1 s2 s3 s4 s5 s6 where s1: "link_task env idle c p s = Some s1"
    and d: "add_delayed (args_flags args) (-1) c (s1\<lparr>total_forks := total_forks s1 + 1\<rparr>) = Some s2"
    and r: "release Siglock s2 = Some s3" "release Tasklist_lock s3 = Some s4" "release Cgroup s4 = Some s5"
      "release Threadgroup_change s5 = Some s6"
    and o: "copy_oom_score_adj (args_flags args) c p s6 = Some s'"
    using assms by (auto simp: publish_def Let_def split: bind_splits)
  note same_tasks_delayed [OF d]
  also note same_tasks_release [OF r(1)]
  also note same_tasks_release [OF r(2)]
  also note same_tasks_release [OF r(3)]
  also note same_tasks_release [OF r(4)]
  also note same_tasks_oom [OF o]
  finally show thesis by (rule that [OF s1])
qed

text \<open>
  What linking the child \<open>t\<close> at \<open>p\<close> does to the task \<open>x\<close> at \<open>q\<close>: its parent gets it as last child
  when it leads a group; when it is a thread, its group leader gets it as last member of the
  group. An idle task, with pid 0, is not linked.
\<close>

definition link_effect :: "task_ptr \<Rightarrow> task_struct \<Rightarrow> task_ptr \<Rightarrow> task_struct \<Rightarrow> task_struct" where
  "link_effect p t q x =
    (if pid t = 0 then x
     else if 0 \<le> exit_signal t then (if q = real_parent t then x\<lparr>children := children x @ [p]\<rparr> else x)
     else if q = group_leader t then x\<lparr>thread_group := thread_group x @ [p]\<rparr> else x)"

text \<open>
  The lists, the counters and every other task after a success; of the current task \<open>c\<close> the
  flag that remembers an exceeded limit may have been cleared.
\<close>

definition linked :: "task_ptr \<Rightarrow> task_ptr \<Rightarrow> task_struct \<Rightarrow> kst \<Rightarrow> kst \<Rightarrow> bool" where
  "linked p c t s s' \<longleftrightarrow>
     nr_threads s' = nr_threads s + (if pid t = 0 then 0 else 1) \<and>
     (if pid t \<noteq> 0 \<and> 0 \<le> exit_signal t
      then task_list s' = task_list s @ [p] \<and> process_counts s' = process_counts s + 1
      else task_list s' = task_list s \<and> process_counts s' = process_counts s) \<and>
     (\<forall>q. q \<noteq> p \<longrightarrow> q \<noteq> c \<longrightarrow> tasks s' q = map_option (link_effect p t q) (tasks s q)) \<and>
     map_option clear_nproc (tasks s' c) = map_option (link_effect p t c) (map_option clear_nproc (tasks s c))"

text \<open>The child itself: it has its pid structure and, but for being its own leader while a thread, no group.\<close>

definition child_links :: "fork_env \<Rightarrow> bool \<Rightarrow> task_ptr \<Rightarrow> task_struct \<Rightarrow> bool" where
  "child_links env idle p t \<longleftrightarrow> (pid t \<noteq> 0 \<longrightarrow> thread_pid t = Some (fst (pid_of env idle))) \<and>
     (group_leader t \<noteq> p \<or> 0 \<le> exit_signal t \<longrightarrow> thread_group t = [])"

definition child_like :: "task_struct \<Rightarrow> task_struct \<Rightarrow> bool" where
  "child_like t u \<longleftrightarrow> (\<exists>tr q tp tg. u = t\<lparr>ptrace := tr, parent := q, thread_pid := tp, thread_group := tg\<rparr>)"

lemma child_like_fields:
  assumes "child_like t u"
  shows "children u = children t" "utime u = utime t" "stime u = stime t" "files u = files t" "fs u = fs t"
    "sighand u = sighand t" "signal u = signal t" "mm u = mm t" "pid u = pid t" "tgid u = tgid t"
    "group_leader u = group_leader t" "real_parent u = real_parent t" "exit_signal u = exit_signal t"
  using assms by (auto simp: child_like_def)

lemma link_effect_clear [simp]: "clear_nproc (link_effect p t q x) = link_effect p t q (clear_nproc x)"
  by (simp add: link_effect_def clear_nproc_def)

lemma link_effect_cases:
  "pid t = 0 \<Longrightarrow> link_effect p t q = (\<lambda>x. x)"
  "pid t \<noteq> 0 \<Longrightarrow> 0 \<le> exit_signal t \<Longrightarrow>
    link_effect p t q = (if q = real_parent t then (\<lambda>x. x\<lparr>children := children x @ [p]\<rparr>) else (\<lambda>x. x))"
  "pid t \<noteq> 0 \<Longrightarrow> \<not> 0 \<le> exit_signal t \<Longrightarrow>
    link_effect p t q = (if q = group_leader t then (\<lambda>x. x\<lparr>thread_group := thread_group x @ [p]\<rparr>) else (\<lambda>x. x))"
  by (simp_all add: fun_eq_iff link_effect_def)

lemma link_effect_like: "child_like t u \<Longrightarrow> link_effect p u = link_effect p t"
  by (simp add: fun_eq_iff link_effect_def child_like_fields)

lemma linkedI:
  assumes "nr_threads s' = nr_threads s + (if pid t = 0 then 0 else 1)" "p \<noteq> c"
    and "if pid t \<noteq> 0 \<and> 0 \<le> exit_signal t
      then task_list s' = task_list s @ [p] \<and> process_counts s' = process_counts s + 1
      else task_list s' = task_list s \<and> process_counts s' = process_counts s"
    and "\<And>q. q \<noteq> p \<Longrightarrow> tasks s' q = map_option (link_effect p t q) (tasks s q)"
  shows "linked p c t s s'"
proof -
  have "map_option clear_nproc (tasks s' c) = map_option (link_effect p t c) (map_option clear_nproc (tasks s c))"
    using assms(2) by (simp add: assms(4) option.map_comp comp_def)
  with assms show ?thesis by (simp add: linked_def)
qed

lemma link_task_linked:
  assumes "link_task env idle c p s = Some s'" "leader_ok env" "tasks s p = Some t" "real_parent t \<noteq> p" "p \<noteq> c"
    and "thread_group t = []"
  shows "linked p c t s s' \<and> total_forks s' = total_forks s \<and> (\<exists>u. tasks s' p = Some u \<and> child_like t u \<and> child_links env idle p u)"
proof (cases "pid t = 0")
  case True
  then have "s' = s" using assms(1,3) by (simp add: link_task_def)
  moreover have "child_like t t" unfolding child_like_def
    by (rule exI [of _ "ptrace t"], rule exI [of _ "parent t"], rule exI [of _ "thread_pid t"], rule exI [of _ "thread_group t"]) simp
  moreover have "linked p c t s s" using True assms(5)
    by (intro linkedI) (simp_all add: link_effect_cases option.map_ident)
  ultimately show ?thesis using True assms(3,6) by (simp add: child_links_def)
next
  case False
  let ?s1 = "upd_task p (\<lambda>t. t\<lparr>thread_pid := Some (fst (pid_of env idle))\<rparr>)
    (upd_task p (\<lambda>t. t\<lparr>ptrace := fst (ptrace_init_task env t), parent := snd (ptrace_init_task env t)\<rparr>) s)"
  let ?t1 = "t\<lparr>ptrace := fst (ptrace_init_task env t), parent := snd (ptrace_init_task env t), thread_pid := Some (fst (pid_of env idle))\<rparr>"
  have t1: "tasks ?s1 p = Some ?t1" and o: "\<And>q. q \<noteq> p \<Longrightarrow> tasks ?s1 q = tasks s q" using assms(3) by simp_all
  have like: "child_like t (?t1\<lparr>thread_group := g\<rparr>)" for g unfolding child_like_def by auto
  have like1: "child_like t ?t1" using like [of "thread_group t"] by simp
  show ?thesis
  proof (cases "0 \<le> exit_signal t")
    case True
    then obtain s2 where l: "link_leader env p ?s1 = Some s2" and s': "s' = s2\<lparr>nr_threads := nr_threads s2 + 1\<rparr>"
      using assms(1-3) False by (auto simp: link_task_def leader_ok_def Let_def split: bind_splits)
    from l t1 obtain f s3 where "upd_signal p f ?s1 = Some s3" and
        s2: "s2 = (let u = upd_task (real_parent t) (\<lambda>q. q\<lparr>children := children q @ [p]\<rparr>) s3
                   in u\<lparr>task_list := task_list u @ [p], process_counts := process_counts u + 1\<rparr>)"
      by (auto simp: link_leader_def Let_def split: bind_splits)
    then have st: "same_tasks ?s1 s3" by (blast dest: same_tasks_signal)
    have "linked p c t s s'"
      by (rule linkedI) (use s' s2 st True False assms(4,5) o in \<open>auto simp: same_tasks_def link_effect_cases upd_task_def Let_def option.map_ident\<close>)
    then show ?thesis using s' s2 st True assms(4,6) t1 like1
      by (auto simp: same_tasks_def upd_task_def Let_def child_links_def)
  next
    case neg: False
    then obtain s2 where l: "link_thread c p ?s1 = Some s2" and s': "s' = s2\<lparr>nr_threads := nr_threads s2 + 1\<rparr>"
      using assms(1-3) False by (auto simp: link_task_def leader_ok_def Let_def split: bind_splits)
    from l obtain f s3 where "upd_signal c f ?s1 = Some s3" and
        s2: "tasks s3 p \<noteq> None" "s2 = upd_task (group_leader (the (tasks s3 p))) (\<lambda>q. q\<lparr>thread_group := thread_group q @ [p]\<rparr>) s3"
      by (auto simp: link_thread_def split: bind_splits)
    then have st: "same_tasks ?s1 s3" by (blast dest: same_tasks_signal)
    then have g: "group_leader (the (tasks s3 p)) = group_leader t" using assms(3) by (simp add: same_tasks_def)
    have "linked p c t s s'"
      by (rule linkedI) (use s' s2(2) g st neg False assms(5) o in \<open>auto simp: same_tasks_def link_effect_cases upd_task_def option.map_ident\<close>)
    then show ?thesis using s' s2(2) g st neg assms(6) t1 like1 like
      by (auto simp: same_tasks_def upd_task_def child_links_def)
  qed
qed

lemma frame_linked:
  assumes "frame p c s s1" "linked p c t s1 s'" "child_like t u"
  shows "linked p c u s s'"
  using assms(1,2) by (simp add: linked_def frame_def link_effect_like [OF assms(3)] child_like_fields [OF assms(3)])

lemma child_like_kept:
  assumes "child_like t u"
  shows "child_parts env fl k ct u = child_parts env fl k ct t" "child_ids fl n p ct u = child_ids fl n p ct t"
    "child_parent args c ct es u = child_parent args c ct es t"
  by (simp_all only: child_parts_def child_ids_def child_parent_def child_like_fields [OF assms])

lemma child_parts_final: "child_parts env fl 8 ct t = child_parts env fl 6 ct t"
  by (simp only: child_parts_def) simp

lemma clear_nproc_kept:
  assumes "clear_nproc ct = clear_nproc ct'"
  shows "child_parts env fl k ct u = child_parts env fl k ct' u" "child_ids fl n p ct u = child_ids fl n p ct' u"
    "child_parent args c ct es u = child_parent args c ct' es u"
  by (simp_all only: clear_nproc_fields [OF assms] child_parts_def child_ids_def child_parent_def)

lemma copy_process_success:
  assumes "copy_process env idle args c s = Some (Inl p, s')" "new_task env = Some p" "leader_ok env"
    and "p \<noteq> c" "tasks s c = Some ct" "real_parent ct \<noteq> p"
  shows "\<exists>t. tasks s' p = Some t \<and> child_parts env (args_flags args) 6 ct t \<and>
    child_ids (args_flags args) (snd (pid_of env idle)) p ct t \<and> parent_set args c p ct s t \<and>
    child_links env idle p t \<and> linked p c t s s' \<and> total_forks s' = total_forks s + 1"
proof -
  obtain s1 where run: "run_steps (fork_steps env args idle c p) s = Some (Inl s1)"
    and pub: "publish env args idle c p s1 = Some s'"
    using assms(1,2) by (auto simp: copy_process_def split: bind_splits option.splits sum.splits)
  obtain ct1 t1 where fr: "frame p c s s1" and ct1: "tasks s1 c = Some ct1" and t1: "tasks s1 p = Some t1"
    and ch: "child_parts env (args_flags args) 8 ct1 t1" "child_ids (args_flags args) (snd (pid_of env idle)) p ct1 t1"
      "parent_set args c p ct1 s t1" "thread_group t1 = []"
    using fork_steps_progress [OF assms(2,4) run] by (auto simp: progress_def)
  have same: "clear_nproc ct1 = clear_nproc ct" using fr ct1 assms(5) by (simp add: frame_def)
  have par: "real_parent t1 \<noteq> p"
    using ch(3) assms(4,6) clear_nproc_fields(8) [OF same] by (auto simp: parent_set_def child_parent_def)
  obtain s2 where lk: "link_task env idle c p s1 = Some s2" and st: "same_tasks (s2\<lparr>total_forks := total_forks s2 + 1\<rparr>) s'"
    by (rule publish_tasks [OF pub])
  obtain u where lk2: "linked p c t1 s1 s2" "total_forks s2 = total_forks s1"
    and u: "tasks s2 p = Some u" "child_like t1 u" "child_links env idle p u"
    using link_task_linked [OF lk assms(3) t1 par assms(4) ch(4)] by blast
  have "linked p c t1 s1 s'" using lk2(1) st by (auto simp: linked_def same_tasks_def)
  then have "linked p c u s s'" by (rule frame_linked [OF fr _ u(2)])
  moreover have "total_forks s' = total_forks s + 1" using st lk2(2) fr by (simp add: same_tasks_def frame_def)
  moreover have "child_parts env (args_flags args) 6 ct u"
    using ch(1) by (simp add: child_like_kept [OF u(2)] clear_nproc_kept [OF same] child_parts_final)
  moreover have "parent_set args c p ct s u"
    using ch(3) by (simp add: parent_set_def child_like_kept [OF u(2)] clear_nproc_kept [OF same] clear_nproc_fields [OF same])
  ultimately show ?thesis
    using st u(1,3) ch(2) by (simp add: same_tasks_def child_like_kept [OF u(2)] clear_nproc_kept [OF same])
qed

text \<open>
  C9. A successful \<open>copy_process\<close> returns the new task with the promised contents: each of
  files, file system information, handlers, signals and memory is the current task's own
  exactly when its \<open>CLONE_\<close> flag asks for sharing and the fresh copy otherwise; it has no
  children and no time used; its pid is the allocated one, its group, parent and exit signal
  follow \<open>CLONE_THREAD\<close> and \<open>CLONE_PARENT\<close> (a sibling takes the exit signal of the group's
  leader); it is counted once in \<open>total_forks\<close> and, unless it is an idle task, in \<open>nr_threads\<close>.
  Its place in the lists: a group leader is appended to the task list and to its parent's
  children, a thread to the group of its leader and to nothing else; and nothing else of any
  other task changes, but for the flag of an exceeded limit in the current one.
\<close>

theorem copy_process_child:
  assumes "copy_process env idle args c s = Some (Inl p, s')" "new_task env = Some p" "leader_ok env"
    and "p \<noteq> c" "tasks s c = Some ct" "real_parent ct \<noteq> p" "group_leader ct \<noteq> p"
  shows "\<exists>t leader. tasks s' p = Some t \<and> child_parts env (args_flags args) 6 ct t \<and>
    child_ids (args_flags args) (snd (pid_of env idle)) p ct t \<and>
    tasks s (group_leader ct) = Some leader \<and> child_parent args c ct (exit_signal leader) t \<and>
    child_links env idle p t \<and> linked p c t s s' \<and> total_forks s' = total_forks s + 1"
  using copy_process_success [OF assms(1-6)] assms(7) by (auto simp: parent_set_def)

text \<open>A process is copied, and then a thread made.\<close>

definition thread_args :: kernel_clone_args where
  "thread_args = demo_args\<lparr>args_flags := {CLONE_VM, CLONE_FS, CLONE_FILES, CLONE_SIGHAND, CLONE_THREAD}, args_exit_signal := 0\<rparr>"

lemma demo_fork:
  "\<exists>s'. copy_process demo_env False demo_args 2 demo_kst = Some (Inl 3, s')"
  "\<exists>s'. copy_process demo_env False thread_args 2 demo_kst = Some (Inl 3, s')"
  by (simp_all add: thread_args_def copy_process_evals demo_defs Let_def)

lemma demo_facts:
  "new_task demo_env = Some 3" "leader_ok demo_env" "(3 :: task_ptr) \<noteq> 2" "tasks demo_kst 2 = Some (demo_task 50 2)"
  "real_parent (demo_task 50 2) \<noteq> 3" "group_leader (demo_task 50 2) \<noteq> 3"
  by (simp_all add: leader_ok_def demo_env_def demo_kst_def) (simp_all add: demo_task_def)

lemma demo_values:
  "args_flags demo_args = {}" "args_exit_signal demo_args = 17" "snd (pid_of demo_env False) = 1234" "total_forks demo_kst = 1"
  "nr_threads demo_kst = 2" "task_list demo_kst = [1, 2]" "children (demo_task 50 2) = []" "thread_group (demo_task 50 2) = []"
  "group_leader (demo_task 50 2) = 2" "mm (demo_task 50 2) = Some 2" "tasks demo_kst 1 \<noteq> None"
  "args_flags thread_args = {CLONE_VM, CLONE_FS, CLONE_FILES, CLONE_SIGHAND, CLONE_THREAD}"
  by (simp_all add: demo_defs pid_of_def thread_args_def)

lemma linked_current:
  assumes "linked p c t s s'" "tasks s c = Some x"
  obtains y where "tasks s' c = Some y" "children y = children (link_effect p t c x)" "thread_group y = thread_group (link_effect p t c x)"
proof -
  from assms obtain y where y0: "tasks s' c = Some y" and y: "clear_nproc y = clear_nproc (link_effect p t c x)"
    by (cases "tasks s' c") (auto simp: linked_def)
  show thesis by (rule that [OF y0 clear_nproc_fields(9,11) [OF y]])
qed

theorem copy_process_child_witness:
  "(\<exists>t y s'. copy_process demo_env False demo_args 2 demo_kst = Some (Inl 3, s') \<and> tasks s' 3 = Some t \<and>
      child_parts demo_env {} 6 (demo_task 50 2) t \<and> child_ids {} 1234 3 (demo_task 50 2) t \<and>
      tasks s' 2 = Some y \<and> children y = [3] \<and> task_list s' = [1, 2, 3] \<and> total_forks s' = 2) \<and>
    (\<exists>t y s'. copy_process demo_env False thread_args 2 demo_kst = Some (Inl 3, s') \<and> tasks s' 3 = Some t \<and>
      group_leader t = 2 \<and> mm t = Some 2 \<and> tasks s' 2 = Some y \<and> thread_group y = [3] \<and> children y = [] \<and>
      tasks s' 1 = tasks demo_kst 1 \<and> task_list s' = [1, 2] \<and> nr_threads s' = 3)"
proof
  obtain s' where s': "copy_process demo_env False demo_args 2 demo_kst = Some (Inl 3, s')" using demo_fork(1) by blast
  from copy_process_child [OF s' demo_facts, unfolded demo_values] obtain t and leader :: task_struct where t: "tasks s' 3 = Some t"
    "child_parts demo_env {} 6 (demo_task 50 2) t" "child_ids {} 1234 3 (demo_task 50 2) t"
    "child_parent demo_args 2 (demo_task 50 2) (exit_signal leader) t" "linked 3 2 t demo_kst s'" "total_forks s' = 1 + 1" by blast
  from t(3,4) have v: "pid t = 1234" "exit_signal t = 17" "real_parent t = 2" by (simp_all add: child_ids_def child_parent_def demo_values)
  from linked_current [OF t(5) demo_facts(4)] obtain y where "tasks s' 2 = Some y" "children y = [3]"
    by (auto simp: link_effect_def v demo_values)
  moreover have "task_list s' = [1, 2, 3]" using t(5) v by (simp add: linked_def demo_values)
  ultimately show "\<exists>t y s'. copy_process demo_env False demo_args 2 demo_kst = Some (Inl 3, s') \<and> tasks s' 3 = Some t \<and>
      child_parts demo_env {} 6 (demo_task 50 2) t \<and> child_ids {} 1234 3 (demo_task 50 2) t \<and>
      tasks s' 2 = Some y \<and> children y = [3] \<and> task_list s' = [1, 2, 3] \<and> total_forks s' = 2" using s' t by auto
next
  obtain s' where s': "copy_process demo_env False thread_args 2 demo_kst = Some (Inl 3, s')" using demo_fork(2) by blast
  let ?fl = "args_flags thread_args"
  from copy_process_child [OF s' demo_facts] obtain t and leader :: task_struct where t: "tasks s' 3 = Some t" "child_parts demo_env ?fl 6 (demo_task 50 2) t"
    "child_ids ?fl 1234 3 (demo_task 50 2) t" "child_parent thread_args 2 (demo_task 50 2) (exit_signal leader) t"
    "linked 3 2 t demo_kst s'" by (auto simp only: demo_values)
  from t(2-4) have v: "pid t = 1234" "exit_signal t = -1" "group_leader t = 2" "mm t = Some 2"
    by (simp_all add: child_ids_def child_parent_def child_parts_def demo_values)
  from linked_current [OF t(5) demo_facts(4)] obtain y where "tasks s' 2 = Some y" "thread_group y = [3]" "children y = []"
    by (auto simp: link_effect_def v demo_values)
  moreover have "tasks s' 1 = tasks demo_kst 1" "task_list s' = [1, 2]" "nr_threads s' = 3"
    using t(5) v demo_values(11) by (auto simp: linked_def demo_values link_effect_cases option.map_ident)
  ultimately show "\<exists>t y s'. copy_process demo_env False thread_args 2 demo_kst = Some (Inl 3, s') \<and> tasks s' 3 = Some t \<and>
      group_leader t = 2 \<and> mm t = Some 2 \<and> tasks s' 2 = Some y \<and> thread_group y = [3] \<and> children y = [] \<and>
      tasks s' 1 = tasks demo_kst 1 \<and> task_list s' = [1, 2] \<and> nr_threads s' = 3" using s' t(1) v by blast
qed

end
