(* ===== verification/Do_Fork.thy ===== *)
theory Do_Fork
  imports Fork_Success
begin

text \<open>
  The callers of \<open>copy_process\<close> in \<open>Assignment3-1/fork.c\<close>: \<open>_do_fork\<close>, which the assignment
  extends by the counter \<open>fork_count\<close>, the waiting of \<open>vfork\<close>, and the system calls. What other
  code sees of a call, in order, is a list of events.
\<close>

datatype ptrace_event = PTRACE_EVENT_FORK | PTRACE_EVENT_VFORK | PTRACE_EVENT_CLONE | PTRACE_EVENT_VFORK_DONE

datatype fork_event = Put_user "nat option" int | Wake_up task_ptr | Ptrace_event ptrace_event int
  | Completed nat | Futex_wake nat

text \<open>
  The answers of other code during one call: those \<open>copy_process\<close> needs, the tracer's
  interest, the number of a pid in the caller's namespace, the address of the completion on
  the caller's stack, and whether a \<open>vfork\<close> child let go of the memory before the caller
  was killed. \<open>SIGCHLD\<close>, \<open>CSIGNAL\<close>, the page size and the size of the first version of the
  arguments are constants of other headers.
\<close>

record call_env =
  fenv :: fork_env
  ptrace_event_enabled :: "ptrace_event \<Rightarrow> bool"
  pid_vnr :: "nat \<Rightarrow> int"
  vfork_addr :: nat
  vfork_released :: bool
  profile_handoff_task :: bool
  SIGCHLD :: int
  CSIGNAL :: "64 word"
  PAGE_SIZE :: nat
  CLONE_ARGS_SIZE_VER0 :: nat
  valid_signal :: "64 word \<Rightarrow> bool"
  access_ok :: "nat \<Rightarrow> nat \<Rightarrow> bool"

section \<open>References to tasks and memory\<close>

definition put_signal_struct :: "nat \<Rightarrow> kst \<Rightarrow> kst option" where
  "put_signal_struct a s = do {
     sig \<leftarrow> signal_tab s a;
     let s = s\<lparr>signal_tab := (signal_tab s)(a \<mapsto> sig\<lparr>sigcnt := sigcnt sig - 1\<rparr>)\<rparr>;
     if sigcnt sig - 1 = 0 then free_signal_struct a s else Some s }"

text \<open>
  \<open>put_task_struct\<close> is the reference count in front of \<open>__put_task_struct\<close>. Of that function the
  calls that give back what the task holds in other parts of the kernel and that is not
  counted here (\<open>cgroup_free\<close>, \<open>task_numa_free\<close>, \<open>security_task_free\<close>, \<open>exit_creds\<close>, \<open>delayacct_tsk_free\<close>) and
  its warnings are left out; a profiler may keep the structure (\<open>profile_handoff_task\<close>).
\<close>

definition put_task_struct_final :: "call_env \<Rightarrow> task_ptr \<Rightarrow> kst \<Rightarrow> kst option" where
  "put_task_struct_final env p s = do {
     t \<leftarrow> tasks s p;
     a \<leftarrow> signal t;
     s \<leftarrow> put_signal_struct a s;
     if \<not> profile_handoff_task env then free_task p s else Some s }"

definition put_task_struct :: "call_env \<Rightarrow> task_ptr \<Rightarrow> kst \<Rightarrow> kst option" where
  "put_task_struct env p s = do {
     t \<leftarrow> tasks s p;
     let s = upd_task p (\<lambda>t. t\<lparr>usage := usage t - 1\<rparr>) s;
     if usage t = 0 then None
     else if usage t - 1 = 0 then put_task_struct_final env p s else Some s }"

definition get_task_mm :: "task_ptr \<Rightarrow> kst \<Rightarrow> (nat option \<times> kst) option" where
  "get_task_mm p s = do {
     t \<leftarrow> tasks s p;
     case mm t of None \<Rightarrow> Some (None, s)
     | Some a \<Rightarrow>
         if flags t AND PF_KTHREAD \<noteq> 0 then Some (None, s)
         else do { s \<leftarrow> mmget a s; Some (Some a, s) } }"

text \<open>\<open>mm_access\<close> with the answers of \<open>down_read_killable\<close> and \<open>ptrace_may_access\<close>.\<close>

definition mm_access ::
  "errno option \<Rightarrow> bool \<Rightarrow> task_ptr \<Rightarrow> task_ptr \<Rightarrow> kst \<Rightarrow> ((nat option + errno) \<times> kst) option" where
  "mm_access lock_err may_access current task s =
    (case lock_err of Some e \<Rightarrow> Some (Inr e, s)
     | None \<Rightarrow> do {
         (r, s) \<leftarrow> get_task_mm task s;
         c \<leftarrow> tasks s current;
         case r of None \<Rightarrow> Some (Inl None, s)
         | Some a \<Rightarrow>
             if mm c \<noteq> Some a \<and> \<not> may_access then do { s \<leftarrow> mmput a s; Some (Inr EACCES, s) }
             else Some (Inl (Some a), s) })"

section \<open>Waiting for a vfork child\<close>

definition complete_vfork_done :: "task_ptr \<Rightarrow> kst \<times> fork_event list \<Rightarrow> (kst \<times> fork_event list) option" where
  "complete_vfork_done p = (\<lambda>(s, ev). do {
     t \<leftarrow> tasks s p;
     case vfork_done t of None \<Rightarrow> Some (s, ev)
     | Some v \<Rightarrow> Some (upd_task p (\<lambda>t. t\<lparr>vfork_done := None\<rparr>) s, ev @ [Completed v]) })"

text \<open>
  What a child does when it gives up the memory \<open>m\<close>, at exit or \<open>exec\<close>. \<open>dumping\<close> is the flag
  \<open>SIGNAL_GROUP_COREDUMP\<close> of its signals.
\<close>

definition mm_release :: "bool \<Rightarrow> task_ptr \<Rightarrow> nat \<Rightarrow> kst \<times> fork_event list \<Rightarrow> (kst \<times> fork_event list) option" where
  "mm_release dumping p m = (\<lambda>(s, ev). do {
     t \<leftarrow> tasks s p;
     (s, ev) \<leftarrow> (case clear_child_tid t of None \<Rightarrow> Some (s, ev)
       | Some u \<Rightarrow> do {
           n \<leftarrow> mm_tab s m;
           Some (upd_task p (\<lambda>t. t\<lparr>clear_child_tid := None\<rparr>) s,
             ev @ (if \<not> dumping \<and> 1 < n then [Put_user (Some u) 0, Futex_wake u] else [])) });
     if vfork_done t \<noteq> None then complete_vfork_done p (s, ev) else Some (s, ev) })"

text \<open>The wait is over when the completion is signalled or the caller is killed.\<close>

definition wait_for_vfork_done ::
  "call_env \<Rightarrow> task_ptr \<Rightarrow> nat \<Rightarrow> kst \<times> fork_event list \<Rightarrow> (bool \<times> kst \<times> fork_event list) option" where
  "wait_for_vfork_done env child v = (\<lambda>(s, ev). do {
     let killed = Completed v \<notin> set ev;
     let s = (if killed then upd_task child (\<lambda>t. t\<lparr>vfork_done := None\<rparr>) s else s);
     s \<leftarrow> put_task_struct env child s;
     Some (killed, s, ev) })"

section \<open>The main fork routine\<close>

text \<open>The kernel is compiled with wrapping signed arithmetic.\<close>

definition wrap_int :: "int \<Rightarrow> int" where
  "wrap_int n = (n + 2 ^ 31) mod 2 ^ 32 - 2 ^ 31"

definition trace_event :: "call_env \<Rightarrow> kernel_clone_args \<Rightarrow> ptrace_event option" where
  "trace_event env args =
    (if CLONE_UNTRACED \<in> args_flags args then None
     else let ev = (if CLONE_VFORK \<in> args_flags args then PTRACE_EVENT_VFORK
            else if args_exit_signal args \<noteq> SIGCHLD env then PTRACE_EVENT_CLONE else PTRACE_EVENT_FORK)
          in if ptrace_event_enabled env ev then Some ev else None)"

text \<open>The two statements that the assignment adds.\<close>

definition count_fork :: "task_ptr \<Rightarrow> task_ptr \<Rightarrow> kst \<Rightarrow> kst" where
  "count_fork current p s =
     upd_task p (\<lambda>t. t\<lparr>fork_count := 0\<rparr>) (upd_task current (\<lambda>t. t\<lparr>fork_count := wrap_int (fork_count t + 1)\<rparr>) s)"

definition start_child :: "call_env \<Rightarrow> kernel_clone_args \<Rightarrow> task_ptr \<Rightarrow> int \<Rightarrow> kst \<Rightarrow> kst \<times> fork_event list" where
  "start_child env args p nr s =
    (if CLONE_VFORK \<in> args_flags args
       then upd_task p (\<lambda>t. t\<lparr>vfork_done := Some (vfork_addr env), usage := usage t + 1\<rparr>) s else s,
     (if CLONE_PARENT_SETTID \<in> args_flags args then [Put_user (args_parent_tid args) nr] else []) @ [Wake_up p] @
     (case trace_event env args of None \<Rightarrow> [] | Some e \<Rightarrow> [Ptrace_event e nr]))"

definition wait_child ::
  "call_env \<Rightarrow> kernel_clone_args \<Rightarrow> task_ptr \<Rightarrow> int \<Rightarrow> kst \<times> fork_event list \<Rightarrow> (kst \<times> fork_event list) option" where
  "wait_child env args p nr st =
    (if CLONE_VFORK \<notin> args_flags args then Some st
     else do {
       st \<leftarrow> (if vfork_released env then complete_vfork_done p st else Some st);
       (killed, s, ev) \<leftarrow> wait_for_vfork_done env p (vfork_addr env) st;
       Some (s, if killed then ev else ev @ [Ptrace_event PTRACE_EVENT_VFORK_DONE nr]) })"

type_synonym call_result = "((int + errno) \<times> kst \<times> fork_event list) option"

definition do_fork_main :: "call_env \<Rightarrow> kernel_clone_args \<Rightarrow> task_ptr \<Rightarrow> kst \<Rightarrow> call_result" where
  "do_fork_main env args current s = do {
     (r, s) \<leftarrow> copy_process (fenv env) False args current s;
     case r of Inr e \<Rightarrow> Some (Inr e, s, [])
     | Inl p \<Rightarrow> do {
         let s = count_fork current p s;
         t \<leftarrow> tasks s p;
         pd \<leftarrow> thread_pid t;
         let nr = pid_vnr env pd;
         (s, ev) \<leftarrow> wait_child env args p nr (start_child env args p nr s);
         Some (Inl nr, s, ev) } }"

section \<open>The system calls\<close>

text \<open>
  A flag word of a legacy call is given as its set of flags and the value of its signal
  byte. \<open>lower_32_bits\<close> drops the unknown flags.
\<close>

definition no_args :: kernel_clone_args where
  "no_args = \<lparr>args_flags = {}, args_pidfd = None, args_child_tid = None, args_parent_tid = None,
     args_exit_signal = 0, args_stack = 0, args_stack_size = 0, args_tls = 0\<rparr>"

definition legacy_flags :: "clone_flag set \<Rightarrow> clone_flag set" where
  "legacy_flags fl = fl - {UNKNOWN_FLAG, CSIGNAL_BITS}"

definition legacy_clone_args_valid :: "kernel_clone_args \<Rightarrow> bool" where
  "legacy_clone_args_valid kargs \<longleftrightarrow>
     \<not> (CLONE_PIDFD \<in> args_flags kargs \<and> CLONE_PARENT_SETTID \<in> args_flags kargs)"

definition do_fork ::
  "call_env \<Rightarrow> clone_flag set \<Rightarrow> int \<Rightarrow> nat \<Rightarrow> nat \<Rightarrow> nat option \<Rightarrow> nat option \<Rightarrow> task_ptr \<Rightarrow> kst \<Rightarrow> call_result" where
  "do_fork env fl sig stack_start stk_size parent_tidptr child_tidptr current s =
    (let args = \<lparr>args_flags = legacy_flags fl, args_pidfd = parent_tidptr, args_child_tid = child_tidptr,
           args_parent_tid = parent_tidptr, args_exit_signal = sig, args_stack = stack_start,
           args_stack_size = stk_size, args_tls = 0\<rparr>
     in if \<not> legacy_clone_args_valid args then Some (Inr EINVAL, s, []) else do_fork_main env args current s)"

definition kernel_thread :: "call_env \<Rightarrow> nat \<Rightarrow> nat \<Rightarrow> clone_flag set \<Rightarrow> int \<Rightarrow> task_ptr \<Rightarrow> kst \<Rightarrow> call_result" where
  "kernel_thread env fn arg fl sig current s =
     do_fork_main env (no_args\<lparr>args_flags := legacy_flags fl \<union> {CLONE_VM, CLONE_UNTRACED},
       args_exit_signal := sig, args_stack := fn, args_stack_size := arg\<rparr>) current s"

definition sys_fork :: "call_env \<Rightarrow> task_ptr \<Rightarrow> kst \<Rightarrow> call_result" where
  "sys_fork env current s = do_fork_main env (no_args\<lparr>args_exit_signal := SIGCHLD env\<rparr>) current s"

definition sys_vfork :: "call_env \<Rightarrow> task_ptr \<Rightarrow> kst \<Rightarrow> call_result" where
  "sys_vfork env current s = do_fork_main env
     (no_args\<lparr>args_flags := {CLONE_VFORK, CLONE_VM}, args_exit_signal := SIGCHLD env\<rparr>) current s"

definition sys_clone ::
  "call_env \<Rightarrow> clone_flag set \<Rightarrow> int \<Rightarrow> nat \<Rightarrow> nat option \<Rightarrow> nat option \<Rightarrow> nat \<Rightarrow> task_ptr \<Rightarrow> kst \<Rightarrow> call_result" where
  "sys_clone env fl sig newsp parent_tidptr child_tidptr tls current s =
    (let args = \<lparr>args_flags = legacy_flags fl, args_pidfd = parent_tidptr, args_child_tid = child_tidptr,
           args_parent_tid = parent_tidptr, args_exit_signal = sig, args_stack = newsp,
           args_stack_size = 0, args_tls = tls\<rparr>
     in if \<not> legacy_clone_args_valid args then Some (Inr EINVAL, s, []) else do_fork_main env args current s)"

text \<open>The structure that user space passes to \<open>clone3\<close>.\<close>

record clone_args =
  ca_flags :: "clone_flag set"
  ca_pidfd :: nat
  ca_child_tid :: nat
  ca_parent_tid :: nat
  ca_exit_signal :: "64 word"
  ca_stack :: nat
  ca_stack_size :: nat
  ca_tls :: nat

definition user_ptr :: "nat \<Rightarrow> nat option" where
  "user_ptr a = (if a = 0 then None else Some a)"

text \<open>\<open>copied\<close> is what \<open>copy_struct_from_user\<close> delivers.\<close>

definition copy_clone_args_from_user :: "call_env \<Rightarrow> (clone_args + errno) \<Rightarrow> nat \<Rightarrow> kernel_clone_args + errno" where
  "copy_clone_args_from_user env copied usize =
    (if PAGE_SIZE env < usize then Inr E2BIG
     else if usize < CLONE_ARGS_SIZE_VER0 env then Inr EINVAL
     else case copied of Inr err \<Rightarrow> Inr err
     | Inl a \<Rightarrow>
         if ca_exit_signal a AND NOT (CSIGNAL env) \<noteq> 0 \<or> \<not> valid_signal env (ca_exit_signal a) then Inr EINVAL
         else Inl \<lparr>args_flags = ca_flags a, args_pidfd = user_ptr (ca_pidfd a),
                args_child_tid = user_ptr (ca_child_tid a), args_parent_tid = user_ptr (ca_parent_tid a),
                args_exit_signal = sint (ucast (ca_exit_signal a) :: 32 word), args_stack = ca_stack a,
                args_stack_size = ca_stack_size a, args_tls = ca_tls a\<rparr>)"

text \<open>The stack grows down: the stack pointer is the end of the area.\<close>

definition clone3_stack_valid :: "call_env \<Rightarrow> kernel_clone_args \<Rightarrow> kernel_clone_args option" where
  "clone3_stack_valid env kargs =
    (if args_stack kargs = 0 then (if 0 < args_stack_size kargs then None else Some kargs)
     else if args_stack_size kargs = 0 then None
     else if \<not> access_ok env (args_stack kargs) (args_stack_size kargs) then None
     else Some (kargs\<lparr>args_stack := (args_stack kargs + args_stack_size kargs) mod 2 ^ 64\<rparr>))"

definition clone3_args_valid :: "call_env \<Rightarrow> kernel_clone_args \<Rightarrow> kernel_clone_args option" where
  "clone3_args_valid env kargs =
    (if UNKNOWN_FLAG \<in> args_flags kargs then None
     else if CLONE_DETACHED \<in> args_flags kargs \<or> CSIGNAL_BITS \<in> args_flags kargs then None
     else if (CLONE_THREAD \<in> args_flags kargs \<or> CLONE_PARENT \<in> args_flags kargs) \<and> args_exit_signal kargs \<noteq> 0 then None
     else clone3_stack_valid env kargs)"

definition sys_clone3 :: "call_env \<Rightarrow> (clone_args + errno) \<Rightarrow> nat \<Rightarrow> task_ptr \<Rightarrow> kst \<Rightarrow> call_result" where
  "sys_clone3 env uargs usize current s =
    (case copy_clone_args_from_user env uargs usize of Inr err \<Rightarrow> Some (Inr err, s, [])
     | Inl kargs \<Rightarrow> (case clone3_args_valid env kargs of None \<Rightarrow> Some (Inr EINVAL, s, [])
       | Some kargs \<Rightarrow> do_fork_main env kargs current s))"

section \<open>The fork counter\<close>

text \<open>What a call needs of the state and of the other code.\<close>

definition call_ok :: "call_env \<Rightarrow> task_ptr \<Rightarrow> kst \<Rightarrow> bool" where
  "call_ok env c s \<longleftrightarrow> startable (fenv env) c (case new_task (fenv env) of None \<Rightarrow> 0 | Some p \<Rightarrow> p) s \<and>
     exit_files_ok (fenv env) \<and> exit_fs_ok (fenv env)"

definition forks_of :: "task_ptr \<Rightarrow> kst \<Rightarrow> int option" where
  "forks_of q s = map_option fork_count (tasks s q)"

lemma forks_of_upd: "(\<And>t. fork_count (f t) = fork_count t) \<Longrightarrow> forks_of q (upd_task p f s) = forks_of q s"
  by (simp add: forks_of_def upd_task_def option.map_comp comp_def)

lemma forks_of_other: "q \<noteq> p \<Longrightarrow> forks_of q (upd_task p f s) = forks_of q s"
  by (simp add: forks_of_def upd_task_def)

lemma forks_of_same: "same_tasks s t \<Longrightarrow> forks_of q t = forks_of q s"
  by (simp add: forks_of_def same_tasks_def)

lemma forks_of_clear: "forks_of q s = map_option fork_count (map_option clear_nproc (tasks s q))"
  by (cases "tasks s q") (simp_all add: forks_of_def clear_nproc_def)

lemma forks_of_frame: "frame p c s t \<Longrightarrow> q \<noteq> p \<Longrightarrow> forks_of q t = forks_of q s"
  unfolding forks_of_clear by (metis frame_def)

lemma forks_of_forget: "forget p c s = forget p c t \<Longrightarrow> q \<noteq> p \<Longrightarrow> forks_of q s = forks_of q t"
proof -
  assume "forget p c s = forget p c t" "q \<noteq> p"
  then have "tasks (forget p c s) q = tasks (forget p c t) q" by simp
  with \<open>q \<noteq> p\<close> show ?thesis
    unfolding forks_of_clear by (cases "q = c") (simp_all add: forget_def)
qed

lemma forks_of_link:
  assumes "link_task env idle c p s = Some s'"
  shows "forks_of q s' = forks_of q s"
proof -
  have total: "forks_of q (s\<lparr>nr_threads := n\<rparr>) = forks_of q s"
    "forks_of q (s\<lparr>task_list := l, process_counts := m\<rparr>) = forks_of q s" for n l m s
    by (simp_all add: forks_of_def)
  have sig: "upd_signal x f y = Some z \<Longrightarrow> forks_of q z = forks_of q y" for x f y z
    by (rule forks_of_same [OF same_tasks_signal])
  show ?thesis
    using assms
    by (auto simp: link_task_def link_leader_def link_thread_def Let_def total forks_of_upd dest!: sig split: bind_splits if_splits)
qed

lemma forks_of_copy:
  assumes "copy_process env idle args c s = Some (Inl p, s')" "new_task env = Some p" "q \<noteq> p" "p \<noteq> c"
  shows "forks_of q s' = forks_of q s"
proof -
  obtain s1 where run: "run_steps (fork_steps env args idle c p) s = Some (Inl s1)"
    and pub: "publish env args idle c p s1 = Some s'"
    using assms(1,2) by (auto simp: copy_process_def split: bind_splits option.splits sum.splits)
  obtain s2 where lk: "link_task env idle c p s1 = Some s2" and st: "same_tasks (s2\<lparr>total_forks := total_forks s2 + 1\<rparr>) s'"
    by (rule publish_tasks [OF pub])
  have "frame p c s s1" using fork_steps_progress [OF assms(2,4) run] by (simp add: progress_def)
  then show ?thesis
    using forks_of_frame [of p c s s1 q] forks_of_link [OF lk, of q] forks_of_same [OF st, of q] assms(3)
    by (simp add: forks_of_def)
qed

lemma copy_process_new_task:
  assumes "copy_process env idle args c s = Some (Inl p, s')"
  shows "new_task env = Some p"
proof (cases "new_task env")
  case None
  then have *: "dup_step env args c x = Some (Some ENOMEM, x)" for x
    by (simp add: dup_step_def dup_task_struct_def)
  show ?thesis
    using assms None
    by (auto simp: copy_process_def fork_steps_def Let_def * collect_signals_def check_pending_def split: bind_splits option.splits sum.splits if_splits)
next
  case (Some q)
  then show ?thesis using assms by (auto simp: copy_process_def split: bind_splits option.splits sum.splits)
qed

lemma put_task_struct_forks:
  assumes "put_task_struct env p s = Some s'"
  shows "q \<noteq> p \<Longrightarrow> forks_of q s' = forks_of q s"
    and "tasks s' p = None \<or> tasks s' p = map_option (\<lambda>t. t\<lparr>usage := usage t - 1\<rparr>) (tasks s p)"
  using assms
  by (auto simp: put_task_struct_def put_task_struct_final_def put_signal_struct_def free_signal_struct_def free_task_def
      Let_def forks_of_def split: bind_splits if_splits option.splits)

lemma wait_for_vfork_done_effect:
  assumes "wait_for_vfork_done env p v (s, ev) = Some (killed, s', ev')"
  shows "ev' = ev" "killed = (Completed v \<notin> set ev)" "q \<noteq> p \<Longrightarrow> forks_of q s' = forks_of q s"
    and "tasks s' p = Some t \<Longrightarrow> \<exists>t0. tasks s p = Some t0 \<and> fork_count t = fork_count t0 \<and>
      vfork_done t = (if killed then None else vfork_done t0)"
proof -
  let ?s1 = "if Completed v \<notin> set ev then upd_task p (\<lambda>t. t\<lparr>vfork_done := None\<rparr>) s else s"
  have put: "put_task_struct env p ?s1 = Some s'" and *: "ev' = ev" "killed = (Completed v \<notin> set ev)"
    using assms by (auto simp: wait_for_vfork_done_def Let_def split: bind_splits)
  show "ev' = ev" "killed = (Completed v \<notin> set ev)" by (fact *)+
  show "q \<noteq> p \<Longrightarrow> forks_of q s' = forks_of q s"
    using put_task_struct_forks(1) [OF put] by (simp add: forks_of_other split: if_splits)
  show "\<exists>t0. tasks s p = Some t0 \<and> fork_count t = fork_count t0 \<and> vfork_done t = (if killed then None else vfork_done t0)"
    if "tasks s' p = Some t"
    using put_task_struct_forks(2) [OF put] that *(2) by (cases "tasks s p") (auto split: if_splits)
qed

lemma complete_vfork_done_effect:
  assumes "complete_vfork_done p (s, ev) = Some (s', ev')" "tasks s p = Some t"
  shows "tasks s' p = Some (t\<lparr>vfork_done := None\<rparr>)" "q \<noteq> p \<Longrightarrow> forks_of q s' = forks_of q s"
    "ev' = ev @ (case vfork_done t of None \<Rightarrow> [] | Some v \<Rightarrow> [Completed v])"
proof -
  have "vfork_done t = None \<Longrightarrow> t\<lparr>vfork_done := None\<rparr> = t" by simp
  with assms show "tasks s' p = Some (t\<lparr>vfork_done := None\<rparr>)" "q \<noteq> p \<Longrightarrow> forks_of q s' = forks_of q s"
    "ev' = ev @ (case vfork_done t of None \<Rightarrow> [] | Some v \<Rightarrow> [Completed v])"
    by (auto simp: complete_vfork_done_def forks_of_other split: bind_splits option.splits)
qed

lemma wait_child_effect:
  assumes "wait_child env args p nr (s, ev) = Some (s', ev')" "tasks s p = Some t0"
    and "Completed (vfork_addr env) \<notin> set ev"
  shows "q \<noteq> p \<Longrightarrow> forks_of q s' = forks_of q s"
    and "tasks s' p = Some t \<Longrightarrow> fork_count t = fork_count t0 \<and> (CLONE_VFORK \<in> args_flags args \<longrightarrow> vfork_done t = None)"
proof -
  have "(q \<noteq> p \<longrightarrow> forks_of q s' = forks_of q s) \<and>
      (tasks s' p = Some t \<longrightarrow> fork_count t = fork_count t0 \<and> (CLONE_VFORK \<in> args_flags args \<longrightarrow> vfork_done t = None))"
  proof (cases "CLONE_VFORK \<in> args_flags args")
    case False
    then show ?thesis using assms(1,2) by (simp add: wait_child_def)
  next
    case True
    obtain s1 ev1 killed s2 ev2 where
      s1: "(if vfork_released env then complete_vfork_done p (s, ev) else Some (s, ev)) = Some (s1, ev1)"
      and w: "wait_for_vfork_done env p (vfork_addr env) (s1, ev1) = Some (killed, s', ev2)"
      using assms(1) True by (auto simp: wait_child_def split: bind_splits)
    obtain t1 where t1: "tasks s1 p = Some t1" "fork_count t1 = fork_count t0" "q \<noteq> p \<longrightarrow> forks_of q s1 = forks_of q s"
      and v: "vfork_done t1 = None \<or> Completed (vfork_addr env) \<notin> set ev1"
      using s1 assms(2,3) complete_vfork_done_effect [OF _ assms(2)] by (auto split: if_splits)
    show ?thesis
      using wait_for_vfork_done_effect [OF w] t1 v by auto
  qed
  then show "q \<noteq> p \<Longrightarrow> forks_of q s' = forks_of q s"
    and "tasks s' p = Some t \<Longrightarrow> fork_count t = fork_count t0 \<and> (CLONE_VFORK \<in> args_flags args \<longrightarrow> vfork_done t = None)"
    by blast+
qed

lemma copy_process_failed:
  assumes "call_ok env c s" "copy_process (fenv env) idle args c s = Some (Inr e, s')"
    and "q \<noteq> (case new_task (fenv env) of None \<Rightarrow> 0 | Some p \<Rightarrow> p)"
  shows "forks_of q s' = forks_of q s"
proof -
  let ?p = "case new_task (fenv env) of None \<Rightarrow> 0 | Some p \<Rightarrow> p"
  have "forget ?p c s' = forget ?p c s"
    using copy_process_outcome [OF refl, where env = "fenv env" and c = c and s = s and idle = idle and args = args] assms(1,2) by (simp add: call_ok_def)
  then show ?thesis using assms(3) by (rule forks_of_forget)
qed

lemma do_fork_main_cases:
  assumes "do_fork_main env args c s = Some (r, s', ev)"
  obtains (failed) e where "copy_process (fenv env) False args c s = Some (Inr e, s')" "r = Inr e" "ev = []"
    | (made) p s1 t pd where "copy_process (fenv env) False args c s = Some (Inl p, s1)"
      "tasks (count_fork c p s1) p = Some t" "thread_pid t = Some pd" "r = Inl (pid_vnr env pd)"
      "wait_child env args p (pid_vnr env pd) (start_child env args p (pid_vnr env pd) (count_fork c p s1)) = Some (s', ev)"
proof -
  obtain x s1 where x: "copy_process (fenv env) False args c s = Some (x, s1)"
    using assms by (auto simp: do_fork_main_def split: bind_splits)
  show thesis
  proof (cases x)
    case (Inr e)
    then show thesis using x assms failed by (simp add: do_fork_main_def)
  next
    case (Inl p)
    then show thesis using x assms made [of p s1] by (auto simp: do_fork_main_def Let_def split: bind_splits)
  qed
qed

lemma count_fork_effect:
  assumes "p \<noteq> c"
  shows "forks_of c (count_fork c p s) = map_option (\<lambda>n. wrap_int (n + 1)) (forks_of c s)"
    and "tasks (count_fork c p s) p = Some t \<Longrightarrow> fork_count t = 0"
proof -
  show "forks_of c (count_fork c p s) = map_option (\<lambda>n. wrap_int (n + 1)) (forks_of c s)"
    using assms by (cases "tasks s c") (simp_all add: count_fork_def forks_of_def)
  show "tasks (count_fork c p s) p = Some t \<Longrightarrow> fork_count t = 0"
    using assms by (cases "tasks s p") (auto simp: count_fork_def)
qed

lemma start_child_effect:
  assumes "start_child env args p nr s = (s2, ev2)"
  shows "forks_of q s2 = forks_of q s" "Completed v \<notin> set ev2"
    and "tasks s p = Some t \<Longrightarrow> \<exists>t2. tasks s2 p = Some t2 \<and> fork_count t2 = fork_count t"
proof -
  have s2: "s2 = (if CLONE_VFORK \<in> args_flags args
       then upd_task p (\<lambda>t. t\<lparr>vfork_done := Some (vfork_addr env), usage := usage t + 1\<rparr>) s else s)"
    using assms by (simp add: start_child_def)
  show "forks_of q s2 = forks_of q s" by (simp add: s2 forks_of_upd)
  show "tasks s p = Some t \<Longrightarrow> \<exists>t2. tasks s2 p = Some t2 \<and> fork_count t2 = fork_count t" by (simp add: s2)
  show "Completed v \<notin> set ev2" using assms by (auto simp: start_child_def split: option.splits)
qed

lemma do_fork_main_forks:
  assumes "call_ok env c s" "do_fork_main env args c s = Some (r, s', ev)"
  shows "forks_of c s' = map_option (\<lambda>n. if isl r then wrap_int (n + 1) else n) (forks_of c s)"
    and "isl r \<Longrightarrow> tasks s' (the (new_task (fenv env))) = Some t \<Longrightarrow>
      fork_count t = 0 \<and> (CLONE_VFORK \<in> args_flags args \<longrightarrow> vfork_done t = None)"
proof -
  have pc: "(case new_task (fenv env) of None \<Rightarrow> 0 | Some p \<Rightarrow> p) \<noteq> c" using assms(1) by (simp add: call_ok_def startable_def)
  have "forks_of c s' = map_option (\<lambda>n. if isl r then wrap_int (n + 1) else n) (forks_of c s) \<and>
    (isl r \<longrightarrow> tasks s' (the (new_task (fenv env))) = Some t \<longrightarrow>
      fork_count t = 0 \<and> (CLONE_VFORK \<in> args_flags args \<longrightarrow> vfork_done t = None))"
    using assms(2)
  proof (cases rule: do_fork_main_cases)
    case (failed e)
    have "forks_of c s' = forks_of c s" using copy_process_failed [OF assms(1) failed(1) pc [symmetric]] .
    then show ?thesis using failed(2) by (simp add: option.map_ident)
  next
    case (made p s1 t0 pd)
    have p: "new_task (fenv env) = Some p" by (rule copy_process_new_task [OF made(1)])
    then have pc: "p \<noteq> c" using pc by simp
    obtain s2 ev2 where s2: "start_child env args p (pid_vnr env pd) (count_fork c p s1) = (s2, ev2)" by (cases "start_child env args p (pid_vnr env pd) (count_fork c p s1)")
    note st = start_child_effect [OF s2]
    obtain t2 where t2: "tasks s2 p = Some t2" "fork_count t2 = 0"
      using st(3) [OF made(2)] count_fork_effect(2) [OF pc made(2)] by auto
    have c2: "forks_of c s2 = map_option (\<lambda>n. wrap_int (n + 1)) (forks_of c s1)"
      using st(1) [of c] count_fork_effect(1) [OF pc] by simp
    have w: "wait_child env args p (pid_vnr env pd) (s2, ev2) = Some (s', ev)" using made(5) s2 by simp
    have "forks_of c s' = forks_of c s2"
      by (rule wait_child_effect(1) [OF w t2(1) st(2)]) (use pc in simp)
    moreover have "tasks s' p = Some t \<Longrightarrow> fork_count t = 0 \<and> (CLONE_VFORK \<in> args_flags args \<longrightarrow> vfork_done t = None)"
      using wait_child_effect(2) [OF w t2(1) st(2)] t2(2) by simp
    moreover have "forks_of c s1 = forks_of c s"
      using forks_of_copy [OF made(1) p, of c] pc by simp
    ultimately show ?thesis using c2 made(4) p by simp
  qed
  then show "forks_of c s' = map_option (\<lambda>n. if isl r then wrap_int (n + 1) else n) (forks_of c s)"
    and "isl r \<Longrightarrow> tasks s' (the (new_task (fenv env))) = Some t \<Longrightarrow>
      fork_count t = 0 \<and> (CLONE_VFORK \<in> args_flags args \<longrightarrow> vfork_done t = None)" by blast+
qed

text \<open>A history of calls by one task, with the number of those that returned a child.\<close>

inductive fork_history :: "task_ptr \<Rightarrow> kst \<Rightarrow> nat \<Rightarrow> kst \<Rightarrow> bool" for c :: task_ptr and s0 :: kst where
  start: "fork_history c s0 0 s0"
| call: "fork_history c s0 n s \<Longrightarrow> call_ok env c s \<Longrightarrow> do_fork_main env args c s = Some (r, s', ev) \<Longrightarrow>
    fork_history c s0 (if isl r then Suc n else n) s'"

lemma wrap_int_mod: "wrap_int (wrap_int n + m) = wrap_int (n + m)"
proof -
  have "wrap_int n + m + 2 ^ 31 = (n + 2 ^ 31) mod 2 ^ 32 + m" by (simp add: wrap_int_def)
  moreover have "((n + 2 ^ 31) mod 2 ^ 32 + m) mod 2 ^ 32 = (n + 2 ^ 31 + m) mod 2 ^ 32" by (rule mod_add_left_eq)
  ultimately show ?thesis by (simp add: wrap_int_def algebra_simps)
qed

lemma wrap_int_id: "- (2 ^ 31) \<le> n \<Longrightarrow> n < 2 ^ 31 \<Longrightarrow> wrap_int n = n"
  by (simp add: wrap_int_def)

text \<open>
  C6. The counter that the assignment adds is right: over any history of calls to the fork
  routine, through whichever system call, \<open>fork_count\<close> of the caller grows by exactly the
  number of calls that returned a child, not by those that failed, and it is exact for as
  long as the true number fits in an \<open>int\<close>.
\<close>

theorem fork_count_counts:
  assumes "fork_history c s0 n s" "tasks s0 c = Some t0" "- (2 ^ 31) \<le> fork_count t0" "fork_count t0 + int n < 2 ^ 31"
  shows "\<exists>t. tasks s c = Some t \<and> fork_count t = fork_count t0 + int n"
proof -
  have "forks_of c s = Some (wrap_int (fork_count t0 + int n))"
    using assms(1)
  proof (induction rule: fork_history.induct)
    case start
    have "wrap_int (fork_count t0) = fork_count t0" using assms(3,4) by (intro wrap_int_id) simp_all
    with assms(2) show ?case by (simp add: forks_of_def)
  next
    case (call n s env args r s' ev)
    then show ?case
      using do_fork_main_forks(1) [OF call(2,3)] wrap_int_mod [of "fork_count t0 + int n" 1] by (simp add: ac_simps)
  qed
  moreover have "wrap_int (fork_count t0 + int n) = fork_count t0 + int n"
    using assms(3,4) by (intro wrap_int_id) simp_all
  ultimately show ?thesis by (auto simp: forks_of_def)
qed

definition demo_call :: call_env where
  "demo_call = \<lparr>fenv = demo_env, ptrace_event_enabled = (\<lambda>e. False), pid_vnr = (\<lambda>d. 1234), vfork_addr = 99,
     vfork_released = True, profile_handoff_task = False, SIGCHLD = 17, CSIGNAL = 255, PAGE_SIZE = 4096, CLONE_ARGS_SIZE_VER0 = 64,
     valid_signal = (\<lambda>n. n \<le> 64), access_ok = (\<lambda>a n. True)\<rparr>"

lemma call_ok_demo: "call_ok demo_call 2 demo_kst"
proof -
  have "startable demo_env 2 3 demo_kst" using startable_demo [of None] by (simp add: demo_env_def)
  moreover have "exit_files_ok demo_env" "exit_fs_ok demo_env" by (rule exit_ok_drop; simp add: demo_env_def)+
  ultimately show ?thesis by (simp add: call_ok_def demo_call_def) (simp add: demo_env_def)
qed

lemma do_fork_demo: "\<exists>s' ev. do_fork_main demo_call demo_args 2 demo_kst = Some (Inl 1234, s', ev)"
  by (simp add: do_fork_main_def demo_call_def count_fork_def start_child_def wait_child_def copy_process_evals demo_defs Let_def)

theorem fork_count_counts_witness:
  "\<exists>s. fork_history 2 demo_kst 1 s \<and> (\<exists>t. tasks s 2 = Some t \<and> fork_count t = 1)"
proof -
  obtain s' ev where "do_fork_main demo_call demo_args 2 demo_kst = Some (Inl 1234, s', ev)" using do_fork_demo by blast
  from fork_history.call [OF fork_history.start call_ok_demo this] have h: "fork_history 2 demo_kst 1 s'" by simp
  have "tasks demo_kst 2 = Some (demo_task 50 2)" "fork_count (demo_task 50 2) = 0"
    by (simp_all add: demo_kst_def demo_task_def blank_task_def)
  with h fork_count_counts [OF h] show ?thesis by auto
qed

text \<open>
  C36. A \<open>vfork\<close> leaves no pointer into the caller's stack: when the call returns a child, the
  completion on the stack is no longer referenced by the child, whether the child let go of
  the memory first or the caller was killed while it waited; and the child's own fork
  counter is 0.
\<close>

theorem vfork_leaves_no_pointer:
  assumes "call_ok env c s" "do_fork_main env args c s = Some (Inl nr, s', ev)" "CLONE_VFORK \<in> args_flags args"
    and "new_task (fenv env) = Some p" "tasks s' p = Some t"
  shows "vfork_done t = None \<and> fork_count t = 0"
  using do_fork_main_forks(2) [OF assms(1,2)] assms(3-5) by simp

theorem vfork_leaves_no_pointer_witness:
  "\<exists>s' ev t. do_fork_main demo_call (demo_args\<lparr>args_flags := {CLONE_VFORK, CLONE_VM}\<rparr>) 2 demo_kst = Some (Inl 1234, s', ev) \<and>
     tasks s' 3 = Some t \<and> vfork_done t = None \<and> fork_count t = 0"
proof -
  let ?a = "demo_args\<lparr>args_flags := {CLONE_VFORK, CLONE_VM}\<rparr>"
  obtain s' ev t where r: "do_fork_main demo_call ?a 2 demo_kst = Some (Inl 1234, s', ev)" "tasks s' 3 = Some t"
    by (simp add: do_fork_main_def demo_call_def count_fork_def start_child_def wait_child_def complete_vfork_done_def
        wait_for_vfork_done_def put_task_struct_def trace_event_def copy_process_evals demo_defs Let_def)
  have "new_task (fenv demo_call) = Some 3" by (simp add: demo_call_def demo_env_def)
  with r vfork_leaves_no_pointer [OF call_ok_demo r(1)] show ?thesis by (simp add: demo_args_def)
qed

end
