(* ===== verification/Unshare.thy ===== *)
theory Unshare
  imports Copy_Process
begin

text \<open>
  The rest of \<open>Assignment3-1/fork.c\<close> that decides something: \<open>unshare\<close>, with which a task gives
  up sharing, and the limit on the number of threads.
\<close>

section \<open>Unshare\<close>

text \<open>
  What other code answers: whether the task is alone in its group and in its memory, what
  the allocations return, the new credentials and namespaces, and the two releasing calls.
\<close>

record unshare_env =
  thread_group_empty :: bool
  current_is_single_threaded :: bool
  copy_fs_struct :: "nat option"
  dup_fd :: "nat + errno"
  unshare_userns :: "nat option + errno"
  unshare_nsproxy_namespaces :: "nat option + errno"
  put_files_struct :: "nat \<Rightarrow> kst \<Rightarrow> kst option"
  free_fs_struct :: "nat \<Rightarrow> kst \<Rightarrow> kst option"

datatype unshare_event = Exit_sem | Exit_shm | Shm_init_task | Switch_task_namespaces nat | Commit_creds nat | Put_cred nat

definition check_unshare_flags :: "unshare_env \<Rightarrow> clone_flag set \<Rightarrow> task_ptr \<Rightarrow> kst \<Rightarrow> errno option option" where
  "check_unshare_flags env fl current s =
    (if \<not> fl \<subseteq> {CLONE_THREAD, CLONE_FS, CLONE_NEWNS, CLONE_SIGHAND, CLONE_VM, CLONE_FILES, CLONE_SYSVSEM,
           CLONE_NEWUTS, CLONE_NEWIPC, CLONE_NEWNET, CLONE_NEWUSER, CLONE_NEWPID, CLONE_NEWCGROUP}
     then Some (Some EINVAL)
     else if fl \<inter> {CLONE_THREAD, CLONE_SIGHAND, CLONE_VM} \<noteq> {} \<and> \<not> thread_group_empty env then Some (Some EINVAL)
     else do {
       shared \<leftarrow> (if fl \<inter> {CLONE_SIGHAND, CLONE_VM} = {} then Some False
         else do { c \<leftarrow> tasks s current; a \<leftarrow> sighand c; n \<leftarrow> sighand_tab s a; Some (1 < n) });
       Some (if shared \<or> CLONE_VM \<in> fl \<and> \<not> current_is_single_threaded env then Some EINVAL else None) })"

definition unshare_fs :: "unshare_env \<Rightarrow> clone_flag set \<Rightarrow> task_ptr \<Rightarrow> kst \<Rightarrow> ((nat option + errno) \<times> kst) option" where
  "unshare_fs env fl current s = do {
     c \<leftarrow> tasks s current;
     if CLONE_FS \<notin> fl \<or> fs c = None then Some (Inl None, s)
     else do {
       a \<leftarrow> fs c;
       f \<leftarrow> fs_tab s a;
       if users f = 1 then Some (Inl None, s)
       else case copy_fs_struct env of None \<Rightarrow> Some (Inr ENOMEM, s)
         | Some n \<Rightarrow> Some (Inl (Some n), s\<lparr>fs_tab := (fs_tab s)(n \<mapsto> \<lparr>users = 1, in_exec = False\<rparr>)\<rparr>) } }"

definition unshare_fd :: "unshare_env \<Rightarrow> clone_flag set \<Rightarrow> task_ptr \<Rightarrow> kst \<Rightarrow> ((nat option + errno) \<times> kst) option" where
  "unshare_fd env fl current s = do {
     c \<leftarrow> tasks s current;
     if CLONE_FILES \<notin> fl \<or> files c = None then Some (Inl None, s)
     else do {
       a \<leftarrow> files c;
       n \<leftarrow> files_tab s a;
       if n \<le> 1 then Some (Inl None, s)
       else case dup_fd env of Inr e \<Rightarrow> Some (Inr e, s)
         | Inl b \<Rightarrow> Some (Inl (Some b), s\<lparr>files_tab := (files_tab s)(b \<mapsto> 1)\<rparr>) } }"

text \<open>The flags that others imply.\<close>

definition implied_flags :: "clone_flag set \<Rightarrow> clone_flag set" where
  "implied_flags fl =
    (let fl = (if CLONE_NEWUSER \<in> fl then fl \<union> {CLONE_THREAD, CLONE_FS} else fl);
         fl = (if CLONE_VM \<in> fl then fl \<union> {CLONE_SIGHAND} else fl);
         fl = (if CLONE_SIGHAND \<in> fl then fl \<union> {CLONE_THREAD} else fl)
     in if CLONE_NEWNS \<in> fl then fl \<union> {CLONE_FS} else fl)"

text \<open>The current task takes over the new objects; what is left over is returned to be released.\<close>

definition swap_fs :: "nat option \<Rightarrow> task_ptr \<Rightarrow> kst \<Rightarrow> (nat option \<times> kst) option" where
  "swap_fs new_fsp current s =
    (case new_fsp of None \<Rightarrow> Some (None, s)
     | Some n \<Rightarrow> do {
         c \<leftarrow> tasks s current;
         a \<leftarrow> fs c;
         f \<leftarrow> fs_tab s a;
         let s = upd_task current (\<lambda>t. t\<lparr>fs := Some n\<rparr>) (s\<lparr>fs_tab := (fs_tab s)(a \<mapsto> f\<lparr>users := users f - 1\<rparr>)\<rparr>);
         Some (if users f - 1 \<noteq> 0 then None else Some a, s) })"

definition swap_fd :: "nat option \<Rightarrow> task_ptr \<Rightarrow> kst \<Rightarrow> (nat option \<times> kst) option" where
  "swap_fd new_fd current s =
    (case new_fd of None \<Rightarrow> Some (None, s)
     | Some n \<Rightarrow> do {
         c \<leftarrow> tasks s current;
         Some (files c, upd_task current (\<lambda>t. t\<lparr>files := Some n\<rparr>) s) })"

definition cleanup_fs :: "unshare_env \<Rightarrow> nat option \<Rightarrow> kst \<Rightarrow> kst option" where
  "cleanup_fs env new_fsp s = (case new_fsp of None \<Rightarrow> Some s | Some a \<Rightarrow> free_fs_struct env a s)"

definition cleanup_fd :: "unshare_env \<Rightarrow> nat option \<Rightarrow> nat option \<Rightarrow> kst \<Rightarrow> kst option" where
  "cleanup_fd env new_fd new_fsp s = do {
     s \<leftarrow> (case new_fd of None \<Rightarrow> Some s | Some a \<Rightarrow> put_files_struct env a s);
     cleanup_fs env new_fsp s }"

definition cred_events :: "nat option \<Rightarrow> unshare_event list" where
  "cred_events new_cred = (case new_cred of None \<Rightarrow> [] | Some a \<Rightarrow> [Put_cred a])"

definition ksys_unshare ::
  "unshare_env \<Rightarrow> clone_flag set \<Rightarrow> task_ptr \<Rightarrow> kst \<Rightarrow> (errno option \<times> kst \<times> unshare_event list) option" where
  "ksys_unshare env fl current s = do {
     let fl = implied_flags fl;
     err \<leftarrow> check_unshare_flags env fl current s;
     if err \<noteq> None then Some (err, s, [])
     else do {
       let do_sysvsem = (CLONE_NEWIPC \<in> fl \<or> CLONE_SYSVSEM \<in> fl);
       (rfs, s) \<leftarrow> unshare_fs env fl current s;
       case rfs of Inr e \<Rightarrow> Some (Some e, s, [])
       | Inl nfs \<Rightarrow> do {
         (rfd, s) \<leftarrow> unshare_fd env fl current s;
         case rfd of Inr e \<Rightarrow> do { s \<leftarrow> cleanup_fs env nfs s; Some (Some e, s, []) }
         | Inl nfd \<Rightarrow> (case unshare_userns env of
             Inr e \<Rightarrow> do { s \<leftarrow> cleanup_fd env nfd nfs s; Some (Some e, s, []) }
           | Inl ncred \<Rightarrow> (case unshare_nsproxy_namespaces env of
               Inr e \<Rightarrow> do { s \<leftarrow> cleanup_fd env nfd nfs s; Some (Some e, s, cred_events ncred) }
             | Inl nns \<Rightarrow>
                 if nfs = None \<and> nfd = None \<and> \<not> do_sysvsem \<and> ncred = None \<and> nns = None
                 then do { s \<leftarrow> cleanup_fd env nfd nfs s; Some (None, s, []) }
                 else do {
                   (left_fs, s) \<leftarrow> swap_fs nfs current s;
                   (left_fd, s) \<leftarrow> swap_fd nfd current s;
                   s \<leftarrow> cleanup_fd env left_fd left_fs s;
                   Some (None, s, (if do_sysvsem then [Exit_sem] else []) @
                     (if CLONE_NEWIPC \<in> fl then [Exit_shm, Shm_init_task] else []) @
                     (case nns of None \<Rightarrow> [] | Some n \<Rightarrow> [Switch_task_namespaces n]) @
                     (case ncred of None \<Rightarrow> [] | Some n \<Rightarrow> [Commit_creds n])) })) } } }"

text \<open>The helper that \<open>exec\<close> uses; it returns the table that was displaced.\<close>

definition unshare_files :: "unshare_env \<Rightarrow> task_ptr \<Rightarrow> kst \<Rightarrow> (errno option \<times> nat option \<times> kst) option" where
  "unshare_files env current s = do {
     (r, s) \<leftarrow> unshare_fd env {CLONE_FILES} current s;
     case r of Inr e \<Rightarrow> Some (Some e, None, s)
     | Inl None \<Rightarrow> Some (None, None, s)
     | Inl (Some copy) \<Rightarrow> do {
         (displaced, s) \<leftarrow> swap_fd (Some copy) current s;
         Some (None, displaced, s) } }"

section \<open>The limit on threads\<close>

definition MIN_THREADS :: "64 word" where "MIN_THREADS = 20"

text \<open>
  The number of pages, the page size, the size of a thread stack, the bit search and the
  futex mask that \<open>MAX_THREADS\<close> is defined as belong to other code.
\<close>

record mem_env =
  totalram_pages :: "64 word"
  page_size :: "64 word"
  thread_size :: "64 word"
  max_threads_mask :: "64 word"
  fls64 :: "64 word \<Rightarrow> nat"

definition clamp :: "64 word \<Rightarrow> 64 word \<Rightarrow> 64 word \<Rightarrow> 64 word" where
  "clamp x lo hi = min (max x lo) hi"

definition set_max_threads :: "mem_env \<Rightarrow> 32 word \<Rightarrow> kst \<Rightarrow> kst" where
  "set_max_threads e suggested s =
    (let threads = (if 64 < fls64 e (totalram_pages e) + fls64 e (page_size e) then max_threads_mask e
           else (totalram_pages e * page_size e) div (thread_size e * 8));
         threads = (if ucast suggested < threads then ucast suggested else threads)
     in s\<lparr>max_threads := sint (ucast (clamp threads MIN_THREADS (max_threads_mask e)) :: 32 word)\<rparr>)"

text \<open>
  The \<open>sysctl\<close>: \<open>parse\<close> is what \<open>proc_dointvec_minmax\<close> returns for the bounds 1 and \<open>MAX_THREADS\<close>,
  an error or the value for the local variable.
\<close>

definition sysctl_max_threads :: "(int \<Rightarrow> int \<Rightarrow> int \<Rightarrow> int + errno) \<Rightarrow> mem_env \<Rightarrow> bool \<Rightarrow> kst \<Rightarrow> errno option \<times> kst" where
  "sysctl_max_threads parse e write s =
    (case parse 1 (uint (max_threads_mask e)) (max_threads s) of Inr er \<Rightarrow> (Some er, s)
     | Inl threads \<Rightarrow> if \<not> write then (None, s) else (None, s\<lparr>max_threads := threads\<rparr>))"

section \<open>What unshare promises\<close>

definition put_files_ok :: "unshare_env \<Rightarrow> bool" where
  "put_files_ok env \<longleftrightarrow> (\<forall>a s. put_files_struct env a s =
     map_option (\<lambda>tab. s\<lparr>files_tab := tab\<rparr>) (put_ref (files_tab s) a))"

definition free_fs_ok :: "unshare_env \<Rightarrow> bool" where
  "free_fs_ok env \<longleftrightarrow> (\<forall>a s. free_fs_struct env a s = Some (s\<lparr>fs_tab := (fs_tab s)(a := None)\<rparr>))"

text \<open>The current task's objects have positive counts, and the allocators return unused addresses.\<close>

definition unshare_ready :: "unshare_env \<Rightarrow> task_struct \<Rightarrow> kst \<Rightarrow> bool" where
  "unshare_ready env ct s \<longleftrightarrow>
     (\<forall>a. fs ct = Some a \<longrightarrow> (\<exists>f. fs_tab s a = Some f \<and> 1 \<le> users f)) \<and>
     (\<forall>a. files ct = Some a \<longrightarrow> (\<exists>n \<ge> 1. files_tab s a = Some n)) \<and>
     (\<exists>a n. sighand ct = Some a \<and> sighand_tab s a = Some n) \<and>
     (\<forall>a. copy_fs_struct env = Some a \<longrightarrow> fs_tab s a = None) \<and>
     (\<forall>a. dup_fd env = Inl a \<longrightarrow> files_tab s a = None)"

text \<open>The abstract effect: a shared object is left with one user less and replaced by a private one.\<close>

definition private_fs :: "unshare_env \<Rightarrow> clone_flag set \<Rightarrow> task_ptr \<Rightarrow> kst \<Rightarrow> kst" where
  "private_fs env fl c s = (case tasks s c of None \<Rightarrow> s | Some ct \<Rightarrow> (case fs ct of None \<Rightarrow> s | Some a \<Rightarrow> (case fs_tab s a of None \<Rightarrow> s
     | Some f \<Rightarrow> if CLONE_FS \<notin> fl \<or> users f = 1 then s
         else upd_task c (\<lambda>t. t\<lparr>fs := copy_fs_struct env\<rparr>) (s\<lparr>fs_tab := (fs_tab s)
           (the (copy_fs_struct env) \<mapsto> \<lparr>users = 1, in_exec = False\<rparr>, a \<mapsto> f\<lparr>users := users f - 1\<rparr>)\<rparr>))))"

definition private_files :: "unshare_env \<Rightarrow> clone_flag set \<Rightarrow> task_ptr \<Rightarrow> kst \<Rightarrow> kst" where
  "private_files env fl c s = (case tasks s c of None \<Rightarrow> s | Some ct \<Rightarrow> (case files ct of None \<Rightarrow> s | Some a \<Rightarrow> (case files_tab s a of None \<Rightarrow> s
     | Some n \<Rightarrow> if CLONE_FILES \<notin> fl \<or> n = 1 then s
         else upd_task c (\<lambda>t. t\<lparr>files := Some (projl (dup_fd env))\<rparr>) (s\<lparr>files_tab := (files_tab s)
           (projl (dup_fd env) \<mapsto> 1, a \<mapsto> n - 1)\<rparr>))))"

lemma check_unshare_flags_total:
  assumes "tasks s c = Some ct" "unshare_ready env ct s"
  shows "\<exists>e. check_unshare_flags env fl c s = Some e"
  using assms by (auto simp: check_unshare_flags_def unshare_ready_def)

text \<open>The three outcomes of the two allocating helpers.\<close>

lemma unshare_fs_outcome:
  assumes "tasks s c = Some ct" "unshare_ready env ct s"
  obtains (kept) "unshare_fs env fl c s = Some (Inl None, s)" "private_fs env fl c s = s"
    | (failed) "unshare_fs env fl c s = Some (Inr ENOMEM, s)"
    | (copied) a f n where "copy_fs_struct env = Some n" "fs ct = Some a" "fs_tab s a = Some f" "1 < users f"
        "CLONE_FS \<in> fl" "n \<noteq> a" "unshare_fs env fl c s = Some (Inl (Some n), s\<lparr>fs_tab := (fs_tab s)(n \<mapsto> \<lparr>users = 1, in_exec = False\<rparr>)\<rparr>)"
proof (cases "CLONE_FS \<notin> fl \<or> fs ct = None")
  case True
  then show thesis using assms kept by (auto simp: unshare_fs_def private_fs_def split: option.splits)
next
  case False
  then obtain a where a: "fs ct = Some a" "CLONE_FS \<in> fl" by auto
  then obtain f where f: "fs_tab s a = Some f" "1 \<le> users f" using assms(2) by (auto simp: unshare_ready_def)
  show thesis
  proof (cases "users f = 1")
    case True
    then show thesis using assms a f kept by (simp add: unshare_fs_def private_fs_def)
  next
    case False
    show thesis
    proof (cases "copy_fs_struct env")
      case None
      then show thesis using assms a f False failed by (simp add: unshare_fs_def)
    next
      case (Some n)
      then have "n \<noteq> a" using assms(2) f by (auto simp: unshare_ready_def)
      then show thesis using Some assms(1) a f False copied [of n a f] by (simp add: unshare_fs_def)
    qed
  qed
qed

lemma unshare_fd_outcome:
  assumes "tasks s c = Some ct" "unshare_ready env ct s"
  obtains (kept) "unshare_fd env fl c s = Some (Inl None, s)" "private_files env fl c s = s"
      "CLONE_FILES \<notin> fl \<or> files ct = None \<or> files_tab s (the (files ct)) = Some 1"
    | (failed) e where "unshare_fd env fl c s = Some (Inr e, s)"
    | (copied) a n b where "dup_fd env = Inl b" "files ct = Some a" "files_tab s a = Some n" "1 < n"
        "CLONE_FILES \<in> fl" "b \<noteq> a" "unshare_fd env fl c s = Some (Inl (Some b), s\<lparr>files_tab := (files_tab s)(b \<mapsto> 1)\<rparr>)"
proof (cases "CLONE_FILES \<notin> fl \<or> files ct = None")
  case True
  then show thesis using assms kept by (auto simp: unshare_fd_def private_files_def split: option.splits)
next
  case False
  then obtain a where a: "files ct = Some a" "CLONE_FILES \<in> fl" by auto
  then obtain n where n: "files_tab s a = Some n" "1 \<le> n" using assms(2) by (auto simp: unshare_ready_def)
  show thesis
  proof (cases "n = 1")
    case True
    then show thesis using assms a n kept by (simp add: unshare_fd_def private_files_def)
  next
    case False
    show thesis
    proof (cases "dup_fd env")
      case (Inr e)
      then show thesis using assms a n False failed by (simp add: unshare_fd_def)
    next
      case (Inl b)
      then have "b \<noteq> a" using assms(2) n by (auto simp: unshare_ready_def)
      then show thesis using Inl assms(1) a n False copied [of b a n] by (simp add: unshare_fd_def)
    qed
  qed
qed

text \<open>Releasing the fresh objects, or the displaced one, gives the expected tables.\<close>

lemma cleanup_fresh:
  assumes "put_files_ok env" "free_fs_ok env"
  shows "files_tab s b = None \<Longrightarrow> put_files_struct env b (s\<lparr>files_tab := (files_tab s)(b \<mapsto> 1)\<rparr>) = Some s"
    and "fs_tab s a = None \<Longrightarrow> free_fs_struct env a (s\<lparr>fs_tab := (fs_tab s)(a \<mapsto> f)\<rparr>) = Some s"
  using assms by (simp_all add: put_files_ok_def free_fs_ok_def put_ref_def fun_upd_idem)

lemma unshare_fd_frame:
  "unshare_fd env fl c (s\<lparr>fs_tab := tab\<rparr>) = map_option (map_prod id (\<lambda>s. s\<lparr>fs_tab := tab\<rparr>)) (unshare_fd env fl c s)"
  by (auto simp: unshare_fd_def split: bind_splits option.splits sum.splits)

text \<open>
  Once the new objects exist, an error releases them and a success swaps them in: the two
  shapes of the tables, for each of the four combinations of fresh objects.
\<close>

lemma swap_fs_private:
  assumes "tasks s c = Some ct" "copy_fs_struct env = Some n" "fs ct = Some a" "fs_tab s a = Some f" "1 < users f"
    "CLONE_FS \<in> fl" "n \<noteq> a"
  shows "swap_fs (Some n) c (s\<lparr>fs_tab := (fs_tab s)(n \<mapsto> \<lparr>users = 1, in_exec = False\<rparr>)\<rparr>) = Some (None, private_fs env fl c s)"
  using assms by (simp add: swap_fs_def private_fs_def Let_def)

lemma swap_fd_private:
  assumes "put_files_ok env" "tasks s c = Some ct" "dup_fd env = Inl b" "files ct = Some a" "files_tab s a = Some n" "1 < n"
    "CLONE_FILES \<in> fl" "b \<noteq> a"
  shows "do { (l, s) \<leftarrow> swap_fd (Some b) c (s\<lparr>files_tab := (files_tab s)(b \<mapsto> 1)\<rparr>); cleanup_fd env l None s } =
    Some (private_files env fl c s)"
  using assms
  by (simp add: swap_fd_def private_files_def cleanup_fd_def cleanup_fs_def put_files_ok_def put_ref_def upd_task_def Let_def)

lemma private_fs_files: "private_fs env fl c (s\<lparr>files_tab := B\<rparr>) = (private_fs env fl c s)\<lparr>files_tab := B\<rparr>"
  by (simp add: private_fs_def upd_task_def split: option.splits)

lemma tables_commute: "s\<lparr>fs_tab := A, files_tab := B\<rparr> = s\<lparr>files_tab := B, fs_tab := A\<rparr>"
  by simp

lemma private_fs_current:
  assumes "tasks s c = Some ct" "unshare_ready env ct s"
  obtains ct' where "tasks (private_fs env fl c s) c = Some ct'" "files ct' = files ct"
    "files_tab (private_fs env fl c s) = files_tab s"
proof -
  have "\<exists>ct'. tasks (private_fs env fl c s) c = Some ct' \<and> files ct' = files ct \<and>
      files_tab (private_fs env fl c s) = files_tab s"
    using assms(1) by (simp add: private_fs_def upd_task_def split: option.splits)
  then show thesis using that by blast
qed

text \<open>The run after the checks, for given results of the two helpers.\<close>

definition finish_unshare ::
  "unshare_env \<Rightarrow> nat option \<Rightarrow> nat option \<Rightarrow> task_ptr \<Rightarrow> kst \<Rightarrow> kst option" where
  "finish_unshare env nfs nfd c s = do {
     (left_fs, s) \<leftarrow> swap_fs nfs c s;
     (left_fd, s) \<leftarrow> swap_fd nfd c s;
     cleanup_fd env left_fd left_fs s }"

lemma finish_bind:
  "Option.bind (swap_fs nfs c s) (\<lambda>(lf, s). Option.bind (swap_fd nfd c s) (\<lambda>(ld, s). Option.bind (cleanup_fd env ld lf s) g)) =
    Option.bind (finish_unshare env nfs nfd c s) g"
  by (simp add: finish_unshare_def case_prod_unfold)

lemma unshare_helpers:
  assumes "tasks s c = Some ct" "unshare_ready env ct s" "put_files_ok env" "free_fs_ok env"
  shows "(\<exists>e. unshare_fs env fl c s = Some (Inr e, s)) \<or>
    (\<exists>nfs s1. unshare_fs env fl c s = Some (Inl nfs, s1) \<and>
      ((\<exists>e. unshare_fd env fl c s1 = Some (Inr e, s1) \<and> cleanup_fs env nfs s1 = Some s) \<or>
       (\<exists>nfd s2. unshare_fd env fl c s1 = Some (Inl nfd, s2) \<and> cleanup_fd env nfd nfs s2 = Some s \<and>
          finish_unshare env nfs nfd c s2 = Some (private_files env fl c (private_fs env fl c s)))))"
  using assms(1,2)
proof (cases rule: unshare_fs_outcome [where fl = fl])
  case failed
  then show ?thesis by blast
next
  case kept
  show ?thesis using assms(1,2)
  proof (cases rule: unshare_fd_outcome [where fl = fl])
    case kept': kept
    then show ?thesis using kept by (simp add: cleanup_fd_def cleanup_fs_def finish_unshare_def swap_fs_def swap_fd_def)
  next
    case failed
    then show ?thesis using kept by (auto simp: cleanup_fs_def)
  next
    case (copied a n b)
    then have "files_tab s b = None" using assms(2) by (simp add: unshare_ready_def)
    then have "cleanup_fd env (Some b) None (s\<lparr>files_tab := (files_tab s)(b \<mapsto> 1)\<rparr>) = Some s"
      using cleanup_fresh(1) [OF assms(3,4)] by (simp add: cleanup_fd_def cleanup_fs_def)
    moreover have "finish_unshare env None (Some b) c (s\<lparr>files_tab := (files_tab s)(b \<mapsto> 1)\<rparr>) = Some (private_files env fl c s)"
      using swap_fd_private [OF assms(3,1) copied(1-6)] by (simp add: finish_unshare_def swap_fs_def)
    ultimately show ?thesis using kept copied(7) by simp
  qed
next
  case fsc: (copied a f n)
  let ?A = "(fs_tab s)(n \<mapsto> \<lparr>users = 1, in_exec = False\<rparr>)"
  have fresh: "fs_tab s n = None" using fsc(1) assms(2) by (simp add: unshare_ready_def)
  have undo_fs: "cleanup_fs env (Some n) (s\<lparr>fs_tab := ?A\<rparr>) = Some s"
    using cleanup_fresh(2) [OF assms(3,4) fresh] by (simp add: cleanup_fs_def)
  obtain ct' where ct': "tasks (private_fs env fl c s) c = Some ct'" "files ct' = files ct"
    "files_tab (private_fs env fl c s) = files_tab s"
    by (rule private_fs_current [OF assms(1,2)])
  show ?thesis using assms(1,2)
  proof (cases rule: unshare_fd_outcome [where fl = fl])
    case kept
    have "private_files env fl c (private_fs env fl c s) = private_fs env fl c s"
      using kept(3) ct' by (auto simp: private_files_def split: option.splits)
    then have "finish_unshare env (Some n) None c (s\<lparr>fs_tab := ?A\<rparr>) = Some (private_files env fl c (private_fs env fl c s))"
      using swap_fs_private [OF assms(1) fsc(1-6)] by (simp add: finish_unshare_def swap_fd_def cleanup_fd_def cleanup_fs_def)
    then show ?thesis using fsc(7) kept(1) undo_fs by (simp add: unshare_fd_frame cleanup_fd_def)
  next
    case (failed e)
    then show ?thesis using fsc(7) undo_fs by (simp add: unshare_fd_frame)
  next
    case fdc: (copied a' m b)
    let ?B = "(files_tab s)(b \<mapsto> 1)"
    have fd: "unshare_fd env fl c (s\<lparr>fs_tab := ?A\<rparr>) = Some (Inl (Some b), s\<lparr>fs_tab := ?A, files_tab := ?B\<rparr>)"
      using fdc(7) by (simp add: unshare_fd_frame)
    have "files_tab s b = None" using fdc(1) assms(2) by (simp add: unshare_ready_def)
    then have "put_files_struct env b (s\<lparr>fs_tab := ?A, files_tab := ?B\<rparr>) = Some (s\<lparr>fs_tab := ?A\<rparr>)"
      using cleanup_fresh(1) [OF assms(3,4), of "s\<lparr>fs_tab := ?A\<rparr>" b] by simp
    then have back2: "cleanup_fd env (Some b) (Some n) (s\<lparr>fs_tab := ?A, files_tab := ?B\<rparr>) = Some s"
      using undo_fs by (simp add: cleanup_fd_def)
    have "swap_fs (Some n) c (s\<lparr>fs_tab := ?A, files_tab := ?B\<rparr>) = Some (None, (private_fs env fl c s)\<lparr>files_tab := ?B\<rparr>)"
      using swap_fs_private [of "s\<lparr>files_tab := ?B\<rparr>" c ct env n a f fl] assms(1) fsc(1-6)
      by (simp add: private_fs_files tables_commute)
    then have "finish_unshare env (Some n) (Some b) c (s\<lparr>fs_tab := ?A, files_tab := ?B\<rparr>) =
        Some (private_files env fl c (private_fs env fl c s))"
      using swap_fd_private [OF assms(3) ct'(1) fdc(1), of a' m fl] fdc(2-6) ct' by (simp add: finish_unshare_def)
    then show ?thesis using fsc(7) fd back2 by simp
  qed
qed

text \<open>
  C16. \<open>unshare\<close> is all or nothing and does what it refines. It always returns. On an error,
  from the flag checks, an allocation or the namespaces, the state is exactly the one
  before. On success every object that the flags, with those they imply, ask to unshare and
  that had other users has lost one user and been replaced by a fresh private one, and
  nothing else has changed.
\<close>

theorem unshare_refines_private:
  assumes "tasks s c = Some ct" "unshare_ready env ct s" "put_files_ok env" "free_fs_ok env"
  shows "\<exists>err s' ev. ksys_unshare env fl c s = Some (err, s', ev) \<and>
    s' = (if err \<noteq> None then s
          else private_files env (implied_flags fl) c (private_fs env (implied_flags fl) c s))"
proof -
  let ?fl = "implied_flags fl"
  obtain e where e: "check_unshare_flags env ?fl c s = Some e" using check_unshare_flags_total [OF assms(1,2)] by blast
  have nop: "nfs = None \<Longrightarrow> nfd = None \<Longrightarrow> finish_unshare env nfs nfd c x = Some y \<Longrightarrow> cleanup_fd env nfd nfs x = Some y" for nfs nfd x y
    by (simp add: finish_unshare_def swap_fs_def swap_fd_def)
  show ?thesis
  proof (cases e)
    case (Some er)
    then show ?thesis using e by (simp add: ksys_unshare_def)
  next
    case None
    consider er where "unshare_fs env ?fl c s = Some (Inr er, s)"
      | nfs s1 er where "unshare_fs env ?fl c s = Some (Inl nfs, s1)" "unshare_fd env ?fl c s1 = Some (Inr er, s1)"
          "cleanup_fs env nfs s1 = Some s"
      | nfs s1 nfd s2 where "unshare_fs env ?fl c s = Some (Inl nfs, s1)" "unshare_fd env ?fl c s1 = Some (Inl nfd, s2)"
          "cleanup_fd env nfd nfs s2 = Some s"
          "finish_unshare env nfs nfd c s2 = Some (private_files env ?fl c (private_fs env ?fl c s))"
      using unshare_helpers [OF assms, of ?fl] by blast
    then show ?thesis
    proof cases
      case 3
      then show ?thesis
        using e None nop [OF _ _ 3(4)]
        by (cases "unshare_userns env"; cases "unshare_nsproxy_namespaces env") (simp_all add: ksys_unshare_def Let_def finish_bind)
    qed (use e None in \<open>simp_all add: ksys_unshare_def Let_def\<close>)
  qed
qed

definition demo_unshare :: unshare_env where
  "demo_unshare = \<lparr>thread_group_empty = True, current_is_single_threaded = True, copy_fs_struct = Some 5, dup_fd = Inl 4,
     unshare_userns = Inl None, unshare_nsproxy_namespaces = Inl None,
     put_files_struct = (\<lambda>a s. map_option (\<lambda>tab. s\<lparr>files_tab := tab\<rparr>) (put_ref (files_tab s) a)),
     free_fs_struct = (\<lambda>a s. Some (s\<lparr>fs_tab := (fs_tab s)(a := None)\<rparr>))\<rparr>"

theorem unshare_refines_private_witness:
  "\<exists>ev s'. ksys_unshare demo_unshare {CLONE_FILES} 2 (demo_kst\<lparr>files_tab := [2 \<mapsto> 3]\<rparr>) = Some (None, s', ev) \<and>
    s' = private_files demo_unshare {CLONE_FILES} 2 (private_fs demo_unshare {CLONE_FILES} 2 (demo_kst\<lparr>files_tab := [2 \<mapsto> 3]\<rparr>)) \<and>
    files_tab s' 2 = Some 2 \<and> files_tab s' 4 = Some 1"
proof -
  let ?s = "demo_kst\<lparr>files_tab := [2 \<mapsto> 3]\<rparr>"
  have fl: "implied_flags {CLONE_FILES} = {CLONE_FILES}" by (simp add: implied_flags_def)
  have t: "tasks ?s 2 = Some (demo_task 50 2)" by (simp add: demo_kst_def)
  have "unshare_ready demo_unshare (demo_task 50 2) ?s" "put_files_ok demo_unshare" "free_fs_ok demo_unshare"
    by (simp_all add: unshare_ready_def put_files_ok_def free_fs_ok_def demo_unshare_def demo_kst_def demo_task_def)
  from unshare_refines_private [OF t this, of "{CLONE_FILES}"] obtain err s' ev where
    r: "ksys_unshare demo_unshare {CLONE_FILES} 2 ?s = Some (err, s', ev)"
    "s' = (if err \<noteq> None then ?s else private_files demo_unshare {CLONE_FILES} 2 (private_fs demo_unshare {CLONE_FILES} 2 ?s))"
    by (auto simp: fl simp del: not_None_eq)
  have "err = None"
    using r(1) by (simp add: ksys_unshare_def fl check_unshare_flags_def unshare_fs_def unshare_fd_def demo_unshare_def
        swap_fs_def swap_fd_def cleanup_fd_def cleanup_fs_def Let_def put_ref_def demo_task_def demo_kst_def upd_task_def)
  moreover have "files_tab (private_files demo_unshare {CLONE_FILES} 2 (private_fs demo_unshare {CLONE_FILES} 2 ?s)) = [2 \<mapsto> 2, 4 \<mapsto> 1]"
    by (auto simp: private_files_def private_fs_def demo_kst_def demo_task_def demo_unshare_def upd_task_def)
  ultimately show ?thesis using r by auto
qed

section \<open>The limit keeps to the memory\<close>

text \<open>
  \<open>fls64\<close> gives the number of significant bits; eight times a thread stack fits in a word, and
  the largest allowed number of threads is at least the smallest and fits in an \<open>int\<close>.
\<close>

definition mem_ok :: "mem_env \<Rightarrow> bool" where
  "mem_ok e \<longleftrightarrow> (\<forall>x. unat x < 2 ^ fls64 e x \<and> (x \<noteq> 0 \<longrightarrow> 2 ^ (fls64 e x - 1) \<le> unat x)) \<and> fls64 e 0 = 0 \<and>
     0 < unat (thread_size e) \<and> unat (thread_size e) * 8 < 2 ^ 64 \<and>
     20 \<le> unat (max_threads_mask e) \<and> unat (max_threads_mask e) < 2 ^ 31 \<and>
     unat (max_threads_mask e) * (unat (thread_size e) * 8) \<le> 2 ^ 63"

lemma fls64_le:
  assumes "mem_ok e"
  shows "fls64 e x \<le> 64"
proof (rule ccontr)
  assume a: "\<not> fls64 e x \<le> 64"
  then have "x \<noteq> 0" using assms by (auto simp: mem_ok_def)
  then have "2 ^ (fls64 e x - 1) \<le> unat x" using assms by (simp add: mem_ok_def)
  moreover have "2 ^ 64 \<le> (2::nat) ^ (fls64 e x - 1)" using a by (intro power_increasing) simp_all
  moreover have "unat x < 2 ^ 64" using unsigned_less [of x, where ?'a = nat] by simp
  ultimately show False by linarith
qed

lemma fls64_product:
  assumes "mem_ok e"
  shows "fls64 e x + fls64 e y \<le> 64 \<Longrightarrow> unat x * unat y < 2 ^ 64"
    and "64 < fls64 e x + fls64 e y \<Longrightarrow> 2 ^ 63 \<le> unat x * unat y"
proof -
  assume "fls64 e x + fls64 e y \<le> 64"
  have "unat x * unat y < 2 ^ fls64 e x * 2 ^ fls64 e y"
    using assms by (intro mult_strict_mono) (simp_all add: mem_ok_def)
  also have "\<dots> \<le> 2 ^ 64" unfolding power_add [symmetric] by (rule power_increasing) (fact, simp)
  finally show "unat x * unat y < 2 ^ 64" .
next
  assume a: "64 < fls64 e x + fls64 e y"
  then have nz: "x \<noteq> 0" "y \<noteq> 0"
    using fls64_le [OF assms, of x] fls64_le [OF assms, of y] assms by (auto simp: mem_ok_def)
  have "(2::nat) ^ 63 \<le> 2 ^ ((fls64 e x - 1) + (fls64 e y - 1))" using a by (intro power_increasing) simp_all
  also have "\<dots> \<le> unat x * unat y"
    using assms nz unfolding power_add by (intro mult_le_mono) (simp_all add: mem_ok_def)
  finally show "2 ^ 63 \<le> unat x * unat y" .
qed

lemma int_of_small_word:
  assumes "unat (w :: 64 word) < 2 ^ 31"
  shows "sint (ucast w :: 32 word) = int (unat w)"
proof -
  have "int (unat w) < int (2 ^ 31)" using assms by (simp only: of_nat_less_iff)
  then have u: "uint w < 2 ^ 31" by simp
  have "sint (ucast w :: 32 word) = signed_take_bit 31 (uint w)" by (simp add: signed_ucast_eq)
  also have "\<dots> = uint w" using u order_trans [of "- (2 ^ 31)" 0 "uint w"] by (intro signed_take_bit_int_eq_self) simp_all
  finally show ?thesis by simp
qed

text \<open>The number of threads that the memory allows, computed without overflow.\<close>

definition threads_by_memory :: "mem_env \<Rightarrow> nat" where
  "threads_by_memory e = unat (totalram_pages e) * unat (page_size e) div (unat (thread_size e) * 8)"

lemma set_max_threads_value:
  assumes "mem_ok e"
  shows "max_threads (set_max_threads e suggested s) =
    int (min (max (min (unat suggested)
      (if 64 < fls64 e (totalram_pages e) + fls64 e (page_size e) then unat (max_threads_mask e) else threads_by_memory e)) 20)
      (unat (max_threads_mask e)))"
proof -
  let ?big = "64 < fls64 e (totalram_pages e) + fls64 e (page_size e)"
  let ?q = "if ?big then max_threads_mask e else (totalram_pages e * page_size e) div (thread_size e * 8)"
  let ?Q = "if ?big then unat (max_threads_mask e) else threads_by_memory e"
  have "unat (thread_size e * 8) = unat (thread_size e) * 8"
    using assms unat_mult_lem [of "thread_size e" 8] by (simp add: mem_ok_def)
  moreover have "\<not> ?big \<Longrightarrow> unat (totalram_pages e * page_size e) = unat (totalram_pages e) * unat (page_size e)"
    using fls64_product(1) [OF assms] unat_mult_lem [of "totalram_pages e" "page_size e"] by simp
  ultimately have q: "unat ?q = ?Q" by (simp add: unat_div threads_by_memory_def)
  have sug: "unat (ucast suggested :: 64 word) = unat suggested" 
  proof -
    have "unat suggested < 2 ^ 32" using unsigned_less [of suggested, where ?'a = nat] by simp
    then have "unat suggested < 2 ^ 64" by simp
    then show ?thesis by (simp add: unsigned_ucast_eq take_bit_nat_eq_self)
  qed
  let ?t = "if ucast suggested < ?q then ucast suggested else ?q"
  have t: "unat ?t = min (unat suggested) ?Q" unfolding q [symmetric] sug [symmetric] by (simp add: word_less_nat_alt)
  have c: "unat (clamp ?t MIN_THREADS (max_threads_mask e)) = min (max (unat ?t) 20) (unat (max_threads_mask e))"
    by (auto simp: clamp_def min_def max_def word_le_nat_alt MIN_THREADS_def)
  have "unat (clamp ?t MIN_THREADS (max_threads_mask e)) < 2 ^ 31"
    unfolding c using assms by (simp add: mem_ok_def min_less_iff_disj)
  from int_of_small_word [OF this] show ?thesis
    unfolding set_max_threads_def Let_def c t by simp
qed

lemma set_max_threads_ok:
  assumes "mem_ok e" "n = max_threads (set_max_threads e suggested s)"
  shows "20 \<le> n \<and> n \<le> int (unat (max_threads_mask e)) \<and>
    (n = 20 \<or> n \<le> int (unat suggested) \<and>
       n * (int (unat (thread_size e)) * 8) \<le> int (unat (totalram_pages e) * unat (page_size e)))"
proof -
  let ?big = "64 < fls64 e (totalram_pages e) + fls64 e (page_size e)"
  let ?M = "unat (max_threads_mask e)" and ?mem = "unat (totalram_pages e) * unat (page_size e)"
  let ?Q = "if ?big then ?M else threads_by_memory e"
  define k where "k = min (max (min (unat suggested) ?Q) 20) ?M"
  have n: "n = int k" unfolding assms(2) k_def by (rule set_max_threads_value [OF assms(1)])
  have M: "20 \<le> ?M" using assms(1) by (simp add: mem_ok_def)
  have Q: "?Q * (unat (thread_size e) * 8) \<le> ?mem"
  proof (cases ?big)
    case True
    have "?M * (unat (thread_size e) * 8) \<le> 2 ^ 63" using assms(1) by (simp add: mem_ok_def)
    also have "\<dots> \<le> ?mem" by (rule fls64_product(2) [OF assms(1) True])
    finally show ?thesis using True by simp
  qed (simp add: threads_by_memory_def)
  have "k = 20 \<or> k \<le> unat suggested \<and> k * (unat (thread_size e) * 8) \<le> ?mem"
  proof (cases "k = 20")
    case False
    then have "k \<le> unat suggested" "k \<le> ?Q" using M by (auto simp: k_def)
    then show ?thesis using Q le_trans [OF mult_le_mono1] by blast
  qed simp
  moreover have "20 \<le> k" "k \<le> ?M" using M by (auto simp: k_def)
  moreover have "int k * (int (unat (thread_size e)) * 8) = int (k * (unat (thread_size e) * 8))" by simp
  ultimately show ?thesis unfolding n by (simp only: of_nat_le_iff) auto
qed

text \<open>
  The limit on threads respects its bounds and the memory: after \<open>set_max_threads\<close> it lies
  between \<open>MIN_THREADS\<close> and \<open>MAX_THREADS\<close>, and unless it is the minimum it does not exceed the
  suggestion and the stacks of that many threads take at most an eighth of the memory. The
  product of pages and page size never wraps, because of the test on the bit lengths.
\<close>

theorem set_max_threads_bounds:
  assumes "mem_ok e" "n = max_threads (set_max_threads e suggested s)"
  shows "20 \<le> n \<and> n \<le> int (unat (max_threads_mask e)) \<and>
    (n = 20 \<or> n \<le> int (unat suggested) \<and>
       n * (int (unat (thread_size e)) * 8) \<le> int (unat (totalram_pages e) * unat (page_size e)))"
  by (rule set_max_threads_ok [OF assms])

text \<open>A machine with 2 GiB of memory in pages of 4 KiB and thread stacks of 16 KiB.\<close>

definition bit_length :: "64 word \<Rightarrow> nat" where
  "bit_length x = (LEAST n. unat x < 2 ^ n)"

lemma bit_length_bounds: "unat x < 2 ^ bit_length x" "x \<noteq> 0 \<Longrightarrow> 2 ^ (bit_length x - 1) \<le> unat x" "bit_length 0 = 0"
proof -
  have "unat x < 2 ^ 64" using unsigned_less [of x, where ?'a = nat] by simp
  then show up: "unat x < 2 ^ bit_length x" unfolding bit_length_def by (rule LeastI)
  show "bit_length 0 = 0" by (simp add: bit_length_def)
  show "2 ^ (bit_length x - 1) \<le> unat x" if "x \<noteq> 0"
  proof -
    have "0 < unat x" using that by (simp add: unat_gt_0)
    then have "bit_length x \<noteq> 0" using up by (cases "bit_length x") auto
    then have "\<not> unat x < 2 ^ (bit_length x - 1)"
      unfolding bit_length_def by (intro not_less_Least) (auto simp: bit_length_def)
    then show ?thesis by simp
  qed
qed

definition demo_mem :: mem_env where
  "demo_mem = \<lparr>totalram_pages = 524288, page_size = 4096, thread_size = 16384, max_threads_mask = 0x3fffffff, fls64 = bit_length\<rparr>"

lemma mem_ok_demo: "mem_ok demo_mem"
  using bit_length_bounds by (simp add: mem_ok_def demo_mem_def)

theorem set_max_threads_bounds_witness:
  "let n = max_threads (set_max_threads demo_mem 1000 demo_kst)
   in 20 \<le> n \<and> n \<le> 0x3fffffff \<and> (n = 20 \<or> n \<le> 1000 \<and> n * (16384 * 8) \<le> 524288 * 4096)"
  using set_max_threads_bounds [OF mem_ok_demo refl, of 1000 demo_kst] unfolding Let_def by (simp add: demo_mem_def)

end
