(* ===== verification/Dup_Mmap.thy ===== *)
theory Dup_Mmap
  imports Fork_Base
begin

text \<open>
  Copying the address space in \<open>Assignment3-1/fork.c\<close>: \<open>dup_mmap\<close> with its error labels, and the
  reference to the executable file. What the memory areas hold of other parts of the kernel
  is counted: references to files, write denials, shared mappings, charged pages, area
  structures and policies. Locks are a stack, as in \<open>Fork_Base\<close>. The answers of other kernel
  code for the \<open>i\<close>th area are parameters, and so are the accounting of the sizes and the
  number of pages of an address range.
\<close>

section \<open>The code\<close>

datatype vm_flag = VM_DONTCOPY | VM_ACCOUNT | VM_WIPEONFORK | VM_LOCKED | VM_LOCKONFAULT | VM_DENYWRITE
  | VM_SHARED | VM_HUGETLB | VM_OTHER nat

record vma =
  vm_id :: nat
  vm_start :: nat
  vm_end :: nat
  vm_flags :: "vm_flag set"
  vm_mm :: nat
  vm_file :: "nat option"
  anon_vma :: "nat option"
  has_open :: bool

datatype mm_lock = Uprobe_dup | Old_mmap_sem | New_mmap_sem

text \<open>The parent's descriptor, as far as it is read.\<close>

record 'v old_mm =
  old_mmap :: "vma list"
  old_stats :: 'v
  old_exe_file :: "nat option"

text \<open>
  The rest of the kernel and the descriptor being filled: \<open>child\<close> is its list of areas, in the
  order of the list and of the tree.
\<close>

record 'v mmst =
  f_count :: "nat \<Rightarrow> int"
  i_writecount :: "nat \<Rightarrow> int"
  i_mmap_writable :: "nat \<Rightarrow> int"
  i_mmap :: "nat \<Rightarrow> nat list"
  committed :: int
  n_areas :: int
  n_policies :: int
  child :: "vma list"
  map_count :: int
  vm_stats :: 'v
  exe_file :: "nat option"
  uf :: "nat list"
  uf_completed :: "nat list"
  resv_reset :: "nat list"
  opened :: "nat list"
  mm_locks :: "mm_lock list"

record 'v mm_env =
  lock_killed :: bool
  ksm_err :: "errno option"
  khugepaged_err :: "errno option"
  arch_dup_mmap_err :: "errno option"
  fatal_pending :: "nat \<Rightarrow> bool"
  not_enough_memory :: "nat \<Rightarrow> bool"
  new_area :: "nat \<Rightarrow> nat option"
  policy_err :: "nat \<Rightarrow> errno option"
  uffd_result :: "nat \<Rightarrow> nat list + errno"
  anon_prepare :: "nat \<Rightarrow> nat option + errno"
  anon_fork :: "nat \<Rightarrow> nat option + errno"
  copy_err :: "nat \<Rightarrow> errno option"
  vma_pages :: "nat \<Rightarrow> nat \<Rightarrow> nat"
  stat_account :: "'v \<Rightarrow> vma \<Rightarrow> int \<Rightarrow> 'v"
  file_inode :: "nat \<Rightarrow> nat"
  f_mapping :: "nat \<Rightarrow> nat"

definition mm_lock :: "mm_lock \<Rightarrow> 'v mmst \<Rightarrow> 'v mmst" where
  "mm_lock k s = s\<lparr>mm_locks := k # mm_locks s\<rparr>"

definition mm_unlock :: "mm_lock \<Rightarrow> 'v mmst \<Rightarrow> 'v mmst option" where
  "mm_unlock k s = (case mm_locks s of [] \<Rightarrow> None | q # qs \<Rightarrow> if q = k then Some (s\<lparr>mm_locks := qs\<rparr>) else None)"

definition get_file :: "nat \<Rightarrow> 'v mmst \<Rightarrow> 'v mmst" where
  "get_file f s = s\<lparr>f_count := (f_count s)(f := f_count s f + 1)\<rparr>"

definition fput :: "nat \<Rightarrow> 'v mmst \<Rightarrow> 'v mmst" where
  "fput f s = s\<lparr>f_count := (f_count s)(f := f_count s f - 1)\<rparr>"

text \<open>\<open>get_file_rcu\<close> takes a reference unless the last one is already gone.\<close>

definition get_mm_exe_file :: "nat option \<Rightarrow> 'v mmst \<Rightarrow> nat option \<times> 'v mmst" where
  "get_mm_exe_file exe s = (case exe of None \<Rightarrow> (None, s)
     | Some f \<Rightarrow> if f_count s f = 0 then (None, s) else (Some f, get_file f s))"

definition set_mm_exe_file :: "nat option \<Rightarrow> 'v mmst \<Rightarrow> 'v mmst" where
  "set_mm_exe_file new_exe_file s = (
     let old_exe_file = exe_file s;
         s = (case new_exe_file of None \<Rightarrow> s | Some f \<Rightarrow> get_file f s);
         s = s\<lparr>exe_file := new_exe_file\<rparr>
     in case old_exe_file of None \<Rightarrow> s | Some f \<Rightarrow> fput f s)"

text \<open>
  A copy of an area in a new structure, which \<open>a\<close> is when the allocator has one. The list of
  anonymous pages is made anew with \<open>anon_vma\<close>, below.
\<close>

definition vm_area_dup :: "nat option \<Rightarrow> vma \<Rightarrow> 'v mmst \<Rightarrow> vma option \<times> 'v mmst" where
  "vm_area_dup new orig s = (case new of None \<Rightarrow> (None, s)
     | Some a \<Rightarrow> (Some (orig\<lparr>vm_id := a\<rparr>), s\<lparr>n_areas := n_areas s + 1\<rparr>))"

definition vm_area_free :: "'v mmst \<Rightarrow> 'v mmst" where
  "vm_area_free s = s\<lparr>n_areas := n_areas s - 1\<rparr>"

text \<open>The labels at the end of \<open>dup_mmap\<close>, each falling through to the next.\<close>

definition fail_nomem :: "int \<Rightarrow> 'v mmst \<Rightarrow> errno option \<times> 'v mmst" where
  "fail_nomem charge s = (Some ENOMEM, s\<lparr>committed := committed s - charge\<rparr>)"

definition fail_nomem_policy :: "int \<Rightarrow> 'v mmst \<Rightarrow> errno option \<times> 'v mmst" where
  "fail_nomem_policy charge s = fail_nomem charge (vm_area_free s)"

definition fail_nomem_anon_vma_fork :: "int \<Rightarrow> 'v mmst \<Rightarrow> errno option \<times> 'v mmst" where
  "fail_nomem_anon_vma_fork charge s = fail_nomem_policy charge (s\<lparr>n_policies := n_policies s - 1\<rparr>)"

text \<open>The new area goes into the share list just after the area it is a copy of.\<close>

fun insert_after :: "nat \<Rightarrow> nat \<Rightarrow> nat list \<Rightarrow> nat list" where
  "insert_after x y [] = [x]"
| "insert_after x y (z # zs) = (if z = y then z # x # zs else z # insert_after x y zs)"

definition share_file :: "'v mm_env \<Rightarrow> vma \<Rightarrow> vma \<Rightarrow> 'v mmst \<Rightarrow> 'v mmst" where
  "share_file env mpnt tmp s = (case vm_file tmp of None \<Rightarrow> s
     | Some f \<Rightarrow>
        let s = get_file f s; inode = file_inode env f; mapping = f_mapping env f;
            s = (if VM_DENYWRITE \<in> vm_flags tmp
                 then s\<lparr>i_writecount := (i_writecount s)(inode := i_writecount s inode - 1)\<rparr> else s);
            s = (if VM_SHARED \<in> vm_flags tmp
                 then s\<lparr>i_mmap_writable := (i_mmap_writable s)(mapping := i_mmap_writable s mapping + 1)\<rparr> else s)
        in s\<lparr>i_mmap := (i_mmap s)(mapping := insert_after (vm_id tmp) (vm_id mpnt) (i_mmap s mapping))\<rparr>)"

text \<open>The end of an iteration: from the file of the new area to the copied page tables.\<close>

definition link_area :: "'v mm_env \<Rightarrow> nat \<Rightarrow> vma \<Rightarrow> vma \<Rightarrow> 'v mmst \<Rightarrow> errno option \<times> 'v mmst" where
  "link_area env i mpnt tmp s = (
     let s = share_file env mpnt tmp s;
         s = (if VM_HUGETLB \<in> vm_flags tmp then s\<lparr>resv_reset := resv_reset s @ [vm_id tmp]\<rparr> else s);
         s = s\<lparr>child := child s @ [tmp], map_count := map_count s + 1\<rparr>;
         retval = (if VM_WIPEONFORK \<in> vm_flags tmp then None else copy_err env i);
         s = (if has_open tmp then s\<lparr>opened := opened s @ [vm_id tmp]\<rparr> else s)
     in (retval, s))"

text \<open>One iteration for an area that is copied, after its pages have been charged.\<close>

definition copy_area :: "'v mm_env \<Rightarrow> nat \<Rightarrow> nat \<Rightarrow> vma \<Rightarrow> int \<Rightarrow> 'v mmst \<Rightarrow> errno option \<times> 'v mmst" where
  "copy_area env nmm i mpnt charge s = (case vm_area_dup (new_area env i) mpnt s of (None, s) \<Rightarrow> fail_nomem charge s
     | (Some tmp, s) \<Rightarrow>
        if policy_err env i \<noteq> None then fail_nomem_policy charge s
        else let s = s\<lparr>n_policies := n_policies s + 1\<rparr>; tmp = tmp\<lparr>vm_mm := nmm\<rparr> in
        case uffd_result env i of Inr e \<Rightarrow> fail_nomem_anon_vma_fork charge s
        | Inl u \<Rightarrow>
           let s = s\<lparr>uf := uf s @ u\<rparr> in
           case (if VM_WIPEONFORK \<in> vm_flags tmp then anon_prepare env i else anon_fork env i) of
             Inr e \<Rightarrow> fail_nomem_anon_vma_fork charge s
           | Inl v \<Rightarrow> link_area env i mpnt
               (tmp\<lparr>anon_vma := v, vm_flags := vm_flags tmp - {VM_LOCKED, VM_LOCKONFAULT}\<rparr>) s)"

definition dup_area :: "'v mm_env \<Rightarrow> nat \<Rightarrow> nat \<Rightarrow> vma \<Rightarrow> 'v mmst \<Rightarrow> errno option \<times> 'v mmst" where
  "dup_area env nmm i mpnt s = (
     let len = int (vma_pages env (vm_start mpnt) (vm_end mpnt)) in
     if VM_DONTCOPY \<in> vm_flags mpnt then (None, s\<lparr>vm_stats := stat_account env (vm_stats s) mpnt (- len)\<rparr>)
     else if fatal_pending env i then (Some EINTR, s)
     else if VM_ACCOUNT \<in> vm_flags mpnt then
       (if not_enough_memory env i then fail_nomem 0 s
        else copy_area env nmm i mpnt len (s\<lparr>committed := committed s + len\<rparr>))
     else copy_area env nmm i mpnt 0 s)"

fun dup_areas :: "'v mm_env \<Rightarrow> nat \<Rightarrow> nat \<Rightarrow> vma list \<Rightarrow> 'v mmst \<Rightarrow> errno option \<times> 'v mmst" where
  "dup_areas env nmm i [] s = (None, s)"
| "dup_areas env nmm i (m # ms) s = (case dup_area env nmm i m s of
     (None, s') \<Rightarrow> dup_areas env nmm (Suc i) ms s'
   | (Some e, s') \<Rightarrow> (Some e, s'))"

text \<open>What happens between the two locks and the label \<open>out\<close>.\<close>

definition dup_body :: "'v mm_env \<Rightarrow> nat \<Rightarrow> 'v old_mm \<Rightarrow> 'v mmst \<Rightarrow> errno option \<times> 'v mmst" where
  "dup_body env nmm oldmm s = (case get_mm_exe_file (old_exe_file oldmm) s of (exe, s) \<Rightarrow>
     let s = s\<lparr>exe_file := exe, vm_stats := old_stats oldmm\<rparr> in
     case ksm_err env of Some e \<Rightarrow> (Some e, s)
     | None \<Rightarrow> (case khugepaged_err env of Some e \<Rightarrow> (Some e, s)
       | None \<Rightarrow> (case dup_areas env nmm 0 (old_mmap oldmm) s of
           (Some e, s) \<Rightarrow> (Some e, s)
         | (None, s) \<Rightarrow> (arch_dup_mmap_err env, s))))"

definition dup_mmap :: "'v mm_env \<Rightarrow> nat \<Rightarrow> 'v old_mm \<Rightarrow> 'v mmst \<Rightarrow> (errno option \<times> 'v mmst) option" where
  "dup_mmap env nmm oldmm s = do {
     let s = mm_lock Uprobe_dup (s\<lparr>uf := []\<rparr>);
     if lock_killed env then do { s \<leftarrow> mm_unlock Uprobe_dup s; Some (Some EINTR, s) }
     else do {
       let (retval, s) = dup_body env nmm oldmm (mm_lock New_mmap_sem (mm_lock Old_mmap_sem s));
       s \<leftarrow> mm_unlock New_mmap_sem s;
       s \<leftarrow> mm_unlock Old_mmap_sem s;
       let s = s\<lparr>uf_completed := uf_completed s @ uf s, uf := []\<rparr>;
       s \<leftarrow> mm_unlock Uprobe_dup s;
       Some (retval, s)
     }
   }"

section \<open>What the areas own\<close>

definition users_of :: "nat \<Rightarrow> vma list \<Rightarrow> int" where
  "users_of f as = int (length (filter (\<lambda>a. vm_file a = Some f) as))"

definition denials :: "'v mm_env \<Rightarrow> nat \<Rightarrow> vma list \<Rightarrow> int" where
  "denials env n as = int (length (filter (\<lambda>a. VM_DENYWRITE \<in> vm_flags a \<and> map_option (file_inode env) (vm_file a) = Some n) as))"

definition sharers :: "'v mm_env \<Rightarrow> nat \<Rightarrow> vma list \<Rightarrow> int" where
  "sharers env m as = int (length (filter (\<lambda>a. VM_SHARED \<in> vm_flags a \<and> map_option (f_mapping env) (vm_file a) = Some m) as))"

definition charges :: "'v mm_env \<Rightarrow> vma list \<Rightarrow> int" where
  "charges env as = sum_list (map (\<lambda>a. if VM_ACCOUNT \<in> vm_flags a then int (vma_pages env (vm_start a) (vm_end a)) else 0) as)"

text \<open>Every reference, denial, charge and structure beyond those of \<open>s0\<close> belongs to an area of the child.\<close>

definition accounted :: "'v mm_env \<Rightarrow> 'v mmst \<Rightarrow> 'v mmst \<Rightarrow> bool" where
  "accounted env s0 s \<longleftrightarrow>
     (\<forall>f. f_count s f = f_count s0 f + users_of f (child s) + (if exe_file s = Some f then 1 else 0)) \<and>
     (\<forall>n. i_writecount s n = i_writecount s0 n - denials env n (child s)) \<and>
     (\<forall>m. i_mmap_writable s m = i_mmap_writable s0 m + sharers env m (child s)) \<and>
     committed s = committed s0 + charges env (child s) \<and>
     n_areas s = n_areas s0 + int (length (child s)) \<and>
     n_policies s = n_policies s0 + int (length (child s)) \<and> map_count s = int (length (child s))"

text \<open>What a copied area has in common with the original.\<close>

definition is_copy :: "nat \<Rightarrow> vma \<Rightarrow> vma \<Rightarrow> bool" where
  "is_copy nmm m t \<longleftrightarrow> vm_start t = vm_start m \<and> vm_end t = vm_end m \<and> vm_file t = vm_file m \<and> vm_mm t = nmm \<and>
     vm_flags t = vm_flags m - {VM_LOCKED, VM_LOCKONFAULT}"

section \<open>One area\<close>

lemma owned_simps [simp]:
  "users_of f [] = 0" "users_of f (as @ [a]) = users_of f as + (if vm_file a = Some f then 1 else 0)"
  "denials env n [] = 0" "denials env n (as @ [a]) = denials env n as +
     (if VM_DENYWRITE \<in> vm_flags a \<and> map_option (file_inode env) (vm_file a) = Some n then 1 else 0)"
  "sharers env n [] = 0" "sharers env n (as @ [a]) = sharers env n as +
     (if VM_SHARED \<in> vm_flags a \<and> map_option (f_mapping env) (vm_file a) = Some n then 1 else 0)"
  "charges env [] = 0" "charges env (as @ [a]) = charges env as +
     (if VM_ACCOUNT \<in> vm_flags a then int (vma_pages env (vm_start a) (vm_end a)) else 0)"
  by (simp_all add: users_of_def denials_def sharers_def charges_def)

text \<open>The fields an iteration does not touch, for every way out of it.\<close>

lemma share_file_keeps [simp]:
  "child (share_file env m t s) = child s" "map_count (share_file env m t s) = map_count s"
  "committed (share_file env m t s) = committed s" "n_areas (share_file env m t s) = n_areas s"
  "n_policies (share_file env m t s) = n_policies s" "mm_locks (share_file env m t s) = mm_locks s"
  "exe_file (share_file env m t s) = exe_file s" "vm_stats (share_file env m t s) = vm_stats s"
  by (simp_all add: share_file_def get_file_def Let_def split: option.split)

lemma share_file_counts:
  "f_count (share_file env m t s) f = f_count s f + (if vm_file t = Some f then 1 else 0)"
  "i_writecount (share_file env m t s) n = i_writecount s n -
    (if VM_DENYWRITE \<in> vm_flags t \<and> map_option (file_inode env) (vm_file t) = Some n then 1 else 0)"
  "i_mmap_writable (share_file env m t s) n = i_mmap_writable s n +
    (if VM_SHARED \<in> vm_flags t \<and> map_option (f_mapping env) (vm_file t) = Some n then 1 else 0)"
  by (auto simp: share_file_def get_file_def Let_def split: option.split)

text \<open>Linking: the new area takes over the structure, the policy and the charge made for it.\<close>

lemma link_area_ok:
  assumes "accounted env s0 (s\<lparr>n_areas := n_areas s - 1, n_policies := n_policies s - 1, committed := committed s - c\<rparr>)"
    and "c = (if VM_ACCOUNT \<in> vm_flags t then int (vma_pages env (vm_start t) (vm_end t)) else 0)"
    and "link_area env i m t s = (r, s')"
  shows "accounted env s0 s'" "child s' = child s @ [t]" "mm_locks s' = mm_locks s" "exe_file s' = exe_file s"
    "vm_stats s' = vm_stats s"
proof -
  have s': "s' = snd (link_area env i m t s)" using assms(3) by simp
  show "child s' = child s @ [t]" "mm_locks s' = mm_locks s" "exe_file s' = exe_file s" "vm_stats s' = vm_stats s"
    unfolding s' by (simp_all add: link_area_def Let_def)
  have "f_count s' f = f_count s f + (if vm_file t = Some f then 1 else 0)"
    "i_writecount s' n = i_writecount s n -
      (if VM_DENYWRITE \<in> vm_flags t \<and> map_option (file_inode env) (vm_file t) = Some n then 1 else 0)"
    "i_mmap_writable s' n = i_mmap_writable s n +
      (if VM_SHARED \<in> vm_flags t \<and> map_option (f_mapping env) (vm_file t) = Some n then 1 else 0)" for f n
    unfolding s' by (simp_all add: link_area_def Let_def share_file_counts)
  moreover have "committed s' = committed s" "n_areas s' = n_areas s" "n_policies s' = n_policies s"
    "map_count s' = map_count s + 1" "child s' = child s @ [t]" "exe_file s' = exe_file s"
    unfolding s' by (simp_all add: link_area_def Let_def)
  ultimately show "accounted env s0 s'"
    using assms(1) unfolding accounted_def assms(2) by simp
qed

definition copied :: "vma \<Rightarrow> bool" where
  "copied m \<longleftrightarrow> VM_DONTCOPY \<notin> vm_flags m"

text \<open>What an iteration does to the child, whether it succeeds or not.\<close>

definition area_done :: "'v mm_env \<Rightarrow> nat \<Rightarrow> vma \<Rightarrow> errno option \<Rightarrow> 'v mmst \<Rightarrow> 'v mmst \<Rightarrow> bool" where
  "area_done env nmm m r s s' \<longleftrightarrow> mm_locks s' = mm_locks s \<and> exe_file s' = exe_file s \<and>
     (child s' = child s \<or> (\<exists>t. child s' = child s @ [t] \<and> is_copy nmm m t)) \<and>
     (r = None \<longrightarrow> child s' \<noteq> child s) \<and> vm_stats s' = vm_stats s"

lemma accounted_uf [simp]: "accounted env s0 (s\<lparr>uf := u\<rparr>) = accounted env s0 s"
  by (simp add: accounted_def)

lemma copy_area_ok:
  assumes acc: "accounted env s0 (s\<lparr>committed := committed s - c\<rparr>)"
    and c: "c = (if VM_ACCOUNT \<in> vm_flags m then int (vma_pages env (vm_start m) (vm_end m)) else 0)"
    and run: "copy_area env nmm i m c s = (r, s')"
  shows "accounted env s0 s' \<and> area_done env nmm m r s s'"
proof (cases "new_area env i")
  case None
  with run acc show ?thesis by (auto simp: copy_area_def vm_area_dup_def vm_area_free_def fail_nomem_def area_done_def)
next
  case (Some a)
  let ?s = "s\<lparr>n_areas := n_areas s + 1, n_policies := n_policies s + 1\<rparr>"
  let ?t = "\<lambda>v. m\<lparr>vm_id := a, vm_mm := nmm, anon_vma := v, vm_flags := vm_flags m - {VM_LOCKED, VM_LOCKONFAULT}\<rparr>"
  let ?anon = "if VM_WIPEONFORK \<in> vm_flags m then anon_prepare env i else anon_fork env i"
  show ?thesis
  proof (cases "policy_err env i = None \<and> (\<exists>u. uffd_result env i = Inl u) \<and> (\<exists>v. ?anon = Inl v)")
    case True
    then obtain u v where uv: "policy_err env i = None" "uffd_result env i = Inl u" "?anon = Inl v" by blast
    have ln: "link_area env i m (?t v) (?s\<lparr>uf := uf s @ u\<rparr>) = (r, s')"
      using run Some uv by (simp add: copy_area_def vm_area_dup_def vm_area_free_def Let_def)
    let ?u = "?s\<lparr>uf := uf s @ u\<rparr>"
    have pre: "accounted env s0 (?u\<lparr>n_areas := n_areas ?u - 1, n_policies := n_policies ?u - 1, committed := committed ?u - c\<rparr>)"
      using acc by (simp add: accounted_def)
    have "c = (if VM_ACCOUNT \<in> vm_flags (?t v) then int (vma_pages env (vm_start (?t v)) (vm_end (?t v))) else 0)"
      using c by simp
    note l = link_area_ok [OF pre this ln]
    have "is_copy nmm m (?t v)" by (simp add: is_copy_def)
    with l show ?thesis by (auto simp: area_done_def)
  next
    case False
    then have "r = Some ENOMEM \<and> (s' = s\<lparr>committed := committed s - c\<rparr> \<or> (\<exists>u. s' = s\<lparr>uf := u, committed := committed s - c\<rparr>))"
      using run Some by (auto simp: copy_area_def vm_area_dup_def vm_area_free_def Let_def fail_nomem_def fail_nomem_policy_def
          fail_nomem_anon_vma_fork_def split: sum.splits if_splits)
    with acc show ?thesis by (auto simp: area_done_def accounted_def)
  qed
qed

lemma dup_area_ok:
  assumes acc: "accounted env s0 s" and run: "dup_area env nmm i m s = (r, s')"
  shows "accounted env s0 s'"
    "if copied m then area_done env nmm m r s s'
     else r = None \<and> s' = s\<lparr>vm_stats := stat_account env (vm_stats s) m (- int (vma_pages env (vm_start m) (vm_end m)))\<rparr>"
proof -
  let ?len = "int (vma_pages env (vm_start m) (vm_end m))"
  have "accounted env s0 s' \<and> area_done env nmm m r s s'"
    if "copied m" "VM_ACCOUNT \<in> vm_flags m" "copy_area env nmm i m ?len (s\<lparr>committed := committed s + ?len\<rparr>) = (r, s')"
    using copy_area_ok [OF _ _ that(3), of s0] that(2) acc by (simp add: accounted_def area_done_def)
  moreover have "accounted env s0 s' \<and> area_done env nmm m r s s'"
    if "copied m" "VM_ACCOUNT \<notin> vm_flags m" "copy_area env nmm i m 0 s = (r, s')"
    using copy_area_ok [OF _ _ that(3), of s0] that(2) acc by simp
  moreover have "accounted env s0 s" "accounted env s0 (s\<lparr>vm_stats := x\<rparr>)" for x using acc by (simp_all add: accounted_def)
  ultimately show "accounted env s0 s'"
    "if copied m then area_done env nmm m r s s'
     else r = None \<and> s' = s\<lparr>vm_stats := stat_account env (vm_stats s) m (- ?len)\<rparr>"
    using run by (auto simp: dup_area_def Let_def copied_def fail_nomem_def area_done_def split: if_splits)
qed

section \<open>The whole copy\<close>

text \<open>The sizes of the child: those of the parent less the areas that are not copied.\<close>

definition stats_after :: "'v mm_env \<Rightarrow> vma list \<Rightarrow> 'v \<Rightarrow> 'v" where
  "stats_after env ms st = fold (\<lambda>m st. stat_account env st m (- int (vma_pages env (vm_start m) (vm_end m))))
     (filter (\<lambda>m. \<not> copied m) ms) st"

lemma dup_areas_ok:
  assumes "accounted env s0 s" "dup_areas env nmm i ms s = (r, s')"
  shows "accounted env s0 s' \<and> mm_locks s' = mm_locks s \<and> exe_file s' = exe_file s \<and>
    (\<exists>ts. child s' = child s @ ts \<and> list_all2 (is_copy nmm) (take (length ts) (filter copied ms)) ts \<and>
      (r = None \<longrightarrow> length ts = length (filter copied ms) \<and> vm_stats s' = stats_after env ms (vm_stats s)))"
  using assms
proof (induction ms arbitrary: i s)
  case Nil
  then show ?case by (simp add: stats_after_def)
next
  case (Cons m ms)
  obtain r1 s1 where d: "dup_area env nmm i m s = (r1, s1)" by (cases "dup_area env nmm i m s")
  note o = dup_area_ok [OF Cons.prems(1) d]
  show ?case
  proof (cases r1)
    case (Some e)
    with o(2) have c: "copied m" "area_done env nmm m r1 s s1" by (auto split: if_splits)
    have s': "s' = s1" "r = Some e" using Cons.prems(2) d Some by auto
    from c(2) obtain ts where "child s1 = child s @ ts" "ts = [] \<or> (\<exists>t. ts = [t] \<and> is_copy nmm m t)"
      by (auto simp: area_done_def)
    then show ?thesis using o(1) c s' by (auto simp: area_done_def)
  next
    case None
    with Cons.prems(2) d have "dup_areas env nmm (Suc i) ms s1 = (r, s')" by simp
    from Cons.IH [OF o(1) this] obtain ts where
      ts: "accounted env s0 s'" "mm_locks s' = mm_locks s1" "exe_file s' = exe_file s1" "child s' = child s1 @ ts"
        "list_all2 (is_copy nmm) (take (length ts) (filter copied ms)) ts"
        "r = None \<longrightarrow> length ts = length (filter copied ms) \<and> vm_stats s' = stats_after env ms (vm_stats s1)" by blast
    show ?thesis
    proof (cases "copied m")
      case True
      with o(2) None obtain t where "child s1 = child s @ [t]" "is_copy nmm m t" "mm_locks s1 = mm_locks s"
          "exe_file s1 = exe_file s" "vm_stats s1 = vm_stats s" by (auto simp: area_done_def)
      with ts True show ?thesis by (intro conjI exI [of _ "t # ts"]) (auto simp: stats_after_def)
    next
      case False
      with o(2) have "s1 = s\<lparr>vm_stats := stat_account env (vm_stats s) m (- int (vma_pages env (vm_start m) (vm_end m)))\<rparr>"
        by simp
      with ts False show ?thesis by (intro conjI exI [of _ ts]) (auto simp: stats_after_def)
    qed
  qed
qed

text \<open>The descriptor before the copy, as \<open>mm_init\<close> leaves it.\<close>

definition fresh_mm :: "'v mmst \<Rightarrow> bool" where
  "fresh_mm s \<longleftrightarrow> child s = [] \<and> map_count s = 0 \<and> exe_file s = None"

text \<open>The file that \<open>get_mm_exe_file\<close> finds: none when its last reference is gone (\<open>get_file_rcu\<close>).\<close>

definition live_file :: "(nat \<Rightarrow> int) \<Rightarrow> nat option \<Rightarrow> nat option" where
  "live_file refs exe = (case exe of None \<Rightarrow> None | Some f \<Rightarrow> if refs f = 0 then None else Some f)"

lemma accounted_start:
  assumes "fresh_mm s" "get_mm_exe_file exe s = (x, s1)"
  shows "accounted env s (s1\<lparr>exe_file := x, vm_stats := st\<rparr>)" "mm_locks s1 = mm_locks s" "child s1 = []"
    "x = live_file (f_count s) exe"
  using assms by (auto simp: live_file_def get_mm_exe_file_def get_file_def accounted_def fresh_mm_def split: option.splits if_splits)

lemma dup_body_ok:
  assumes "fresh_mm s" "dup_body env nmm oldmm s = (r, s')"
  shows "accounted env s s' \<and> mm_locks s' = mm_locks s \<and>
    exe_file s' = live_file (f_count s) (old_exe_file oldmm) \<and>
    list_all2 (is_copy nmm) (take (length (child s')) (filter copied (old_mmap oldmm))) (child s') \<and>
    (r = None \<longrightarrow> length (child s') = length (filter copied (old_mmap oldmm)) \<and>
      vm_stats s' = stats_after env (old_mmap oldmm) (old_stats oldmm))"
proof -
  obtain x s1 where g: "get_mm_exe_file (old_exe_file oldmm) s = (x, s1)" by (cases "get_mm_exe_file (old_exe_file oldmm) s")
  let ?s = "s1\<lparr>exe_file := x, vm_stats := old_stats oldmm\<rparr>"
  obtain r2 s2 where d: "dup_areas env nmm 0 (old_mmap oldmm) ?s = (r2, s2)"
    by (cases "dup_areas env nmm 0 (old_mmap oldmm) ?s")
  note st = accounted_start [OF assms(1) g]
  note a = dup_areas_ok [OF st(1) d]
  have "r \<noteq> None \<and> s' = ?s \<or> s' = s2 \<and> (r = None \<longrightarrow> r2 = None)"
    using assms(2) g d by (auto simp: dup_body_def Let_def split: option.splits)
  then show ?thesis using a st by (elim disjE) auto
qed

lemma dup_mmap_ok:
  assumes "fresh_mm s"
  shows "\<exists>r s'. dup_mmap env nmm oldmm s = Some (r, s') \<and> mm_locks s' = mm_locks s \<and> uf s' = [] \<and> accounted env s s' \<and>
    list_all2 (is_copy nmm) (take (length (child s')) (filter copied (old_mmap oldmm))) (child s') \<and>
    (r = None \<longrightarrow> length (child s') = length (filter copied (old_mmap oldmm)) \<and>
      vm_stats s' = stats_after env (old_mmap oldmm) (old_stats oldmm) \<and>
      exe_file s' = live_file (f_count s) (old_exe_file oldmm))"
proof (cases "lock_killed env")
  case True
  have "accounted env s (s\<lparr>uf := []\<rparr>)" using assms by (simp add: accounted_def fresh_mm_def)
  with True assms show ?thesis by (simp add: dup_mmap_def mm_lock_def mm_unlock_def fresh_mm_def)
next
  case False
  let ?s = "mm_lock New_mmap_sem (mm_lock Old_mmap_sem (mm_lock Uprobe_dup (s\<lparr>uf := []\<rparr>)))"
  obtain r s1 where b: "dup_body env nmm oldmm ?s = (r, s1)" by (cases "dup_body env nmm oldmm ?s")
  have "fresh_mm ?s" using assms by (simp add: fresh_mm_def mm_lock_def)
  note o = dup_body_ok [OF this b]
  have "accounted env s s1" using o by (simp add: accounted_def mm_lock_def)
  moreover have "mm_locks s1 = New_mmap_sem # Old_mmap_sem # Uprobe_dup # mm_locks s" using o by (simp add: mm_lock_def)
  moreover have "exe_file s1 = live_file (f_count s) (old_exe_file oldmm)" using o by (simp add: mm_lock_def)
  ultimately show ?thesis using False b o by (simp add: dup_mmap_def mm_unlock_def accounted_def)
qed

section \<open>Results\<close>

text \<open>
  C10. Copying the address space never leaks. \<open>dup_mmap\<close> always returns with its three locks given
  back in order; whether it succeeds or stops at any of its error exits, every reference to
  a file, every write denial, shared mapping, charged page, area structure and policy it has
  taken belongs to an area that is in the child's list or to the child's executable file,
  so that tearing the child down gives all of them back. When it returns 0 the child has a
  copy of exactly the areas that are not marked as not to be copied, in order, none of them
  locked, the sizes are those of the parent less the areas left out, and the executable
  file is the parent's unless that is just being closed; otherwise it has copies of the first
  of them.
\<close>

theorem dup_mmap_accounts:
  assumes "fresh_mm s"
  shows "\<exists>r s'. dup_mmap env nmm oldmm s = Some (r, s') \<and> mm_locks s' = mm_locks s \<and> uf s' = [] \<and> accounted env s s' \<and>
    list_all2 (is_copy nmm) (take (length (child s')) (filter copied (old_mmap oldmm))) (child s') \<and>
    (r = None \<longrightarrow> length (child s') = length (filter copied (old_mmap oldmm)) \<and>
      vm_stats s' = stats_after env (old_mmap oldmm) (old_stats oldmm) \<and>
      exe_file s' = live_file (f_count s) (old_exe_file oldmm))"
  using assms by (rule dup_mmap_ok)

definition sample_mm_env :: "int mm_env" where
  "sample_mm_env = \<lparr>lock_killed = False, ksm_err = None, khugepaged_err = None, arch_dup_mmap_err = None,
     fatal_pending = (\<lambda>i. False), not_enough_memory = (\<lambda>i. False), new_area = (\<lambda>i. Some (100 + i)),
     policy_err = (\<lambda>i. None), uffd_result = (\<lambda>i. Inl []), anon_prepare = (\<lambda>i. Inl None),
     anon_fork = (\<lambda>i. if i = 2 then Inr ENOMEM else Inl None), copy_err = (\<lambda>i. None),
     vma_pages = (\<lambda>a b. (b - a) div 4096), stat_account = (\<lambda>v m n. v + n), file_inode = id, f_mapping = id\<rparr>"

definition sample_area :: "nat \<Rightarrow> vm_flag set \<Rightarrow> vma" where
  "sample_area n fl = \<lparr>vm_id = n, vm_start = 4096 * n, vm_end = 4096 * n + 8192, vm_flags = fl, vm_mm = 1,
     vm_file = Some 7, anon_vma = None, has_open = False\<rparr>"

definition sample_old_mm :: "int old_mm" where
  "sample_old_mm = \<lparr>old_mmap = [sample_area 1 {VM_LOCKED, VM_ACCOUNT}, sample_area 5 {VM_DONTCOPY}, sample_area 9 {VM_ACCOUNT}],
     old_stats = 6, old_exe_file = Some 7\<rparr>"

definition empty_mm :: "int mmst" where
  "empty_mm = \<lparr>f_count = (\<lambda>f. 4), i_writecount = (\<lambda>n. 0), i_mmap_writable = (\<lambda>n. 0), i_mmap = (\<lambda>n. []), committed = 20,
     n_areas = 3, n_policies = 3, child = [], map_count = 0, vm_stats = 0, exe_file = None, uf = [], uf_completed = [],
     resv_reset = [], opened = [], mm_locks = []\<rparr>"

theorem dup_mmap_accounts_witness:
  "\<exists>s'. dup_mmap sample_mm_env 2 sample_old_mm empty_mm = Some (Some ENOMEM, s') \<and> mm_locks s' = [] \<and>
    accounted sample_mm_env empty_mm s' \<and> length (child s') = 1 \<and> committed s' = 22"
proof -
  have "fresh_mm empty_mm" by (simp add: fresh_mm_def empty_mm_def)
  from dup_mmap_accounts [OF this, of sample_mm_env 2 sample_old_mm] obtain r s' where
    s': "dup_mmap sample_mm_env 2 sample_old_mm empty_mm = Some (r, s')" "mm_locks s' = mm_locks empty_mm"
      "accounted sample_mm_env empty_mm s'" by blast
  then have "r = Some ENOMEM" "length (child s') = 1" "committed s' = 22"
    by (auto simp: dup_mmap_def dup_body_def dup_area_def copy_area_def vm_area_dup_def vm_area_free_def link_area_def share_file_def get_mm_exe_file_def
        get_file_def mm_lock_def mm_unlock_def fail_nomem_def fail_nomem_policy_def fail_nomem_anon_vma_fork_def
        sample_mm_env_def sample_old_mm_def sample_area_def empty_mm_def Let_def)
  with s' show ?thesis by (auto simp: empty_mm_def)
qed

text \<open>
  The reference to the executable file moves with the descriptor: after
  \<open>set_mm_exe_file\<close> the new file has one reference more and the old one less (the counts stay
  as they are when both are the same), and no other file is touched; a \<open>get_mm_exe_file\<close> that
  follows finds the new file unless its last reference is gone.
\<close>

theorem set_mm_exe_file_moves:
  assumes "s' = set_mm_exe_file new_exe s"
  shows "exe_file s' = new_exe \<and>
    f_count s' f = f_count s f + (if new_exe = Some f then 1 else 0) - (if exe_file s = Some f then 1 else 0) \<and>
    (\<forall>x s''. get_mm_exe_file (exe_file s') s' = (x, s'') \<longrightarrow>
      x = (case new_exe of None \<Rightarrow> None | Some g \<Rightarrow> if f_count s' g = 0 then None else new_exe))"
  using assms by (auto simp: set_mm_exe_file_def get_mm_exe_file_def get_file_def fput_def Let_def split: option.splits if_splits)

theorem set_mm_exe_file_moves_witness:
  "exe_file (set_mm_exe_file (Some 3) empty_mm) = Some 3 \<and> f_count (set_mm_exe_file (Some 3) empty_mm) 3 = 5"
  using set_mm_exe_file_moves [OF refl, of "Some 3" empty_mm 3] by (simp add: empty_mm_def)

end
