(* ===== verification/Walk_Tree.thy ===== *)
theory Walk_Tree
  imports Sched_H
begin

text \<open>
  \<open>walk_process_tree\<close> of \<open>Assignment3-1/fork.c\<close>, which visits the descendants of a process
  without recursion: its two loops run over the threads of a process and over the children of
  a thread, a jump enters the loops for a child, and when the loops of a child are over a
  jump back into them goes on after that child, found again through \<open>real_parent\<close> and
  \<open>group_leader\<close>. The visitor is a parameter with a state \<open>'d\<close> of its own. A pointer to no task
  is a fault (\<open>None\<close>). The lock that is held during the walk is not modelled.
\<close>

section \<open>The code\<close>

text \<open>
  The local variables: the leader whose threads are run through, the current thread, what is
  left of the two lists, and whether the visitor has asked to stop or the walk is over.
\<close>

record 'd walk =
  w_leader :: task_ptr
  w_parent :: task_ptr
  w_kids :: "task_ptr list"
  w_threads :: "task_ptr list"
  w_data :: 'd
  w_out :: bool

text \<open>The threads of a process in the order of \<open>for_each_thread\<close>, and the rest of a list after an element.\<close>

definition threads_of :: "task_heap \<Rightarrow> task_ptr \<Rightarrow> task_ptr list option" where
  "threads_of h l = map_option (\<lambda>t. l # thread_group t) (h l)"

definition after :: "'a \<Rightarrow> 'a list \<Rightarrow> 'a list" where
  "after x xs = tl (dropWhile (\<lambda>y. y \<noteq> x) xs)"

text \<open>The head of \<open>for_each_thread\<close>: on to the next thread and its list of children.\<close>

definition next_thread :: "task_heap \<Rightarrow> task_ptr \<Rightarrow> task_ptr list \<Rightarrow> 'd walk \<Rightarrow> 'd walk option" where
  "next_thread h p ts w = do { t \<leftarrow> h p; Some (w\<lparr>w_parent := p, w_kids := children t, w_threads := ts\<rparr>) }"

text \<open>The label \<open>down\<close>.\<close>

definition walk_down :: "task_heap \<Rightarrow> task_ptr \<Rightarrow> 'd walk \<Rightarrow> 'd walk option" where
  "walk_down h l w = do {
     ts \<leftarrow> threads_of h l;
     next_thread h (hd ts) (tl ts) (w\<lparr>w_leader := l\<rparr>)
   }"

definition walk_step :: "task_heap \<Rightarrow> (task_ptr \<Rightarrow> 'd \<Rightarrow> int \<times> 'd) \<Rightarrow> task_ptr \<Rightarrow> 'd walk \<Rightarrow> 'd walk option" where
  "walk_step h visitor topl w = (case w_kids w of
     child # cs \<Rightarrow> (case visitor child (w_data w) of (res, d) \<Rightarrow>
        let w = w\<lparr>w_kids := cs, w_data := d\<rparr> in
        if res < 0 then Some (w\<lparr>w_out := True\<rparr>)
        else if res \<noteq> 0 then walk_down h child w
        else Some w)
   | [] \<Rightarrow> (case w_threads w of
        t # ts \<Rightarrow> next_thread h t ts w
      | [] \<Rightarrow>
         if w_leader w \<noteq> topl then do {
           let child = w_leader w;
           tc \<leftarrow> h child;
           let p = real_parent tc;
           tp \<leftarrow> h p;
           let leader = group_leader tp;
           ts \<leftarrow> threads_of h leader;
           Some (w\<lparr>w_leader := leader, w_parent := p, w_kids := after child (children tp), w_threads := after p ts\<rparr>)
         } else Some (w\<lparr>w_out := True\<rparr>)))"

definition walk_process_tree :: "task_heap \<Rightarrow> (task_ptr \<Rightarrow> 'd \<Rightarrow> int \<times> 'd) \<Rightarrow> task_ptr \<Rightarrow> 'd \<Rightarrow> 'd option" where
  "walk_process_tree h visitor topl d = do {
     t \<leftarrow> h topl;
     let topl = group_leader t;
     w \<leftarrow> walk_down h topl \<lparr>w_leader = topl, w_parent = topl, w_kids = [], w_threads = [], w_data = d, w_out = False\<rparr>;
     w \<leftarrow> c_while (\<lambda>w. \<not> w_out w) (walk_step h visitor topl) w;
     Some (w_data w)
   }"

section \<open>The specification\<close>

text \<open>A process with the processes its threads have created, and the recursive visit of such trees.\<close>

datatype ptree = PNode (root: task_ptr) (subs: "ptree list")

fun visit :: "(task_ptr \<Rightarrow> 'd \<Rightarrow> int \<times> 'd) \<Rightarrow> ptree list \<Rightarrow> 'd \<Rightarrow> bool \<times> 'd" where
  "visit v [] d = (False, d)"
| "visit v (PNode c us # ts) d = (case v c d of (res, d) \<Rightarrow>
     if res < 0 then (True, d)
     else if res = 0 then visit v ts d
     else (case visit v us d of (True, d) \<Rightarrow> (True, d) | (False, d) \<Rightarrow> visit v ts d))"

text \<open>The tree of the processes below \<open>l\<close>, with the pointers that the walk goes back along.\<close>

definition kids_of :: "task_heap \<Rightarrow> task_ptr \<Rightarrow> task_ptr list" where
  "kids_of h p = (case h p of None \<Rightarrow> [] | Some t \<Rightarrow> children t)"

definition thread_ok :: "task_heap \<Rightarrow> task_ptr \<Rightarrow> task_ptr \<Rightarrow> bool" where
  "thread_ok h l p \<longleftrightarrow> (\<exists>t. h p = Some t \<and> group_leader t = l \<and> distinct (children t) \<and>
     (\<forall>c \<in> set (children t). \<exists>tc. h c = Some tc \<and> real_parent tc = p))"

fun tree_ok :: "task_heap \<Rightarrow> ptree \<Rightarrow> bool" where
  "tree_ok h (PNode l ts) \<longleftrightarrow> (\<exists>ps. threads_of h l = Some ps \<and> distinct ps \<and> (\<forall>p \<in> set ps. thread_ok h l p) \<and>
     map root ts = concat (map (kids_of h) ps)) \<and> (\<forall>t \<in> set ts. tree_ok h t)"

section \<open>Trees\<close>

fun subtrees :: "ptree \<Rightarrow> ptree list" where
  "subtrees (PNode l ts) = PNode l ts # concat (map subtrees ts)"

lemma tree_unique:
  assumes "tree_ok h t" "tree_ok h u" "root t = root u"
  shows "t = u"
  using assms
proof (induction t arbitrary: u)
  case (PNode l ts)
  obtain us where u: "u = PNode l us" using PNode.prems(3) by (cases u) simp
  have eq: "map root ts = map root us" using PNode.prems(1,2) u by auto
  then have len: "length ts = length us" by (rule map_eq_imp_length_eq)
  have "ts ! i = us ! i" if "i < length ts" for i
  proof (rule PNode.IH)
    show "ts ! i \<in> set ts" using that by simp
    then show "tree_ok h (ts ! i)" using PNode.prems(1) by simp
    show "tree_ok h (us ! i)" using PNode.prems(2) u that len by simp
    show "root (ts ! i) = root (us ! i)" using eq that len by (metis nth_map)
  qed
  with len have "ts = us" by (simp add: nth_equalityI)
  with u show ?case by simp
qed

lemma subtrees_facts:
  assumes "u \<in> set (subtrees t)"
  shows "size u \<le> size t" "tree_ok h t \<Longrightarrow> tree_ok h u"
  using assms
proof (induction t)
  case (PNode l ts)
  {
    case 1
    then show ?case
    proof (cases "u = PNode l ts")
      case False
      with 1 obtain t where t: "t \<in> set ts" "u \<in> set (subtrees t)" by auto
      then have "size u \<le> size t" using PNode.IH(1) by blast
      moreover have "size t < size (PNode l ts)" using t(1) size_list_estimation' [of t ts "size t" size] by simp
      ultimately show ?thesis by simp
    qed simp
  next
    case 2
    then show ?case using PNode.IH(2) by (cases "u = PNode l ts") auto
  }
qed

text \<open>A process is not among its own descendants.\<close>

lemma root_not_below:
  assumes "tree_ok h (PNode l ts)" "t \<in> set ts" "u \<in> set (subtrees t)"
  shows "root u \<noteq> l"
proof
  assume "root u = l"
  have "tree_ok h t" using assms(1,2) by simp
  then have "tree_ok h u" using subtrees_facts(2) [OF assms(3)] by blast
  with \<open>root u = l\<close> have "u = PNode l ts" using tree_unique [OF _ assms(1)] by simp
  moreover have "size t < size (PNode l ts)" using assms(2) size_list_estimation' [of t ts "size t" size] by simp
  ultimately show False using subtrees_facts(1) [OF assms(3)] by simp
qed

section \<open>The walk below a process\<close>

definition n_threads :: "task_heap \<Rightarrow> task_ptr \<Rightarrow> nat" where
  "n_threads h l = (case threads_of h l of None \<Rightarrow> 0 | Some ps \<Rightarrow> length ps)"

text \<open>The number of steps that are left, from above: one for every process and every thread.\<close>

fun weight :: "task_heap \<Rightarrow> ptree \<Rightarrow> nat" where
  "weight h (PNode l ts) = Suc (n_threads h l + sum_list (map (weight h) ts))"

lemma after_split: "distinct (xs @ x # ys) \<Longrightarrow> after x (xs @ x # ys) = ys"
proof -
  assume "distinct (xs @ x # ys)"
  then have "\<forall>y \<in> set xs. y \<noteq> x" by auto
  then have "dropWhile (\<lambda>y. y \<noteq> x) (xs @ x # ys) = x # ys" by (simp add: dropWhile_append)
  then show ?thesis by (simp add: after_def)
qed

text \<open>The walk stands in the loops of \<open>l\<close>, at thread \<open>p\<close> before its children \<open>cs\<close>.\<close>

definition at :: "task_heap \<Rightarrow> task_ptr \<Rightarrow> task_ptr \<Rightarrow> task_ptr list \<Rightarrow> task_ptr list \<Rightarrow> 'd \<Rightarrow> 'd walk \<Rightarrow> bool" where
  "at h l p cs ts d w \<longleftrightarrow> w_leader w = l \<and> w_parent w = p \<and> w_kids w = cs \<and> w_threads w = ts \<and> w_data w = d \<and> \<not> w_out w \<and>
     (\<exists>pre dn. threads_of h l = Some (pre @ p # ts) \<and> distinct (pre @ p # ts) \<and>
       (\<forall>q \<in> set (pre @ p # ts). thread_ok h l q) \<and> kids_of h p = dn @ cs)"

lemma at_next_thread:
  assumes "at h l p [] (t # ts) d w"
  shows "\<exists>w'. walk_step h v topl w = Some w' \<and> at h l t (kids_of h t) ts d w'"
proof -
  obtain pre dn where a: "threads_of h l = Some (pre @ p # t # ts)" "distinct (pre @ p # t # ts)"
      "\<forall>q \<in> set (pre @ p # t # ts). thread_ok h l q" using assms by (auto simp: at_def)
  then obtain tt where "h t = Some tt" by (auto simp: thread_ok_def)
  with assms a show ?thesis
    by (auto simp: at_def walk_step_def next_thread_def kids_of_def intro!: exI [of _ "pre @ [p]"])
qed

lemma at_down:
  assumes "tree_ok h (PNode c vs)" "\<not> w_out w"
  shows "\<exists>w' ps. walk_down h c w = Some w' \<and> threads_of h c = Some ps \<and> ps \<noteq> [] \<and>
    at h c (hd ps) (kids_of h (hd ps)) (tl ps) (w_data w) w' \<and>
    map root vs = kids_of h (hd ps) @ concat (map (kids_of h) (tl ps))"
proof -
  from assms(1) obtain ps where ps: "threads_of h c = Some ps" "distinct ps" "\<forall>p \<in> set ps. thread_ok h c p"
      "map root vs = concat (map (kids_of h) ps)" by auto
  then have ne: "ps \<noteq> []" by (auto simp: threads_of_def)
  then obtain q qs where q: "ps = q # qs" by (cases ps) auto
  with ps(3) obtain t where "h q = Some t" by (auto simp: thread_ok_def)
  with ps q assms(2) show ?thesis
    by (auto simp: walk_down_def next_thread_def at_def kids_of_def intro!: exI [of _ "[]"])
qed

text \<open>The jump to \<open>up\<close>: from the end of the loops of a child to the place after it.\<close>

lemma at_up:
  assumes "at h l p (c # cs) ts d0 w0" "w_leader w = c" "w_kids w = []" "w_threads w = []" "\<not> w_out w" "c \<noteq> topl"
  shows "\<exists>w'. walk_step h v topl w = Some w' \<and> at h l p cs ts (w_data w) w'"
proof -
  obtain pre dn where a: "threads_of h l = Some (pre @ p # ts)" "distinct (pre @ p # ts)"
      "\<forall>q \<in> set (pre @ p # ts). thread_ok h l q" "kids_of h p = dn @ c # cs" using assms(1) by (auto simp: at_def)
  then obtain tp where tp: "h p = Some tp" "group_leader tp = l" "distinct (children tp)"
      "\<forall>c \<in> set (children tp). \<exists>tc. h c = Some tc \<and> real_parent tc = p" by (auto simp: thread_ok_def)
  then have ch: "children tp = dn @ c # cs" using a(4) by (simp add: kids_of_def)
  then obtain tc where tc: "h c = Some tc" "real_parent tc = p" using tp(4) by auto
  have "after c (children tp) = cs" "after p (pre @ p # ts) = ts"
    using after_split [of dn c cs] after_split [OF a(2)] tp(3) ch by simp_all
  then have "walk_step h v topl w = Some (w\<lparr>w_leader := l, w_parent := p, w_kids := cs, w_threads := ts\<rparr>)"
    using assms(2-6) tp(1,2) tc a(1) by (simp add: walk_step_def)
  moreover have "at h l p cs ts (w_data w) (w\<lparr>w_leader := l, w_parent := p, w_kids := cs, w_threads := ts\<rparr>)"
    using assms(5) a by (auto simp: at_def intro!: exI [of _ pre] exI [of _ "dn @ [c]"])
  ultimately show ?thesis by blast
qed

lemma at_skip:
  "at h l p (c # cs) ts d w \<Longrightarrow> at h l p cs ts d' (w\<lparr>w_kids := cs, w_data := d'\<rparr>)"
  by (auto simp: at_def intro: exI [of _ "dn @ [c]" for dn])

text \<open>
  From a place in the loops of \<open>l\<close> with the trees \<open>us\<close> still to visit, the walk does what the
  recursive visit does, and if that does not stop it, comes to the end of the loops of \<open>l\<close>.
\<close>

definition walks :: "task_heap \<Rightarrow> (task_ptr \<Rightarrow> 'd \<Rightarrow> int \<times> 'd) \<Rightarrow> task_ptr \<Rightarrow> task_ptr \<Rightarrow> bool \<times> 'd \<Rightarrow> 'd walk \<Rightarrow> bool" where
  "walks h v topl l r w \<longleftrightarrow> (\<exists>w'. w_data w' = snd r \<and>
     (if fst r then c_while (\<lambda>w. \<not> w_out w) (walk_step h v topl) w = Some w'
      else c_while (\<lambda>w. \<not> w_out w) (walk_step h v topl) w = c_while (\<lambda>w. \<not> w_out w) (walk_step h v topl) w' \<and>
        w_leader w' = l \<and> w_kids w' = [] \<and> w_threads w' = [] \<and> \<not> w_out w'))"

lemma walks_step:
  assumes "\<not> w_out w" "walk_step h v topl w = Some w1" "walks h v topl l r w1"
  shows "walks h v topl l r w"
proof -
  have "c_while (\<lambda>w. \<not> w_out w) (walk_step h v topl) w = c_while (\<lambda>w. \<not> w_out w) (walk_step h v topl) w1"
    by (rule c_while_step [of "\<lambda>w. \<not> w_out w" w "walk_step h v topl" w1, OF assms(1,2)])
  with assms(3) show ?thesis unfolding walks_def by (simp only:)
qed

lemma at_out: "at h l p cs ts d w \<Longrightarrow> \<not> w_out w"
  by (simp add: at_def)

text \<open>A child that the visitor wants to descend into: its own forest, the way up, and the rest.\<close>

lemma walk_descend:
  assumes here: "at h l p (c # cs) ts d w" and v: "v c d = (res, d')" "0 < res" and ok: "tree_ok h (PNode c vs)" "c \<noteq> topl"
    and sub: "\<And>w1 ps. threads_of h c = Some ps \<Longrightarrow> ps \<noteq> [] \<Longrightarrow> at h c (hd ps) (kids_of h (hd ps)) (tl ps) d' w1 \<Longrightarrow>
      map root vs = kids_of h (hd ps) @ concat (map (kids_of h) (tl ps)) \<Longrightarrow> walks h v topl c (visit v vs d') w1"
    and rest: "\<And>e w1. at h l p cs ts e w1 \<Longrightarrow> walks h v topl l (visit v us e) w1"
  shows "walks h v topl l (visit v (PNode c vs # us) d) w"
proof -
  have kids: "w_kids w = c # cs" "w_data w = d" "\<not> w_out w" using here by (auto simp: at_def)
  let ?w = "w\<lparr>w_kids := cs, w_data := d'\<rparr>"
  obtain w1 ps where dn: "walk_down h c ?w = Some w1" "threads_of h c = Some ps" "ps \<noteq> []"
      "at h c (hd ps) (kids_of h (hd ps)) (tl ps) d' w1"
      "map root vs = kids_of h (hd ps) @ concat (map (kids_of h) (tl ps))"
    using at_down [OF ok(1), of ?w] kids(3) by auto
  have st: "walk_step h v topl w = Some w1" using kids v dn(1) by (simp add: walk_step_def)
  note below = sub [OF dn(2-5)]
  have "walks h v topl l (visit v (PNode c vs # us) d) w1"
  proof (cases "fst (visit v vs d')")
    case True
    then show ?thesis using below v by (auto simp: walks_def split: prod.splits)
  next
    case False
    with below obtain w2 where w2: "w_data w2 = snd (visit v vs d')" "w_leader w2 = c" "w_kids w2 = []" "w_threads w2 = []"
        "\<not> w_out w2" "c_while (\<lambda>w. \<not> w_out w) (walk_step h v topl) w1 = c_while (\<lambda>w. \<not> w_out w) (walk_step h v topl) w2"
      by (auto simp: walks_def)
    from at_up [OF here w2(2-5) ok(2)] obtain w3 where
      w3: "walk_step h v topl w2 = Some w3" "at h l p cs ts (w_data w2) w3" by blast
    have "walks h v topl l (visit v us (w_data w2)) w2" using walks_step [OF w2(5) w3(1) rest [OF w3(2)]] .
    moreover have "visit v (PNode c vs # us) d = visit v us (w_data w2)"
      using False v w2(1) by (auto split: prod.splits)
    ultimately show ?thesis unfolding walks_def w2(6) by (simp only:)
  qed
  then show ?thesis using walks_step [OF kids(3) st] by blast
qed

lemma walk_forest:
  assumes "at h l p cs ts d w" "map root us = cs @ concat (map (kids_of h) ts)" "\<forall>u \<in> set us. tree_ok h u"
    and "\<forall>u \<in> set us. \<forall>x \<in> set (subtrees u). root x \<noteq> topl"
  shows "walks h v topl l (visit v us d) w"
  using assms
proof (induction "sum_list (map (weight h) us) + length ts" arbitrary: l p cs ts d w us rule: less_induct)
  case less
  show ?case
  proof (cases cs)
    case Nil
    show ?thesis
    proof (cases ts)
      case Nil
      with \<open>cs = []\<close> less.prems have "us = []" by simp
      with Nil \<open>cs = []\<close> less.prems(1) show ?thesis by (auto simp: walks_def at_def)
    next
      case (Cons t ts')
      have "at h l p [] (t # ts') d w" using less.prems(1) Nil Cons by simp
      from at_next_thread [OF this] obtain w' where
        w': "walk_step h v topl w = Some w'" "at h l t (kids_of h t) ts' d w'" by blast
      have "walks h v topl l (visit v us d) w'"
        by (rule less.hyps [OF _ w'(2)]) (use less.prems Nil Cons in auto)
      then show ?thesis by (rule walks_step [OF at_out [OF less.prems(1)] w'(1)])
    qed
  next
    case (Cons c cs')
    then obtain vs us' where us: "us = PNode c vs # us'" "map root us' = cs' @ concat (map (kids_of h) ts)"
      using less.prems(2) by (cases us) (auto, metis ptree.exhaust_sel)
    obtain res d' where v: "v c d = (res, d')" by (cases "v c d")
    have kids: "w_kids w = c # cs'" "w_data w = d" "\<not> w_out w" using less.prems(1) Cons by (auto simp: at_def)
    let ?w = "w\<lparr>w_kids := cs', w_data := d'\<rparr>"
    have sk: "at h l p cs' ts d' ?w" using at_skip [of h l p c cs'] less.prems(1) Cons by simp
    have ok: "tree_ok h (PNode c vs)" "c \<noteq> topl" "\<forall>u \<in> set us'. tree_ok h u"
        "\<forall>u \<in> set us'. \<forall>x \<in> set (subtrees u). root x \<noteq> topl" "\<forall>u \<in> set vs. \<forall>x \<in> set (subtrees u). root x \<noteq> topl"
      using less.prems(3,4) us by auto
    have rest: "walks h v topl l (visit v us' e) w1" if "at h l p cs' ts e w1" for e w1
      by (rule less.hyps [OF _ that us(2) ok(3,4)]) (use us in simp)
    consider "res < 0" | "res = 0" | "0 < res" by linarith
    then show ?thesis
    proof cases
      case 1
      then have "walk_step h v topl w = Some (?w\<lparr>w_out := True\<rparr>)" using kids v by (simp add: walk_step_def)
      moreover have "walks h v topl l (visit v us d) (?w\<lparr>w_out := True\<rparr>)"
        using 1 v us by (simp add: walks_def c_while_stop)
      ultimately show ?thesis using walks_step kids(3) by blast
    next
      case 2
      then have "walk_step h v topl w = Some ?w" using kids v by (simp add: walk_step_def)
      then show ?thesis using walks_step [OF kids(3)] rest [OF sk] 2 v us by simp
    next
      case 3
      show ?thesis
        unfolding us(1)
      proof (rule walk_descend [OF _ v 3 ok(1,2) _ rest])
        show "at h l p (c # cs') ts d w" using less.prems(1) Cons by simp
        fix w1 ps
        assume ps: "threads_of h c = Some ps" "ps \<noteq> []" "at h c (hd ps) (kids_of h (hd ps)) (tl ps) d' w1"
          "map root vs = kids_of h (hd ps) @ concat (map (kids_of h) (tl ps))"
        have "sum_list (map (weight h) vs) + length (tl ps) < sum_list (map (weight h) us) + length ts"
          using us ps(1,2) by (simp add: n_threads_def)
        then show "walks h v topl c (visit v vs d') w1"
          by (rule less.hyps [OF _ ps(3,4) _ ok(5)]) (use ok(1) in simp)
      qed
    qed
  qed
qed

section \<open>Results\<close>

text \<open>
  C11. The walk without recursion is the recursive one: on every tree of processes,
  \<open>walk_process_tree\<close> ends without following a wild pointer and calls the visitor on the
  descendants in the order, with the state, and with the subtrees left out and the early
  stop, of the recursive visit of the tree.
\<close>

theorem walk_process_tree_visits:
  assumes "h tsk = Some t" "tree_ok h (PNode (group_leader t) us)"
  shows "walk_process_tree h visitor tsk d = Some (snd (visit visitor us d))"
proof -
  let ?l = "group_leader t"
  let ?w = "\<lparr>w_leader = ?l, w_parent = ?l, w_kids = [], w_threads = [], w_data = d, w_out = False\<rparr>"
  obtain w ps where w: "walk_down h ?l ?w = Some w" "at h ?l (hd ps) (kids_of h (hd ps)) (tl ps) d w"
      "map root us = kids_of h (hd ps) @ concat (map (kids_of h) (tl ps))"
    using at_down [OF assms(2), of ?w] by auto
  have "walks h visitor ?l ?l (visit visitor us d) w"
    by (rule walk_forest [OF w(2,3)]) (use assms(2) root_not_below [OF assms(2)] in auto)
  then obtain w' where w': "w_data w' = snd (visit visitor us d)"
    "if fst (visit visitor us d) then c_while (\<lambda>w. \<not> w_out w) (walk_step h visitor ?l) w = Some w'
     else c_while (\<lambda>w. \<not> w_out w) (walk_step h visitor ?l) w = c_while (\<lambda>w. \<not> w_out w) (walk_step h visitor ?l) w' \<and>
       w_leader w' = ?l \<and> w_kids w' = [] \<and> w_threads w' = [] \<and> \<not> w_out w'" by (auto simp: walks_def)
  have "c_while (\<lambda>w. \<not> w_out w) (walk_step h visitor ?l) w' = Some (w'\<lparr>w_out := True\<rparr>)"
    if "w_leader w' = ?l" "w_kids w' = []" "w_threads w' = []" "\<not> w_out w'"
    using that c_while_step [of "\<lambda>w. \<not> w_out w" w' "walk_step h visitor ?l" "w'\<lparr>w_out := True\<rparr>"]
    by (simp add: walk_step_def c_while_stop)
  with w' have "\<exists>w''. c_while (\<lambda>w. \<not> w_out w) (walk_step h visitor ?l) w = Some w'' \<and> w_data w'' = snd (visit visitor us d)"
    by (cases "fst (visit visitor us d)") auto
  with assms(1) w(1) show ?thesis by (auto simp: walk_process_tree_def)
qed

text \<open>Process 1 with a second thread 2; thread 1 has the child 5, thread 2 the children 6 and 7, and 6 the child 8.\<close>

definition sample_heap :: task_heap where
  "sample_heap = Map.empty(
     1 \<mapsto> blank_task\<lparr>group_leader := 1, thread_group := [2], children := [5]\<rparr>,
     2 \<mapsto> blank_task\<lparr>group_leader := 1, children := [6, 7]\<rparr>,
     5 \<mapsto> blank_task\<lparr>group_leader := 5, real_parent := 1, thread_group := [], children := []\<rparr>,
     6 \<mapsto> blank_task\<lparr>group_leader := 6, real_parent := 2, thread_group := [], children := [8]\<rparr>,
     7 \<mapsto> blank_task\<lparr>group_leader := 7, real_parent := 2, thread_group := [], children := []\<rparr>,
     8 \<mapsto> blank_task\<lparr>group_leader := 8, real_parent := 6, thread_group := [], children := []\<rparr>)"

theorem walk_process_tree_visits_witness:
  "walk_process_tree sample_heap (\<lambda>c d. (if c = 7 then -1 else 1, d @ [c])) 2 [] = Some [5, 6, 8, 7]"
proof -
  have "tree_ok sample_heap (PNode 1 [PNode 5 [], PNode 6 [PNode 8 []], PNode 7 []])"
    by (simp add: sample_heap_def threads_of_def thread_ok_def kids_of_def blank_task_def)
  with walk_process_tree_visits [of sample_heap 2 "blank_task\<lparr>group_leader := 1, children := [6, 7]\<rparr>"
      "[PNode 5 [], PNode 6 [PNode 8 []], PNode 7 []]" "\<lambda>c d. (if c = 7 then -1 else 1, d @ [c])" "[]"]
  show ?thesis by (simp add: sample_heap_def blank_task_def)
qed

end
