(* ===== verification/Stack_Cache.thy ===== *)
theory Stack_Cache
  imports Fork_Base
begin

text \<open>
  The kernel stacks of tasks in \<open>Assignment3-1/fork.c\<close> (with \<open>CONFIG_VMAP_STACK\<close>): a processor
  keeps two stacks of dead tasks for new ones, and the pages of a stack are charged to a
  memory control group while a task has it. The state is that of one processor; a stack is
  the address of its \<open>vm_struct\<close>. \<open>dirty\<close> are the cached stacks with the
  contents of a task that had them. The pages of a stack,
  what \<open>vmalloc\<close> returns and which charges fail are parameters.
\<close>

section \<open>The code\<close>

definition NR_CACHED_STACKS :: nat where
  "NR_CACHED_STACKS = 2"

record stack_st =
  cached_stacks :: "nat option list"
  stack_vm_area :: "task_ptr \<Rightarrow> nat option"
  live_areas :: "nat set"
  dirty :: "nat set"
  charged :: "nat set"
  memcg_kb :: int
  zone_kb :: int

record stack_env =
  area_pages :: "nat \<Rightarrow> nat list"
  page_kb :: int
  n_pages :: nat

text \<open>The loops of \<open>this_cpu_xchg\<close> and \<open>this_cpu_cmpxchg\<close> over the slots.\<close>

fun take_cached :: "nat option list \<Rightarrow> nat option \<times> nat option list" where
  "take_cached [] = (None, [])"
| "take_cached (None # cs) = (case take_cached cs of (r, cs') \<Rightarrow> (r, None # cs'))"
| "take_cached (Some a # cs) = (Some a, None # cs)"

fun put_cached :: "nat \<Rightarrow> nat option list \<Rightarrow> nat option list option" where
  "put_cached a [] = None"
| "put_cached a (None # cs) = Some (Some a # cs)"
| "put_cached a (Some b # cs) = map_option (Cons (Some b)) (put_cached a cs)"

definition alloc_thread_stack_node :: "nat option \<Rightarrow> task_ptr \<Rightarrow> stack_st \<Rightarrow> nat option \<times> stack_st" where
  "alloc_thread_stack_node vmalloc tsk s = (case take_cached (cached_stacks s) of
     (Some a, cs) \<Rightarrow> (Some a, s\<lparr>cached_stacks := cs, dirty := dirty s - {a},
        stack_vm_area := (stack_vm_area s)(tsk \<mapsto> a)\<rparr>)
   | (None, cs) \<Rightarrow> (case vmalloc of None \<Rightarrow> (None, s)
      | Some a \<Rightarrow> (Some a, s\<lparr>live_areas := insert a (live_areas s), stack_vm_area := (stack_vm_area s)(tsk \<mapsto> a)\<rparr>)))"

text \<open>Charging stops at the first page that fails; a page that is not charged is passed over when uncharging.\<close>

fun charge_pages :: "stack_env \<Rightarrow> (nat \<Rightarrow> errno option) \<Rightarrow> nat list \<Rightarrow> stack_st \<Rightarrow> errno option \<times> stack_st" where
  "charge_pages env fails [] s = (None, s)"
| "charge_pages env fails (p # ps) s = (case fails p of
     Some e \<Rightarrow> (Some e, s)
   | None \<Rightarrow> charge_pages env fails ps (s\<lparr>charged := insert p (charged s), memcg_kb := memcg_kb s + page_kb env\<rparr>))"

fun uncharge_pages :: "stack_env \<Rightarrow> nat list \<Rightarrow> stack_st \<Rightarrow> stack_st" where
  "uncharge_pages env [] s = s"
| "uncharge_pages env (p # ps) s = uncharge_pages env ps
     (if p \<in> charged s then s\<lparr>charged := charged s - {p}, memcg_kb := memcg_kb s - page_kb env\<rparr> else s)"

definition memcg_charge_kernel_stack :: "stack_env \<Rightarrow> (nat \<Rightarrow> errno option) \<Rightarrow> task_ptr \<Rightarrow> stack_st \<Rightarrow> errno option \<times> stack_st" where
  "memcg_charge_kernel_stack env fails tsk s = (case stack_vm_area s tsk of None \<Rightarrow> (None, s)
     | Some a \<Rightarrow> charge_pages env fails (area_pages env a) s)"

definition free_thread_stack :: "stack_env \<Rightarrow> task_ptr \<Rightarrow> stack_st \<Rightarrow> stack_st option" where
  "free_thread_stack env tsk s = (case stack_vm_area s tsk of None \<Rightarrow> None
     | Some a \<Rightarrow>
        let s = uncharge_pages env (area_pages env a) s
        in Some (case put_cached a (cached_stacks s) of
             Some cs \<Rightarrow> s\<lparr>cached_stacks := cs, dirty := insert a (dirty s)\<rparr>
           | None \<Rightarrow> s\<lparr>live_areas := live_areas s - {a}\<rparr>))"

definition free_vm_stack_cache :: "stack_st \<Rightarrow> stack_st" where
  "free_vm_stack_cache s = s\<lparr>live_areas := live_areas s - {a. Some a \<in> set (cached_stacks s)},
     dirty := dirty s - {a. Some a \<in> set (cached_stacks s)}, cached_stacks := replicate (length (cached_stacks s)) None\<rparr>"

definition account_kernel_stack :: "stack_env \<Rightarrow> task_ptr \<Rightarrow> int \<Rightarrow> stack_st \<Rightarrow> stack_st option" where
  "account_kernel_stack env tsk account s = (case stack_vm_area s tsk of
     Some a \<Rightarrow> if length (area_pages env a) \<noteq> n_pages env then None
        else Some (s\<lparr>zone_kb := zone_kb s + int (n_pages env) * (page_kb env * account)\<rparr>)
   | None \<Rightarrow> Some (s\<lparr>zone_kb := zone_kb s + int (n_pages env) * page_kb env * account,
        memcg_kb := memcg_kb s + account * (int (n_pages env) * page_kb env)\<rparr>))"

text \<open>
  The part of \<open>dup_task_struct\<close> that gives a new task its stack, with the label \<open>free_stack\<close>, after
  which the task structure is freed. \<open>arch_dup_task_struct\<close>, whose result is \<open>arch_err\<close>, copies the
  structure of \<open>orig\<close> with its \<open>stack_vm_area\<close>, and the new task's own is put back after it.
\<close>

definition free_stack :: "stack_env \<Rightarrow> task_ptr \<Rightarrow> stack_st \<Rightarrow> (bool \<times> stack_st) option" where
  "free_stack env tsk s = do {
     s \<leftarrow> free_thread_stack env tsk s;
     Some (False, s\<lparr>stack_vm_area := (stack_vm_area s)(tsk := None)\<rparr>) }"

definition dup_stack ::
  "stack_env \<Rightarrow> nat option \<Rightarrow> (nat \<Rightarrow> errno option) \<Rightarrow> bool \<Rightarrow> task_ptr \<Rightarrow> task_ptr \<Rightarrow> stack_st \<Rightarrow> (bool \<times> stack_st) option" where
  "dup_stack env vmalloc fails arch_err orig tsk s = (case alloc_thread_stack_node vmalloc tsk s of
     (None, s) \<Rightarrow> Some (False, s)
   | (Some a, s) \<Rightarrow> (case memcg_charge_kernel_stack env fails tsk s of
        (Some e, s) \<Rightarrow> free_stack env tsk s
      | (None, s) \<Rightarrow>
          let saved = stack_vm_area s tsk;
              s = s\<lparr>stack_vm_area := (stack_vm_area s)(tsk := stack_vm_area s orig)\<rparr>;
              s = s\<lparr>stack_vm_area := (stack_vm_area s)(tsk := saved)\<rparr>
          in if arch_err then free_stack env tsk s
          else do { s \<leftarrow> account_kernel_stack env tsk 1 s; Some (True, s) }))"

text \<open>A task that is not dead keeps its stack, which then leaks.\<close>

definition release_task_stack :: "stack_env \<Rightarrow> bool \<Rightarrow> task_ptr \<Rightarrow> stack_st \<Rightarrow> stack_st option" where
  "release_task_stack env is_dead tsk s = (if \<not> is_dead then Some s
     else do {
       s \<leftarrow> account_kernel_stack env tsk (-1) s;
       s \<leftarrow> free_thread_stack env tsk s;
       Some (s\<lparr>stack_vm_area := (stack_vm_area s)(tsk := None)\<rparr>) })"

section \<open>The invariant\<close>

definition cached_set :: "stack_st \<Rightarrow> nat set" where
  "cached_set s = {a. Some a \<in> set (cached_stacks s)}"

text \<open>The pages of a stack are as many as a stack has, and no two stacks share one.\<close>

definition pages_ok :: "stack_env \<Rightarrow> bool" where
  "pages_ok env \<longleftrightarrow> (\<forall>a. distinct (area_pages env a) \<and> length (area_pages env a) = n_pages env) \<and>
     (\<forall>a b. a \<noteq> b \<longrightarrow> set (area_pages env a) \<inter> set (area_pages env b) = {})"

text \<open>Every stack is in one place: a slot of the cache or one task.\<close>

definition places_ok :: "stack_st \<Rightarrow> bool" where
  "places_ok s \<longleftrightarrow> length (cached_stacks s) = NR_CACHED_STACKS \<and>
     distinct (filter (\<lambda>c. c \<noteq> None) (cached_stacks s)) \<and>
     finite (dom (stack_vm_area s)) \<and> inj_on (stack_vm_area s) (dom (stack_vm_area s)) \<and>
     ran (stack_vm_area s) \<inter> cached_set s = {} \<and> live_areas s = ran (stack_vm_area s) \<union> cached_set s \<and>
     dirty s \<subseteq> cached_set s"

text \<open>All pages of the tasks' stacks are charged and no others, and the two counters agree with that.\<close>

definition owned_pages :: "stack_env \<Rightarrow> (task_ptr \<Rightarrow> nat option) \<Rightarrow> nat set" where
  "owned_pages env own = (\<Union>a \<in> ran own. set (area_pages env a))"

definition stack_inv :: "stack_env \<Rightarrow> stack_st \<Rightarrow> bool" where
  "stack_inv env s \<longleftrightarrow> places_ok s \<and> charged s = owned_pages env (stack_vm_area s) \<and>
     memcg_kb s = page_kb env * int (card (charged s)) \<and>
     zone_kb s = page_kb env * int (n_pages env) * int (card (dom (stack_vm_area s)))"

lemma take_cached_ok:
  "take_cached cs = (r, cs') \<Longrightarrow> (case r of None \<Rightarrow> cs' = cs \<and> (\<forall>c \<in> set cs. c = None)
     | Some a \<Rightarrow> \<exists>xs ys. cs = xs @ Some a # ys \<and> cs' = xs @ None # ys)"
proof (induction cs arbitrary: cs' rule: take_cached.induct)
  case (2 cs)
  obtain r1 c1 where t: "take_cached cs = (r1, c1)" by (cases "take_cached cs")
  with 2 show ?case by (cases r1) (auto, metis append_Cons)
next
  case (3 a cs)
  then have "Some a # cs = [] @ Some a # cs \<and> cs' = [] @ None # cs" "r = Some a" by simp_all
  then show ?case by (simp only: option.case) blast
qed simp

lemma put_cached_ok: "put_cached a cs = Some cs' \<Longrightarrow> \<exists>xs ys. cs = xs @ None # ys \<and> cs' = xs @ Some a # ys"
proof (induction a cs arbitrary: cs' rule: put_cached.induct)
  case (2 a cs)
  then show ?case by (auto intro: exI [of _ "[]"])
next
  case (3 a b cs)
  then show ?case by (auto, metis append_Cons)
qed simp

lemma charge_pages_ok:
  assumes "charge_pages env fails ps s = (r, s')" "distinct ps" "set ps \<inter> charged s = {}"
  shows "\<exists>X. X \<subseteq> set ps \<and> (r = None \<longrightarrow> X = set ps) \<and>
    s' = s\<lparr>charged := charged s \<union> X, memcg_kb := memcg_kb s + page_kb env * int (card X)\<rparr>"
  using assms
proof (induction ps arbitrary: s)
  case (Cons p ps)
  show ?case
  proof (cases "fails p")
    case None
    let ?s = "s\<lparr>charged := insert p (charged s), memcg_kb := memcg_kb s + page_kb env\<rparr>"
    have "charge_pages env fails ps ?s = (r, s')" "set ps \<inter> charged ?s = {}" "distinct ps"
      using Cons.prems None by auto
    from Cons.IH [OF this(1,3,2)] obtain X where X: "X \<subseteq> set ps" "r = None \<longrightarrow> X = set ps"
        "s' = ?s\<lparr>charged := charged ?s \<union> X, memcg_kb := memcg_kb ?s + page_kb env * int (card X)\<rparr>" by blast
    have "p \<notin> X" "finite X" using X(1) Cons.prems(2) finite_subset by auto
    then have "card (insert p X) = Suc (card X)" by simp
    with X show ?thesis by (intro exI [of _ "insert p X"]) (auto simp: algebra_simps)
  next
    case (Some e)
    then have "r = Some e" "s' = s" using Cons.prems(1) by simp_all
    then show ?thesis by (intro exI [of _ "{}"]) simp
  qed
qed simp

lemma uncharge_pages_ok:
  assumes "finite (charged s)"
  shows "uncharge_pages env ps s = s\<lparr>charged := charged s - set ps,
    memcg_kb := memcg_kb s - page_kb env * int (card (charged s \<inter> set ps))\<rparr>"
  using assms
proof (induction ps arbitrary: s)
  case (Cons p ps)
  show ?case
  proof (cases "p \<in> charged s")
    case True
    let ?s = "s\<lparr>charged := charged s - {p}, memcg_kb := memcg_kb s - page_kb env\<rparr>"
    have "charged s \<inter> set (p # ps) = insert p ((charged s - {p}) \<inter> set ps)" using True by auto
    then have "card (charged s \<inter> set (p # ps)) = Suc (card ((charged s - {p}) \<inter> set ps))"
      using Cons.prems by simp
    moreover have "charged s - {p} - set ps = charged s - set (p # ps)" by auto
    ultimately show ?thesis using True Cons.IH [of ?s] Cons.prems by (simp add: algebra_simps)
  next
    case False
    then have "charged s \<inter> set (p # ps) = charged s \<inter> set ps" "charged s - set (p # ps) = charged s - set ps" by auto
    with False Cons show ?thesis by simp
  qed
qed simp

lemma ran_del:
  assumes "inj_on m (dom m)" "m t = Some a"
  shows "ran (m(t := None)) = ran m - {a}"
proof -
  have "m u \<noteq> Some a" if "u \<noteq> t" for u
    using inj_onD [OF assms(1), of u t] assms(2) that by (metis domI)
  then show ?thesis using assms(2) unfolding ran_def by (auto, metis option.inject)
qed

lemma inj_on_del: "inj_on m (dom m) \<Longrightarrow> inj_on (m(t := None)) (dom (m(t := None)))"
  by (auto simp: inj_on_def dom_def)

lemma inj_on_add:
  assumes "inj_on m (dom m)" "a \<notin> ran m"
  shows "inj_on (m(t \<mapsto> a)) (dom (m(t \<mapsto> a)))"
proof -
  have "m u \<noteq> Some a" for u using assms(2) by (auto simp: ran_def)
  then show ?thesis using assms(1) by (auto simp: inj_on_def dom_def)
qed

text \<open>A new task gets a stack that no other task has and that is clean.\<close>

lemma alloc_ok:
  assumes ok: "places_ok s" and free: "stack_vm_area s tsk = None" and vm: "\<And>a. vmalloc = Some a \<Longrightarrow> a \<notin> live_areas s"
    and run: "alloc_thread_stack_node vmalloc tsk s = (Some a, s1)"
  shows "places_ok s1" "a \<notin> ran (stack_vm_area s)" "a \<notin> dirty s1" "stack_vm_area s1 = (stack_vm_area s)(tsk \<mapsto> a)"
    "charged s1 = charged s" "memcg_kb s1 = memcg_kb s" "zone_kb s1 = zone_kb s"
proof -
  obtain r cs where t: "take_cached (cached_stacks s) = (r, cs)" by (cases "take_cached (cached_stacks s)")
  note tk = take_cached_ok [OF t]
  have ran: "ran ((stack_vm_area s)(tsk \<mapsto> b)) = insert b (ran (stack_vm_area s))" for b
    using ran_map_upd [of "stack_vm_area s" tsk b] free by simp
  have "places_ok s1 \<and> a \<notin> ran (stack_vm_area s) \<and> a \<notin> dirty s1 \<and> stack_vm_area s1 = (stack_vm_area s)(tsk \<mapsto> a) \<and>
    charged s1 = charged s \<and> memcg_kb s1 = memcg_kb s \<and> zone_kb s1 = zone_kb s"
  proof (cases r)
    case None
    with run t obtain s1: "vmalloc = Some a"
        "s1 = s\<lparr>live_areas := insert a (live_areas s), stack_vm_area := (stack_vm_area s)(tsk \<mapsto> a)\<rparr>"
      by (auto simp: alloc_thread_stack_node_def split: option.splits)
    with vm ok have n: "a \<notin> ran (stack_vm_area s)" "a \<notin> cached_set s" "a \<notin> dirty s" by (auto simp: places_ok_def)
    have "places_ok s1" using ok n inj_on_add [of "stack_vm_area s" a tsk] ran unfolding s1 places_ok_def cached_set_def by auto
    with n s1 show ?thesis by simp
  next
    case (Some b)
    with run t have s1: "b = a" "s1 = s\<lparr>cached_stacks := cs, dirty := dirty s - {a}, stack_vm_area := (stack_vm_area s)(tsk \<mapsto> a)\<rparr>"
      by (auto simp: alloc_thread_stack_node_def)
    from tk Some s1 obtain xs ys where xy: "cached_stacks s = xs @ Some a # ys" "cs = xs @ None # ys" by auto
    have "Some a \<notin> set xs" "Some a \<notin> set ys" using ok xy(1) by (auto simp: places_ok_def)
    then have c: "cached_set s1 = cached_set s - {a}" "a \<in> cached_set s" using s1(2) xy by (auto simp: cached_set_def)
    then have n: "a \<notin> ran (stack_vm_area s)" using ok by (auto simp: places_ok_def)
    have "places_ok s1"
      unfolding places_ok_def c(1) using ok n c(2) inj_on_add [of "stack_vm_area s" a tsk] ran xy
      by (auto simp: s1(2) places_ok_def)
    with n s1 show ?thesis by simp
  qed
  then show "places_ok s1" "a \<notin> ran (stack_vm_area s)" "a \<notin> dirty s1" "stack_vm_area s1 = (stack_vm_area s)(tsk \<mapsto> a)"
    "charged s1 = charged s" "memcg_kb s1 = memcg_kb s" "zone_kb s1 = zone_kb s" by blast+
qed

text \<open>A stack that is given up is in the cache or gone, and none of its pages stays charged.\<close>

lemma free_ok:
  assumes ok: "places_ok s" and own: "stack_vm_area s tsk = Some a" and fin: "finite (charged s)"
  shows "\<exists>s2 s3. free_thread_stack env tsk s = Some s2 \<and> s3 = s2\<lparr>stack_vm_area := (stack_vm_area s2)(tsk := None)\<rparr> \<and> places_ok s3 \<and>
    stack_vm_area s3 = (stack_vm_area s)(tsk := None) \<and> charged s3 = charged s - set (area_pages env a) \<and>
    memcg_kb s3 = memcg_kb s - page_kb env * int (card (charged s \<inter> set (area_pages env a))) \<and> zone_kb s3 = zone_kb s"
proof -
  let ?u = "s\<lparr>charged := charged s - set (area_pages env a),
    memcg_kb := memcg_kb s - page_kb env * int (card (charged s \<inter> set (area_pages env a)))\<rparr>"
  let ?s2 = "case put_cached a (cached_stacks s) of Some cs \<Rightarrow> ?u\<lparr>cached_stacks := cs, dirty := insert a (dirty s)\<rparr>
    | None \<Rightarrow> ?u\<lparr>live_areas := live_areas s - {a}\<rparr>"
  have run: "free_thread_stack env tsk s = Some ?s2"
    using own by (simp add: free_thread_stack_def uncharge_pages_ok [OF fin] Let_def split: option.split)
  have a: "a \<in> ran (stack_vm_area s)" using own by (auto simp: ran_def)
  with ok have n: "a \<notin> cached_set s" "a \<notin> dirty s" by (auto simp: places_ok_def)
  have ran: "ran ((stack_vm_area s)(tsk := None)) = ran (stack_vm_area s) - {a}"
    using ran_del [of "stack_vm_area s" tsk a] own ok by (simp add: places_ok_def)
  have inj: "inj_on ((stack_vm_area s)(tsk := None)) (dom ((stack_vm_area s)(tsk := None)))"
    using inj_on_del ok by (auto simp: places_ok_def simp del: dom_fun_upd)
  have fd: "finite (dom ((stack_vm_area s)(tsk := None)))" using ok by (simp add: places_ok_def)
  let ?s3 = "?s2\<lparr>stack_vm_area := (stack_vm_area s)(tsk := None)\<rparr>"
  have "places_ok ?s3"
  proof (cases "put_cached a (cached_stacks s)")
    case None
    then show ?thesis
      using fd ok n ran inj by (auto simp: places_ok_def cached_set_def simp del: dom_fun_upd)
  next
    case (Some cs)
    then obtain xs ys where xy: "cached_stacks s = xs @ None # ys" "cs = xs @ Some a # ys" using put_cached_ok by blast
    have c: "cached_set ?s3 = insert a (cached_set s)" using Some xy by (auto simp: cached_set_def)
    have "Some a \<notin> set xs" "Some a \<notin> set ys" using n(1) xy by (auto simp: cached_set_def)
    then have "distinct (filter (\<lambda>c. c \<noteq> None) cs)" "length cs = length (cached_stacks s)" using ok xy by (auto simp: places_ok_def)
    then show ?thesis
      unfolding places_ok_def c using fd ok Some n a ran inj by (auto simp: places_ok_def simp del: dom_fun_upd)
  qed
  with run show ?thesis by (intro exI [of _ ?s2] exI [of _ ?s3]) (simp split: option.split)
qed

section \<open>Operations\<close>

lemma finite_owned: "finite (dom own) \<Longrightarrow> finite (owned_pages env own)"
  by (simp add: owned_pages_def finite_ran)

lemma owned_del:
  assumes "pages_ok env" "inj_on own (dom own)" "own t = Some a"
  shows "owned_pages env (own(t := None)) = owned_pages env own - set (area_pages env a)"
proof -
  have "set (area_pages env b) \<inter> set (area_pages env a) = {}" if "b \<in> ran own - {a}" for b
    using assms(1) that by (auto simp: pages_ok_def)
  then show ?thesis unfolding owned_pages_def ran_del [OF assms(2,3)] by auto
qed

lemma owned_disjoint:
  assumes "pages_ok env" "a \<notin> ran own"
  shows "set (area_pages env a) \<inter> owned_pages env own = {}"
proof -
  have "set (area_pages env a) \<inter> set (area_pages env b) = {}" if "b \<in> ran own" for b
    using assms that unfolding pages_ok_def by metis
  then show ?thesis by (auto simp: owned_pages_def)
qed

lemma pages_card: "pages_ok env \<Longrightarrow> card (set (area_pages env a)) = n_pages env"
  by (simp add: pages_ok_def distinct_card)

text \<open>The end of a failed \<open>dup_stack\<close>: part of the pages is charged.\<close>

lemma free_stack_ok:
  assumes pg: "pages_ok env" and inv: "stack_inv env s" and free: "stack_vm_area s tsk = None" and a: "a \<notin> ran (stack_vm_area s)"
    and s2: "places_ok s2" "stack_vm_area s2 = (stack_vm_area s)(tsk \<mapsto> a)" "charged s2 = charged s \<union> X" "X \<subseteq> set (area_pages env a)"
      "memcg_kb s2 = memcg_kb s + page_kb env * int (card X)" "zone_kb s2 = zone_kb s"
  shows "\<exists>s3. free_stack env tsk s2 = Some (False, s3) \<and> stack_inv env s3 \<and> stack_vm_area s3 = stack_vm_area s"
proof -
  have ch: "charged s = owned_pages env (stack_vm_area s)" "finite (charged s)"
    using inv finite_owned by (auto simp: stack_inv_def places_ok_def)
  have fx: "finite X" using s2(4) finite_subset by blast
  have dj: "charged s \<inter> set (area_pages env a) = {}" using owned_disjoint [OF pg a] ch(1) by auto
  then have x: "charged s2 \<inter> set (area_pages env a) = X" "charged s2 - set (area_pages env a) = charged s"
    using s2(3,4) by auto
  have own: "stack_vm_area s2 tsk = Some a" using s2(2) by simp
  have fin: "finite (charged s2)" using s2(3) ch(2) fx by simp
  obtain s2' s3 where r: "free_thread_stack env tsk s2 = Some s2'" "s3 = s2'\<lparr>stack_vm_area := (stack_vm_area s2')(tsk := None)\<rparr>"
      "places_ok s3" "stack_vm_area s3 = (stack_vm_area s2)(tsk := None)" "charged s3 = charged s"
      "memcg_kb s3 = memcg_kb s" "zone_kb s3 = zone_kb s"
    using free_ok [OF s2(1) own fin, of env] x s2(5,6) by auto
  have eq: "stack_vm_area s3 = stack_vm_area s" using r(4) s2(2) free by (auto simp: fun_upd_idem)
  have "free_stack env tsk s2 = Some (False, s3)" using r(1,2) by (simp add: free_stack_def)
  with r eq inv show ?thesis by (auto simp: stack_inv_def)
qed

text \<open>Giving a new task its stack, with every way it can fail.\<close>

lemma dup_stack_ok:
  assumes pg: "pages_ok env" and inv: "stack_inv env s" and free: "stack_vm_area s tsk = None"
    and vm: "\<And>a. vmalloc = Some a \<Longrightarrow> a \<notin> live_areas s"
  shows "\<exists>ok s'. dup_stack env vmalloc fails arch_err orig tsk s = Some (ok, s') \<and> stack_inv env s' \<and>
    (if ok then \<exists>a. stack_vm_area s' = (stack_vm_area s)(tsk \<mapsto> a) \<and> a \<notin> ran (stack_vm_area s) \<and> a \<notin> dirty s'
     else stack_vm_area s' = stack_vm_area s)"
proof -
  obtain r s1 where al: "alloc_thread_stack_node vmalloc tsk s = (r, s1)" by (cases "alloc_thread_stack_node vmalloc tsk s")
  show ?thesis
  proof (cases r)
    case None
    then have "s1 = s" using al by (auto simp: alloc_thread_stack_node_def split: option.splits prod.splits)
    with None al inv show ?thesis by (intro exI [of _ False] exI [of _ s]) (simp add: dup_stack_def)
  next
    case (Some a)
    have pl: "places_ok s" using inv by (simp add: stack_inv_def)
    note a = alloc_ok [OF pl free vm al [unfolded Some]]
    have dj: "set (area_pages env a) \<inter> charged s1 = {}" "finite (charged s1)"
      using owned_disjoint [OF pg a(2)] a(5) inv finite_owned by (auto simp: stack_inv_def places_ok_def)
    obtain e s2 where mc: "charge_pages env fails (area_pages env a) s1 = (e, s2)"
      by (cases "charge_pages env fails (area_pages env a) s1")
    have "distinct (area_pages env a)" using pg by (simp add: pages_ok_def)
    from charge_pages_ok [OF mc this dj(1)] obtain X where X: "X \<subseteq> set (area_pages env a)" "e = None \<longrightarrow> X = set (area_pages env a)"
        "s2 = s1\<lparr>charged := charged s1 \<union> X, memcg_kb := memcg_kb s1 + page_kb env * int (card X)\<rparr>" by blast
    have s2: "places_ok s2" "stack_vm_area s2 = (stack_vm_area s)(tsk \<mapsto> a)" "charged s2 = charged s \<union> X"
        "memcg_kb s2 = memcg_kb s + page_kb env * int (card X)" "zone_kb s2 = zone_kb s" "dirty s2 = dirty s1"
      using X(3) a by (auto simp: places_ok_def cached_set_def)
    have run: "dup_stack env vmalloc fails arch_err orig tsk s = (if e \<noteq> None \<or> arch_err then free_stack env tsk s2
        else do { s \<leftarrow> account_kernel_stack env tsk 1 s2; Some (True, s) })"
      using al Some mc a(4) by (auto simp: dup_stack_def memcg_charge_kernel_stack_def split: option.split)
    show ?thesis
    proof (cases "e \<noteq> None \<or> arch_err")
      case True
      then show ?thesis using run free_stack_ok [OF pg inv free a(2) s2(1-3) X(1) s2(4,5)] by auto
    next
      case False
      let ?s' = "s2\<lparr>zone_kb := zone_kb s2 + int (n_pages env) * page_kb env\<rparr>"
      have "account_kernel_stack env tsk 1 s2 = Some ?s'" using s2(2) pg by (simp add: account_kernel_stack_def pages_ok_def)
      moreover have "stack_inv env ?s'"
      proof -
        have Xe: "X = set (area_pages env a)" using X(2) False by simp
        have ch: "charged s2 = owned_pages env (stack_vm_area s2)"
          using inv s2(2,3) Xe ran_map_upd [of "stack_vm_area s" tsk a] free by (auto simp: stack_inv_def owned_pages_def)
        have "card (charged s2) = card (charged s) + card X" using s2(3) dj X(1) a(5) Xe by (simp add: card_Un_disjoint Int_commute)
        moreover have "card (dom (stack_vm_area s2)) = Suc (card (dom (stack_vm_area s)))"
          using s2(2) free pl by (simp add: places_ok_def domIff)
        ultimately show ?thesis
          using inv s2 ch by (auto simp: stack_inv_def places_ok_def cached_set_def algebra_simps)
      qed
      ultimately show ?thesis using run False s2(2,6) a(2,3) by auto
    qed
  qed
qed

lemma release_ok:
  assumes pg: "pages_ok env" and inv: "stack_inv env s" and own: "stack_vm_area s tsk = Some a"
  shows "\<exists>s'. release_task_stack env True tsk s = Some s' \<and> stack_inv env s' \<and> stack_vm_area s' = (stack_vm_area s)(tsk := None)"
proof -
  let ?s = "s\<lparr>zone_kb := zone_kb s - int (n_pages env) * page_kb env\<rparr>"
  have ac: "account_kernel_stack env tsk (-1) s = Some ?s" using own pg by (simp add: account_kernel_stack_def pages_ok_def)
  have pl: "places_ok ?s" "stack_vm_area ?s tsk = Some a" using inv own by (auto simp: stack_inv_def places_ok_def cached_set_def)
  have fin: "finite (charged ?s)" "charged s = owned_pages env (stack_vm_area s)" "inj_on (stack_vm_area s) (dom (stack_vm_area s))"
    using inv finite_owned by (auto simp: stack_inv_def places_ok_def)
  obtain s2 s3 where r: "free_thread_stack env tsk ?s = Some s2" "s3 = s2\<lparr>stack_vm_area := (stack_vm_area s2)(tsk := None)\<rparr>"
      "places_ok s3" "stack_vm_area s3 = (stack_vm_area s)(tsk := None)" "charged s3 = charged s - set (area_pages env a)"
      "memcg_kb s3 = memcg_kb s - page_kb env * int (card (charged s \<inter> set (area_pages env a)))" "zone_kb s3 = zone_kb ?s"
    using free_ok [OF pl fin(1), of env] by auto
  have sub: "set (area_pages env a) \<subseteq> charged s" using fin(2) own by (auto simp: owned_pages_def ran_def)
  then have card: "int (card (charged s3)) = int (card (charged s)) - int (n_pages env)" "card (charged s \<inter> set (area_pages env a)) = n_pages env"
    using r(5) pages_card [OF pg, of a] card_mono [OF _ sub] fin(1) by (auto simp: card_Diff_subset inf_absorb2)
  have dm: "int (card (dom (stack_vm_area s3))) = int (card (dom (stack_vm_area s))) - 1"
  proof -
    have d: "finite (dom (stack_vm_area s))" "tsk \<in> dom (stack_vm_area s)" using pl own by (auto simp: places_ok_def)
    have "card (dom (stack_vm_area s)) = Suc (card (dom (stack_vm_area s) - {tsk}))" using d by (rule card.remove)
    then show ?thesis unfolding r(4) by (simp del: card_Diff_insert)
  qed
  have kb: "memcg_kb s = page_kb env * int (card (charged s))"
      "zone_kb s = page_kb env * int (n_pages env) * int (card (dom (stack_vm_area s)))" using inv by (auto simp: stack_inv_def)
  have "memcg_kb s3 = page_kb env * int (card (charged s3))"
    unfolding r(6) card kb(1) by (simp add: right_diff_distrib)
  moreover have "zone_kb s3 = page_kb env * int (n_pages env) * int (card (dom (stack_vm_area s3)))"
    unfolding dm using r(7) kb(2) by (simp add: right_diff_distrib mult.commute)
  moreover have "charged s3 = owned_pages env (stack_vm_area s3)" using r(4,5) owned_del [OF pg fin(3) own] fin(2) by simp
  ultimately have "stack_inv env s3" using r(3) by (simp add: stack_inv_def)
  with ac r show ?thesis by (simp add: release_task_stack_def)
qed

lemma flush_ok: "stack_inv env s \<Longrightarrow> stack_inv env (free_vm_stack_cache s) \<and> stack_vm_area (free_vm_stack_cache s) = stack_vm_area s"
  by (auto simp: stack_inv_def free_vm_stack_cache_def places_ok_def cached_set_def)

section \<open>Results\<close>

text \<open>
  What happens to the stacks: a task is made (or not, when memory or a charge is missing), a
  dead task gives its stack back, and a processor that goes offline empties its cache. What
  \<open>vmalloc\<close> returns is not in use.
\<close>

inductive stack_step :: "stack_env \<Rightarrow> stack_st \<Rightarrow> stack_st \<Rightarrow> bool" for env where
  make: "stack_vm_area s tsk = None \<Longrightarrow> (\<forall>a. vmalloc = Some a \<longrightarrow> a \<notin> live_areas s) \<Longrightarrow>
    dup_stack env vmalloc fails arch_err orig tsk s = Some (ok, s') \<Longrightarrow> stack_step env s s'"
| die: "stack_vm_area s tsk = Some a \<Longrightarrow> release_task_stack env True tsk s = Some s' \<Longrightarrow> stack_step env s s'"
| offline: "stack_step env s (free_vm_stack_cache s)"

definition no_stacks :: stack_st where
  "no_stacks = \<lparr>cached_stacks = replicate NR_CACHED_STACKS None, stack_vm_area = Map.empty, live_areas = {}, dirty = {},
     charged = {}, memcg_kb = 0, zone_kb = 0\<rparr>"

lemma no_stacks_inv: "stack_inv env no_stacks"
  by (simp add: stack_inv_def places_ok_def no_stacks_def cached_set_def owned_pages_def NR_CACHED_STACKS_def)

lemma stack_step_inv: "pages_ok env \<Longrightarrow> stack_step env s s' \<Longrightarrow> stack_inv env s \<Longrightarrow> stack_inv env s'"
proof (erule stack_step.cases, goal_cases)
  case (1 u tsk vmalloc fails arch_err orig ok u')
  then show ?case using dup_stack_ok [of env s tsk vmalloc fails arch_err orig] by auto
next
  case (2 u tsk a u')
  then show ?case using release_ok [of env s tsk a] by auto
next
  case (3 u)
  then show ?case using flush_ok by blast
qed

lemma stack_reachable_inv: "(stack_step env)\<^sup>*\<^sup>* no_stacks s \<Longrightarrow> pages_ok env \<Longrightarrow> stack_inv env s"
  by (induction rule: rtranclp_induct) (auto intro: no_stacks_inv stack_step_inv)

text \<open>
  C12. In every state that tasks being made and dying, failed attempts and processors going
  offline can lead to, no two tasks have the same stack, no task has a stack that is in the
  cache or holds the contents of a task that had it before, exactly the pages of the tasks'
  stacks are charged, and the counters of both are exact, although a charge may have failed
  half way; and from there no operation fails to return.
\<close>

theorem stack_cache_safe:
  assumes "pages_ok env" "(stack_step env)\<^sup>*\<^sup>* no_stacks s"
  shows "(\<forall>t u a. stack_vm_area s t = Some a \<and> stack_vm_area s u = Some a \<longrightarrow> t = u) \<and>
    (\<forall>t a. stack_vm_area s t = Some a \<longrightarrow> Some a \<notin> set (cached_stacks s) \<and> a \<notin> dirty s) \<and>
    charged s = (\<Union>a \<in> ran (stack_vm_area s). set (area_pages env a)) \<and>
    memcg_kb s = page_kb env * int (card (charged s)) \<and>
    zone_kb s = page_kb env * int (n_pages env) * int (card (dom (stack_vm_area s))) \<and>
    (\<forall>t a. stack_vm_area s t = Some a \<longrightarrow> (\<exists>s'. release_task_stack env True t s = Some s')) \<and>
    (\<forall>t v fails e og. stack_vm_area s t = None \<and> (\<forall>a. v = Some a \<longrightarrow> a \<notin> live_areas s) \<longrightarrow>
      (\<exists>ok s'. dup_stack env v fails e og t s = Some (ok, s')))"
proof -
  have inv: "stack_inv env s" using stack_reachable_inv [OF assms(2,1)] .
  then have pl: "places_ok s" "charged s = owned_pages env (stack_vm_area s)" "memcg_kb s = page_kb env * int (card (charged s))"
    "zone_kb s = page_kb env * int (n_pages env) * int (card (dom (stack_vm_area s)))" by (auto simp: stack_inv_def)
  have "t = u" if "stack_vm_area s t = Some a" "stack_vm_area s u = Some a" for t u a
    using inj_onD [of "stack_vm_area s" "dom (stack_vm_area s)" t u] pl(1) that by (auto simp: places_ok_def)
  moreover have "Some a \<notin> set (cached_stacks s) \<and> a \<notin> dirty s" if "stack_vm_area s t = Some a" for t a
  proof -
    have "a \<in> ran (stack_vm_area s)" using that by (auto simp: ran_def)
    with pl(1) show ?thesis by (auto simp: places_ok_def cached_set_def)
  qed
  moreover have "\<exists>s'. release_task_stack env True t s = Some s'" if "stack_vm_area s t = Some a" for t a
    using release_ok [OF assms(1) inv that] by blast
  moreover have "\<exists>ok s'. dup_stack env v fails e og t s = Some (ok, s')"
    if "stack_vm_area s t = None" "\<forall>a. v = Some a \<longrightarrow> a \<notin> live_areas s" for t v fails e og
    using dup_stack_ok [OF assms(1) inv that(1)] that(2) by blast
  ultimately show ?thesis using pl(2-4) unfolding owned_pages_def by blast
qed

definition sample_stack_env :: stack_env where
  "sample_stack_env = \<lparr>area_pages = (\<lambda>a. [2 * a, 2 * a + 1]), page_kb = 4, n_pages = 2\<rparr>"

theorem stack_cache_safe_witness:
  "\<exists>s. dup_stack sample_stack_env (Some 3) (\<lambda>p. None) False 1 7 no_stacks = Some (True, s) \<and> stack_vm_area s 7 = Some 3 \<and>
    Some 3 \<notin> set (cached_stacks s) \<and> memcg_kb s = 8 \<and> (\<exists>s'. release_task_stack sample_stack_env True 7 s = Some s')"
proof -
  have pg: "pages_ok sample_stack_env" by (auto simp: pages_ok_def sample_stack_env_def)
  let ?s = "no_stacks\<lparr>live_areas := {3}, stack_vm_area := [7 \<mapsto> 3], charged := {6, 7}, memcg_kb := 8, zone_kb := 8\<rparr>"
  have run: "dup_stack sample_stack_env (Some 3) (\<lambda>p. None) False 1 7 no_stacks = Some (True, ?s)"
    by (simp add: dup_stack_def alloc_thread_stack_node_def memcg_charge_kernel_stack_def account_kernel_stack_def no_stacks_def
        sample_stack_env_def NR_CACHED_STACKS_def numeral_2_eq_2 insert_commute)
  have "stack_step sample_stack_env no_stacks ?s"
    by (rule stack_step.make [OF _ _ run]) (simp_all add: no_stacks_def)
  then have "(stack_step sample_stack_env)\<^sup>*\<^sup>* no_stacks ?s" by (rule r_into_rtranclp)
  note safe = stack_cache_safe [OF pg this]
  have own: "stack_vm_area ?s 7 = Some 3" by simp
  have "Some 3 \<notin> set (cached_stacks ?s)" "\<exists>s'. release_task_stack sample_stack_env True 7 ?s = Some s'"
    using safe own by blast+
  moreover have "memcg_kb ?s = 8" by simp
  ultimately show ?thesis using run own by blast
qed

end
