(* ===== verification/Mm_Life.thy ===== *)
theory Mm_Life
  imports Dup_Mmap Copy_Process
begin

text \<open>
  The life of a memory descriptor in \<open>Assignment3-1/fork.c\<close>: \<open>mm_alloc\<close>, \<open>mm_init\<close>, the whole of \<open>dup_mm\<close>
  around \<open>dup_mmap\<close>, and the two reference counts: \<open>mm_users\<close> keeps the address space, \<open>mm_count\<close> the
  descriptor. Descriptors are in a heap; using one that is freed, freeing one twice, queueing
  its work item while it is queued and dropping a count that is zero are faults (\<open>None\<close>). What
  the descriptors hold of the rest of the kernel is counted. Outside code is in \<open>life_env\<close>:
  \<open>exit_mmap\<close> unmaps the areas, \<open>mmdrop\<close> gives up a reference to the descriptor, and the others are
  answers of allocators and constants of headers. Calls that change nothing counted here
  (uprobes, asynchronous I/O, page merging, huge pages) are left out.
\<close>

section \<open>Descriptors\<close>

record 'v mm_struct =
  mmap :: "vma list"
  vmacache_seqnum :: nat
  mm_map_count :: int
  mm_stats :: 'v
  mm_exe_file :: "nat option"
  mm_users :: int
  mm_count :: int
  on_mmlist :: bool
  core_state :: "nat option"
  pgtables_bytes :: int
  locked_vm :: int
  pinned_vm :: int
  rss_stat :: "int list"
  owner :: "task_ptr option"
  mm_flags :: "64 word"
  def_flags :: "64 word"
  pgd :: "nat option"
  user_ns :: nat
  binfmt :: "nat option"
  hiwater_rss :: int
  hiwater_vm :: int

datatype mm_work = Mmput_work | Mmdrop_work

datatype mm_alert = Bad_rss string int | Bad_pgtables int | Warn_current

text \<open>
  \<open>kern\<close> holds the counters of \<open>Dup_Mmap\<close>; \<open>binfmt\<close> is the module of the binary format. The items of
  the system work queue are the descriptor's \<open>async_put_work\<close> with the function it was given.
\<close>

record 'v mw =
  kern :: "'v mmst"
  mms :: "nat \<Rightarrow> 'v mm_struct option"
  n_pgds :: int
  n_contexts :: int
  ns_count :: "nat \<Rightarrow> int"
  module_count :: "nat \<Rightarrow> int"
  works :: "(mm_work \<times> nat) list"
  alerts :: "mm_alert list"
  default_dump_filter :: "64 word"

record 'v life_env =
  areas :: "'v mm_env"
  init_mm :: nat
  cur_ptr :: task_ptr
  cur_task :: task_struct
  current_user_ns :: nat
  zero_stats :: 'v
  total_vm :: "'v \<Rightarrow> int"
  get_mm_rss :: "int list \<Rightarrow> int"
  MMF_INIT_MASK :: "64 word"
  VM_INIT_DEF_MASK :: "64 word"
  new_descriptor :: "nat option"
  pgd_alloc :: "nat option"
  init_new_context_ok :: bool
  copied_rss :: "int list"
  copied_pgtables :: int
  try_module_get :: bool
  exit_mmap :: "'v mmst \<times> int list \<times> int \<Rightarrow> 'v mmst \<times> int list \<times> int"
  mmdrop :: "nat \<Rightarrow> 'v mw \<Rightarrow> 'v mw option"

definition upd_mm :: "nat \<Rightarrow> ('v mm_struct \<Rightarrow> 'v mm_struct) \<Rightarrow> 'v mw \<Rightarrow> 'v mw" where
  "upd_mm a f w = w\<lparr>mms := (mms w)(a := map_option f (mms w a))\<rparr>"

text \<open>The part of a descriptor that \<open>Dup_Mmap\<close> works on, taken out and put back.\<close>

definition mm_view :: "'v mm_struct \<Rightarrow> 'v mw \<Rightarrow> 'v mmst" where
  "mm_view m w = (kern w)\<lparr>child := mmap m, map_count := mm_map_count m, vm_stats := mm_stats m, exe_file := mm_exe_file m\<rparr>"

definition store_view :: "nat \<Rightarrow> 'v mmst \<Rightarrow> 'v mw \<Rightarrow> 'v mw" where
  "store_view a s w = upd_mm a (\<lambda>m. m\<lparr>mmap := child s, mm_map_count := map_count s, mm_stats := vm_stats s,
     mm_exe_file := exe_file s\<rparr>) (w\<lparr>kern := s\<rparr>)"

section \<open>Freeing\<close>

definition free_mm :: "nat \<Rightarrow> 'v mw \<Rightarrow> 'v mw option" where
  "free_mm a w = do { _ \<leftarrow> mms w a; Some (w\<lparr>mms := (mms w)(a := None)\<rparr>) }"

definition mm_alloc_pgd :: "'v life_env \<Rightarrow> nat \<Rightarrow> 'v mw \<Rightarrow> errno option \<times> 'v mw" where
  "mm_alloc_pgd env a w = (
     let w = upd_mm a (\<lambda>m. m\<lparr>pgd := pgd_alloc env\<rparr>) w
     in case pgd_alloc env of None \<Rightarrow> (Some ENOMEM, w) | Some _ \<Rightarrow> (None, w\<lparr>n_pgds := n_pgds w + 1\<rparr>))"

definition mm_free_pgd :: "nat \<Rightarrow> 'v mw \<Rightarrow> 'v mw option" where
  "mm_free_pgd a w = do { m \<leftarrow> mms w a; _ \<leftarrow> pgd m; Some (w\<lparr>n_pgds := n_pgds w - 1\<rparr>) }"

definition resident_page_types :: "string list" where
  "resident_page_types = [''MM_FILEPAGES'', ''MM_ANONPAGES'', ''MM_SWAPENTS'', ''MM_SHMEMPAGES'']"

definition check_mm :: "nat \<Rightarrow> 'v mw \<Rightarrow> 'v mw option" where
  "check_mm a w = do {
     m \<leftarrow> mms w a;
     Some (w\<lparr>alerts := alerts w
       @ map (\<lambda>(n, x). Bad_rss n x) (filter (\<lambda>(n, x). x \<noteq> 0) (zip resident_page_types (rss_stat m)))
       @ (if pgtables_bytes m \<noteq> 0 then [Bad_pgtables (pgtables_bytes m)] else [])\<rparr>) }"

definition warn_on :: "bool \<Rightarrow> 'v mw \<Rightarrow> 'v mw" where
  "warn_on b w = w\<lparr>alerts := alerts w @ (if b then [Warn_current] else [])\<rparr>"

text \<open>\<open>__mmdrop\<close>, the release of the descriptor itself.\<close>

definition mmdrop_final :: "'v life_env \<Rightarrow> nat \<Rightarrow> 'v mw \<Rightarrow> 'v mw option" where
  "mmdrop_final env a w =
    (if a = init_mm env then None
     else do {
       m \<leftarrow> mms w a;
       let w = warn_on (mm (cur_task env) = Some a) w;
       let w = warn_on (active_mm (cur_task env) = Some a) w;
       w \<leftarrow> mm_free_pgd a w;
       let w = w\<lparr>n_contexts := n_contexts w - 1\<rparr>;
       w \<leftarrow> check_mm a w;
       let w = w\<lparr>ns_count := (ns_count w)(user_ns m := ns_count w (user_ns m) - 1)\<rparr>;
       free_mm a w })"

text \<open>\<open>atomic_dec_and_test\<close> on each of the two counts.\<close>

definition dec_count :: "nat \<Rightarrow> 'v mw \<Rightarrow> (bool \<times> 'v mw) option" where
  "dec_count a w = do {
     m \<leftarrow> mms w a;
     if mm_count m \<le> 0 then None
     else Some (mm_count m = 1, upd_mm a (\<lambda>m. m\<lparr>mm_count := mm_count m - 1\<rparr>) w) }"

definition dec_users :: "nat \<Rightarrow> 'v mw \<Rightarrow> (bool \<times> 'v mw) option" where
  "dec_users a w = do {
     m \<leftarrow> mms w a;
     if mm_users m \<le> 0 then None
     else Some (mm_users m = 1, upd_mm a (\<lambda>m. m\<lparr>mm_users := mm_users m - 1\<rparr>) w) }"

text \<open>\<open>INIT_WORK\<close> and \<open>schedule_work\<close> on the one work item of a descriptor.\<close>

definition queue_work :: "mm_work \<Rightarrow> nat \<Rightarrow> 'v mw \<Rightarrow> 'v mw option" where
  "queue_work k a w = (if a \<in> snd ` set (works w) then None else Some (w\<lparr>works := works w @ [(k, a)]\<rparr>))"

definition mmdrop_async :: "nat \<Rightarrow> 'v mw \<Rightarrow> 'v mw option" where
  "mmdrop_async a w = do { (z, w) \<leftarrow> dec_count a w; if z then queue_work Mmdrop_work a w else Some w }"

text \<open>\<open>__mmput\<close>, the release of the address space.\<close>

definition mmput_final :: "'v life_env \<Rightarrow> nat \<Rightarrow> 'v mw \<Rightarrow> 'v mw option" where
  "mmput_final env a w = do {
     m \<leftarrow> mms w a;
     if mm_users m \<noteq> 0 then None
     else do {
       let (s, rss, pt) = exit_mmap env (mm_view m w, rss_stat m, pgtables_bytes m);
       let s = set_mm_exe_file None s;
       let w = upd_mm a (\<lambda>m. m\<lparr>rss_stat := rss, pgtables_bytes := pt\<rparr>) (store_view a s w);
       let w = (if on_mmlist m then upd_mm a (\<lambda>m. m\<lparr>on_mmlist := False\<rparr>) w else w);
       let w = (case binfmt m of None \<Rightarrow> w
          | Some x \<Rightarrow> w\<lparr>module_count := (module_count w)(x := module_count w x - 1)\<rparr>);
       mmdrop env a w } }"

definition mmput :: "'v life_env \<Rightarrow> nat \<Rightarrow> 'v mw \<Rightarrow> 'v mw option" where
  "mmput env a w = do { (z, w) \<leftarrow> dec_users a w; if z then mmput_final env a w else Some w }"

definition mmput_async :: "nat \<Rightarrow> 'v mw \<Rightarrow> 'v mw option" where
  "mmput_async a w = do { (z, w) \<leftarrow> dec_users a w; if z then queue_work Mmput_work a w else Some w }"

text \<open>The work queue calls \<open>mmput_async_fn\<close> or \<open>mmdrop_async_fn\<close> on its first item.\<close>

definition run_work :: "'v life_env \<Rightarrow> 'v mw \<Rightarrow> 'v mw option" where
  "run_work env w = (case works w of [] \<Rightarrow> None
     | (Mmput_work, a) # ws \<Rightarrow> mmput_final env a (w\<lparr>works := ws\<rparr>)
     | (Mmdrop_work, a) # ws \<Rightarrow> mmdrop_final env a (w\<lparr>works := ws\<rparr>))"

section \<open>Making\<close>

definition coredump_filter_setup :: "64 word \<Rightarrow> nat \<Rightarrow> 64 word \<Rightarrow> 'v mw \<Rightarrow> 'v mw" where
  "coredump_filter_setup parsed MMF_DUMP_FILTER_SHIFT MMF_DUMP_FILTER_MASK w =
     w\<lparr>default_dump_filter := push_bit MMF_DUMP_FILTER_SHIFT parsed AND MMF_DUMP_FILTER_MASK\<rparr>"

definition mm_init_owner :: "task_ptr option \<Rightarrow> 'v mm_struct \<Rightarrow> 'v mm_struct" where
  "mm_init_owner p m = m\<lparr>owner := p\<rparr>"

definition mm_clear_owner :: "task_ptr \<Rightarrow> 'v mm_struct \<Rightarrow> 'v mm_struct" where
  "mm_clear_owner p m = (if owner m = Some p then m\<lparr>owner := None\<rparr> else m)"

text \<open>The assignments of \<open>mm_init\<close> before its first call that can fail.\<close>

definition mm_init_fields :: "task_ptr option \<Rightarrow> 64 word \<times> 64 word \<Rightarrow> 'v mm_struct \<Rightarrow> 'v mm_struct" where
  "mm_init_fields p fl m = (mm_init_owner p (m\<lparr>mmap := [], vmacache_seqnum := 0, mm_users := 1, mm_count := 1,
     on_mmlist := False, core_state := None, pgtables_bytes := 0, mm_map_count := 0, locked_vm := 0, pinned_vm := 0,
     rss_stat := replicate (length resident_page_types) 0\<rparr>))\<lparr>mm_exe_file := None, mm_flags := fst fl, def_flags := snd fl\<rparr>"

definition mm_init :: "'v life_env \<Rightarrow> nat \<Rightarrow> task_ptr option \<Rightarrow> nat \<Rightarrow> 'v mw \<Rightarrow> (nat option \<times> 'v mw) option" where
  "mm_init env a p ns w = do {
     fl \<leftarrow> (case mm (cur_task env) of
         Some c \<Rightarrow> map_option (\<lambda>cm. (mm_flags cm AND MMF_INIT_MASK env, def_flags cm AND VM_INIT_DEF_MASK env)) (mms w c)
       | None \<Rightarrow> Some (default_dump_filter w, 0));
     _ \<leftarrow> mms w a;
     let w = upd_mm a (mm_init_fields p fl) w;
     case mm_alloc_pgd env a w of
       (Some e, w) \<Rightarrow> do { w \<leftarrow> free_mm a w; Some (None, w) }
     | (None, w) \<Rightarrow>
         if \<not> init_new_context_ok env then do { w \<leftarrow> mm_free_pgd a w; w \<leftarrow> free_mm a w; Some (None, w) }
         else Some (Some a, (upd_mm a (\<lambda>m. m\<lparr>user_ns := ns\<rparr>) w)\<lparr>n_contexts := n_contexts w + 1,
                ns_count := (ns_count w)(ns := ns_count w ns + 1)\<rparr>) }"

definition zero_mm :: "'v life_env \<Rightarrow> 'v mm_struct" where
  "zero_mm env = \<lparr>mmap = [], vmacache_seqnum = 0, mm_map_count = 0, mm_stats = zero_stats env, mm_exe_file = None, mm_users = 0,
     mm_count = 0, on_mmlist = False, core_state = None, pgtables_bytes = 0, locked_vm = 0, pinned_vm = 0, rss_stat = [0, 0, 0, 0],
     owner = None, mm_flags = 0, def_flags = 0, pgd = None, user_ns = 0, binfmt = None, hiwater_rss = 0, hiwater_vm = 0\<rparr>"

definition mm_alloc :: "'v life_env \<Rightarrow> 'v mw \<Rightarrow> (nat option \<times> 'v mw) option" where
  "mm_alloc env w = (case new_descriptor env of None \<Rightarrow> Some (None, w)
     | Some a \<Rightarrow> mm_init env a (Some (cur_ptr env)) (current_user_ns env) (w\<lparr>mms := (mms w)(a \<mapsto> zero_mm env)\<rparr>))"

text \<open>\<open>dup_mm\<close>, with its label \<open>free_pt\<close>. \<open>copied_rss\<close> and \<open>copied_pgtables\<close> are what \<open>copy_page_range\<close> has counted.\<close>

definition free_pt :: "'v life_env \<Rightarrow> nat \<Rightarrow> 'v mw \<Rightarrow> (nat option \<times> 'v mw) option" where
  "free_pt env a w = do {
     w \<leftarrow> mmput env a (upd_mm a (\<lambda>m. mm_init_owner None (m\<lparr>binfmt := None\<rparr>)) w);
     Some (None, w) }"

definition dup_mm :: "'v life_env \<Rightarrow> task_ptr \<Rightarrow> nat \<Rightarrow> 'v mw \<Rightarrow> (nat option \<times> 'v mw) option" where
  "dup_mm env tsk oldmm w = (case new_descriptor env of None \<Rightarrow> Some (None, w)
     | Some a \<Rightarrow> do {
         old \<leftarrow> mms w oldmm;
         (r, w) \<leftarrow> mm_init env a (Some tsk) (user_ns old) (w\<lparr>mms := (mms w)(a \<mapsto> old)\<rparr>);
         if r = None then Some (None, w)
         else do {
           m \<leftarrow> mms w a;
           (err, s) \<leftarrow> dup_mmap (areas env) a
              \<lparr>old_mmap = mmap old, old_stats = mm_stats old, old_exe_file = mm_exe_file old\<rparr> (mm_view m w);
           let w = upd_mm a (\<lambda>m. m\<lparr>rss_stat := copied_rss env, pgtables_bytes := copied_pgtables env\<rparr>) (store_view a s w);
           if err \<noteq> None then free_pt env a w
           else do {
             let w = upd_mm a (\<lambda>m. m\<lparr>hiwater_rss := get_mm_rss env (rss_stat m), hiwater_vm := total_vm env (mm_stats m)\<rparr>) w;
             case binfmt old of None \<Rightarrow> Some (Some a, w)
             | Some x \<Rightarrow>
                 if try_module_get env
                 then Some (Some a, w\<lparr>module_count := (module_count w)(x := module_count w x + 1)\<rparr>)
                 else free_pt env a w } } })"

definition get_task_exe_file :: "task_struct \<Rightarrow> 'v mw \<Rightarrow> (nat option \<times> 'v mw) option" where
  "get_task_exe_file task w = (case mm task of None \<Rightarrow> Some (None, w)
     | Some a \<Rightarrow>
         if flags task AND PF_KTHREAD \<noteq> 0 then Some (None, w)
         else do {
           m \<leftarrow> mms w a;
           let (f, s) = get_mm_exe_file (mm_exe_file m) (kern w);
           Some (f, w\<lparr>kern := s\<rparr>) })"

section \<open>What a descriptor owns\<close>

datatype mm_res = File nat | Denial nat | Sharing nat | Committed | Area | Policy | Pgd | Context | Ns nat | Module nat

fun level :: "'v mw \<Rightarrow> mm_res \<Rightarrow> int" where
  "level w (File f) = f_count (kern w) f"
| "level w (Denial n) = i_writecount (kern w) n"
| "level w (Sharing n) = i_mmap_writable (kern w) n"
| "level w Committed = committed (kern w)"
| "level w Area = n_areas (kern w)"
| "level w Policy = n_policies (kern w)"
| "level w Pgd = n_pgds w"
| "level w Context = n_contexts w"
| "level w (Ns n) = ns_count w n"
| "level w (Module x) = module_count w x"

text \<open>
  The share of a descriptor. The module is held only while the address space is in use
  (\<open>act\<close>): \<open>__mmput\<close> gives it back and leaves the pointer.
\<close>

fun owns :: "'v mm_env \<Rightarrow> bool \<Rightarrow> 'v mm_struct \<Rightarrow> mm_res \<Rightarrow> int" where
  "owns g act m (File f) = users_of f (mmap m) + (if mm_exe_file m = Some f then 1 else 0)"
| "owns g act m (Denial n) = - denials g n (mmap m)"
| "owns g act m (Sharing n) = sharers g n (mmap m)"
| "owns g act m Committed = charges g (mmap m)"
| "owns g act m Area = int (length (mmap m))"
| "owns g act m Policy = int (length (mmap m))"
| "owns g act m Pgd = 1"
| "owns g act m Context = 1"
| "owns g act m (Ns n) = (if user_ns m = n then 1 else 0)"
| "owns g act m (Module x) = (if act \<and> binfmt m = Some x then 1 else 0)"

definition share :: "'v mm_env \<Rightarrow> bool \<Rightarrow> 'v mm_struct option \<Rightarrow> mm_res \<Rightarrow> int" where
  "share g act x r = (case x of None \<Rightarrow> 0 | Some m \<Rightarrow> owns g act m r)"

definition owned :: "'v mm_env \<Rightarrow> nat set \<Rightarrow> (nat \<Rightarrow> 'v mm_struct option) \<Rightarrow> mm_res \<Rightarrow> int" where
  "owned g A h r = (\<Sum>a\<in>dom h. share g (a \<in> A) (h a) r)"

lemma share_simps [simp]: "share g act None r = 0" "share g act (Some m) r = owns g act m r"
  by (simp_all add: share_def)

lemma owned_upd:
  assumes "finite (dom h)" "\<And>b. b \<noteq> a \<Longrightarrow> b \<in> A' \<longleftrightarrow> b \<in> A"
  shows "owned g A' (h(a := x)) r = owned g A h r - share g (a \<in> A) (h a) r + share g (a \<in> A') x r"
proof -
  let ?F = "insert a (dom h)"
  have ext: "owned g B k r = (\<Sum>b\<in>?F. share g (b \<in> B) (k b) r)" if "dom k \<subseteq> ?F" for B k
    unfolding owned_def using that assms(1) by (intro sum.mono_neutral_left) (auto simp: domIff)
  have "owned g A' (h(a := x)) r = share g (a \<in> A') x r + (\<Sum>b\<in>dom h - {a}. share g (b \<in> A') ((h(a := x)) b) r)"
    using assms(1) by (subst ext) (auto simp: sum.insert_remove split: if_splits)
  also have "(\<Sum>b\<in>dom h - {a}. share g (b \<in> A') ((h(a := x)) b) r) = (\<Sum>b\<in>dom h - {a}. share g (b \<in> A) (h b) r)"
    using assms(2) by (intro sum.cong) auto
  also have "\<dots> = owned g A h r - share g (a \<in> A) (h a) r"
    using assms(1) by (subst ext) (auto simp: sum.insert_remove)
  finally show ?thesis by (simp add: fun_upd_def)
qed

section \<open>The invariant\<close>

text \<open>
  \<open>hu\<close> and \<open>hc\<close> count the references that the rest of the kernel holds: to the address space and
  to the descriptor. \<open>A\<close> are the descriptors whose address space is not yet released; all of
  its users together hold one reference to the descriptor. \<open>D\<close> are those that wait to be freed.
\<close>

definition quiet :: "'v mm_struct \<Rightarrow> bool" where
  "quiet m \<longleftrightarrow> mmap m = [] \<and> mm_exe_file m = None \<and> list_all (\<lambda>x. x = 0) (rss_stat m) \<and> pgtables_bytes m = 0"

definition desc_ok ::
  "nat set \<Rightarrow> nat set \<Rightarrow> (nat \<Rightarrow> nat) \<Rightarrow> (nat \<Rightarrow> nat) \<Rightarrow> nat \<Rightarrow> 'v mm_struct option \<Rightarrow> bool" where
  "desc_ok A D hu hc a x = (case x of
     None \<Rightarrow> hu a = 0 \<and> hc a = 0 \<and> a \<notin> A \<and> a \<notin> D
   | Some m \<Rightarrow> mm_users m = int (hu a) \<and> mm_count m = int (hc a) + (if a \<in> A then 1 else 0) \<and> (0 < hu a \<longrightarrow> a \<in> A) \<and>
       (a \<notin> A \<longrightarrow> quiet m) \<and> (a \<in> D \<longleftrightarrow> mm_count m = 0) \<and> pgd m \<noteq> None)"

definition life_inv ::
  "'v life_env \<Rightarrow> (mm_res \<Rightarrow> int) \<Rightarrow> nat set \<Rightarrow> nat set \<Rightarrow> (nat \<Rightarrow> nat) \<Rightarrow> (nat \<Rightarrow> nat) \<Rightarrow> 'v mw \<Rightarrow> bool" where
  "life_inv g base A D hu hc w \<longleftrightarrow> finite (dom (mms w)) \<and> mms w (init_mm g) = None \<and>
     (\<forall>a. desc_ok A D hu hc a (mms w a)) \<and> (\<forall>r. level w r = base r + owned (areas g) A (mms w) r) \<and>
     set (alerts w) \<subseteq> {Warn_current}"

text \<open>What is assumed of \<open>exit_mmap\<close> and \<open>mmdrop\<close>.\<close>

definition unmaps :: "'v mm_env \<Rightarrow> 'v mmst \<times> int list \<times> int \<Rightarrow> 'v mmst \<times> int list \<times> int \<Rightarrow> bool" where
  "unmaps g = (\<lambda>(s, rss, pt) (s', rss', pt'). child s' = [] \<and> exe_file s' = exe_file s \<and>
     (\<forall>f. f_count s' f = f_count s f - users_of f (child s)) \<and>
     (\<forall>n. i_writecount s' n = i_writecount s n + denials g n (child s)) \<and>
     (\<forall>n. i_mmap_writable s' n = i_mmap_writable s n - sharers g n (child s)) \<and>
     committed s' = committed s - charges g (child s) \<and>
     n_areas s' = n_areas s - int (length (child s)) \<and> n_policies s' = n_policies s - int (length (child s)) \<and>
     list_all (\<lambda>x. x = 0) rss' \<and> pt' = 0)"

definition drops :: "'v life_env \<Rightarrow> bool" where
  "drops env \<longleftrightarrow> (\<forall>a w. mmdrop env a w =
     (case dec_count a w of None \<Rightarrow> None | Some (z, w) \<Rightarrow> if z then mmdrop_final env a w else Some w))"

definition env_ok :: "'v life_env \<Rightarrow> 'v life_env \<Rightarrow> bool" where
  "env_ok g env \<longleftrightarrow> init_mm env = init_mm g \<and> vma_pages (areas env) = vma_pages (areas g) \<and>
     file_inode (areas env) = file_inode (areas g) \<and> f_mapping (areas env) = f_mapping (areas g) \<and>
     (\<forall>x. unmaps (areas g) x (exit_mmap env x)) \<and> drops env"

lemma life_invD:
  assumes "life_inv g base A D hu hc w"
  shows "finite (dom (mms w))" "mms w (init_mm g) = None" "desc_ok A D hu hc a (mms w a)"
    "level w r = base r + owned (areas g) A (mms w) r" "set (alerts w) \<subseteq> {Warn_current}"
  using assms by (auto simp: life_inv_def)

text \<open>
  The one proof obligation of an operation on the descriptor \<open>a\<close>: its own part of the
  invariant, and that each level has moved with the descriptor's share.
\<close>

lemma life_inv_change:
  assumes inv: "life_inv g base A D hu hc w"
    and heap: "mms w' = (mms w)(a := x)"
    and off: "\<And>b. b \<noteq> a \<Longrightarrow> (b \<in> A' \<longleftrightarrow> b \<in> A) \<and> (b \<in> D' \<longleftrightarrow> b \<in> D) \<and> hu' b = hu b \<and> hc' b = hc b"
    and on: "desc_ok A' D' hu' hc' a x" "x \<noteq> None \<Longrightarrow> a \<noteq> init_mm g"
    and lev: "\<And>r. level w' r = level w r - share (areas g) (a \<in> A) (mms w a) r + share (areas g) (a \<in> A') x r"
    and al: "set (alerts w') \<subseteq> {Warn_current}"
  shows "life_inv g base A' D' hu' hc' w'"
  unfolding life_inv_def
proof (intro conjI allI)
  note I = life_invD [OF inv]
  show "finite (dom (mms w'))" using I(1) by (simp add: heap)
  show "mms w' (init_mm g) = None" using I(2) on(2) by (cases x) (auto simp: heap)
  show "desc_ok A' D' hu' hc' b (mms w' b)" for b
  proof (cases "b = a")
    case True then show ?thesis using on(1) by (simp add: heap)
  next
    case False
    with off [of b] I(3) [of b] show ?thesis by (cases "mms w b") (auto simp: desc_ok_def heap)
  qed
  show "level w' r = base r + owned (areas g) A' (mms w') r" for r
    using off by (simp add: heap lev I(4) owned_upd [OF I(1), of a A' A])
  show "set (alerts w') \<subseteq> {Warn_current}" by (rule al)
qed

section \<open>Each operation keeps it\<close>

lemma level_upd_mm [simp]: "level (upd_mm a f w) r = level w r"
  by (cases r) (simp_all add: upd_mm_def)

lemma upd_mm_simps [simp]:
  "mms (upd_mm a f w) = (mms w)(a := map_option f (mms w a))" "works (upd_mm a f w) = works w"
  "alerts (upd_mm a f w) = alerts w" "kern (upd_mm a f w) = kern w" "n_pgds (upd_mm a f w) = n_pgds w"
  "n_contexts (upd_mm a f w) = n_contexts w" "ns_count (upd_mm a f w) = ns_count w"
  "module_count (upd_mm a f w) = module_count w" "default_dump_filter (upd_mm a f w) = default_dump_filter w"
  by (simp_all add: upd_mm_def)

lemma level_works [simp]: "level (w\<lparr>works := q\<rparr>) r = level w r"
  by (cases r) simp_all

lemma life_inv_works [simp]: "life_inv g base A D hu hc (w\<lparr>works := q\<rparr>) = life_inv g base A D hu hc w"
  by (simp add: life_inv_def)

text \<open>A change of the counts alone.\<close>

lemma life_inv_counts:
  assumes "life_inv g base A D hu hc w" "mms w a = Some m"
    and "\<And>b. b \<noteq> a \<Longrightarrow> (b \<in> D' \<longleftrightarrow> b \<in> D) \<and> hu' b = hu b \<and> hc' b = hc b"
    and "desc_ok A D' hu' hc' a (Some (f m))" "\<And>r. owns (areas g) (a \<in> A) (f m) r = owns (areas g) (a \<in> A) m r"
  shows "life_inv g base A D' hu' hc' (upd_mm a f w)"
proof (rule life_inv_change [OF assms(1), where a = a and x = "Some (f m)"])
  show "a \<noteq> init_mm g" using life_invD(2) [OF assms(1)] assms(2) by auto
  show "level (upd_mm a f w) r = level w r - share (areas g) (a \<in> A) (mms w a) r + share (areas g) (a \<in> A) (Some (f m)) r" for r
    by (simp add: assms(2,5))
  show "set (alerts (upd_mm a f w)) \<subseteq> {Warn_current}" using life_invD(5) [OF assms(1)] by simp
qed (use assms in auto)

lemma owns_counts [simp]:
  "owns g act (m\<lparr>mm_users := i\<rparr>) r = owns g act m r" "owns g act (m\<lparr>mm_count := j\<rparr>) r = owns g act m r"
  by (cases r, simp_all)+

lemma quiet_counts [simp]: "quiet (m\<lparr>mm_users := i\<rparr>) = quiet m" "quiet (m\<lparr>mm_count := i\<rparr>) = quiet m"
  by (simp_all add: quiet_def)

lemma life_inv_live:
  assumes "life_inv g base A D hu hc w" "0 < hu a \<or> 0 < hc a \<or> a \<in> A \<or> a \<in> D"
  obtains m where "mms w a = Some m" "desc_ok A D hu hc a (Some m)" "a \<noteq> init_mm g"
proof -
  from assms(2) life_invD(3) [OF assms(1), of a] obtain m where m: "mms w a = Some m" "desc_ok A D hu hc a (Some m)"
    by (cases "mms w a") (auto simp: desc_ok_def)
  moreover from m(1) life_invD(2) [OF assms(1)] have "a \<noteq> init_mm g" by auto
  ultimately show ?thesis using that by blast
qed

lemma desc_okD:
  assumes "desc_ok A D hu hc a (Some m)"
  shows "mm_users m = int (hu a)" "mm_count m = int (hc a) + (if a \<in> A then 1 else 0)" "0 < hu a \<Longrightarrow> a \<in> A"
    "a \<notin> A \<Longrightarrow> quiet m" "a \<in> D \<longleftrightarrow> mm_count m = 0" "pgd m \<noteq> None"
  using assms by (auto simp: desc_ok_def)

lemma no_bad_alerts:
  assumes "quiet m"
  shows "filter (\<lambda>(n, x). x \<noteq> 0) (zip ns (rss_stat m)) = []"
  using assms by (auto simp: quiet_def list_all_iff filter_empty_conv dest: set_zip_rightD)

lemma mmdrop_final_ok:
  assumes inv: "life_inv g base A D hu hc w" and a: "a \<in> D" and env: "init_mm env = init_mm g"
  shows "\<exists>w'. mmdrop_final env a w = Some w' \<and> works w' = works w \<and> life_inv g base A (D - {a}) hu hc w'"
proof -
  from inv a obtain m where m: "mms w a = Some m" "desc_ok A D hu hc a (Some m)" "a \<noteq> init_mm g"
    by (auto elim: life_inv_live)
  with a have z: "a \<notin> A" "hc a = 0" "hu a = 0" "quiet m" "pgd m \<noteq> None"
    using desc_okD [OF m(2)] by (auto split: if_splits)
  obtain w' where w': "mmdrop_final env a w = Some w'" "works w' = works w" "mms w' = (mms w)(a := None)"
      "set (alerts w') \<subseteq> insert Warn_current (set (alerts w))" "kern w' = kern w" "n_pgds w' = n_pgds w - 1"
      "n_contexts w' = n_contexts w - 1" "ns_count w' = (ns_count w)(user_ns m := ns_count w (user_ns m) - 1)"
      "module_count w' = module_count w"
    using m(1,3) z(4,5) env no_bad_alerts [OF z(4), of resident_page_types]
    by (fastforce simp: mmdrop_final_def warn_on_def mm_free_pgd_def check_mm_def free_mm_def quiet_def Let_def)
  have "life_inv g base A (D - {a}) hu hc w'"
  proof (rule life_inv_change [OF inv w'(3)])
    show "level w' r = level w r - share (areas g) (a \<in> A) (mms w a) r + share (areas g) (a \<in> A) None r" for r
      using w' z m(1) by (cases r) (auto simp: quiet_def)
    show "set (alerts w') \<subseteq> {Warn_current}" using w'(4) life_invD(5) [OF inv] by auto
  qed (use z in \<open>auto simp: desc_ok_def\<close>)
  with w' show ?thesis by blast
qed

lemma dec_count_ok:
  assumes inv: "life_inv g base A D hu hc w" and a: "0 < hc a"
  shows "\<exists>z w'. dec_count a w = Some (z, w') \<and> works w' = works w \<and>
    life_inv g base A (if z then insert a D else D) hu (hc(a := hc a - 1)) w'"
proof -
  from inv a obtain m where m: "mms w a = Some m" "desc_ok A D hu hc a (Some m)" by (auto elim: life_inv_live)
  let ?z = "mm_count m = 1" and ?f = "\<lambda>m. m\<lparr>mm_count := mm_count m - 1\<rparr>"
  have "life_inv g base A (if ?z then insert a D else D) hu (hc(a := hc a - 1)) (upd_mm a ?f w)"
  proof (rule life_inv_counts [OF inv m(1)])
    show "desc_ok A (if ?z then insert a D else D) hu (hc(a := hc a - 1)) a (Some (?f m))"
      using m a by (auto simp: desc_ok_def)
  qed auto
  with m(1) a desc_okD(2) [OF m(2)] show ?thesis by (auto simp: dec_count_def)
qed

lemma mmdrop_ok:
  assumes "life_inv g base A D hu hc w" "0 < hc a" "env_ok g env"
  shows "\<exists>w'. mmdrop env a w = Some w' \<and> works w' = works w \<and> life_inv g base A (D - {a}) hu (hc(a := hc a - 1)) w'"
proof -
  from dec_count_ok [OF assms(1,2)] obtain z w1 where w1: "dec_count a w = Some (z, w1)" "works w1 = works w"
    "life_inv g base A (if z then insert a D else D) hu (hc(a := hc a - 1)) w1" by blast
  have env: "init_mm env = init_mm g" and d: "mmdrop env a w = (if z then mmdrop_final env a w1 else Some w1)"
    using assms(3) w1(1) by (auto simp: env_ok_def drops_def)
  from assms(1,2) obtain m where "mms w a = Some m" "desc_ok A D hu hc a (Some m)" by (auto elim: life_inv_live)
  from desc_okD(2,5) [OF this(2)] assms(2) have "a \<notin> D" by auto
  show ?thesis
  proof (cases z)
    case True
    with mmdrop_final_ok [OF w1(3), of a] env w1(2) d \<open>a \<notin> D\<close> show ?thesis by auto
  next
    case False with w1 d \<open>a \<notin> D\<close> show ?thesis by auto
  qed
qed

lemma set_mm_exe_file_None [simp]:
  "child (set_mm_exe_file None s) = child s" "exe_file (set_mm_exe_file None s) = None"
  "f_count (set_mm_exe_file None s) f = f_count s f - (if exe_file s = Some f then 1 else 0)"
  "i_writecount (set_mm_exe_file None s) = i_writecount s" "i_mmap_writable (set_mm_exe_file None s) = i_mmap_writable s"
  "committed (set_mm_exe_file None s) = committed s" "n_areas (set_mm_exe_file None s) = n_areas s"
  "n_policies (set_mm_exe_file None s) = n_policies s"
  by (simp_all add: set_mm_exe_file_def fput_def Let_def split: option.splits)

text \<open>
  Once the address space is released, the reference of its users is an ordinary one to the
  descriptor, which the final \<open>mmdrop\<close> gives up.
\<close>

lemma mmput_final_ok:
  assumes inv: "life_inv g base A D hu hc w" and a: "a \<in> A" "hu a = 0" and env: "env_ok g env"
  shows "\<exists>w'. mmput_final env a w = Some w' \<and> works w' = works w \<and> life_inv g base (A - {a}) D hu hc w'"
proof -
  from inv a obtain m where m: "mms w a = Some m" "desc_ok A D hu hc a (Some m)" "a \<noteq> init_mm g"
    by (auto elim: life_inv_live)
  from desc_okD [OF m(2)] a have u: "mm_users m = 0" "mm_count m = int (hc a) + 1" "pgd m \<noteq> None" "a \<notin> D" by auto
  obtain s rss pt where x: "exit_mmap env (mm_view m w, rss_stat m, pgtables_bytes m) = (s, rss, pt)" by (metis prod_cases3)
  with env have um: "unmaps (areas g) (mm_view m w, rss_stat m, pgtables_bytes m) (s, rss, pt)"
    unfolding env_ok_def by metis
  let ?s = "set_mm_exe_file None s"
  let ?l = "\<lambda>m. if on_mmlist m then m\<lparr>on_mmlist := False\<rparr> else m"
  let ?m = "?l (m\<lparr>mmap := [], mm_map_count := map_count ?s, mm_stats := vm_stats ?s, mm_exe_file := None,
              rss_stat := rss, pgtables_bytes := pt\<rparr>)"
  obtain w1 where w1: "mmput_final env a w = mmdrop env a w1" "mms w1 = (mms w)(a \<mapsto> ?m)" "kern w1 = ?s"
      "works w1 = works w" "alerts w1 = alerts w" "n_pgds w1 = n_pgds w" "n_contexts w1 = n_contexts w" "ns_count w1 = ns_count w"
      "\<And>x. module_count w1 x = module_count w x - (if binfmt m = Some x then 1 else 0)"
  proof
    let ?w = "(upd_mm a ?l
       (upd_mm a (\<lambda>m. m\<lparr>rss_stat := rss, pgtables_bytes := pt\<rparr>) (store_view a ?s w)))
       \<lparr>module_count := (\<lambda>x. module_count w x - (if binfmt m = Some x then 1 else 0))\<rparr>"
    show "mmput_final env a w = mmdrop env a ?w"
      using m(1) u(1) x
      by (auto simp: mmput_final_def store_view_def upd_mm_def Let_def fun_eq_iff intro!: arg_cong [of _ _ "mmdrop env a"]
          split: option.splits)
    show "mms ?w = (mms w)(a \<mapsto> ?m)"
      using m(1) um by (auto simp: store_view_def unmaps_def)
  qed (simp_all add: store_view_def)
  have "life_inv g base (A - {a}) D hu (hc(a := hc a + 1)) w1"
  proof (rule life_inv_change [OF inv w1(2)])
    show "level w1 r = level w r - share (areas g) (a \<in> A) (mms w a) r + share (areas g) (a \<in> A - {a}) (Some ?m) r" for r
      using m(1) a um w1
      by (cases r) (auto simp: unmaps_def mm_view_def)
    show "desc_ok (A - {a}) D hu (hc(a := hc a + 1)) a (Some ?m)"
      using u a um by (auto simp: desc_ok_def quiet_def unmaps_def)
    show "set (alerts w1) \<subseteq> {Warn_current}" using life_invD(5) [OF inv] w1(5) by simp
  qed (use m(3) in auto)
  from mmdrop_ok [OF this _ env, of a] w1(1,4) u(4) show ?thesis by (auto simp: fun_upd_idem)
qed

lemma dec_users_ok:
  assumes inv: "life_inv g base A D hu hc w" and a: "0 < hu a"
  shows "\<exists>w'. dec_users a w = Some (hu a = 1, w') \<and> works w' = works w \<and> life_inv g base A D (hu(a := hu a - 1)) hc w' \<and> a \<in> A"
proof -
  from inv a obtain m where m: "mms w a = Some m" "desc_ok A D hu hc a (Some m)" by (auto elim: life_inv_live)
  note d = desc_okD [OF m(2)]
  let ?f = "\<lambda>m. m\<lparr>mm_users := mm_users m - 1\<rparr>"
  have "life_inv g base A D (hu(a := hu a - 1)) hc (upd_mm a ?f w)"
  proof (rule life_inv_counts [OF inv m(1)])
    show "desc_ok A D (hu(a := hu a - 1)) hc a (Some (?f m))" using m(2) a by (auto simp: desc_ok_def)
  qed auto
  with m(1) a d(1,3) show ?thesis by (auto simp: dec_users_def)
qed

lemma mmput_ok:
  assumes "life_inv g base A D hu hc w" "0 < hu a" "env_ok g env"
  shows "\<exists>w'. mmput env a w = Some w' \<and> works w' = works w \<and>
    life_inv g base (if hu a = 1 then A - {a} else A) D (hu(a := hu a - 1)) hc w'"
proof -
  from dec_users_ok [OF assms(1,2)] obtain w1 where w1: "dec_users a w = Some (hu a = 1, w1)" "works w1 = works w"
    "life_inv g base A D (hu(a := hu a - 1)) hc w1" "a \<in> A" by blast
  show ?thesis
  proof (cases "hu a = 1")
    case True
    with mmput_final_ok [OF w1(3,4) _ assms(3)] w1(1,2) show ?thesis by (auto simp: mmput_def)
  next
    case False with w1 show ?thesis by (auto simp: mmput_def)
  qed
qed

text \<open>A call of an allocating function: the address it gets is free, and \<open>current\<close> has a live descriptor or none.\<close>

definition call_ok :: "'v life_env \<Rightarrow> 'v mw \<Rightarrow> bool" where
  "call_ok env w \<longleftrightarrow> (\<forall>a. new_descriptor env = Some a \<longrightarrow> mms w a = None \<and> a \<noteq> init_mm env) \<and>
     (\<forall>c. mm (cur_task env) = Some c \<longrightarrow> mms w c \<noteq> None)"

text \<open>What \<open>mm_init\<close> leaves when it succeeds.\<close>

definition initialised :: "'v mw \<Rightarrow> nat \<Rightarrow> nat \<Rightarrow> 'v mm_struct \<Rightarrow> 'v mm_struct \<Rightarrow> 'v mw \<Rightarrow> bool" where
  "initialised w a ns m0 m w' \<longleftrightarrow> mms w' = (mms w)(a \<mapsto> m) \<and> mmap m = [] \<and> mm_map_count m = 0 \<and> mm_exe_file m = None \<and>
     mm_users m = 1 \<and> mm_count m = 1 \<and> pgd m \<noteq> None \<and> user_ns m = ns \<and> binfmt m = binfmt m0 \<and> mm_stats m = mm_stats m0 \<and>
     w' = w\<lparr>mms := mms w', n_pgds := n_pgds w + 1, n_contexts := n_contexts w + 1,
            ns_count := (ns_count w)(ns := ns_count w ns + 1)\<rparr>"

lemma mm_init_cases:
  assumes "mms w a = None" "\<And>c. mm (cur_task env) = Some c \<Longrightarrow> mms w c \<noteq> None"
  shows "mm_init env a p ns (w\<lparr>mms := (mms w)(a \<mapsto> m0)\<rparr>) = Some (None, w) \<or>
    (\<exists>m w'. mm_init env a p ns (w\<lparr>mms := (mms w)(a \<mapsto> m0)\<rparr>) = Some (Some a, w') \<and> initialised w a ns m0 m w')"
proof -
  let ?w = "w\<lparr>mms := (mms w)(a \<mapsto> m0)\<rparr>"
  obtain fl where fl: "(case mm (cur_task env) of
         Some c \<Rightarrow> map_option (\<lambda>cm. (mm_flags cm AND MMF_INIT_MASK env, def_flags cm AND VM_INIT_DEF_MASK env)) (mms ?w c)
       | None \<Rightarrow> Some (default_dump_filter ?w, 0)) = Some fl"
    using assms(2) by (cases "mm (cur_task env)") (fastforce split: if_splits)+
  have same: "(mms w)(a := None) = mms w" using assms(1) by auto
  note defs = mm_init_def fl mm_alloc_pgd_def mm_free_pgd_def free_mm_def upd_mm_def same mm_init_fields_def mm_init_owner_def Let_def
  show ?thesis
  proof (cases "pgd_alloc env \<noteq> None \<and> init_new_context_ok env")
    case True
    let ?m = "(mm_init_fields p fl m0)\<lparr>pgd := pgd_alloc env, user_ns := ns\<rparr>"
    from True obtain w' where "mm_init env a p ns ?w = Some (Some a, w')" "initialised w a ns m0 ?m w'"
      by (auto simp: defs initialised_def)
    then show ?thesis by blast
  next
    case False
    then show ?thesis by (cases "pgd_alloc env") (auto simp: defs)
  qed
qed

text \<open>A descriptor that has just been filled in, whatever \<open>dup_mmap\<close> has put into it.\<close>

lemma life_inv_new:
  assumes inv: "life_inv g base A D hu hc w" and a: "mms w a = None" "a \<noteq> init_mm g"
    and heap: "mms w' = (mms w)(a \<mapsto> m)" and m: "mm_users m = 1" "mm_count m = 1" "pgd m \<noteq> None"
    and lev: "\<And>r. level w' r = level w r + owns (areas g) True m r" and al: "alerts w' = alerts w"
  shows "life_inv g base (insert a A) D (hu(a := 1)) hc w'"
proof (rule life_inv_change [OF inv heap])
  have o: "hu a = 0" "hc a = 0" "a \<notin> A" "a \<notin> D" using life_invD(3) [OF inv, of a] a(1) by (auto simp: desc_ok_def)
  show "desc_ok (insert a A) D (hu(a := 1)) hc a (Some m)" using m o by (auto simp: desc_ok_def)
  show "level w' r = level w r - share (areas g) (a \<in> A) (mms w a) r + share (areas g) (a \<in> insert a A) (Some m) r" for r
    using lev a by simp
  show "set (alerts w') \<subseteq> {Warn_current}" using life_invD(5) [OF inv] al by simp
qed (use a in auto)

lemma level_initialised:
  assumes "initialised w a ns m0 m w'" "binfmt m0 = None"
  shows "level w' r = level w r + owns g True m r" "alerts w' = alerts w" "works w' = works w"
  using assms by (cases r, auto simp: initialised_def)

lemma mm_alloc_ok:
  assumes inv: "life_inv g base A D hu hc w" and env: "env_ok g env" and call: "call_ok env w"
  shows "mm_alloc env w = Some (None, w) \<or> (\<exists>a w'. mm_alloc env w = Some (Some a, w') \<and> new_descriptor env = Some a \<and>
    works w' = works w \<and> life_inv g base (insert a A) D (hu(a := 1)) hc w')"
proof (cases "new_descriptor env")
  case None then show ?thesis by (simp add: mm_alloc_def)
next
  case (Some a)
  let ?r = "mm_init env a (Some (cur_ptr env)) (current_user_ns env) (w\<lparr>mms := (mms w)(a \<mapsto> zero_mm env)\<rparr>)"
  from Some call env have a: "mms w a = None" "a \<noteq> init_mm g" and c: "\<And>c. mm (cur_task env) = Some c \<Longrightarrow> mms w c \<noteq> None"
    by (auto simp: call_ok_def env_ok_def)
  have e: "mm_alloc env w = ?r" using Some by (simp add: mm_alloc_def)
  from mm_init_cases [OF a(1) c] consider "?r = Some (None, w)"
    | m w' where "?r = Some (Some a, w')" "initialised w a (current_user_ns env) (zero_mm env) m w'" by blast
  then show ?thesis
  proof cases
    case 1 then show ?thesis using e by simp
  next
    case (2 m w')
    have "binfmt (zero_mm env) = None" by (simp add: zero_mm_def)
    note i = level_initialised [OF 2(2) this]
    have "life_inv g base (insert a A) D (hu(a := 1)) hc w'"
      using 2(2) by (intro life_inv_new [OF inv a, of w' m] i) (auto simp: initialised_def)
    with 2(1) i(3) e Some show ?thesis by auto
  qed
qed

lemma geometry:
  assumes "env_ok g env"
  shows "denials (areas env) = denials (areas g)" "sharers (areas env) = sharers (areas g)"
    "charges (areas env) = charges (areas g)"
  by (intro ext; use assms in \<open>simp add: env_ok_def denials_def sharers_def charges_def cong: if_cong\<close>)+

text \<open>The state in which \<open>dup_mm\<close> leaves \<open>dup_mmap\<close>: all is in order but for the module, not yet held.\<close>

lemma dup_filled:
  assumes inv: "life_inv g base A D hu hc w" and a: "mms w a = None" "a \<noteq> init_mm g" and env: "env_ok g env"
    and i: "initialised w a ns m0 m w1" and acc: "accounted (areas env) (mm_view m w1) s"
    and w2: "w2 = upd_mm a (\<lambda>m. m\<lparr>rss_stat := rss, pgtables_bytes := pt\<rparr>) (store_view a s w1)"
  shows "works w2 = works w"
    "life_inv g base (insert a A) D (hu(a := 1)) hc (upd_mm a (\<lambda>m. mm_init_owner p (m\<lparr>binfmt := None\<rparr>)) w2)"
    "module_count w2 = module_count w" "\<exists>m2. mms w2 a = Some m2 \<and> binfmt m2 = binfmt m0 \<and> mmap m2 = child s \<and> mm_exe_file m2 = exe_file s \<and>
       mm_stats m2 = vm_stats s \<and> user_ns m2 = ns \<and> mm_users m2 = 1 \<and> mm_count m2 = 1"
proof -
  from i have w1: "w1 = w\<lparr>mms := (mms w)(a \<mapsto> m), n_pgds := n_pgds w + 1, n_contexts := n_contexts w + 1,
      ns_count := (ns_count w)(ns := ns_count w ns + 1)\<rparr>" by (auto simp: initialised_def)
  let ?m = "m\<lparr>mmap := child s, mm_map_count := map_count s, mm_stats := vm_stats s, mm_exe_file := exe_file s,
     rss_stat := rss, pgtables_bytes := pt\<rparr>"
  have h: "mms w2 = (mms w)(a \<mapsto> ?m)" by (simp add: w2 store_view_def w1)
  show "works w2 = works w" "module_count w2 = module_count w" by (simp_all add: w2 store_view_def w1)
  show "\<exists>m2. mms w2 a = Some m2 \<and> binfmt m2 = binfmt m0 \<and> mmap m2 = child s \<and> mm_exe_file m2 = exe_file s \<and>
       mm_stats m2 = vm_stats s \<and> user_ns m2 = ns \<and> mm_users m2 = 1 \<and> mm_count m2 = 1"
    using h i by (simp add: initialised_def)
  show "life_inv g base (insert a A) D (hu(a := 1)) hc (upd_mm a (\<lambda>m. mm_init_owner p (m\<lparr>binfmt := None\<rparr>)) w2)"
  proof (rule life_inv_new [OF inv a, where m = "mm_init_owner p (?m\<lparr>binfmt := None\<rparr>)"])
    show "level (upd_mm a (\<lambda>m. mm_init_owner p (m\<lparr>binfmt := None\<rparr>)) w2) r =
        level w r + owns (areas g) True (mm_init_owner p (?m\<lparr>binfmt := None\<rparr>)) r" for r
      using acc i geometry [OF env]
      by (cases r) (auto simp: w2 store_view_def w1 accounted_def mm_view_def mm_init_owner_def initialised_def)
  qed (use h i in \<open>auto simp: initialised_def mm_init_owner_def w2 store_view_def w1\<close>)
qed

lemma free_pt_ok:
  assumes "life_inv g base (insert a A) D (hu(a := 1)) hc (upd_mm a (\<lambda>m. mm_init_owner None (m\<lparr>binfmt := None\<rparr>)) w)"
    and "env_ok g env" "a \<notin> A" "hu a = 0"
  shows "\<exists>w'. free_pt env a w = Some (None, w') \<and> works w' = works w \<and> life_inv g base A D hu hc w'"
proof -
  from mmput_ok [OF assms(1) _ assms(2), of a] obtain w' where
    "mmput env a (upd_mm a (\<lambda>m. mm_init_owner None (m\<lparr>binfmt := None\<rparr>)) w) = Some w'" "works w' = works w"
    "life_inv g base (insert a A - {a}) D (hu(a := 0)) hc w'" by auto
  with assms(3,4) show ?thesis by (auto simp: free_pt_def fun_upd_idem)
qed

text \<open>Taking the module completes the descriptor.\<close>

lemma life_inv_module:
  assumes inv: "life_inv g base (insert a A) D hu hc (upd_mm a (\<lambda>m. mm_init_owner p (m\<lparr>binfmt := None\<rparr>)) w)"
    and m: "mms w a = Some m" "binfmt m = b"
  shows "life_inv g base (insert a A) D hu hc
    (w\<lparr>module_count := (\<lambda>x. module_count w x + (if b = Some x then 1 else 0))\<rparr>)"
proof (rule life_inv_change [OF inv, where a = a and x = "Some m"])
  let ?m = "mm_init_owner p (m\<lparr>binfmt := None\<rparr>)"
  have "desc_ok (insert a A) D hu hc a (Some ?m)" using life_invD(3) [OF inv, of a] m by simp
  then show "desc_ok (insert a A) D hu hc a (Some m)" by (auto simp: desc_ok_def mm_init_owner_def quiet_def)
  show "a \<noteq> init_mm g" using life_invD(2) [OF inv] m by auto
  show "level (w\<lparr>module_count := (\<lambda>x. module_count w x + (if b = Some x then 1 else 0))\<rparr>) r =
      level (upd_mm a (\<lambda>m. mm_init_owner p (m\<lparr>binfmt := None\<rparr>)) w) r -
      share (areas g) (a \<in> insert a A) (mms (upd_mm a (\<lambda>m. mm_init_owner p (m\<lparr>binfmt := None\<rparr>)) w) a) r +
      share (areas g) (a \<in> insert a A) (Some m) r" for r
    using m by (cases r) (auto simp: mm_init_owner_def)
  show "set (alerts (w\<lparr>module_count := (\<lambda>x. module_count w x + (if b = Some x then 1 else 0))\<rparr>)) \<subseteq> {Warn_current}"
    using life_invD(5) [OF inv] by simp
qed (use m in auto)

lemma life_inv_hiwater:
  assumes inv: "life_inv g base A D hu hc (upd_mm a (\<lambda>m. mm_init_owner p (m\<lparr>binfmt := None\<rparr>)) w)"
  shows "life_inv g base A D hu hc (upd_mm a (\<lambda>m. mm_init_owner p (m\<lparr>binfmt := None\<rparr>))
    (upd_mm a (\<lambda>m. m\<lparr>hiwater_rss := f (rss_stat m), hiwater_vm := h (mm_stats m)\<rparr>) w))"
proof (cases "mms w a")
  case None
  then have "upd_mm a (\<lambda>m. m\<lparr>hiwater_rss := f (rss_stat m), hiwater_vm := h (mm_stats m)\<rparr>) w = w" by (simp add: upd_mm_def fun_upd_idem)
  with inv show ?thesis by simp
next
  case (Some m)
  let ?o = "\<lambda>m. mm_init_owner p (m\<lparr>binfmt := None\<rparr>)"
    and ?h = "\<lambda>m. m\<lparr>hiwater_rss := f (rss_stat m), hiwater_vm := h (mm_stats m)\<rparr>"
  have "life_inv g base A D hu hc (upd_mm a ?h (upd_mm a ?o w))"
  proof (rule life_inv_counts [OF inv, where m = "?o m"])
    have "desc_ok A D hu hc a (Some (?o m))" using life_invD(3) [OF inv, of a] Some by simp
    then show "desc_ok A D hu hc a (Some (?h (?o m)))" by (simp add: desc_ok_def quiet_def)
    show "owns (areas g) (a \<in> A) (?h (?o m)) r = owns (areas g) (a \<in> A) (?o m) r" for r by (cases r) simp_all
  qed (simp_all add: Some)
  moreover have "?h (?o m) = ?o (?h m)" by (cases m) (simp add: mm_init_owner_def)
  ultimately show ?thesis using Some by (simp add: upd_mm_def)
qed

text \<open>The copy of a descriptor.\<close>

definition is_dup :: "'v mm_env \<Rightarrow> (nat \<Rightarrow> int) \<Rightarrow> nat \<Rightarrow> 'v mm_struct \<Rightarrow> 'v mm_struct \<Rightarrow> bool" where
  "is_dup e refs a old m \<longleftrightarrow> list_all2 (is_copy a) (filter copied (mmap old)) (mmap m) \<and>
     mm_stats m = stats_after e (mmap old) (mm_stats old) \<and> user_ns m = user_ns old \<and> binfmt m = binfmt old \<and>
     mm_exe_file m = live_file refs (mm_exe_file old) \<and>
     mm_users m = 1 \<and> mm_count m = 1"

lemma dup_mm_ok:
  assumes inv: "life_inv g base A D hu hc w" and env: "env_ok g env" and call: "call_ok env w" and old: "mms w oldmm = Some old"
  shows "\<exists>r w'. dup_mm env tsk oldmm w = Some (r, w') \<and> works w' = works w \<and>
    (case r of None \<Rightarrow> life_inv g base A D hu hc w'
     | Some a \<Rightarrow> new_descriptor env = Some a \<and> life_inv g base (insert a A) D (hu(a := 1)) hc w' \<and>
         (\<exists>m. mms w' a = Some m \<and> is_dup (areas env) (f_count (kern w)) a old m))"
proof (cases "new_descriptor env")
  case None then show ?thesis using inv by (simp add: dup_mm_def)
next
  case (Some a)
  from Some call env have a: "mms w a = None" "a \<noteq> init_mm g" and c: "\<And>c. mm (cur_task env) = Some c \<Longrightarrow> mms w c \<noteq> None"
    by (auto simp: call_ok_def env_ok_def)
  have fresh: "a \<notin> A" "hu a = 0" using life_invD(3) [OF inv, of a] a(1) by (auto simp: desc_ok_def)
  let ?r = "mm_init env a (Some tsk) (user_ns old) (w\<lparr>mms := (mms w)(a \<mapsto> old)\<rparr>)"
  from mm_init_cases [OF a(1) c] consider "?r = Some (None, w)"
    | m w1 where "?r = Some (Some a, w1)" "initialised w a (user_ns old) old m w1" by blast
  then show ?thesis
  proof cases
    case 1 then show ?thesis using Some inv old by (simp add: dup_mm_def)
  next
    case (2 m w1)
    let ?old = "\<lparr>old_mmap = mmap old, old_stats = mm_stats old, old_exe_file = mm_exe_file old\<rparr>"
    from 2(2) have m: "mms w1 a = Some m" "fresh_mm (mm_view m w1)" by (auto simp: initialised_def fresh_mm_def mm_view_def)
    from dup_mmap_ok [OF m(2), of "areas env" a ?old] obtain err s where
      s: "dup_mmap (areas env) a ?old (mm_view m w1) = Some (err, s)" "accounted (areas env) (mm_view m w1) s"
        "list_all2 (is_copy a) (take (length (child s)) (filter copied (mmap old))) (child s)"
        "err = None \<Longrightarrow> length (child s) = length (filter copied (mmap old)) \<and> vm_stats s = stats_after (areas env) (mmap old) (mm_stats old) \<and>
          exe_file s = live_file (f_count (mm_view m w1)) (mm_exe_file old)"
      by (auto split: if_splits)
    define w2 where "w2 = upd_mm a (\<lambda>m. m\<lparr>rss_stat := copied_rss env, pgtables_bytes := copied_pgtables env\<rparr>) (store_view a s w1)"
    define w3 where "w3 = upd_mm a (\<lambda>m. m\<lparr>hiwater_rss := get_mm_rss env (rss_stat m), hiwater_vm := total_vm env (mm_stats m)\<rparr>) w2"
    note f = dup_filled [OF inv a env 2(2) s(2) w2_def]
    from f(4) obtain m3 where m3: "mms w3 a = Some m3" "binfmt m3 = binfmt old" and md: "mmap m3 = child s" "mm_stats m3 = vm_stats s" "mm_exe_file m3 = exe_file s"
      "user_ns m3 = user_ns old" "mm_users m3 = 1" "mm_count m3 = 1" by (auto simp: w3_def)
    note inv3 = life_inv_hiwater [OF f(2), where f = "get_mm_rss env" and h = "total_vm env", folded w3_def]
    have w: "works w3 = works w" using f(1) by (simp add: w3_def)
    from 2(2) have "w1 = w\<lparr>mms := (mms w)(a \<mapsto> m), n_pgds := n_pgds w + 1, n_contexts := n_contexts w + 1,
        ns_count := (ns_count w)(user_ns old := ns_count w (user_ns old) + 1)\<rparr>" by (auto simp: initialised_def)
    then have k: "f_count (mm_view m w1) = f_count (kern w)" by (simp add: mm_view_def)
    have e: "dup_mm env tsk oldmm w = (if err \<noteq> None then free_pt env a w2
       else case binfmt old of None \<Rightarrow> Some (Some a, w3)
        | Some x \<Rightarrow> if try_module_get env then Some (Some a, w3\<lparr>module_count := (module_count w3)(x := module_count w3 x + 1)\<rparr>)
            else free_pt env a w3)"
      using Some old 2(1) m(1) s(1) by (simp add: dup_mm_def w2_def [symmetric] w3_def [symmetric] Let_def split: option.split)
    show ?thesis
    proof (cases "err = None")
      case False
      with free_pt_ok [OF f(2) env fresh] f(1) e show ?thesis by auto
    next
      case True
      have "(module_count w3)(x := module_count w3 x + 1) = (\<lambda>y. module_count w3 y + (if Some x = Some y then 1 else 0))" for x
        by auto
      moreover have "is_dup (areas env) (f_count (kern w)) a old m3" using True s(3,4) k m3(2) md by (simp add: is_dup_def)
      ultimately show ?thesis using m3(1) life_inv_module [OF inv3 m3] free_pt_ok [OF inv3 env fresh] w e True Some
        by (cases "binfmt old"; cases "try_module_get env") auto
    qed
  qed
qed

section \<open>The rest of the kernel as a user\<close>

text \<open>
  A state is the memory with the two ledgers of references held. References are taken by
  the two making functions, with \<open>mmget\<close> and \<open>mmgrab\<close> by one who has a reference, and given
  back with the four releasing functions; the work queue runs at any time. A user of an
  address space sets its executable file with \<open>set_mm_exe_file\<close>, and has code outside this file
  work on it: map and unmap areas, fault pages in, and set the binary format at \<open>execve\<close>. Of
  that code it is assumed that it keeps its books, that is, takes or gives back what the
  descriptor owns more or less afterwards, and leaves the counts and the page directory.
  Every step may have its own answers \<open>env\<close> from outside code.
\<close>

definition outside :: "'v life_env \<Rightarrow> nat \<Rightarrow> 'v mw \<Rightarrow> 'v mw \<Rightarrow> bool" where
  "outside g a w w' \<longleftrightarrow> (\<exists>m m'. mms w a = Some m \<and> mms w' = (mms w)(a \<mapsto> m') \<and> works w' = works w \<and> alerts w' = alerts w \<and>
     mm_users m' = mm_users m \<and> mm_count m' = mm_count m \<and> pgd m' = pgd m \<and> user_ns m' = user_ns m \<and>
     (\<forall>r. level w' r = level w r - owns (areas g) True m r + owns (areas g) True m' r))"

definition set_exe :: "nat \<Rightarrow> nat option \<Rightarrow> 'v mw \<Rightarrow> 'v mw option" where
  "set_exe a f w = do { m \<leftarrow> mms w a; Some (store_view a (set_mm_exe_file f (mm_view m w)) w) }"

type_synonym 'v mm_state = "'v mw \<times> (nat \<Rightarrow> nat) \<times> (nat \<Rightarrow> nat)"

inductive mm_step :: "'v life_env \<Rightarrow> 'v mm_state \<Rightarrow> 'v mm_state \<Rightarrow> bool" for g where
  alloc: "env_ok g env \<Longrightarrow> call_ok env w \<Longrightarrow> mm_alloc env w = Some (Some a, w') \<Longrightarrow>
    mm_step g (w, hu, hc) (w', hu(a := 1), hc)"
| alloc_fails: "env_ok g env \<Longrightarrow> call_ok env w \<Longrightarrow> mm_alloc env w = Some (None, w') \<Longrightarrow> mm_step g (w, hu, hc) (w', hu, hc)"
| dup: "env_ok g env \<Longrightarrow> call_ok env w \<Longrightarrow> 0 < hu b \<Longrightarrow> dup_mm env tsk b w = Some (Some a, w') \<Longrightarrow>
    mm_step g (w, hu, hc) (w', hu(a := 1), hc)"
| dup_fails: "env_ok g env \<Longrightarrow> call_ok env w \<Longrightarrow> 0 < hu b \<Longrightarrow> dup_mm env tsk b w = Some (None, w') \<Longrightarrow>
    mm_step g (w, hu, hc) (w', hu, hc)"
| get: "0 < hu a \<Longrightarrow> mm_step g (w, hu, hc) (upd_mm a (\<lambda>m. m\<lparr>mm_users := mm_users m + 1\<rparr>) w, hu(a := hu a + 1), hc)"
| grab: "0 < hu a \<or> 0 < hc a \<Longrightarrow>
    mm_step g (w, hu, hc) (upd_mm a (\<lambda>m. m\<lparr>mm_count := mm_count m + 1\<rparr>) w, hu, hc(a := hc a + 1))"
| put: "env_ok g env \<Longrightarrow> 0 < hu a \<Longrightarrow> mmput env a w = Some w' \<Longrightarrow> mm_step g (w, hu, hc) (w', hu(a := hu a - 1), hc)"
| put_async: "0 < hu a \<Longrightarrow> mmput_async a w = Some w' \<Longrightarrow> mm_step g (w, hu, hc) (w', hu(a := hu a - 1), hc)"
| drop: "env_ok g env \<Longrightarrow> 0 < hc a \<Longrightarrow> mmdrop env a w = Some w' \<Longrightarrow> mm_step g (w, hu, hc) (w', hu, hc(a := hc a - 1))"
| drop_async: "0 < hc a \<Longrightarrow> mmdrop_async a w = Some w' \<Longrightarrow> mm_step g (w, hu, hc) (w', hu, hc(a := hc a - 1))"
| work: "env_ok g env \<Longrightarrow> run_work env w = Some w' \<Longrightarrow> mm_step g (w, hu, hc) (w', hu, hc)"
| exe: "0 < hu a \<Longrightarrow> set_exe a f w = Some w' \<Longrightarrow> mm_step g (w, hu, hc) (w', hu, hc)"
| map_areas: "0 < hu a \<Longrightarrow> outside g a w w' \<Longrightarrow> mm_step g (w, hu, hc) (w', hu, hc)"

inductive mm_reach :: "'v life_env \<Rightarrow> 'v mw \<Rightarrow> 'v mm_state \<Rightarrow> bool" for g w0 where
  start: "mms w0 = Map.empty \<Longrightarrow> works w0 = [] \<Longrightarrow> alerts w0 = [] \<Longrightarrow> mm_reach g w0 (w0, \<lambda>_. 0, \<lambda>_. 0)"
| step: "mm_reach g w0 s \<Longrightarrow> mm_step g s s' \<Longrightarrow> mm_reach g w0 s'"

definition in_use :: "'v mw \<Rightarrow> (nat \<Rightarrow> nat) \<Rightarrow> nat set" where
  "in_use w hu = {a. 0 < hu a \<or> (Mmput_work, a) \<in> set (works w)}"

definition dropped :: "'v mw \<Rightarrow> nat set" where
  "dropped w = {a. (Mmdrop_work, a) \<in> set (works w)}"

definition life_ok :: "'v life_env \<Rightarrow> (mm_res \<Rightarrow> int) \<Rightarrow> 'v mm_state \<Rightarrow> bool" where
  "life_ok g base = (\<lambda>(w, hu, hc). life_inv g base (in_use w hu) (dropped w) hu hc w \<and> distinct (map snd (works w)) \<and>
     (\<forall>a. (Mmput_work, a) \<in> set (works w) \<longrightarrow> hu a = 0))"

lemma life_okI:
  assumes "life_inv g base A D hu hc w" "A = in_use w hu" "D = dropped w" "distinct (map snd (works w))"
    "\<And>a. (Mmput_work, a) \<in> set (works w) \<Longrightarrow> hu a = 0"
  shows "life_ok g base (w, hu, hc)"
  using assms by (auto simp: life_ok_def)

text \<open>No one else has queued the work of a descriptor that is referenced.\<close>

lemma not_queued:
  assumes "life_ok g base (w, hu, hc)" "0 < hu a \<or> 0 < hc a \<and> a \<notin> in_use w hu"
  shows "a \<notin> snd ` set (works w)"
proof
  assume "a \<in> snd ` set (works w)"
  then obtain k where k: "(k, a) \<in> set (works w)" by auto
  from assms(1) have "life_inv g base (in_use w hu) (dropped w) hu hc w" by (simp add: life_ok_def)
  with assms(2) obtain m where "mms w a = Some m" and m: "desc_ok (in_use w hu) (dropped w) hu hc a (Some m)"
    by (auto elim: life_inv_live)
  show False using desc_okD(2,3,5) [OF m] assms k by (cases k) (auto simp: in_use_def dropped_def life_ok_def)
qed

lemma mmput_async_ok:
  assumes ok: "life_ok g base (w, hu, hc)" and a: "0 < hu a"
  shows "\<exists>w'. mmput_async a w = Some w' \<and> life_ok g base (w', hu(a := hu a - 1), hc)"
proof -
  from ok have inv: "life_inv g base (in_use w hu) (dropped w) hu hc w" by (simp add: life_ok_def)
  from dec_users_ok [OF inv a] obtain w1 where w1: "dec_users a w = Some (hu a = 1, w1)" "works w1 = works w"
    "life_inv g base (in_use w hu) (dropped w) (hu(a := hu a - 1)) hc w1" by blast
  have nq: "a \<notin> snd ` set (works w)" using not_queued [OF ok] a by blast
  let ?w = "if hu a = 1 then w1\<lparr>works := works w1 @ [(Mmput_work, a)]\<rparr> else w1"
  have "mmput_async a w = Some ?w" using w1 nq by (simp add: mmput_async_def queue_work_def)
  moreover have "life_ok g base (?w, hu(a := hu a - 1), hc)"
  proof (rule life_okI)
    show "life_inv g base (in_use w hu) (dropped w) (hu(a := hu a - 1)) hc ?w"
      by (cases "hu a = 1"; use w1(3) in simp)
  qed (use ok w1(2) a nq in \<open>auto simp: life_ok_def in_use_def dropped_def split: if_splits\<close>)
  ultimately show ?thesis by blast
qed

lemma mmdrop_async_ok:
  assumes ok: "life_ok g base (w, hu, hc)" and a: "0 < hc a"
  shows "\<exists>w'. mmdrop_async a w = Some w' \<and> life_ok g base (w', hu, hc(a := hc a - 1))"
proof -
  from ok have inv: "life_inv g base (in_use w hu) (dropped w) hu hc w" by (simp add: life_ok_def)
  from dec_count_ok [OF inv a] obtain z w1 where w1: "dec_count a w = Some (z, w1)" "works w1 = works w"
    "life_inv g base (in_use w hu) (if z then insert a (dropped w) else dropped w) hu (hc(a := hc a - 1)) w1" by blast
  have nq: "a \<notin> snd ` set (works w)" if z
  proof -
    from that life_invD(3) [OF w1(3), of a] have "a \<notin> in_use w hu"
      by (cases "mms w1 a") (auto simp: desc_ok_def split: if_splits)
    then show ?thesis using not_queued [OF ok] a by blast
  qed
  let ?w = "if z then w1\<lparr>works := works w1 @ [(Mmdrop_work, a)]\<rparr> else w1"
  have "mmdrop_async a w = Some ?w" using w1 nq by (auto simp: mmdrop_async_def queue_work_def)
  moreover have "life_ok g base (?w, hu, hc(a := hc a - 1))"
  proof (rule life_okI)
    show "life_inv g base (in_use w hu) (if z then insert a (dropped w) else dropped w) hu (hc(a := hc a - 1)) ?w"
      by (cases z; use w1(3) in simp)
  qed (use ok w1(2) a nq in \<open>auto simp: life_ok_def in_use_def dropped_def split: if_splits\<close>)
  ultimately show ?thesis by blast
qed

lemma run_work_ok:
  assumes ok: "life_ok g base (w, hu, hc)" and env: "env_ok g env" and ne: "works w \<noteq> []"
  shows "\<exists>w'. run_work env w = Some w' \<and> life_ok g base (w', hu, hc)"
proof -
  from ok have inv: "life_inv g base (in_use w hu) (dropped w) hu hc w" by (simp add: life_ok_def)
  from ne obtain k a ws where q: "works w = (k, a) # ws" by (cases "works w") auto
  with ok have d: "distinct (map snd ws)" "a \<notin> snd ` set ws" "\<And>b. (Mmput_work, b) \<in> set (works w) \<Longrightarrow> hu b = 0"
    by (auto simp: life_ok_def)
  have inv': "life_inv g base (in_use w hu) (dropped w) hu hc (w\<lparr>works := ws\<rparr>)" using inv by simp
  show ?thesis
  proof (cases k)
    case Mmput_work
    with q d(3) have "a \<in> in_use w hu" "hu a = 0" by (auto simp: in_use_def)
    from mmput_final_ok [OF inv' this env] obtain w' where w': "mmput_final env a (w\<lparr>works := ws\<rparr>) = Some w'" "works w' = ws"
      "life_inv g base (in_use w hu - {a}) (dropped w) hu hc w'" by auto
    have "life_ok g base (w', hu, hc)"
      by (rule life_okI [OF w'(3)]) (use q d w'(2) Mmput_work \<open>hu a = 0\<close> in \<open>auto simp: in_use_def dropped_def image_iff\<close>)
    with w' q Mmput_work show ?thesis by (simp add: run_work_def)
  next
    case Mmdrop_work
    with q have "a \<in> dropped w" by (auto simp: dropped_def)
    from mmdrop_final_ok [OF inv' this, of env] env obtain w' where w': "mmdrop_final env a (w\<lparr>works := ws\<rparr>) = Some w'"
      "works w' = ws" "life_inv g base (in_use w hu) (dropped w - {a}) hu hc w'" by (auto simp: env_ok_def)
    have "life_ok g base (w', hu, hc)"
      by (rule life_okI [OF w'(3)]) (use q d w'(2) Mmdrop_work in \<open>auto simp: in_use_def dropped_def image_iff\<close>)
    with w' q Mmdrop_work show ?thesis by (simp add: run_work_def)
  qed
qed

lemma in_use_ledger:
  assumes "\<And>b. (Mmput_work, b) \<in> set (works w) \<Longrightarrow> hu b = 0" "0 < hu a"
  shows "in_use w (hu(a := hu a - 1)) = (if hu a = 1 then in_use w hu - {a} else in_use w hu)"
    "in_use w (hu(a := hu a + 1)) = in_use w hu" "(Mmput_work, a) \<notin> set (works w)"
  using assms by (force simp: in_use_def)+

text \<open>A release that runs at once, and a new descriptor: the queue stays as it is.\<close>

lemma life_ok_queue:
  assumes ok: "life_ok g base (w, hu, hc)" and w': "works w' = works w"
    and inv: "life_inv g base A (dropped w) hu' hc' w'" and A: "A = in_use w hu'"
    and q: "\<And>a. (Mmput_work, a) \<in> set (works w) \<Longrightarrow> hu' a = 0"
  shows "life_ok g base (w', hu', hc')"
  by (rule life_okI [OF inv]) (use ok w' A q in \<open>auto simp: life_ok_def in_use_def dropped_def\<close>)

lemma life_ok_new:
  assumes ok: "life_ok g base (w, hu, hc)" and w': "works w' = works w" and a: "mms w a = None"
    and inv: "life_inv g base (insert a (in_use w hu)) (dropped w) (hu(a := 1)) hc w'"
  shows "life_ok g base (w', hu(a := 1), hc)"
proof (rule life_ok_queue [OF ok w' inv])
  from ok have "life_inv g base (in_use w hu) (dropped w) hu hc w" by (simp add: life_ok_def)
  from life_invD(3) [OF this, of a] a have "a \<notin> in_use w hu" by (simp add: desc_ok_def)
  then show "insert a (in_use w hu) = in_use w (hu(a := 1))" "\<And>b. (Mmput_work, b) \<in> set (works w) \<Longrightarrow> (hu(a := 1)) b = 0"
    using ok by (auto simp: in_use_def life_ok_def)
qed

lemma mmput_life_ok:
  assumes ok: "life_ok g base (w, hu, hc)" and a: "0 < hu a" and env: "env_ok g env"
  shows "\<exists>w'. mmput env a w = Some w' \<and> life_ok g base (w', hu(a := hu a - 1), hc)"
proof -
  from ok have inv: "life_inv g base (in_use w hu) (dropped w) hu hc w"
    and q: "\<And>b. (Mmput_work, b) \<in> set (works w) \<Longrightarrow> hu b = 0" by (auto simp: life_ok_def)
  from mmput_ok [OF inv a env] obtain w' where w': "mmput env a w = Some w'" "works w' = works w"
    "life_inv g base (if hu a = 1 then in_use w hu - {a} else in_use w hu) (dropped w) (hu(a := hu a - 1)) hc w'" by blast
  have "life_ok g base (w', hu(a := hu a - 1), hc)"
    by (rule life_ok_queue [OF ok w'(2,3)]) (use q in_use_ledger [of w hu a, OF q a] in auto)
  with w'(1) show ?thesis by blast
qed

lemma mmdrop_life_ok:
  assumes ok: "life_ok g base (w, hu, hc)" and a: "0 < hc a" and env: "env_ok g env"
  shows "\<exists>w'. mmdrop env a w = Some w' \<and> life_ok g base (w', hu, hc(a := hc a - 1))"
proof -
  from ok have inv: "life_inv g base (in_use w hu) (dropped w) hu hc w"
    and q: "\<And>b. (Mmput_work, b) \<in> set (works w) \<Longrightarrow> hu b = 0" by (auto simp: life_ok_def)
  from mmdrop_ok [OF inv a env] obtain w' where w': "mmdrop env a w = Some w'" "works w' = works w"
    "life_inv g base (in_use w hu) (dropped w - {a}) hu (hc(a := hc a - 1)) w'" by blast
  from inv a obtain m where "mms w a = Some m" and m: "desc_ok (in_use w hu) (dropped w) hu hc a (Some m)" by (auto elim: life_inv_live)
  from desc_okD(2,5) [OF m] a have "dropped w - {a} = dropped w" by auto
  with w' q life_ok_queue [OF ok w'(2), of "in_use w hu" hu] show ?thesis by auto
qed

lemma life_ok_counts:
  assumes ok: "life_ok g base (w, hu, hc)" and a: "0 < hu a \<or> 0 < hc a"
  shows "life_ok g base (upd_mm a (\<lambda>m. m\<lparr>mm_count := mm_count m + 1\<rparr>) w, hu, hc(a := hc a + 1))"
    "0 < hu a \<Longrightarrow> life_ok g base (upd_mm a (\<lambda>m. m\<lparr>mm_users := mm_users m + 1\<rparr>) w, hu(a := hu a + 1), hc)"
proof -
  from ok have inv: "life_inv g base (in_use w hu) (dropped w) hu hc w"
    and q: "\<And>b. (Mmput_work, b) \<in> set (works w) \<Longrightarrow> hu b = 0" by (auto simp: life_ok_def)
  from inv a obtain m where m: "mms w a = Some m" "desc_ok (in_use w hu) (dropped w) hu hc a (Some m)" by (auto elim: life_inv_live)
  from desc_okD [OF m(2)] a have na: "a \<notin> dropped w" by auto
  have "life_inv g base (in_use w hu) (dropped w) hu (hc(a := hc a + 1)) (upd_mm a (\<lambda>m. m\<lparr>mm_count := mm_count m + 1\<rparr>) w)"
    by (rule life_inv_counts [OF inv m(1)]) (use m(2) na in \<open>auto simp: desc_ok_def\<close>)
  from life_ok_queue [OF ok _ this] q show "life_ok g base (upd_mm a (\<lambda>m. m\<lparr>mm_count := mm_count m + 1\<rparr>) w, hu, hc(a := hc a + 1))" by simp
  assume p: "0 < hu a"
  have "life_inv g base (in_use w hu) (dropped w) (hu(a := hu a + 1)) hc (upd_mm a (\<lambda>m. m\<lparr>mm_users := mm_users m + 1\<rparr>) w)"
    by (rule life_inv_counts [OF inv m(1)]) (use m(2) p in \<open>auto simp: desc_ok_def in_use_def\<close>)
  then show "life_ok g base (upd_mm a (\<lambda>m. m\<lparr>mm_users := mm_users m + 1\<rparr>) w, hu(a := hu a + 1), hc)"
    by (rule life_ok_queue [OF ok, rotated]) (use q in_use_ledger [of w hu a, OF q p] in auto)
qed

lemma alloc_life_ok:
  assumes ok: "life_ok g base (w, hu, hc)" and env: "env_ok g env" and call: "call_ok env w"
    and r: "mm_alloc env w = Some (r, w') \<or> dup_mm env tsk b w = Some (r, w') \<and> 0 < hu b"
  shows "life_ok g base (w', case r of None \<Rightarrow> hu | Some a \<Rightarrow> hu(a := 1), hc)"
proof -
  from ok have inv: "life_inv g base (in_use w hu) (dropped w) hu hc w"
    and q: "\<And>c. (Mmput_work, c) \<in> set (works w) \<Longrightarrow> hu c = 0" by (auto simp: life_ok_def)
  have "works w' = works w \<and> (case r of None \<Rightarrow> life_inv g base (in_use w hu) (dropped w) hu hc w'
     | Some a \<Rightarrow> new_descriptor env = Some a \<and> life_inv g base (insert a (in_use w hu)) (dropped w) (hu(a := 1)) hc w')"
    using r
  proof (elim disjE conjE)
    assume "mm_alloc env w = Some (r, w')"
    with mm_alloc_ok [OF inv env call] inv show ?thesis by auto
  next
    assume d: "dup_mm env tsk b w = Some (r, w')" "0 < hu b"
    with inv obtain m where "mms w b = Some m" by (auto elim: life_inv_live)
    from dup_mm_ok [OF inv env call this, of tsk] d(1) show ?thesis by (auto split: option.splits)
  qed
  then show ?thesis using call life_ok_new [OF ok, of w'] life_ok_queue [OF ok, of w' "in_use w hu" hu hc] q
    by (cases r) (auto simp: call_ok_def)
qed

lemma outside_ok:
  assumes ok: "life_ok g base (w, hu, hc)" and a: "0 < hu a" and out: "outside g a w w'"
  shows "life_ok g base (w', hu, hc)"
proof -
  from ok have inv: "life_inv g base (in_use w hu) (dropped w) hu hc w"
    and q: "\<And>b. (Mmput_work, b) \<in> set (works w) \<Longrightarrow> hu b = 0" by (auto simp: life_ok_def)
  from out obtain m m' where m: "mms w a = Some m" "mms w' = (mms w)(a \<mapsto> m')" "works w' = works w" "alerts w' = alerts w"
    "mm_users m' = mm_users m" "mm_count m' = mm_count m" "pgd m' = pgd m"
    "\<And>r. level w' r = level w r - owns (areas g) True m r + owns (areas g) True m' r" by (auto simp: outside_def)
  have A: "a \<in> in_use w hu" using a by (simp add: in_use_def)
  have "life_inv g base (in_use w hu) (dropped w) hu hc w'"
  proof (rule life_inv_change [OF inv m(2)])
    show "desc_ok (in_use w hu) (dropped w) hu hc a (Some m')" using life_invD(3) [OF inv, of a] m A by (auto simp: desc_ok_def)
    show "a \<noteq> init_mm g" using life_invD(2) [OF inv] m(1) by auto
    show "set (alerts w') \<subseteq> {Warn_current}" using life_invD(5) [OF inv] m(4) by simp
  qed (use m(1,8) A in auto)
  from life_ok_queue [OF ok m(3) this refl q] show ?thesis .
qed

text \<open>Setting the executable file keeps the books in the same way.\<close>

lemma set_exe_outside: "set_exe a f w = Some w' \<Longrightarrow> outside g a w w'"
proof -
  assume s: "set_exe a f w = Some w'"
  then obtain m where m: "mms w a = Some m" and w': "w' = store_view a (set_mm_exe_file f (mm_view m w)) w"
    by (auto simp: set_exe_def split: bind_splits)
  let ?m = "m\<lparr>mm_exe_file := f\<rparr>"
  have view: "child (set_mm_exe_file f (mm_view m w)) = mmap m" "map_count (set_mm_exe_file f (mm_view m w)) = mm_map_count m"
    "vm_stats (set_mm_exe_file f (mm_view m w)) = mm_stats m" "exe_file (set_mm_exe_file f (mm_view m w)) = f"
    by (auto simp: set_mm_exe_file_def mm_view_def get_file_def fput_def Let_def split: option.splits)
  then have "mms w' = (mms w)(a \<mapsto> ?m)" using m by (cases m) (simp add: w' store_view_def)
  moreover have "level w' r = level w r - owns (areas g) True m r + owns (areas g) True ?m r" for r
    by (cases r) (auto simp: w' store_view_def set_mm_exe_file_def mm_view_def get_file_def fput_def Let_def split: option.splits)
  moreover have "works w' = works w" "alerts w' = alerts w" by (simp_all add: w' store_view_def)
  ultimately show "outside g a w w'" using m by (auto simp: outside_def intro!: exI [of _ ?m])
qed

lemma mm_step_ok:
  assumes "mm_step g s s'" "life_ok g base s"
  shows "life_ok g base s'"
  using assms
proof cases
  case alloc then show ?thesis using assms(2) alloc_life_ok by fastforce
next
  case alloc_fails then show ?thesis using assms(2) alloc_life_ok by fastforce
next
  case dup then show ?thesis using assms(2) alloc_life_ok by fastforce
next
  case dup_fails then show ?thesis using assms(2) alloc_life_ok by fastforce
next
  case get then show ?thesis using assms(2) life_ok_counts(2) by blast
next
  case grab then show ?thesis using assms(2) life_ok_counts(1) by blast
next
  case (put env hu a w w' hc) then show ?thesis using assms(2) mmput_life_ok [of g base w hu hc a env] by auto
next
  case (put_async hu a w w' hc) then show ?thesis using assms(2) mmput_async_ok [of g base w hu hc a] by auto
next
  case (drop env hc a w w' hu) then show ?thesis using assms(2) mmdrop_life_ok [of g base w hu hc a env] by auto
next
  case (drop_async hc a w w' hu) then show ?thesis using assms(2) mmdrop_async_ok [of g base w hu hc a] by auto
next
  case (work env w w' hu hc)
  then have "works w \<noteq> []" by (auto simp: run_work_def split: list.splits)
  with work show ?thesis using assms(2) run_work_ok [of g base w hu hc env] by auto
next
  case exe then show ?thesis using assms(2) outside_ok set_exe_outside by blast
next
  case map_areas then show ?thesis using assms(2) outside_ok by blast
qed

lemma mm_reach_ok: "mm_reach g w0 s \<Longrightarrow> life_ok g (level w0) s"
proof (induction rule: mm_reach.induct)
  case start
  then show ?case by (auto simp: life_ok_def life_inv_def desc_ok_def in_use_def dropped_def owned_def)
next
  case (step s s') then show ?case using mm_step_ok by blast
qed

text \<open>What an operation on a new descriptor leaves alone.\<close>

definition only_at :: "nat \<Rightarrow> 'v mw \<Rightarrow> 'v mw \<Rightarrow> bool" where
  "only_at a w w' \<longleftrightarrow> (\<forall>b. b \<noteq> a \<longrightarrow> mms w' b = mms w b)"

lemma mmdrop_final_only: "mmdrop_final env a w = Some w' \<Longrightarrow> only_at a w w'"
  by (auto simp: only_at_def mmdrop_final_def warn_on_def mm_free_pgd_def check_mm_def free_mm_def Let_def split: if_splits bind_splits)

lemma mmput_only:
  assumes "mmput env a w = Some w'" "drops env"
  shows "only_at a w w'"
proof -
  have d: "only_at a v v'" if "mmdrop env a v = Some v'" for v v'
    using that assms(2) mmdrop_final_only
    by (fastforce simp: drops_def dec_count_def only_at_def split: option.splits if_splits bind_splits)
  have f: "only_at a v v'" if r: "mmput_final env a v = Some v'" for v v'
  proof -
    from r obtain m s rss pt where m: "mms v a = Some m" "mm_users m = 0"
      "exit_mmap env (mm_view m v, rss_stat m, pgtables_bytes m) = (s, rss, pt)"
      by (auto simp: mmput_final_def split: bind_splits if_splits prod.splits)
    from r m have "\<exists>u. mmdrop env a u = Some v' \<and> only_at a v u"
      by (cases "binfmt m") (auto simp: mmput_final_def Let_def store_view_def only_at_def
          intro!: exI [where P = "\<lambda>u. mmdrop env a u = Some v' \<and> (\<forall>b. b \<noteq> a \<longrightarrow> mms u b = mms v b)"])
    with d show ?thesis by (fastforce simp: only_at_def)
  qed
  obtain z w1 where "dec_users a w = Some (z, w1)" "only_at a w w1" "if z then mmput_final env a w1 = Some w' else w' = w1"
    using assms(1) by (auto simp: mmput_def dec_users_def only_at_def split: bind_splits if_splits)
  with f [of w1 w'] show ?thesis by (auto simp: only_at_def split: if_splits)
qed

lemma dup_mm_only:
  assumes "dup_mm env tsk oldmm w = Some (r, w')" "drops env" "new_descriptor env = Some a"
  shows "only_at a w w'"
proof -
  have fp: "only_at a v v'" if "free_pt env a v = Some (x, v')" for v v' x
    using that mmput_only [OF _ assms(2)] by (fastforce simp: free_pt_def only_at_def split: bind_splits)
  let ?w2 = "\<lambda>s. upd_mm a (\<lambda>m. m\<lparr>rss_stat := copied_rss env, pgtables_bytes := copied_pgtables env\<rparr>) \<circ> store_view a s"
  let ?w3 = "upd_mm a (\<lambda>m. m\<lparr>hiwater_rss := get_mm_rss env (rss_stat m), hiwater_vm := total_vm env (mm_stats m)\<rparr>)"
  from assms(1,3) obtain old x w1 where o: "mms w oldmm = Some old"
    "mm_init env a (Some tsk) (user_ns old) (w\<lparr>mms := (mms w)(a \<mapsto> old)\<rparr>) = Some (x, w1)"
    by (auto simp: dup_mm_def split: bind_splits)
  have rest: "w' = w1 \<or> (\<exists>w2 y. only_at a w1 w2 \<and> (w' = w2 \<or> free_pt env a w2 = Some (y, w')))"
  proof (cases x)
    case None then show ?thesis using assms(1,3) o by (simp add: dup_mm_def)
  next
    case (Some c)
    with assms(1,3) o obtain m err s where d: "mms w1 a = Some m" "dup_mmap (areas env) a
        \<lparr>old_mmap = mmap old, old_stats = mm_stats old, old_exe_file = mm_exe_file old\<rparr> (mm_view m w1) = Some (err, s)"
      by (auto simp: dup_mm_def split: bind_splits)
    have "only_at a w1 (?w2 s w1)" "only_at a w1 (?w3 (?w2 s w1))" "only_at a w1 ((?w3 (?w2 s w1))\<lparr>module_count := q\<rparr>)" for q
      by (simp_all add: only_at_def store_view_def)
    moreover from assms(1,3) o Some d have "free_pt env a (?w2 s w1) = Some (r, w') \<or> free_pt env a (?w3 (?w2 s w1)) = Some (r, w') \<or>
        w' = ?w3 (?w2 s w1) \<or> (\<exists>q. w' = (?w3 (?w2 s w1))\<lparr>module_count := q\<rparr>)"
      by (auto simp: dup_mm_def Let_def split: if_splits option.splits)
    ultimately show ?thesis by blast
  qed
  have "only_at a w w1"
    using o(2) by (auto simp: mm_init_def mm_alloc_pgd_def mm_free_pgd_def free_mm_def only_at_def Let_def
        split: bind_splits if_splits option.splits)
  with rest fp show ?thesis by (fastforce simp: only_at_def)
qed

section \<open>Results\<close>

lemma life_ok_inv: "life_ok g base (w, hu, hc) \<Longrightarrow> life_inv g base (in_use w hu) (dropped w) hu hc w"
  by (simp add: life_ok_def)

lemma life_ok_live:
  assumes "life_ok g base (w, hu, hc)"
  shows "mms w a \<noteq> None \<longleftrightarrow> 0 < hu a \<or> 0 < hc a \<or> a \<in> snd ` set (works w)"
proof (cases "mms w a")
  case None
  with life_invD(3) [OF life_ok_inv [OF assms], of a] have "hu a = 0" "hc a = 0" "a \<notin> in_use w hu" "a \<notin> dropped w" by (auto simp: desc_ok_def)
  moreover have "a \<notin> snd ` set (works w)" if "a \<notin> in_use w hu" "a \<notin> dropped w"
    using that by (auto simp: in_use_def dropped_def) (metis mm_work.exhaust)
  ultimately show ?thesis using None by simp
next
  case (Some m)
  with life_invD(3) [OF life_ok_inv [OF assms], of a] have "desc_ok (in_use w hu) (dropped w) hu hc a (Some m)" by simp
  from desc_okD [OF this] have "0 < hc a \<or> a \<in> in_use w hu \<or> a \<in> dropped w" by (auto split: if_splits)
  then show ?thesis using Some by (auto simp: in_use_def dropped_def intro: rev_image_eqI)
qed

text \<open>
  C13. Every memory descriptor is freed exactly once, and with all it owns. In every state that
  the rest of the kernel can bring about by making, copying, sharing and releasing
  descriptors, mapping and unmapping areas in them, setting their executable files and binary
  formats, in any order, with the work queue running at any time: a descriptor exists
  exactly as long as someone refers to it or its release is queued; its two counts are the
  numbers of the references, the users together counting as one; a descriptor without
  users has no areas and no executable file; every file reference, write denial, charged
  page, page directory, context, namespace and module reference beyond those at the start
  belongs to a live descriptor, so that when no reference is left and the queue has run
  nothing is left over; no bad counter is reported; and no release, queued work or copy
  uses a freed descriptor, drops a count below zero or queues a work item twice.
\<close>

theorem mm_life_safe:
  assumes "mm_reach g w0 (w, hu, hc)"
  shows "(\<forall>a. mms w a \<noteq> None \<longleftrightarrow> 0 < hu a \<or> 0 < hc a \<or> a \<in> snd ` set (works w)) \<and>
    (\<forall>a m. mms w a = Some m \<longrightarrow> mm_users m = int (hu a) \<and>
      mm_count m = int (hc a) + (if a \<in> in_use w hu then 1 else 0) \<and>
      (a \<notin> in_use w hu \<longrightarrow> mmap m = [] \<and> mm_exe_file m = None)) \<and>
    (\<forall>r. level w r = level w0 r + owned (areas g) (in_use w hu) (mms w) r) \<and>
    ((\<forall>a. hu a = 0 \<and> hc a = 0) \<and> works w = [] \<longrightarrow> mms w = Map.empty \<and> (\<forall>r. level w r = level w0 r)) \<and>
    set (alerts w) \<subseteq> {Warn_current} \<and>
    (\<forall>env. env_ok g env \<longrightarrow> (works w \<noteq> [] \<longrightarrow> run_work env w \<noteq> None) \<and> (\<forall>a.
      (0 < hu a \<longrightarrow> mmput env a w \<noteq> None \<and> mmput_async a w \<noteq> None \<and> (call_ok env w \<longrightarrow> dup_mm env tsk a w \<noteq> None)) \<and>
      (0 < hc a \<longrightarrow> mmdrop env a w \<noteq> None \<and> mmdrop_async a w \<noteq> None)))"
proof -
  have ok: "life_ok g (level w0) (w, hu, hc)" by (rule mm_reach_ok [OF assms])
  then have inv: "life_inv g (level w0) (in_use w hu) (dropped w) hu hc w" by (simp add: life_ok_def)
  note live = life_ok_live [OF ok]
  have counts: "mm_users m = int (hu a) \<and> mm_count m = int (hc a) + (if a \<in> in_use w hu then 1 else 0) \<and>
      (a \<notin> in_use w hu \<longrightarrow> mmap m = [] \<and> mm_exe_file m = None)" if "mms w a = Some m" for a m
    using life_invD(3) [OF inv, of a] that by (auto simp: desc_ok_def quiet_def)
  have empty: "mms w = Map.empty \<and> (\<forall>r. level w r = level w0 r)" if "\<forall>a. hu a = 0 \<and> hc a = 0" "works w = []"
  proof -
    have "mms w = Map.empty" using live that by (intro ext) (metis empty_set empty_iff image_empty less_irrefl)
    then show ?thesis using life_invD(4) [OF inv] by (simp add: owned_def)
  qed
  have dup: "dup_mm env tsk a w \<noteq> None" if "env_ok g env" "0 < hu a" "call_ok env w" for env a
  proof -
    from live [of a] that(2) obtain m where "mms w a = Some m" by auto
    from dup_mm_ok [OF inv that(1,3) this, of tsk] show ?thesis by auto
  qed
  have run: "run_work env w \<noteq> None" if "env_ok g env" "works w \<noteq> []" for env using run_work_ok [OF ok that] by auto
  have put: "mmput env a w \<noteq> None" "mmput_async a w \<noteq> None" if "env_ok g env" "0 < hu a" for env a
    using mmput_life_ok [OF ok that(2,1)] mmput_async_ok [OF ok that(2)] by auto
  have drop: "mmdrop env a w \<noteq> None" "mmdrop_async a w \<noteq> None" if "env_ok g env" "0 < hc a" for env a
    using mmdrop_life_ok [OF ok that(2,1)] mmdrop_async_ok [OF ok that(2)] by auto
  have ops: "(works w \<noteq> [] \<longrightarrow> run_work env w \<noteq> None) \<and> (\<forall>a.
      (0 < hu a \<longrightarrow> mmput env a w \<noteq> None \<and> mmput_async a w \<noteq> None \<and> (call_ok env w \<longrightarrow> dup_mm env tsk a w \<noteq> None)) \<and>
      (0 < hc a \<longrightarrow> mmdrop env a w \<noteq> None \<and> mmdrop_async a w \<noteq> None))" if "env_ok g env" for env
    using run [OF that] put [OF that] drop [OF that] dup [OF that] by blast
  show ?thesis
    by (intro conjI) (use live in blast, use counts in blast, use life_invD(4) [OF inv] in blast, use empty in blast,
      rule life_invD(5) [OF inv], use ops in blast)
qed

text \<open>
  C14. Copying a descriptor happens entirely or not at all. \<open>dup_mm\<close> on a descriptor in use always
  returns. When it returns NULL, at whichever of its calls it stopped, the heap of
  descriptors, every counted resource and the work queue are as before. Otherwise exactly
  one descriptor is new: it has copies of the areas to be copied, the parent's executable
  file (unless that is just being closed), binary format and namespace, one user, and the
  counted resources have grown by exactly what it owns.
\<close>

theorem dup_mm_all_or_nothing:
  assumes "mm_reach g w0 (w, hu, hc)" "env_ok g env" "call_ok env w" "0 < hu b" "mms w b = Some old"
  shows "\<exists>r w'. dup_mm env tsk b w = Some (r, w') \<and> works w' = works w \<and>
    (r = None \<longrightarrow> mms w' = mms w \<and> (\<forall>q. level w' q = level w q)) \<and>
    (\<forall>a. r = Some a \<longrightarrow> mms w a = None \<and> (\<exists>m. mms w' = (mms w)(a \<mapsto> m) \<and> is_dup (areas env) (f_count (kern w)) a old m \<and>
      (\<forall>q. level w' q = level w q + owns (areas g) True m q)))"
proof -
  let ?A = "in_use w hu" and ?D = "dropped w"
  have inv: "life_inv g (level w0) ?A ?D hu hc w" using mm_reach_ok [OF assms(1)] by (simp add: life_ok_def)
  from dup_mm_ok [OF inv assms(2,3,5), of tsk] obtain r w' where d: "dup_mm env tsk b w = Some (r, w')" "works w' = works w"
    "case r of None \<Rightarrow> life_inv g (level w0) ?A ?D hu hc w'
     | Some a \<Rightarrow> new_descriptor env = Some a \<and> life_inv g (level w0) (insert a ?A) ?D (hu(a := 1)) hc w' \<and>
         (\<exists>m. mms w' a = Some m \<and> is_dup (areas env) (f_count (kern w)) a old m)" by blast
  have only: "only_at a w w'" if "new_descriptor env = Some a" for a
    using dup_mm_only [OF d(1) _ that] assms(2) by (simp add: env_ok_def)
  have free: "mms w a = None" if "new_descriptor env = Some a" for a using that assms(3) by (simp add: call_ok_def)
  show ?thesis
  proof (cases r)
    case None
    have "mms w' = mms w"
    proof (cases "new_descriptor env")
      case None with d(1) show ?thesis by (simp add: dup_mm_def)
    next
      case (Some a)
      from life_invD(3) [OF inv, of a] free [OF Some] have "hc a = 0" "a \<notin> ?A" "a \<notin> ?D" by (auto simp: desc_ok_def)
      with life_invD(3) [of g "level w0" ?A ?D hu hc w' a] d(3) \<open>r = None\<close> have "mms w' a = None"
        by (cases "mms w' a") (auto simp: desc_ok_def)
      with only [OF Some] free [OF Some] show ?thesis by (intro ext) (metis only_at_def)
    qed
    with None d inv show ?thesis by (auto simp: life_inv_def)
  next
    case (Some a)
    with d(3) obtain m where a: "new_descriptor env = Some a" and m: "mms w' a = Some m" "is_dup (areas env) (f_count (kern w)) a old m"
      and inv': "life_inv g (level w0) (insert a ?A) ?D (hu(a := 1)) hc w'" by auto
    have h: "mms w' = (mms w)(a \<mapsto> m)" using only [OF a] m(1) by (auto simp: only_at_def fun_eq_iff)
    have "level w' q = level w q + owns (areas g) True m q" for q
      using life_invD(4) [OF inv'] life_invD(4) [OF inv] free [OF a]
        owned_upd [OF life_invD(1) [OF inv], of a "insert a ?A" ?A "areas g" "Some m" q] by (simp add: h)
    with Some d h m free [OF a] show ?thesis by auto
  qed
qed

text \<open>The use counts, as \<open>Copy_Process\<close> has them.\<close>

definition users_tab :: "'v mw \<Rightarrow> nat \<Rightarrow> int option" where
  "users_tab w a = (case mms w a of None \<Rightarrow> None | Some m \<Rightarrow> if 0 < mm_users m then Some (mm_users m) else None)"

lemma users_tab_ledger:
  assumes "life_inv g base A D hu hc w"
  shows "users_tab w = (\<lambda>a. if 0 < hu a then Some (int (hu a)) else None)"
proof
  fix a show "users_tab w a = (if 0 < hu a then Some (int (hu a)) else None)"
    using life_invD(3) [OF assms, of a] by (cases "mms w a") (auto simp: users_tab_def desc_ok_def)
qed

lemma dup_mm_result:
  assumes "\<And>b. new_mm fe = Some b \<Longrightarrow> mm_tab s b = None"
    and "r \<noteq> None \<longleftrightarrow> new_mm fe \<noteq> None \<and> mm_init_ok fe \<and> dup_mmap_err fe = None \<and> binfmt_get_ok fe"
    and "r \<noteq> None \<Longrightarrow> r = new_mm fe"
  shows "Copy_Process.dup_mm fe s = Some (r, s\<lparr>mm_tab := (case r of None \<Rightarrow> mm_tab s | Some b \<Rightarrow> (mm_tab s)(b \<mapsto> 1))\<rparr>)"
proof (cases "new_mm fe")
  case None with assms(2) show ?thesis by (auto simp: Copy_Process.dup_mm_def)
next
  case (Some b)
  then have "(mm_tab s)(b := None) = mm_tab s" by (intro fun_upd_idem) (rule assms(1))
  moreover have "r = None \<or> r = Some b" using assms(3) Some by (cases r) simp_all
  ultimately show ?thesis using Some assms(2)
    by (cases "mm_init_ok fe") (auto simp: Copy_Process.dup_mm_def Copy_Process.mmput_def put_ref_def)
qed

text \<open>
  The answers that \<open>Copy_Process\<close> is given for the calls in \<open>dup_mm\<close> are those that the detailed
  calls give: whether \<open>mm_init\<close> succeeds, what \<open>dup_mmap\<close> returns on the descriptor that \<open>mm_init\<close>
  has filled in, and whether the module of the binary format can be taken.
\<close>

definition dup_mmap_answer :: "'v life_env \<Rightarrow> task_ptr \<Rightarrow> nat \<Rightarrow> 'v mw \<Rightarrow> errno option" where
  "dup_mmap_answer env tsk b w = (case (new_descriptor env, mms w b) of
     (Some a, Some old) \<Rightarrow> (case mm_init env a (Some tsk) (user_ns old) (w\<lparr>mms := (mms w)(a \<mapsto> old)\<rparr>) of
        Some (Some _, w1) \<Rightarrow> (case Option.bind (mms w1 a) (\<lambda>m. dup_mmap (areas env) a
             \<lparr>old_mmap = mmap old, old_stats = mm_stats old, old_exe_file = mm_exe_file old\<rparr> (mm_view m w1)) of
           Some (err, _) \<Rightarrow> err | None \<Rightarrow> None)
      | _ \<Rightarrow> None)
   | _ \<Rightarrow> None)"

definition mm_answers :: "'v life_env \<Rightarrow> task_ptr \<Rightarrow> nat \<Rightarrow> 'v mw \<Rightarrow> fork_env \<Rightarrow> fork_env" where
  "mm_answers env tsk b w fe = fe\<lparr>new_mm := new_descriptor env,
     mm_init_ok := (pgd_alloc env \<noteq> None \<and> init_new_context_ok env), dup_mmap_err := dup_mmap_answer env tsk b w,
     binfmt_get_ok := (\<forall>old x. mms w b = Some old \<and> binfmt old = Some x \<longrightarrow> try_module_get env)\<rparr>"

lemma mm_init_result:
  "mm_init env a p ns w = Some (r, w') \<Longrightarrow> r = (if pgd_alloc env \<noteq> None \<and> init_new_context_ok env then Some a else None)"
  by (auto simp: mm_init_def mm_alloc_pgd_def Let_def split: bind_splits option.splits if_splits)

lemma dup_mm_succeeds:
  assumes "dup_mm env tsk b w = Some (r, w')"
  shows "r \<noteq> None \<longleftrightarrow> new_mm (mm_answers env tsk b w fe) \<noteq> None \<and> mm_init_ok (mm_answers env tsk b w fe) \<and>
    dup_mmap_err (mm_answers env tsk b w fe) = None \<and> binfmt_get_ok (mm_answers env tsk b w fe)"
proof (cases "new_descriptor env")
  case None with assms show ?thesis by (simp add: dup_mm_def mm_answers_def)
next
  case (Some a)
  with assms obtain old x w1 where o: "mms w b = Some old"
    "mm_init env a (Some tsk) (user_ns old) (w\<lparr>mms := (mms w)(a \<mapsto> old)\<rparr>) = Some (x, w1)" by (auto simp: dup_mm_def split: bind_splits)
  show ?thesis
  proof (cases x)
    case None
    with mm_init_result [OF o(2)] Some o assms show ?thesis by (auto simp: dup_mm_def mm_answers_def split: if_splits)
  next
    case (Some a')
    with mm_init_result [OF o(2)] have ok: "pgd_alloc env \<noteq> None \<and> init_new_context_ok env" by (auto split: if_splits)
    from Some assms o \<open>new_descriptor env = Some a\<close> obtain m err s where d: "mms w1 a = Some m"
      "dup_mmap (areas env) a \<lparr>old_mmap = mmap old, old_stats = mm_stats old, old_exe_file = mm_exe_file old\<rparr> (mm_view m w1) = Some (err, s)"
      by (auto simp: dup_mm_def split: bind_splits)
    have "dup_mmap_answer env tsk b w = err" using \<open>new_descriptor env = Some a\<close> o d Some by (simp add: dup_mmap_answer_def)
    with ok Some assms o d \<open>new_descriptor env = Some a\<close> show ?thesis
      by (auto simp: dup_mm_def mm_answers_def free_pt_def Let_def split: bind_splits option.splits if_splits) (metis option.exhaust)+
  qed
qed

lemma dup_mm_new: "dup_mm env tsk b w = Some (r, w') \<Longrightarrow> r = None \<or> r = new_descriptor env"
  by (auto simp: dup_mm_def free_pt_def Let_def split: option.splits bind_splits if_splits)

text \<open>
  C15. The table of use counts that \<open>Copy_Process\<close> works with is a sound abstraction of the
  descriptors. With the table read off the descriptors, its \<open>mmput\<close> and \<open>mmget\<close> do to the table what
  the detailed operations do to the use counts, an address leaving the table exactly when
  its last user has gone. Its \<open>dup_mm\<close>, given the answers that the detailed calls give, returns
  what the detailed \<open>dup_mm\<close> returns, be it the new descriptor or NULL for a failure at any
  of the calls, and leaves the table of the descriptors that the detailed one leaves.
\<close>

theorem mm_refines_copy_process:
  assumes "mm_reach g w0 (w, hu, hc)" "env_ok g env" "mm_tab s = users_tab w" "0 < hu a"
  shows "(\<exists>w'. mmput env a w = Some w' \<and> Copy_Process.mmput a s = Some (s\<lparr>mm_tab := users_tab w'\<rparr>)) \<and>
    mmget a s = Some (s\<lparr>mm_tab := users_tab (upd_mm a (\<lambda>m. m\<lparr>mm_users := mm_users m + 1\<rparr>) w)\<rparr>) \<and>
    (call_ok env w \<longrightarrow> (\<exists>r w'. dup_mm env tsk a w = Some (r, w') \<and>
      (\<forall>fe. Copy_Process.dup_mm (mm_answers env tsk a w fe) s = Some (r, s\<lparr>mm_tab := users_tab w'\<rparr>))))"
proof (intro conjI impI)
  let ?A = "in_use w hu" and ?D = "dropped w"
  have ok: "life_ok g (level w0) (w, hu, hc)" by (rule mm_reach_ok [OF assms(1)])
  note inv = life_ok_inv [OF this]
  note tab = users_tab_ledger [OF inv] assms(3)
  from mmput_ok [OF inv assms(4,2)] obtain w' where w': "mmput env a w = Some w'"
    "life_inv g (level w0) (if hu a = 1 then ?A - {a} else ?A) ?D (hu(a := hu a - 1)) hc w'" by blast
  with users_tab_ledger [OF w'(2)] tab assms(4)
  show "\<exists>w'. mmput env a w = Some w' \<and> Copy_Process.mmput a s = Some (s\<lparr>mm_tab := users_tab w'\<rparr>)"
    by (auto simp: Copy_Process.mmput_def put_ref_def fun_eq_iff intro!: kst.fold_congs)
  from life_ok_counts(2) [OF ok disjI1 assms(4)] assms(4)
  have "users_tab (upd_mm a (\<lambda>m. m\<lparr>mm_users := mm_users m + 1\<rparr>) w) = (users_tab w)(a \<mapsto> int (hu a) + 1)"
    by (auto simp: users_tab_ledger [OF inv] life_ok_def dest!: users_tab_ledger)
  with tab assms(4) show "mmget a s = Some (s\<lparr>mm_tab := users_tab (upd_mm a (\<lambda>m. m\<lparr>mm_users := mm_users m + 1\<rparr>) w)\<rparr>)"
    by (simp add: mmget_def get_ref_def)
  assume call: "call_ok env w"
  from inv assms(4) obtain old where "mms w a = Some old" by (auto elim: life_inv_live)
  from dup_mm_ok [OF inv assms(2) call this, of tsk] obtain r w' where d: "dup_mm env tsk a w = Some (r, w')"
    "case r of None \<Rightarrow> life_inv g (level w0) ?A ?D hu hc w'
     | Some b \<Rightarrow> new_descriptor env = Some b \<and> life_inv g (level w0) (insert b ?A) ?D (hu(b := 1)) hc w'"
    by (auto split: option.splits)
  have n: "mm_tab s b = None" if "new_descriptor env = Some b" for b
    using life_invD(3) [OF inv, of b] call that tab by (simp add: call_ok_def desc_ok_def)
  have "users_tab w' = (case r of None \<Rightarrow> users_tab w | Some b \<Rightarrow> (users_tab w)(b \<mapsto> 1))"
    using d(2) by (cases r) (auto simp: users_tab_ledger [OF inv] dest!: users_tab_ledger)
  then have "Copy_Process.dup_mm (mm_answers env tsk a w fe) s = Some (r, s\<lparr>mm_tab := users_tab w'\<rparr>)" for fe
    using dup_mm_result [OF _ dup_mm_succeeds [OF d(1), of fe], of s] n d(2) tab(2) by (auto simp: mm_answers_def split: option.splits)
  with d(1) show "\<exists>r w'. dup_mm env tsk a w = Some (r, w') \<and>
      (\<forall>fe. Copy_Process.dup_mm (mm_answers env tsk a w fe) s = Some (r, s\<lparr>mm_tab := users_tab w'\<rparr>))" by blast
qed

section \<open>An example\<close>

definition unmap_all :: "'v mm_env \<Rightarrow> 'v mmst \<times> int list \<times> int \<Rightarrow> 'v mmst \<times> int list \<times> int" where
  "unmap_all g = (\<lambda>(s, rss, pt). (s\<lparr>child := [], f_count := (\<lambda>f. f_count s f - users_of f (child s)),
     i_writecount := (\<lambda>n. i_writecount s n + denials g n (child s)),
     i_mmap_writable := (\<lambda>n. i_mmap_writable s n - sharers g n (child s)),
     committed := committed s - charges g (child s), n_areas := n_areas s - int (length (child s)),
     n_policies := n_policies s - int (length (child s))\<rparr>, map (\<lambda>_. 0) rss, 0))"

definition sample_env0 :: "int life_env" where
  "sample_env0 = \<lparr>areas = sample_mm_env, init_mm = 0, cur_ptr = 1, cur_task = blank_task, current_user_ns = 3, zero_stats = 0,
     total_vm = id, get_mm_rss = sum_list, MMF_INIT_MASK = 0, VM_INIT_DEF_MASK = 0, new_descriptor = Some 5, pgd_alloc = Some 9,
     init_new_context_ok = True, copied_rss = [0, 0, 0, 0], copied_pgtables = 0, try_module_get = True,
     exit_mmap = unmap_all sample_mm_env, mmdrop = (\<lambda>_ _. None)\<rparr>"

definition sample_env :: "nat \<Rightarrow> int life_env" where
  "sample_env a = sample_env0\<lparr>new_descriptor := Some a, mmdrop := (\<lambda>a w. case dec_count a w of None \<Rightarrow> None
     | Some (z, w) \<Rightarrow> if z then mmdrop_final sample_env0 a w else Some w)\<rparr>"

definition sample_mw :: "int mw" where
  "sample_mw = \<lparr>kern = empty_mm, mms = Map.empty, n_pgds = 7, n_contexts = 7, ns_count = (\<lambda>_. 2), module_count = (\<lambda>_. 1),
     works = [], alerts = [], default_dump_filter = 0\<rparr>"

lemma sample_env_ok: "env_ok (sample_env 5) (sample_env a)"
proof -
  have e: "mmdrop_final (sample_env a) = mmdrop_final sample_env0" by (simp add: fun_eq_iff mmdrop_final_def sample_env_def)
  have "drops (sample_env a)" unfolding drops_def e by (simp add: sample_env_def)
  then show ?thesis
    by (simp add: env_ok_def) (simp add: sample_env_def sample_env0_def unmaps_def unmap_all_def list_all_iff)
qed

text \<open>
  A descriptor is made, \<open>execve\<close> maps two areas of file 7 into it and sets the binary format,
  and the executable file is set.
\<close>

definition sample_mw1 :: "int mw" where
  "sample_mw1 = snd (the (mm_alloc (sample_env 5) sample_mw))"

definition sample_mw2 :: "int mw" where
  "sample_mw2 = (upd_mm 5 (\<lambda>m. m\<lparr>mmap := [sample_area 1 {VM_LOCKED, VM_ACCOUNT}, sample_area 5 {VM_DENYWRITE, VM_SHARED}],
       mm_map_count := 2, mm_stats := 4, rss_stat := [3, 0, 0, 0], pgtables_bytes := 4096, binfmt := Some 2\<rparr>) sample_mw1)
     \<lparr>kern := empty_mm\<lparr>f_count := (\<lambda>_. 4)(7 := 6), i_writecount := (\<lambda>_. 0)(7 := - 1), i_mmap_writable := (\<lambda>_. 0)(7 := 1),
        committed := 22, n_areas := 5, n_policies := 5\<rparr>, module_count := (\<lambda>_. 1)(2 := 2)\<rparr>"

definition sample_mw3 :: "int mw" where
  "sample_mw3 = the (set_exe 5 (Some 7) sample_mw2)"

lemmas sample_defs = sample_mw_def sample_env_def sample_env0_def blank_task_def

lemma sample_alloc:
  "mm_alloc (sample_env 5) sample_mw = Some (Some 5, sample_mw1)" "mms sample_mw1 = [5 \<mapsto> (zero_mm sample_env0)\<lparr>mm_users := 1, mm_count := 1,
     pgd := Some 9, owner := Some 1, user_ns := 3\<rparr>]"
  "works sample_mw1 = []" "alerts sample_mw1 = []" "kern sample_mw1 = empty_mm" "n_pgds sample_mw1 = 8" "n_contexts sample_mw1 = 8"
  "ns_count sample_mw1 = (\<lambda>_. 2)(3 := 3)" "module_count sample_mw1 = (\<lambda>_. 1)"
  by (simp_all add: mm_alloc_def mm_init_def mm_alloc_pgd_def sample_defs mm_init_fields_def mm_init_owner_def zero_mm_def
      sample_mw1_def upd_mm_def resident_page_types_def numeral_eq_Suc Let_def)

lemma sample_mapped: "outside (sample_env 5) 5 sample_mw1 sample_mw2"
proof -
  let ?m = "the (mms sample_mw2 5)" and ?g = "areas (sample_env 5)"
  have "level sample_mw2 r = level sample_mw1 r - owns ?g True (the (mms sample_mw1 5)) r + owns ?g True ?m r" for r
    by (cases r) (auto simp: sample_mw2_def sample_alloc zero_mm_def empty_mm_def users_of_def denials_def sharers_def charges_def
        sample_area_def sample_defs sample_mm_env_def)
  then show ?thesis unfolding outside_def
    by (intro exI [of _ "the (mms sample_mw1 5)"] exI [of _ ?m]) (simp add: sample_mw2_def sample_alloc fun_eq_iff)
qed

lemma sample_exe: "set_exe 5 (Some 7) sample_mw2 = Some sample_mw3"
  by (simp add: sample_mw3_def set_exe_def sample_mw2_def sample_alloc)

lemma sample_reach: "mm_reach (sample_env 5) sample_mw (sample_mw3, (\<lambda>_. 0)(5 := 1), \<lambda>_. 0)"
proof -
  let ?h = "(\<lambda>_. 0)(5 := 1) :: nat \<Rightarrow> nat" and ?g = "sample_env 5"
  have "call_ok ?g sample_mw" by (simp add: call_ok_def sample_defs)
  from mm_step.alloc [OF sample_env_ok this sample_alloc(1)] have "mm_step ?g (sample_mw, \<lambda>_. 0, \<lambda>_. 0) (sample_mw1, ?h, \<lambda>_. 0)" .
  moreover have "mm_step ?g (sample_mw1, ?h, \<lambda>_. 0) (sample_mw2, ?h, \<lambda>_. 0)" using mm_step.map_areas [OF _ sample_mapped] by simp
  moreover have "mm_step ?g (sample_mw2, ?h, \<lambda>_. 0) (sample_mw3, ?h, \<lambda>_. 0)" using mm_step.exe [OF _ sample_exe] by simp
  moreover have "mm_reach ?g sample_mw (sample_mw, \<lambda>_. 0, \<lambda>_. 0)" by (rule mm_reach.start) (simp_all add: sample_mw_def)
  ultimately show ?thesis by (blast intro: mm_reach.step)
qed

definition sample_mm :: "int mm_struct" where
  "sample_mm = (zero_mm sample_env0)\<lparr>mm_users := 1, mm_count := 1, pgd := Some 9, owner := Some 1, user_ns := 3,
     mmap := [sample_area 1 {VM_LOCKED, VM_ACCOUNT}, sample_area 5 {VM_DENYWRITE, VM_SHARED}], mm_map_count := 2,
     mm_stats := 4, rss_stat := [3, 0, 0, 0], pgtables_bytes := 4096, binfmt := Some 2, mm_exe_file := Some 7\<rparr>"

lemma sample_state:
  "mms sample_mw3 = [5 \<mapsto> sample_mm]" "works sample_mw3 = []" "module_count sample_mw3 = (\<lambda>_. 1)(2 := 2)"
  "level sample_mw3 (File 7) = 7" "level sample_mw3 (Denial 7) = - 1" "level sample_mw3 Committed = 22" "level sample_mw3 (Module 2) = 2"
  "f_count (kern sample_mw3) 7 = 7"
  by (simp_all add: sample_mw3_def set_exe_def sample_mw2_def sample_alloc store_view_def mm_view_def set_mm_exe_file_def get_file_def
      sample_mm_def zero_mm_def empty_mm_def)

lemma sample_call: "call_ok (sample_env 6) sample_mw3"
  by (simp add: call_ok_def sample_state sample_defs)

text \<open>The module of the binary format is being unloaded.\<close>

definition unloading :: "int life_env" where
  "unloading = (sample_env 6)\<lparr>try_module_get := False\<rparr>"

lemma unloading_ok: "env_ok (sample_env 5) unloading" "call_ok unloading sample_mw3"
proof -
  have e: "mmdrop_final unloading = mmdrop_final (sample_env 6)" by (simp add: fun_eq_iff mmdrop_final_def unloading_def)
  have "mmdrop unloading = mmdrop (sample_env 6)" by (simp add: unloading_def)
  with sample_env_ok [of 6] have "drops unloading" unfolding env_ok_def drops_def e by simp
  with sample_env_ok [of 6] show "env_ok (sample_env 5) unloading" by (simp add: env_ok_def unloading_def)
  from sample_call show "call_ok unloading sample_mw3" by (simp add: call_ok_def unloading_def)
qed

theorem mm_life_safe_witness:
  "mmput (sample_env 5) 5 sample_mw3 \<noteq> None \<and> dup_mm (sample_env 6) 1 5 sample_mw3 \<noteq> None \<and>
    level sample_mw3 (File 7) = 4 + owns sample_mm_env True sample_mm (File 7) \<and> owns sample_mm_env True sample_mm (File 7) = 3 \<and>
    level sample_mw3 (Module 2) = 1 + owns sample_mm_env True sample_mm (Module 2)"
proof -
  let ?u = "in_use sample_mw3 ((\<lambda>_. 0)(5 := 1))"
  have u: "5 \<in> ?u" by (simp add: in_use_def)
  note T = mm_life_safe [OF sample_reach, of 1]
  from T have "level sample_mw3 r = level sample_mw r + owned (areas (sample_env 5)) ?u (mms sample_mw3) r" for r by blast
  then have l: "level sample_mw3 r = level sample_mw r + owns sample_mm_env True sample_mm r" for r
    using u by (simp add: owned_def sample_state) (simp add: sample_env_def sample_env0_def)
  have "level sample_mw (File 7) = 4" "level sample_mw (Module 2) = 1" by (simp_all add: sample_mw_def empty_mm_def)
  moreover from T sample_env_ok sample_call have "mmput (sample_env 5) 5 sample_mw3 \<noteq> None" "dup_mm (sample_env 6) 1 5 sample_mw3 \<noteq> None"
    by auto
  moreover have "owns sample_mm_env True sample_mm (File 7) = 3" by (simp add: sample_mm_def users_of_def sample_area_def)
  ultimately show ?thesis using l [of "File 7"] l [of "Module 2"] by simp
qed

text \<open>
  With the module gone the copy is given up after the areas are copied, and nothing is left
  of it; otherwise both areas are copied, and their files and the module are held once more.
\<close>

lemma sample_answer: "dup_mmap_answer (sample_env 6) 1 5 sample_mw3 = None"
  by (simp add: dup_mmap_answer_def sample_state mm_init_def mm_alloc_pgd_def mm_view_def sample_defs sample_mm_def
      dup_mmap_def dup_body_def dup_area_def copy_area_def vm_area_dup_def link_area_def share_file_def get_mm_exe_file_def
      get_file_def mm_lock_def mm_unlock_def sample_mm_env_def sample_area_def Let_def)

theorem dup_mm_all_or_nothing_witness:
  "(\<exists>w'. dup_mm unloading 1 5 sample_mw3 = Some (None, w') \<and> mms w' = [5 \<mapsto> sample_mm] \<and> level w' (Module 2) = 2 \<and> level w' (File 7) = 7) \<and>
    (\<exists>m w'. dup_mm (sample_env 6) 1 5 sample_mw3 = Some (Some 6, w') \<and> mms w' = [5 \<mapsto> sample_mm, 6 \<mapsto> m] \<and>
      length (mmap m) = 2 \<and> binfmt m = Some 2 \<and> mm_exe_file m = Some 7 \<and> level w' (Module 2) = 3)"
proof
  note D = dup_mm_all_or_nothing [OF sample_reach, where b = 5 and tsk = 1]
  from D [OF unloading_ok] obtain r w' where d: "dup_mm unloading 1 5 sample_mw3 = Some (r, w')"
    "r = None \<Longrightarrow> mms w' = mms sample_mw3 \<and> (\<forall>q. level w' q = level sample_mw3 q)" by (auto simp: sample_state)
  have "r = None" using dup_mm_succeeds [OF d(1)] by (simp add: mm_answers_def sample_state sample_mm_def unloading_def)
  with d have "mms w' = [5 \<mapsto> sample_mm]" "level w' (Module 2) = 2" "level w' (File 7) = 7" by (simp_all only: sample_state)
  with d(1) \<open>r = None\<close> show "\<exists>w'. dup_mm unloading 1 5 sample_mw3 = Some (None, w') \<and> mms w' = [5 \<mapsto> sample_mm] \<and>
    level w' (Module 2) = 2 \<and> level w' (File 7) = 7" by blast
next
  note D = dup_mm_all_or_nothing [OF sample_reach, where b = 5 and tsk = 1]
  from D [OF sample_env_ok sample_call] obtain r w' where d: "dup_mm (sample_env 6) 1 5 sample_mw3 = Some (r, w')"
    "\<And>a. r = Some a \<Longrightarrow> \<exists>m. mms w' = (mms sample_mw3)(a \<mapsto> m) \<and> is_dup (areas (sample_env 6)) (f_count (kern sample_mw3)) a sample_mm m \<and>
      (\<forall>q. level w' q = level sample_mw3 q + owns (areas (sample_env 5)) True m q)" by (auto simp: sample_state)
  have "r = Some 6"
    using dup_mm_succeeds [OF d(1)] dup_mm_new [OF d(1)] sample_answer by (auto simp: mm_answers_def sample_defs)
  with d(2) obtain m where m: "mms w' = [5 \<mapsto> sample_mm, 6 \<mapsto> m]" "is_dup (areas (sample_env 6)) (f_count (kern sample_mw3)) 6 sample_mm m"
    "level w' (Module 2) = 2 + owns (areas (sample_env 5)) True m (Module 2)" by (force simp only: sample_state)
  from m(2) have "length (mmap m) = 2" "binfmt m = Some 2" "mm_exe_file m = Some 7"
    by (auto simp: is_dup_def sample_mm_def live_file_def sample_state copied_def sample_area_def dest!: list_all2_lengthD)
  with m(1,3) d(1) \<open>r = Some 6\<close>
  show "\<exists>m w'. dup_mm (sample_env 6) 1 5 sample_mw3 = Some (Some 6, w') \<and> mms w' = [5 \<mapsto> sample_mm, 6 \<mapsto> m] \<and>
      length (mmap m) = 2 \<and> binfmt m = Some 2 \<and> mm_exe_file m = Some 7 \<and> level w' (Module 2) = 3" by auto
qed

theorem mm_refines_copy_process_witness:
  "users_tab sample_mw3 = [5 \<mapsto> 1] \<and> (\<exists>w'. mmput (sample_env 6) 5 sample_mw3 = Some w' \<and> users_tab w' = Map.empty) \<and>
    (\<exists>s w'. dup_mm unloading 1 5 sample_mw3 = Some (None, w') \<and>
      Copy_Process.dup_mm (mm_answers unloading 1 5 sample_mw3 demo_env) s = Some (None, s\<lparr>mm_tab := users_tab w'\<rparr>))"
proof -
  have t: "users_tab sample_mw3 = [5 \<mapsto> 1]" by (auto simp: users_tab_def sample_state sample_mm_def fun_eq_iff)
  obtain s :: kst where s: "mm_tab s = users_tab sample_mw3" by (metis kst.select_convs(6))
  note T = mm_refines_copy_process [OF sample_reach, where a = 5 and s = s and tsk = 1]
  from T [OF sample_env_ok [of 6] s] obtain w' where
    w': "mmput (sample_env 6) 5 sample_mw3 = Some w'" "Copy_Process.mmput 5 s = Some (s\<lparr>mm_tab := users_tab w'\<rparr>)" by auto
  then have "mm_tab (the (Copy_Process.mmput 5 s)) = users_tab w'" by simp
  with s t have "users_tab w' = Map.empty" by (auto simp: Copy_Process.mmput_def put_ref_def)
  moreover from T [OF unloading_ok(1) s] unloading_ok(2) obtain r w'' where d: "dup_mm unloading 1 5 sample_mw3 = Some (r, w'')"
    "Copy_Process.dup_mm (mm_answers unloading 1 5 sample_mw3 demo_env) s = Some (r, s\<lparr>mm_tab := users_tab w''\<rparr>)" by auto
  moreover have "r = None" using dup_mm_succeeds [OF d(1)] by (simp add: mm_answers_def sample_state sample_mm_def unloading_def)
  ultimately show ?thesis using w'(1) t by blast
qed

end
