(* ===== verification/Task_Flags.thy ===== *)
theory Task_Flags
  imports Fork_Base
begin

text \<open>
  The flag words of a task and the helpers of \<open>Assignment3-1/sched.h\<close> that change them: the task
  state with its debugging checks, the per-process flags, the atomic flags, the thread flags
  and the events of restartable sequences; and \<open>copy_seccomp\<close> of \<open>fork.c\<close>, which combines them.
  \<open>set_bit\<close>, \<open>clear_bit\<close> and \<open>test_bit\<close> of the kernel are the operations on bits of words. Numbers of
  bits that other headers define are in \<open>bit_numbers\<close>. Memory barriers and the disabling of
  preemption are not modelled.
\<close>

section \<open>The fields\<close>

record flags_task = task_struct +
  thread_flags :: "64 word"
  nr_cpus_allowed :: int
  atomic_flags :: "64 word"
  seccomp_mode :: nat
  seccomp_filter :: "nat option"
  task_state_change :: nat

record bit_numbers =
  TIF_NEED_RESCHED :: nat
  TIF_NOTIFY_RESUME :: nat
  TIF_SECCOMP :: nat
  RSEQ_EVENT_PREEMPT_BIT :: nat
  RSEQ_EVENT_SIGNAL_BIT :: nat
  RSEQ_EVENT_MIGRATE_BIT :: nat

section \<open>The task state\<close>

definition is_special_task_state :: "64 word \<Rightarrow> bool" where
  "is_special_task_state st \<longleftrightarrow> st AND (TASK_STOPPED_bit OR TASK_TRACED_bit OR TASK_PARKED OR TASK_DEAD) \<noteq> 0"

text \<open>With \<open>CONFIG_DEBUG_ATOMIC_SLEEP\<close>: the task and whether \<open>WARN_ON_ONCE\<close> fires; \<open>ip\<close> is \<open>_THIS_IP_\<close>.\<close>

definition set_current_state_plain_debug :: "nat \<Rightarrow> 64 word \<Rightarrow> 'a flags_task_scheme \<Rightarrow> 'a flags_task_scheme \<times> bool" where
  "set_current_state_plain_debug ip st t = (t\<lparr>task_state_change := ip, state := st\<rparr>, is_special_task_state st)"

definition set_current_state_debug :: "nat \<Rightarrow> 64 word \<Rightarrow> 'a flags_task_scheme \<Rightarrow> 'a flags_task_scheme \<times> bool" where
  "set_current_state_debug ip st t = (t\<lparr>task_state_change := ip, state := st\<rparr>, is_special_task_state st)"

definition set_special_state_debug :: "nat \<Rightarrow> 64 word \<Rightarrow> 'a flags_task_scheme \<Rightarrow> 'a flags_task_scheme \<times> bool" where
  "set_special_state_debug ip st t = (t\<lparr>task_state_change := ip, state := st\<rparr>, \<not> is_special_task_state st)"

text \<open>Without it.\<close>

definition set_current_state_plain :: "64 word \<Rightarrow> 'a flags_task_scheme \<Rightarrow> 'a flags_task_scheme" where
  "set_current_state_plain st t = t\<lparr>state := st\<rparr>"

definition set_current_state :: "64 word \<Rightarrow> 'a flags_task_scheme \<Rightarrow> 'a flags_task_scheme" where
  "set_current_state st t = t\<lparr>state := st\<rparr>"

definition set_special_state :: "64 word \<Rightarrow> 'a flags_task_scheme \<Rightarrow> 'a flags_task_scheme" where
  "set_special_state st t = t\<lparr>state := st\<rparr>"

section \<open>Per-process flags\<close>

definition clear_stopped_child_used_math :: "'a flags_task_scheme \<Rightarrow> 'a flags_task_scheme" where
  "clear_stopped_child_used_math c = c\<lparr>flags := flags c AND NOT PF_USED_MATH\<rparr>"

definition set_stopped_child_used_math :: "'a flags_task_scheme \<Rightarrow> 'a flags_task_scheme" where
  "set_stopped_child_used_math c = c\<lparr>flags := flags c OR PF_USED_MATH\<rparr>"

definition conditional_stopped_child_used_math :: "bool \<Rightarrow> 'a flags_task_scheme \<Rightarrow> 'a flags_task_scheme" where
  "conditional_stopped_child_used_math b c = (let c = c\<lparr>flags := flags c AND NOT PF_USED_MATH\<rparr>
     in c\<lparr>flags := flags c OR (if b then PF_USED_MATH else 0)\<rparr>)"

definition copy_to_stopped_child_used_math :: "'b flags_task_scheme \<Rightarrow> 'a flags_task_scheme \<Rightarrow> 'a flags_task_scheme" where
  "copy_to_stopped_child_used_math current c = (let c = c\<lparr>flags := flags c AND NOT PF_USED_MATH\<rparr>
     in c\<lparr>flags := flags c OR (flags current AND PF_USED_MATH)\<rparr>)"

definition tsk_used_math :: "'a flags_task_scheme \<Rightarrow> 32 word" where
  "tsk_used_math p = flags p AND PF_USED_MATH"

definition is_percpu_thread :: "'a flags_task_scheme \<Rightarrow> bool" where
  "is_percpu_thread current \<longleftrightarrow> flags current AND PF_NO_SETAFFINITY \<noteq> 0 \<and> nr_cpus_allowed current = 1"

section \<open>Atomic flags\<close>

definition PFA_NO_NEW_PRIVS :: nat where "PFA_NO_NEW_PRIVS = 0"
definition PFA_SPREAD_PAGE :: nat where "PFA_SPREAD_PAGE = 1"
definition PFA_SPREAD_SLAB :: nat where "PFA_SPREAD_SLAB = 2"
definition PFA_SPEC_SSB_DISABLE :: nat where "PFA_SPEC_SSB_DISABLE = 3"
definition PFA_SPEC_SSB_FORCE_DISABLE :: nat where "PFA_SPEC_SSB_FORCE_DISABLE = 4"
definition PFA_SPEC_IB_DISABLE :: nat where "PFA_SPEC_IB_DISABLE = 5"
definition PFA_SPEC_IB_FORCE_DISABLE :: nat where "PFA_SPEC_IB_FORCE_DISABLE = 6"
definition PFA_SPEC_SSB_NOEXEC :: nat where "PFA_SPEC_SSB_NOEXEC = 7"

lemmas pfa_defs = PFA_NO_NEW_PRIVS_def PFA_SPREAD_PAGE_def PFA_SPREAD_SLAB_def PFA_SPEC_SSB_DISABLE_def
  PFA_SPEC_SSB_FORCE_DISABLE_def PFA_SPEC_IB_DISABLE_def PFA_SPEC_IB_FORCE_DISABLE_def PFA_SPEC_SSB_NOEXEC_def

text \<open>The three macros, with the number of the bit.\<close>

definition TASK_PFA_TEST :: "nat \<Rightarrow> 'a flags_task_scheme \<Rightarrow> bool" where
  "TASK_PFA_TEST n p = bit (atomic_flags p) n"

definition TASK_PFA_SET :: "nat \<Rightarrow> 'a flags_task_scheme \<Rightarrow> 'a flags_task_scheme" where
  "TASK_PFA_SET n p = p\<lparr>atomic_flags := set_bit n (atomic_flags p)\<rparr>"

definition TASK_PFA_CLEAR :: "nat \<Rightarrow> 'a flags_task_scheme \<Rightarrow> 'a flags_task_scheme" where
  "TASK_PFA_CLEAR n p = p\<lparr>atomic_flags := unset_bit n (atomic_flags p)\<rparr>"

definition task_no_new_privs :: "'a flags_task_scheme \<Rightarrow> bool" where
  "task_no_new_privs = TASK_PFA_TEST PFA_NO_NEW_PRIVS"

definition task_set_no_new_privs :: "'a flags_task_scheme \<Rightarrow> 'a flags_task_scheme" where
  "task_set_no_new_privs = TASK_PFA_SET PFA_NO_NEW_PRIVS"

definition task_spread_page :: "'a flags_task_scheme \<Rightarrow> bool" where
  "task_spread_page = TASK_PFA_TEST PFA_SPREAD_PAGE"

definition task_set_spread_page :: "'a flags_task_scheme \<Rightarrow> 'a flags_task_scheme" where
  "task_set_spread_page = TASK_PFA_SET PFA_SPREAD_PAGE"

definition task_clear_spread_page :: "'a flags_task_scheme \<Rightarrow> 'a flags_task_scheme" where
  "task_clear_spread_page = TASK_PFA_CLEAR PFA_SPREAD_PAGE"

definition task_spread_slab :: "'a flags_task_scheme \<Rightarrow> bool" where
  "task_spread_slab = TASK_PFA_TEST PFA_SPREAD_SLAB"

definition task_set_spread_slab :: "'a flags_task_scheme \<Rightarrow> 'a flags_task_scheme" where
  "task_set_spread_slab = TASK_PFA_SET PFA_SPREAD_SLAB"

definition task_clear_spread_slab :: "'a flags_task_scheme \<Rightarrow> 'a flags_task_scheme" where
  "task_clear_spread_slab = TASK_PFA_CLEAR PFA_SPREAD_SLAB"

definition task_spec_ssb_disable :: "'a flags_task_scheme \<Rightarrow> bool" where
  "task_spec_ssb_disable = TASK_PFA_TEST PFA_SPEC_SSB_DISABLE"

definition task_set_spec_ssb_disable :: "'a flags_task_scheme \<Rightarrow> 'a flags_task_scheme" where
  "task_set_spec_ssb_disable = TASK_PFA_SET PFA_SPEC_SSB_DISABLE"

definition task_clear_spec_ssb_disable :: "'a flags_task_scheme \<Rightarrow> 'a flags_task_scheme" where
  "task_clear_spec_ssb_disable = TASK_PFA_CLEAR PFA_SPEC_SSB_DISABLE"

definition task_spec_ssb_noexec :: "'a flags_task_scheme \<Rightarrow> bool" where
  "task_spec_ssb_noexec = TASK_PFA_TEST PFA_SPEC_SSB_NOEXEC"

definition task_set_spec_ssb_noexec :: "'a flags_task_scheme \<Rightarrow> 'a flags_task_scheme" where
  "task_set_spec_ssb_noexec = TASK_PFA_SET PFA_SPEC_SSB_NOEXEC"

definition task_clear_spec_ssb_noexec :: "'a flags_task_scheme \<Rightarrow> 'a flags_task_scheme" where
  "task_clear_spec_ssb_noexec = TASK_PFA_CLEAR PFA_SPEC_SSB_NOEXEC"

definition task_spec_ssb_force_disable :: "'a flags_task_scheme \<Rightarrow> bool" where
  "task_spec_ssb_force_disable = TASK_PFA_TEST PFA_SPEC_SSB_FORCE_DISABLE"

definition task_set_spec_ssb_force_disable :: "'a flags_task_scheme \<Rightarrow> 'a flags_task_scheme" where
  "task_set_spec_ssb_force_disable = TASK_PFA_SET PFA_SPEC_SSB_FORCE_DISABLE"

definition task_spec_ib_disable :: "'a flags_task_scheme \<Rightarrow> bool" where
  "task_spec_ib_disable = TASK_PFA_TEST PFA_SPEC_IB_DISABLE"

definition task_set_spec_ib_disable :: "'a flags_task_scheme \<Rightarrow> 'a flags_task_scheme" where
  "task_set_spec_ib_disable = TASK_PFA_SET PFA_SPEC_IB_DISABLE"

definition task_clear_spec_ib_disable :: "'a flags_task_scheme \<Rightarrow> 'a flags_task_scheme" where
  "task_clear_spec_ib_disable = TASK_PFA_CLEAR PFA_SPEC_IB_DISABLE"

definition task_spec_ib_force_disable :: "'a flags_task_scheme \<Rightarrow> bool" where
  "task_spec_ib_force_disable = TASK_PFA_TEST PFA_SPEC_IB_FORCE_DISABLE"

definition task_set_spec_ib_force_disable :: "'a flags_task_scheme \<Rightarrow> 'a flags_task_scheme" where
  "task_set_spec_ib_force_disable = TASK_PFA_SET PFA_SPEC_IB_FORCE_DISABLE"

lemmas pfa_helpers = task_no_new_privs_def task_set_no_new_privs_def task_spread_page_def
  task_set_spread_page_def task_clear_spread_page_def task_spread_slab_def task_set_spread_slab_def
  task_clear_spread_slab_def task_spec_ssb_disable_def task_set_spec_ssb_disable_def
  task_clear_spec_ssb_disable_def task_spec_ssb_noexec_def task_set_spec_ssb_noexec_def
  task_clear_spec_ssb_noexec_def task_spec_ssb_force_disable_def task_set_spec_ssb_force_disable_def
  task_spec_ib_disable_def task_set_spec_ib_disable_def task_clear_spec_ib_disable_def
  task_spec_ib_force_disable_def task_set_spec_ib_force_disable_def

section \<open>Thread flags\<close>

definition set_tsk_thread_flag :: "nat \<Rightarrow> 'a flags_task_scheme \<Rightarrow> 'a flags_task_scheme" where
  "set_tsk_thread_flag n t = t\<lparr>thread_flags := set_bit n (thread_flags t)\<rparr>"

definition clear_tsk_thread_flag :: "nat \<Rightarrow> 'a flags_task_scheme \<Rightarrow> 'a flags_task_scheme" where
  "clear_tsk_thread_flag n t = t\<lparr>thread_flags := unset_bit n (thread_flags t)\<rparr>"

definition test_tsk_thread_flag :: "nat \<Rightarrow> 'a flags_task_scheme \<Rightarrow> bool" where
  "test_tsk_thread_flag n t = bit (thread_flags t) n"

definition update_tsk_thread_flag :: "nat \<Rightarrow> bool \<Rightarrow> 'a flags_task_scheme \<Rightarrow> 'a flags_task_scheme" where
  "update_tsk_thread_flag n b t = (if b then set_tsk_thread_flag n t else clear_tsk_thread_flag n t)"

definition test_and_set_tsk_thread_flag :: "nat \<Rightarrow> 'a flags_task_scheme \<Rightarrow> bool \<times> 'a flags_task_scheme" where
  "test_and_set_tsk_thread_flag n t = (test_tsk_thread_flag n t, set_tsk_thread_flag n t)"

definition test_and_clear_tsk_thread_flag :: "nat \<Rightarrow> 'a flags_task_scheme \<Rightarrow> bool \<times> 'a flags_task_scheme" where
  "test_and_clear_tsk_thread_flag n t = (test_tsk_thread_flag n t, clear_tsk_thread_flag n t)"

definition set_tsk_need_resched :: "bit_numbers \<Rightarrow> 'a flags_task_scheme \<Rightarrow> 'a flags_task_scheme" where
  "set_tsk_need_resched b = set_tsk_thread_flag (TIF_NEED_RESCHED b)"

definition clear_tsk_need_resched :: "bit_numbers \<Rightarrow> 'a flags_task_scheme \<Rightarrow> 'a flags_task_scheme" where
  "clear_tsk_need_resched b = clear_tsk_thread_flag (TIF_NEED_RESCHED b)"

definition test_tsk_need_resched :: "bit_numbers \<Rightarrow> 'a flags_task_scheme \<Rightarrow> bool" where
  "test_tsk_need_resched b = test_tsk_thread_flag (TIF_NEED_RESCHED b)"

section \<open>Restartable sequences\<close>

definition rseq_set_notify_resume :: "bit_numbers \<Rightarrow> 'a flags_task_scheme \<Rightarrow> 'a flags_task_scheme" where
  "rseq_set_notify_resume b t = (if rseq t \<noteq> None then set_tsk_thread_flag (TIF_NOTIFY_RESUME b) t else t)"

definition rseq_handle_notify_resume :: "('a flags_task_scheme \<Rightarrow> 'a flags_task_scheme) \<Rightarrow> 'a flags_task_scheme \<Rightarrow> 'a flags_task_scheme" where
  "rseq_handle_notify_resume handle t = (if rseq t \<noteq> None then handle t else t)"

definition rseq_signal_deliver ::
  "bit_numbers \<Rightarrow> ('a flags_task_scheme \<Rightarrow> 'a flags_task_scheme) \<Rightarrow> 'a flags_task_scheme \<Rightarrow> 'a flags_task_scheme" where
  "rseq_signal_deliver b handle t = rseq_handle_notify_resume handle
     (t\<lparr>rseq_event_mask := set_bit (RSEQ_EVENT_SIGNAL_BIT b) (rseq_event_mask t)\<rparr>)"

definition rseq_preempt :: "bit_numbers \<Rightarrow> 'a flags_task_scheme \<Rightarrow> 'a flags_task_scheme" where
  "rseq_preempt b t = rseq_set_notify_resume b
     (t\<lparr>rseq_event_mask := set_bit (RSEQ_EVENT_PREEMPT_BIT b) (rseq_event_mask t)\<rparr>)"

definition rseq_migrate :: "bit_numbers \<Rightarrow> 'a flags_task_scheme \<Rightarrow> 'a flags_task_scheme" where
  "rseq_migrate b t = rseq_set_notify_resume b
     (t\<lparr>rseq_event_mask := set_bit (RSEQ_EVENT_MIGRATE_BIT b) (rseq_event_mask t)\<rparr>)"

section \<open>Forking a task with a seccomp filter\<close>

text \<open>
  \<open>refs\<close> counts the references to filters, which \<open>get_seccomp_filter\<close> and \<open>put_seccomp_filter\<close> change;
  mode 0 is \<open>SECCOMP_MODE_DISABLED\<close>. \<open>dup_seccomp\<close> is what \<open>dup_task_struct\<close> does to the copy.
\<close>

definition get_filter :: "nat option \<Rightarrow> (nat \<Rightarrow> int) \<Rightarrow> nat \<Rightarrow> int" where
  "get_filter f refs = (case f of None \<Rightarrow> refs | Some x \<Rightarrow> refs(x := refs x + 1))"

definition put_filter :: "nat option \<Rightarrow> (nat \<Rightarrow> int) \<Rightarrow> nat \<Rightarrow> int" where
  "put_filter f refs = (case f of None \<Rightarrow> refs | Some x \<Rightarrow> refs(x := refs x - 1))"

definition dup_seccomp :: "bit_numbers \<Rightarrow> 'a flags_task_scheme \<Rightarrow> 'a flags_task_scheme" where
  "dup_seccomp b orig = clear_tsk_need_resched b (orig\<lparr>seccomp_filter := None\<rparr>)"

definition copy_seccomp ::
  "bit_numbers \<Rightarrow> 'b flags_task_scheme \<Rightarrow> 'a flags_task_scheme \<times> (nat \<Rightarrow> int) \<Rightarrow> 'a flags_task_scheme \<times> (nat \<Rightarrow> int)" where
  "copy_seccomp b current = (\<lambda>(p, refs).
     let refs = get_filter (seccomp_filter current) refs;
         p = p\<lparr>seccomp_mode := seccomp_mode current, seccomp_filter := seccomp_filter current\<rparr>;
         p = (if task_no_new_privs current then task_set_no_new_privs p else p);
         p = (if seccomp_mode p \<noteq> 0 then set_tsk_thread_flag (TIF_SECCOMP b) p else p)
     in (p, refs))"

section \<open>Words of bits\<close>

text \<open>The contract that the atomic flags, the thread flags and the event mask share.\<close>

datatype bit_op = Set_bit nat | Clear_bit nat

fun bit_step :: "(nat \<Rightarrow> 'p \<Rightarrow> 'p) \<Rightarrow> (nat \<Rightarrow> 'p \<Rightarrow> 'p) \<Rightarrow> bit_op \<Rightarrow> 'p \<Rightarrow> 'p" where
  "bit_step put clr (Set_bit n) = put n"
| "bit_step put clr (Clear_bit n) = clr n"

fun latest :: "nat \<Rightarrow> bit_op list \<Rightarrow> bool \<Rightarrow> bool" where
  "latest n [] b = b"
| "latest n (Set_bit m # ops) b = latest n ops (m = n \<or> b)"
| "latest n (Clear_bit m # ops) b = latest n ops (m \<noteq> n \<and> b)"

lemma latest_sticky: "Clear_bit n \<notin> set ops \<Longrightarrow> latest n ops b \<longleftrightarrow> b \<or> Set_bit n \<in> set ops"
  by (induction n ops b rule: latest.induct) auto

lemma latest_append: "latest n (xs @ ys) b = latest n ys (latest n xs b)"
  by (induction n xs b rule: latest.induct) auto

locale bit_word =
  fixes tst :: "nat \<Rightarrow> 'p \<Rightarrow> bool" and put clr :: "nat \<Rightarrow> 'p \<Rightarrow> 'p" and width :: nat
  assumes tst_put: "n < width \<Longrightarrow> tst m (put n p) \<longleftrightarrow> n = m \<or> tst m p"
    and tst_clr: "tst m (clr n p) \<longleftrightarrow> n \<noteq> m \<and> tst m p"
begin

lemma run_latest:
  assumes "\<forall>n. Set_bit n \<in> set ops \<longrightarrow> n < width"
  shows "tst m (fold (bit_step put clr) ops p) = latest m ops (tst m p)"
  using assms
proof (induction ops arbitrary: p)
  case (Cons x ops) then show ?case by (cases x) (auto simp: tst_put tst_clr)
qed simp

lemma run_sticky:
  assumes "\<forall>n. Set_bit n \<in> set ops \<longrightarrow> n < width" "Clear_bit m \<notin> set ops"
  shows "tst m (fold (bit_step put clr) ops p) \<longleftrightarrow> tst m p \<or> Set_bit m \<in> set ops"
  using assms run_latest latest_sticky by blast

end

interpretation pfa: bit_word TASK_PFA_TEST TASK_PFA_SET TASK_PFA_CLEAR 64
  by unfold_locales (auto simp: TASK_PFA_TEST_def TASK_PFA_SET_def TASK_PFA_CLEAR_def bit_simps)

interpretation tif: bit_word test_tsk_thread_flag set_tsk_thread_flag clear_tsk_thread_flag 64
  by unfold_locales (auto simp: test_tsk_thread_flag_def set_tsk_thread_flag_def clear_tsk_thread_flag_def bit_simps)

section \<open>Histories of a task\<close>

text \<open>
  A call of one of the helpers; \<open>handle\<close> is \<open>__rseq_handle_notify_resume\<close>, which is outside this file,
  with a parameter that says what it does at this call.
\<close>

datatype task_op = Set_state "64 word" | Set_special "64 word" | Used_math bool | Set_used_math | Clear_used_math | Copy_used_math flags_task
  | Restore_flags "32 word" "32 word"
  | No_new_privs | Spread_page bool | Spread_slab bool | Spec_ssb_disable bool | Spec_ssb_noexec bool
  | Spec_ssb_force_disable | Spec_ib_disable bool | Spec_ib_force_disable
  | Thread_flag nat bool | Need_resched bool | Rseq_signal bool | Rseq_preempt | Rseq_migrate | Rseq_execve

fun do_op :: "bit_numbers \<Rightarrow> (bool \<Rightarrow> flags_task \<Rightarrow> flags_task) \<Rightarrow> task_op \<Rightarrow> flags_task \<Rightarrow> flags_task" where
  "do_op b handle (Set_state st) = set_current_state st"
| "do_op b handle (Set_special st) = set_special_state st"
| "do_op b handle (Used_math v) = conditional_stopped_child_used_math v"
| "do_op b handle Set_used_math = set_stopped_child_used_math"
| "do_op b handle Clear_used_math = clear_stopped_child_used_math"
| "do_op b handle (Copy_used_math c) = copy_to_stopped_child_used_math c"
| "do_op b handle (Restore_flags orig fl) = current_restore_flags orig fl"
| "do_op b handle No_new_privs = task_set_no_new_privs"
| "do_op b handle (Spread_page v) = (if v then task_set_spread_page else task_clear_spread_page)"
| "do_op b handle (Spread_slab v) = (if v then task_set_spread_slab else task_clear_spread_slab)"
| "do_op b handle (Spec_ssb_disable v) = (if v then task_set_spec_ssb_disable else task_clear_spec_ssb_disable)"
| "do_op b handle (Spec_ssb_noexec v) = (if v then task_set_spec_ssb_noexec else task_clear_spec_ssb_noexec)"
| "do_op b handle Spec_ssb_force_disable = task_set_spec_ssb_force_disable"
| "do_op b handle (Spec_ib_disable v) = (if v then task_set_spec_ib_disable else task_clear_spec_ib_disable)"
| "do_op b handle Spec_ib_force_disable = task_set_spec_ib_force_disable"
| "do_op b handle (Thread_flag n v) = update_tsk_thread_flag n v"
| "do_op b handle (Need_resched v) = (if v then set_tsk_need_resched b else clear_tsk_need_resched b)"
| "do_op b handle (Rseq_signal v) = rseq_signal_deliver b (handle v)"
| "do_op b handle Rseq_preempt = rseq_preempt b"
| "do_op b handle Rseq_migrate = rseq_migrate b"
| "do_op b handle Rseq_execve = rseq_execve"

text \<open>What a call does to the atomic flags.\<close>

fun pfa_ops :: "task_op \<Rightarrow> bit_op list" where
  "pfa_ops No_new_privs = [Set_bit PFA_NO_NEW_PRIVS]"
| "pfa_ops (Spread_page v) = [if v then Set_bit PFA_SPREAD_PAGE else Clear_bit PFA_SPREAD_PAGE]"
| "pfa_ops (Spread_slab v) = [if v then Set_bit PFA_SPREAD_SLAB else Clear_bit PFA_SPREAD_SLAB]"
| "pfa_ops (Spec_ssb_disable v) = [if v then Set_bit PFA_SPEC_SSB_DISABLE else Clear_bit PFA_SPEC_SSB_DISABLE]"
| "pfa_ops (Spec_ssb_noexec v) = [if v then Set_bit PFA_SPEC_SSB_NOEXEC else Clear_bit PFA_SPEC_SSB_NOEXEC]"
| "pfa_ops Spec_ssb_force_disable = [Set_bit PFA_SPEC_SSB_FORCE_DISABLE]"
| "pfa_ops (Spec_ib_disable v) = [if v then Set_bit PFA_SPEC_IB_DISABLE else Clear_bit PFA_SPEC_IB_DISABLE]"
| "pfa_ops Spec_ib_force_disable = [Set_bit PFA_SPEC_IB_FORCE_DISABLE]"
| "pfa_ops _ = []"

definition history :: "task_op list \<Rightarrow> bit_op list" where
  "history ops = concat (map pfa_ops ops)"

definition handles :: "(bool \<Rightarrow> flags_task \<Rightarrow> flags_task) \<Rightarrow> bool" where
  "handles handle \<longleftrightarrow> (\<forall>v t. atomic_flags (handle v t) = atomic_flags t)"

lemma do_op_atomic:
  assumes "handles handle"
  shows "TASK_PFA_TEST n (do_op b handle x t) = TASK_PFA_TEST n (fold (bit_step TASK_PFA_SET TASK_PFA_CLEAR) (pfa_ops x) t)"
  using assms
  by (cases x) (auto simp: pfa_helpers TASK_PFA_TEST_def TASK_PFA_SET_def TASK_PFA_CLEAR_def handles_def
      set_current_state_def set_special_state_def conditional_stopped_child_used_math_def current_restore_flags_def
      set_stopped_child_used_math_def clear_stopped_child_used_math_def copy_to_stopped_child_used_math_def update_tsk_thread_flag_def set_tsk_thread_flag_def clear_tsk_thread_flag_def set_tsk_need_resched_def
      clear_tsk_need_resched_def rseq_signal_deliver_def rseq_handle_notify_resume_def rseq_preempt_def rseq_migrate_def
      rseq_set_notify_resume_def rseq_execve_def Let_def)

lemma pfa_ops_small: "Set_bit n \<in> set (pfa_ops x) \<Longrightarrow> n < 64"
  by (cases x) (auto simp: pfa_defs split: if_splits)

lemma history_latest:
  assumes "handles handle"
  shows "TASK_PFA_TEST n (fold (do_op b handle) ops t) = latest n (history ops) (TASK_PFA_TEST n t)"
proof (induction ops arbitrary: t)
  case (Cons x ops)
  have "TASK_PFA_TEST n (do_op b handle x t) = latest n (pfa_ops x) (TASK_PFA_TEST n t)"
    using pfa.run_latest [of "pfa_ops x" n t] pfa_ops_small by (auto simp: do_op_atomic [OF assms])
  then show ?case using Cons by (simp add: history_def latest_append)
qed (simp add: history_def)

section \<open>Flag words as sets\<close>

definition pf_list :: "32 word list" where
  "pf_list = [PF_IDLE, PF_EXITING, PF_VCPU, PF_WQ_WORKER, PF_FORKNOEXEC, PF_MCE_PROCESS, PF_SUPERPRIV, PF_DUMPCORE, PF_SIGNALED,
     PF_MEMALLOC, PF_NPROC_EXCEEDED, PF_USED_MATH, PF_NOFREEZE, PF_FROZEN, PF_KSWAPD, PF_MEMALLOC_NOFS, PF_MEMALLOC_NOIO,
     PF_LESS_THROTTLE, PF_KTHREAD, PF_RANDOMIZE, PF_SWAPWRITE, PF_MEMSTALL, PF_UMH, PF_NO_SETAFFINITY, PF_MCE_EARLY,
     PF_MEMALLOC_NOCMA, PF_FREEZER_SKIP, PF_SUSPEND_TASK]"

lemma pf_list_bits: "pf_list = map (\<lambda>n. push_bit n 1) ([1, 2] @ [4..<14] @ [15..<29] @ [30, 31])"
  by (simp add: pf_list_def pf_defs upt_rec_numeral push_bit_eq_mult)

text \<open>
  What a task's words mean: its state, and for each word the set of the numbers of its bits.
  The calls are operations on these sets; 13 is the number of \<open>PF_USED_MATH\<close>, and 0 to 7 are the
  atomic flags in the order of their definitions. A handler that takes the events clears
  them.
\<close>

record task_view =
  v_state :: "64 word"
  v_flags :: "nat set"
  v_atomic :: "nat set"
  v_thread :: "nat set"
  v_events :: "nat set"
  v_rseq :: "nat option"

definition view :: "'a flags_task_scheme \<Rightarrow> task_view" where
  "view t = \<lparr>v_state = state t, v_flags = {n. bit (flags t) n}, v_atomic = {n. bit (atomic_flags t) n},
     v_thread = {n. bit (thread_flags t) n}, v_events = {n. bit (rseq_event_mask t) n}, v_rseq = rseq t\<rparr>"

definition put_in :: "nat \<Rightarrow> bool \<Rightarrow> nat set \<Rightarrow> nat set" where
  "put_in n v X = (if v then insert n X else X - {n})"

definition view_event :: "bit_numbers \<Rightarrow> nat \<Rightarrow> task_view \<Rightarrow> task_view" where
  "view_event b n w = w\<lparr>v_events := insert n (v_events w),
     v_thread := (if v_rseq w = None then v_thread w else insert (TIF_NOTIFY_RESUME b) (v_thread w))\<rparr>"

fun view_op :: "bit_numbers \<Rightarrow> task_op \<Rightarrow> task_view \<Rightarrow> task_view" where
  "view_op b (Set_state st) w = w\<lparr>v_state := st\<rparr>"
| "view_op b (Set_special st) w = w\<lparr>v_state := st\<rparr>"
| "view_op b (Used_math v) w = w\<lparr>v_flags := put_in 13 v (v_flags w)\<rparr>"
| "view_op b Set_used_math w = w\<lparr>v_flags := put_in 13 True (v_flags w)\<rparr>"
| "view_op b Clear_used_math w = w\<lparr>v_flags := put_in 13 False (v_flags w)\<rparr>"
| "view_op b (Copy_used_math c) w = w\<lparr>v_flags := put_in 13 (13 \<in> v_flags (view c)) (v_flags w)\<rparr>"
| "view_op b (Restore_flags orig fl) w = w\<lparr>v_flags := {n. if bit fl n then bit orig n else n \<in> v_flags w}\<rparr>"
| "view_op b No_new_privs w = w\<lparr>v_atomic := put_in 0 True (v_atomic w)\<rparr>"
| "view_op b (Spread_page v) w = w\<lparr>v_atomic := put_in 1 v (v_atomic w)\<rparr>"
| "view_op b (Spread_slab v) w = w\<lparr>v_atomic := put_in 2 v (v_atomic w)\<rparr>"
| "view_op b (Spec_ssb_disable v) w = w\<lparr>v_atomic := put_in 3 v (v_atomic w)\<rparr>"
| "view_op b Spec_ssb_force_disable w = w\<lparr>v_atomic := put_in 4 True (v_atomic w)\<rparr>"
| "view_op b (Spec_ib_disable v) w = w\<lparr>v_atomic := put_in 5 v (v_atomic w)\<rparr>"
| "view_op b Spec_ib_force_disable w = w\<lparr>v_atomic := put_in 6 True (v_atomic w)\<rparr>"
| "view_op b (Spec_ssb_noexec v) w = w\<lparr>v_atomic := put_in 7 v (v_atomic w)\<rparr>"
| "view_op b (Thread_flag n v) w = w\<lparr>v_thread := put_in n v (v_thread w)\<rparr>"
| "view_op b (Need_resched v) w = w\<lparr>v_thread := put_in (TIF_NEED_RESCHED b) v (v_thread w)\<rparr>"
| "view_op b (Rseq_signal taken) w = w\<lparr>v_events :=
     (if taken \<and> v_rseq w \<noteq> None then {} else insert (RSEQ_EVENT_SIGNAL_BIT b) (v_events w))\<rparr>"
| "view_op b Rseq_preempt w = view_event b (RSEQ_EVENT_PREEMPT_BIT b) w"
| "view_op b Rseq_migrate w = view_event b (RSEQ_EVENT_MIGRATE_BIT b) w"
| "view_op b Rseq_execve w = w\<lparr>v_rseq := None, v_events := {}\<rparr>"

definition bits_ok :: "bit_numbers \<Rightarrow> bool" where
  "bits_ok b \<longleftrightarrow> TIF_NEED_RESCHED b < 64 \<and> TIF_NOTIFY_RESUME b < 64 \<and> RSEQ_EVENT_PREEMPT_BIT b < 64 \<and>
     RSEQ_EVENT_SIGNAL_BIT b < 64 \<and> RSEQ_EVENT_MIGRATE_BIT b < 64"

text \<open>The handler of restartable sequences takes the events or leaves them, and nothing else of these fields.\<close>

definition takes_events :: "(bool \<Rightarrow> flags_task \<Rightarrow> flags_task) \<Rightarrow> bool" where
  "takes_events handle \<longleftrightarrow> (\<forall>v t. view (handle v t) = (view t)\<lparr>v_events := (if v then {} else v_events (view t))\<rparr>)"

lemma used_math_bit: "bit PF_USED_MATH n \<longleftrightarrow> n = 13"
proof -
  have e: "PF_USED_MATH = 2 ^ 13" by (simp add: pf_defs)
  show ?thesis unfolding e bit_exp_iff by auto
qed

lemma flag_words_view:
  "view (t\<lparr>flags := f\<rparr>) = (view t)\<lparr>v_flags := {n. bit f n}\<rparr>"
  "view (TASK_PFA_CLEAR n t) = (view t)\<lparr>v_atomic := put_in n False (v_atomic (view t))\<rparr>"
  "view (clear_tsk_thread_flag n t) = (view t)\<lparr>v_thread := put_in n False (v_thread (view t))\<rparr>"
  "n < 64 \<Longrightarrow> view (TASK_PFA_SET n t) = (view t)\<lparr>v_atomic := put_in n True (v_atomic (view t))\<rparr>"
  "n < 64 \<Longrightarrow> view (set_tsk_thread_flag n t) = (view t)\<lparr>v_thread := put_in n True (v_thread (view t))\<rparr>"
  "n < 64 \<Longrightarrow> view (t\<lparr>rseq_event_mask := set_bit n (rseq_event_mask t)\<rparr>) = (view t)\<lparr>v_events := insert n (v_events (view t))\<rparr>"
  by (auto simp: view_def put_in_def TASK_PFA_CLEAR_def TASK_PFA_SET_def clear_tsk_thread_flag_def set_tsk_thread_flag_def bit_simps)

lemma raise_event_view:
  assumes "bits_ok b" "n < 64"
  shows "view (rseq_set_notify_resume b (t\<lparr>rseq_event_mask := set_bit n (rseq_event_mask t)\<rparr>)) = view_event b n (view t)"
proof -
  have "rseq t = v_rseq (view t)" by (simp add: view_def)
  with assms show ?thesis
    by (auto simp: rseq_set_notify_resume_def view_event_def bits_ok_def flag_words_view put_in_def)
qed

lemma do_op_view:
  assumes "bits_ok b" "takes_events handle" "\<forall>n v. x = Thread_flag n v \<longrightarrow> n < 64"
  shows "view (do_op b handle x t) = view_op b x (view t)"
proof (cases x)
  case (Set_state st) then show ?thesis by (simp add: set_current_state_def view_def)
next
  case (Set_special st) then show ?thesis by (simp add: set_special_state_def view_def)
next
  case (Rseq_signal v)
  have "rseq t = v_rseq (view t)" by (simp add: view_def)
  with Rseq_signal assms(1,2) show ?thesis
    by (auto simp: rseq_signal_deliver_def rseq_handle_notify_resume_def takes_events_def bits_ok_def flag_words_view)
next
  case Rseq_preempt then show ?thesis using assms(1) by (simp add: rseq_preempt_def raise_event_view bits_ok_def)
next
  case Rseq_migrate then show ?thesis using assms(1) by (simp add: rseq_migrate_def raise_event_view bits_ok_def)
next
  case Rseq_execve then show ?thesis by (simp add: rseq_execve_def view_def)
next
  case (Thread_flag n v) with assms(3) show ?thesis by (simp add: update_tsk_thread_flag_def flag_words_view)
next
  case (Need_resched v) with assms(1) show ?thesis
    by (simp add: set_tsk_need_resched_def clear_tsk_need_resched_def flag_words_view bits_ok_def)
qed (simp_all add: pfa_helpers pfa_defs flag_words_view conditional_stopped_child_used_math_def set_stopped_child_used_math_def
    clear_stopped_child_used_math_def copy_to_stopped_child_used_math_def current_restore_flags_def Let_def,
    auto simp: view_def put_in_def bit_simps used_math_bit dest: bit_imp_le_length)

section \<open>Results\<close>

text \<open>
  C29. The helpers on the words of a task are operations on sets. The 28 per-process flags are
  distinct single bits. Whatever helpers are called in whatever order, the words of the task
  are afterwards what the same operations make of the sets of bits: each call sets, clears
  or copies exactly the one flag it names, restoring flags changes exactly the flags of the
  mask, an event of a restartable sequence is recorded and asks for a notification exactly
  when a sequence is registered, and \<open>execve\<close> drops both. And each test reads its own element.
\<close>

theorem task_ops_refine_sets:
  assumes "bits_ok b" "takes_events handle" "\<forall>n v. Thread_flag n v \<in> set ops \<longrightarrow> n < 64"
  shows "distinct pf_list \<and> (\<forall>f\<in>set pf_list. \<exists>n<32. f = push_bit n 1) \<and>
    (let u = fold (do_op b handle) ops t; w = fold (view_op b) ops (view t) in view u = w \<and>
      tsk_used_math u = (if 13 \<in> v_flags w then PF_USED_MATH else 0) \<and>
      (task_no_new_privs u \<longleftrightarrow> 0 \<in> v_atomic w) \<and> (task_spread_page u \<longleftrightarrow> 1 \<in> v_atomic w) \<and>
      (task_spread_slab u \<longleftrightarrow> 2 \<in> v_atomic w) \<and> (task_spec_ssb_disable u \<longleftrightarrow> 3 \<in> v_atomic w) \<and>
      (task_spec_ssb_force_disable u \<longleftrightarrow> 4 \<in> v_atomic w) \<and> (task_spec_ib_disable u \<longleftrightarrow> 5 \<in> v_atomic w) \<and>
      (task_spec_ib_force_disable u \<longleftrightarrow> 6 \<in> v_atomic w) \<and> (task_spec_ssb_noexec u \<longleftrightarrow> 7 \<in> v_atomic w) \<and>
      (test_tsk_need_resched b u \<longleftrightarrow> TIF_NEED_RESCHED b \<in> v_thread w) \<and>
      (\<forall>n. test_tsk_thread_flag n u \<longleftrightarrow> n \<in> v_thread w))"
proof -
  have "distinct pf_list" by (simp add: pf_list_def pf_defs)
  moreover have "set ([1, 2] @ [4..<14] @ [15..<29] @ [30, 31]) \<subseteq> {..<32::nat}" by auto
  then have "\<forall>f\<in>set pf_list. \<exists>n<32. f = push_bit n 1" unfolding pf_list_bits set_map by blast
  moreover have v: "view (fold (do_op b handle) ops t) = fold (view_op b) ops (view t)"
    using assms(3)
  proof (induction ops arbitrary: t)
    case (Cons x ops)
    then have "view (do_op b handle x t) = view_op b x (view t)" by (intro do_op_view [OF assms(1,2)]) auto
    moreover have "\<forall>n v. Thread_flag n v \<in> set ops \<longrightarrow> n < 64" using Cons.prems by auto
    ultimately show ?case using Cons.IH [of "do_op b handle x t"] by simp
  qed simp
  moreover have "tsk_used_math u = (if 13 \<in> v_flags (view u) then PF_USED_MATH else 0)" for u :: flags_task
    by (rule bit_eqI) (auto simp: tsk_used_math_def view_def bit_simps used_math_bit)
  ultimately show ?thesis
    unfolding Let_def v [symmetric] by (simp add: pfa_helpers pfa_defs TASK_PFA_TEST_def view_def test_tsk_need_resched_def test_tsk_thread_flag_def)
qed

text \<open>
  C27. What a process has given up it does not get back. Through any sequence of calls of the
  helpers, \<open>no_new_privs\<close> and the two forced restrictions on speculation hold exactly if they
  held before or have been set, and each of the other five atomic flags is what the last
  call for it made of it, whatever happens to the rest of the task. A fork keeps this: when
  the parent calls more helpers, or gains a seccomp filter, between the copying of its
  structure and \<open>copy_seccomp\<close>, the child still has \<open>no_new_privs\<close> exactly if the parent has, runs
  in the parent's present mode and filter, with the thread flag that enforces it, and with no
  reschedule request; and the filter has one more reference, which freeing the child
  returns, while a child freed before \<open>copy_seccomp\<close> returns none.
\<close>

theorem privileges_permanent:
  assumes "handles handle" "TIF_SECCOMP b < 64" "TIF_SECCOMP b \<noteq> TIF_NEED_RESCHED b"
    and "cur = fold (do_op b handle) ops t" "par = cur\<lparr>seccomp_mode := md, seccomp_filter := ft\<rparr>"
    and "copy_seccomp b par (dup_seccomp b t, refs) = (child, refs')"
  shows "(task_no_new_privs cur \<longleftrightarrow> task_no_new_privs t \<or> No_new_privs \<in> set ops) \<and>
    (task_spec_ssb_force_disable cur \<longleftrightarrow> task_spec_ssb_force_disable t \<or> Spec_ssb_force_disable \<in> set ops) \<and>
    (task_spec_ib_force_disable cur \<longleftrightarrow> task_spec_ib_force_disable t \<or> Spec_ib_force_disable \<in> set ops) \<and>
    (\<forall>n. TASK_PFA_TEST n cur = latest n (history ops) (TASK_PFA_TEST n t)) \<and>
    (task_no_new_privs child = task_no_new_privs par) \<and> seccomp_mode child = md \<and> seccomp_filter child = ft \<and>
    (md \<noteq> 0 \<longrightarrow> test_tsk_thread_flag (TIF_SECCOMP b) child) \<and> \<not> test_tsk_need_resched b child \<and>
    refs' = get_filter ft refs \<and> put_filter (seccomp_filter child) refs' = refs \<and>
    put_filter (seccomp_filter (dup_seccomp b t)) refs = refs"
proof -
  have L: "TASK_PFA_TEST n cur = latest n (history ops) (TASK_PFA_TEST n t)" for n
    using history_latest [OF assms(1)] assms(4) by simp
  have S: "TASK_PFA_TEST n cur \<longleftrightarrow> TASK_PFA_TEST n t \<or> Set_bit n \<in> set (history ops)" if "Clear_bit n \<notin> set (history ops)" for n
    using latest_sticky [OF that] L by simp
  have H: "y \<in> set (history ops) \<longleftrightarrow> (\<exists>x\<in>set ops. y \<in> set (pfa_ops x))" for y by (auto simp: history_def)
  have P: "Clear_bit n \<notin> set (pfa_ops x)" if "n \<in> {PFA_NO_NEW_PRIVS, PFA_SPEC_SSB_FORCE_DISABLE, PFA_SPEC_IB_FORCE_DISABLE}" for n x
    using that by (cases x) (auto simp: pfa_defs)
  have Q: "Set_bit PFA_NO_NEW_PRIVS \<in> set (pfa_ops x) \<longleftrightarrow> x = No_new_privs"
    "Set_bit PFA_SPEC_SSB_FORCE_DISABLE \<in> set (pfa_ops x) \<longleftrightarrow> x = Spec_ssb_force_disable"
    "Set_bit PFA_SPEC_IB_FORCE_DISABLE \<in> set (pfa_ops x) \<longleftrightarrow> x = Spec_ib_force_disable" for x
    by (cases x; auto simp: pfa_defs split: if_splits)+
  have kept: "task_no_new_privs t \<Longrightarrow> task_no_new_privs cur"
    using S [of PFA_NO_NEW_PRIVS] P by (auto simp: H task_no_new_privs_def)
  have c: "child = (if md \<noteq> 0 then set_tsk_thread_flag (TIF_SECCOMP b) else id)
      ((if task_no_new_privs cur then task_set_no_new_privs else id) ((dup_seccomp b t)\<lparr>seccomp_mode := md, seccomp_filter := ft\<rparr>))"
    and r: "refs' = get_filter ft refs"
    using assms(5,6) by (auto simp: copy_seccomp_def Let_def task_no_new_privs_def task_set_no_new_privs_def TASK_PFA_TEST_def
        TASK_PFA_SET_def split: if_splits)
  note defs = c task_no_new_privs_def task_set_no_new_privs_def TASK_PFA_TEST_def TASK_PFA_SET_def dup_seccomp_def
    set_tsk_thread_flag_def clear_tsk_need_resched_def clear_tsk_thread_flag_def test_tsk_thread_flag_def test_tsk_need_resched_def
    bit_simps PFA_NO_NEW_PRIVS_def
  have "task_no_new_privs child = task_no_new_privs par" using kept assms(5) by (auto simp: defs)
  moreover have "\<not> test_tsk_need_resched b child" "md \<noteq> 0 \<longrightarrow> test_tsk_thread_flag (TIF_SECCOMP b) child"
    "seccomp_mode child = md" "seccomp_filter child = ft" using assms(2,3) by (auto simp: defs)
  moreover have "put_filter ft (get_filter ft refs) = refs" by (cases ft) (simp_all add: put_filter_def get_filter_def)
  moreover have "put_filter (seccomp_filter (dup_seccomp b t)) refs = refs"
    by (simp add: put_filter_def dup_seccomp_def clear_tsk_need_resched_def clear_tsk_thread_flag_def)
  ultimately show ?thesis using S P L r Q
    by (auto simp: H task_no_new_privs_def task_spec_ssb_force_disable_def task_spec_ib_force_disable_def)
qed

section \<open>An example\<close>

definition sample_bits :: bit_numbers where
  "sample_bits = \<lparr>TIF_NEED_RESCHED = 3, TIF_NOTIFY_RESUME = 1, TIF_SECCOMP = 8, RSEQ_EVENT_PREEMPT_BIT = 0,
     RSEQ_EVENT_SIGNAL_BIT = 1, RSEQ_EVENT_MIGRATE_BIT = 2\<rparr>"

definition sample_task :: flags_task where
  "sample_task = task_struct.extend blank_task (flags_task.fields 8 4 0 0 None 0)"

lemmas sample_defs = sample_task_def task_struct.defs flags_task.defs blank_task_def sample_bits_def

theorem task_ops_refine_sets_witness:
  "let u = fold (do_op sample_bits (\<lambda>v t. if v then t\<lparr>rseq_event_mask := 0\<rparr> else t))
     [Used_math True, Spread_slab True, Need_resched True, Rseq_signal False, Rseq_preempt, Rseq_signal True, Rseq_migrate] (sample_task\<lparr>rseq := Some 5\<rparr>)
   in tsk_used_math u = PF_USED_MATH \<and> task_spread_slab u \<and> \<not> task_spread_page u \<and> test_tsk_thread_flag 1 u \<and> v_events (view u) = {2}"
proof -
  let ?h = "\<lambda>v (t :: flags_task). if v then t\<lparr>rseq_event_mask := 0\<rparr> else t"
  let ?ops = "[Used_math True, Spread_slab True, Need_resched True, Rseq_signal False, Rseq_preempt, Rseq_signal True, Rseq_migrate]"
  have "bits_ok sample_bits" "takes_events ?h" by (simp_all add: bits_ok_def sample_bits_def takes_events_def view_def)
  have "bit ((2 ^ 3) :: int) n \<longleftrightarrow> n = 3" for n unfolding bit_exp_iff by auto
  then have eight: "bit (8 :: int) n \<longleftrightarrow> n = 3" for n by simp
  note P = task_ops_refine_sets [OF \<open>bits_ok sample_bits\<close> \<open>takes_events ?h\<close>, of ?ops "sample_task\<lparr>rseq := Some 5\<rparr>", unfolded Let_def]
  have "fold (view_op sample_bits) ?ops (view (sample_task\<lparr>rseq := Some 5\<rparr>)) =
    (view (sample_task\<lparr>rseq := Some 5\<rparr>))\<lparr>v_flags := {13}, v_atomic := {2}, v_thread := {1, 3}, v_events := {2}\<rparr>"
    by (simp add: view_def sample_defs put_in_def view_event_def) (auto simp: eight)
  with P show ?thesis unfolding Let_def by simp
qed

theorem privileges_permanent_witness:
  "let cur = fold (do_op sample_bits (\<lambda>_. id)) [No_new_privs, Spread_page True, Spread_page False] sample_task;
       child = fst (copy_seccomp sample_bits (cur\<lparr>seccomp_mode := 2, seccomp_filter := Some 7\<rparr>) (dup_seccomp sample_bits sample_task, \<lambda>_. 1))
   in task_no_new_privs child \<and> \<not> task_spread_page cur \<and> seccomp_filter child = Some 7 \<and> test_tsk_thread_flag 8 child"
proof -
  let ?cur = "fold (do_op sample_bits (\<lambda>_. id)) [No_new_privs, Spread_page True, Spread_page False] sample_task"
  let ?par = "?cur\<lparr>seccomp_mode := 2, seccomp_filter := Some 7\<rparr>"
  obtain child refs where c: "copy_seccomp sample_bits ?par (dup_seccomp sample_bits sample_task, \<lambda>_. 1) = (child, refs)"
    by (cases "copy_seccomp sample_bits ?par (dup_seccomp sample_bits sample_task, \<lambda>_. 1)")
  have "handles (\<lambda>_. id)" "TIF_SECCOMP sample_bits < 64" "TIF_SECCOMP sample_bits \<noteq> TIF_NEED_RESCHED sample_bits"
    by (simp_all add: handles_def sample_bits_def)
  note P = privileges_permanent [OF this refl refl c]
  from P have "task_no_new_privs ?cur" "TASK_PFA_TEST PFA_SPREAD_PAGE ?cur =
    latest PFA_SPREAD_PAGE (history [No_new_privs, Spread_page True, Spread_page False]) (TASK_PFA_TEST PFA_SPREAD_PAGE sample_task)"
    by (metis list.set_intros(1)) (use P in blast)
  then have "\<not> task_spread_page ?cur" by (simp add: task_spread_page_def history_def)
  moreover have "task_no_new_privs ?par = task_no_new_privs ?cur" by (simp add: task_no_new_privs_def TASK_PFA_TEST_def)
  moreover have "TIF_SECCOMP sample_bits = 8" by (simp add: sample_bits_def)
  ultimately show ?thesis using P c \<open>task_no_new_privs ?cur\<close> unfolding Let_def by simp
qed

end
