(* ===== verification/Task_Ids.thy ===== *)
theory Task_Ids
  imports Do_Fork C_Stdio
begin

text \<open>
  Who a task is and how tasks are counted: the helpers of \<open>Assignment3-1/sched.h\<close> that give the
  numbers of a task, and from \<open>fork.c\<close> the system call \<open>set_tid_address\<close>, the file operations of
  a pidfd, the idle tasks and the number of processes. The number of a task in a namespace
  (\<open>__task_pid_nr_ns\<close>), the task of a pid, the setting up of an idle task by the scheduler and the
  addresses of \<open>init_pid_ns\<close> and \<open>init_struct_pid\<close> are parameters.
\<close>

section \<open>Numbers in a namespace\<close>

datatype pid_type = PIDTYPE_PID | PIDTYPE_TGID | PIDTYPE_PGID | PIDTYPE_SID

text \<open>The namespace of the caller is NULL, which is \<open>None\<close>.\<close>

record pid_api =
  nr_ns :: "task_struct \<Rightarrow> pid_type \<Rightarrow> nat option \<Rightarrow> int"
  init_pid_ns :: nat
  init_struct_pid :: nat
  pid_nr_ns :: "nat \<Rightarrow> nat \<Rightarrow> int"
  pid_task :: "nat \<Rightarrow> task_ptr option"
  init_idle :: "task_ptr \<Rightarrow> kst \<Rightarrow> kst"

definition task_pid :: "task_struct \<Rightarrow> nat option" where
  "task_pid t = thread_pid t"

definition task_pid_nr_ns :: "pid_api \<Rightarrow> task_struct \<Rightarrow> nat option \<Rightarrow> int" where
  "task_pid_nr_ns api t ns = nr_ns api t PIDTYPE_PID ns"

definition task_pid_vnr :: "pid_api \<Rightarrow> task_struct \<Rightarrow> int" where
  "task_pid_vnr api t = nr_ns api t PIDTYPE_PID None"

definition task_pgrp_nr_ns :: "pid_api \<Rightarrow> task_struct \<Rightarrow> nat option \<Rightarrow> int" where
  "task_pgrp_nr_ns api t ns = nr_ns api t PIDTYPE_PGID ns"

definition task_pgrp_vnr :: "pid_api \<Rightarrow> task_struct \<Rightarrow> int" where
  "task_pgrp_vnr api t = nr_ns api t PIDTYPE_PGID None"

definition task_session_nr_ns :: "pid_api \<Rightarrow> task_struct \<Rightarrow> nat option \<Rightarrow> int" where
  "task_session_nr_ns api t ns = nr_ns api t PIDTYPE_SID ns"

definition task_session_vnr :: "pid_api \<Rightarrow> task_struct \<Rightarrow> int" where
  "task_session_vnr api t = nr_ns api t PIDTYPE_SID None"

definition task_tgid_nr_ns :: "pid_api \<Rightarrow> task_struct \<Rightarrow> nat option \<Rightarrow> int" where
  "task_tgid_nr_ns api t ns = nr_ns api t PIDTYPE_TGID ns"

definition task_tgid_vnr :: "pid_api \<Rightarrow> task_struct \<Rightarrow> int" where
  "task_tgid_vnr api t = nr_ns api t PIDTYPE_TGID None"

text \<open>The parent is read only while the task is alive; a dangling pointer is a fault.\<close>

definition task_ppid_nr_ns :: "pid_api \<Rightarrow> task_heap \<Rightarrow> task_struct \<Rightarrow> nat option \<Rightarrow> int option" where
  "task_ppid_nr_ns api h t ns =
    (if pid_alive t then do { q \<leftarrow> h (real_parent t); Some (task_tgid_nr_ns api q ns) } else Some 0)"

definition task_ppid_nr :: "pid_api \<Rightarrow> task_heap \<Rightarrow> task_struct \<Rightarrow> int option" where
  "task_ppid_nr api h t = task_ppid_nr_ns api h t (Some (init_pid_ns api))"

definition task_pgrp_nr :: "pid_api \<Rightarrow> task_struct \<Rightarrow> int" where
  "task_pgrp_nr api t = task_pgrp_nr_ns api t (Some (init_pid_ns api))"

definition set_tid_address :: "pid_api \<Rightarrow> nat option \<Rightarrow> task_ptr \<Rightarrow> kst \<Rightarrow> (int \<times> kst) option" where
  "set_tid_address api tidptr current s = do {
     let s = upd_task current (\<lambda>t. t\<lparr>clear_child_tid := tidptr\<rparr>) s;
     c \<leftarrow> tasks s current;
     Some (task_pid_vnr api c, s) }"

section \<open>Leaving the memory\<close>

text \<open>\<open>futex_release\<close> stands for \<open>futex_exit_release\<close> or \<open>futex_exec_release\<close>, which are not in this file.\<close>

definition exit_mm_release ::
  "(kst \<times> fork_event list \<Rightarrow> kst \<times> fork_event list) \<Rightarrow> bool \<Rightarrow> task_ptr \<Rightarrow> nat \<Rightarrow> kst \<times> fork_event list \<Rightarrow> (kst \<times> fork_event list) option" where
  "exit_mm_release futex_exit_release dumping p m x = mm_release dumping p m (futex_exit_release x)"

definition exec_mm_release ::
  "(kst \<times> fork_event list \<Rightarrow> kst \<times> fork_event list) \<Rightarrow> bool \<Rightarrow> task_ptr \<Rightarrow> nat \<Rightarrow> kst \<times> fork_event list \<Rightarrow> (kst \<times> fork_event list) option" where
  "exec_mm_release futex_exec_release dumping p m x = mm_release dumping p m (futex_exec_release x)"

section \<open>The file of a pidfd\<close>

datatype file_ops = Pidfd_fops | Other_fops nat

record pid_file =
  f_op :: file_ops
  private_data :: "nat option"

definition pidfd_pid :: "pid_file \<Rightarrow> nat option + errno" where
  "pidfd_pid f = (if f_op f = Pidfd_fops then Inl (private_data f) else Inr EBADF)"

text \<open>\<open>put_pid\<close> of NULL does nothing; \<open>refs\<close> are the reference counts of the pids.\<close>

definition pidfd_release :: "pid_file \<times> (nat \<Rightarrow> int) \<Rightarrow> int \<times> pid_file \<times> (nat \<Rightarrow> int)" where
  "pidfd_release = (\<lambda>(f, refs). (0, f\<lparr>private_data := None\<rparr>,
     case private_data f of None \<Rightarrow> refs | Some a \<Rightarrow> refs(a := refs a - 1)))"

definition pidfd_show_fdinfo :: "pid_api \<Rightarrow> nat \<Rightarrow> pid_file \<Rightarrow> string \<Rightarrow> string option" where
  "pidfd_show_fdinfo api ns f m = do {
     a \<leftarrow> private_data f;
     Some (m @ ''Pid:'' @ [CHR 0x09] @ print_int (pid_nr_ns api a ns) @ [newline]) }"

text \<open>Whether \<open>EPOLLIN\<close> and \<open>EPOLLRDNORM\<close> are reported.\<close>

definition pidfd_poll :: "pid_api \<Rightarrow> task_heap \<Rightarrow> pid_file \<Rightarrow> bool option" where
  "pidfd_poll api h f = do {
     a \<leftarrow> private_data f;
     case pid_task api a of None \<Rightarrow> Some True
     | Some p \<Rightarrow> do { t \<leftarrow> h p; Some (exit_state t \<noteq> 0 \<and> thread_group t = []) } }"

section \<open>Idle tasks\<close>

text \<open>Of the links to pids the state has only \<open>thread_pid\<close>.\<close>

definition init_task_pid :: "task_ptr \<Rightarrow> pid_type \<Rightarrow> nat \<Rightarrow> kst \<Rightarrow> kst" where
  "init_task_pid p type a s = (if type = PIDTYPE_PID then upd_task p (\<lambda>t. t\<lparr>thread_pid := Some a\<rparr>) s else s)"

definition init_idle_pids :: "pid_api \<Rightarrow> task_ptr \<Rightarrow> kst \<Rightarrow> kst" where
  "init_idle_pids api idle s = fold (\<lambda>type. init_task_pid idle type (init_struct_pid api))
     [PIDTYPE_PID, PIDTYPE_TGID, PIDTYPE_PGID, PIDTYPE_SID] s"

definition idle_args :: kernel_clone_args where
  "idle_args = \<lparr>args_flags = {CLONE_VM}, args_pidfd = None, args_child_tid = None, args_parent_tid = None,
     args_exit_signal = 0, args_stack = 0, args_stack_size = 0, args_tls = 0\<rparr>"

definition fork_idle :: "pid_api \<Rightarrow> fork_env \<Rightarrow> task_ptr \<Rightarrow> kst \<Rightarrow> ((task_ptr + errno) \<times> kst) option" where
  "fork_idle api env current s = do {
     (r, s) \<leftarrow> copy_process env True idle_args current s;
     case r of Inr e \<Rightarrow> Some (Inr e, s)
     | Inl p \<Rightarrow> Some (Inl p, init_idle api p (init_idle_pids api p s)) }"

section \<open>The number of processes\<close>

text \<open>
  Each processor has an unsigned counter, which may wrap below zero when a process ends on
  another processor than it was made on. Adding one to the \<open>int\<close> total is done in 64 bits and
  then cut to 32.
\<close>

definition nr_processes :: "(nat \<Rightarrow> 64 word) \<Rightarrow> nat list \<Rightarrow> int" where
  "nr_processes counts cpus = sint (fold (\<lambda>cpu total. ucast (scast total + counts cpu) :: 32 word) cpus 0)"

section \<open>Results\<close>

text \<open>\<open>init_idle\<close> changes the scheduling state of the idle task only.\<close>

definition init_idle_ok :: "pid_api \<Rightarrow> bool" where
  "init_idle_ok api \<longleftrightarrow> (\<forall>p s. \<exists>f. init_idle api p s = upd_task p f s \<and>
     (\<forall>t. \<exists>st fl. f t = t\<lparr>state := st, flags := fl\<rparr>))"

text \<open>
  An idle task is not counted: when \<open>fork_idle\<close> succeeds, the new task has pid 0, the memory of the
  current task and the pid structure of the idle tasks, and is in no list and in neither the
  number of threads nor that of processes; when it fails, it leaves no trace.
\<close>

theorem fork_idle_uncounted:
  assumes "p = (case new_task env of None \<Rightarrow> 0 | Some p \<Rightarrow> p)" "startable env c p s" "exit_files_ok env" "exit_fs_ok env"
    and "leader_ok env" "tasks s c = Some ct" "real_parent ct \<noteq> p" "init_idle_ok api" "new_task env \<noteq> None"
    and "fork_idle api env c s = Some (r, s')"
  shows "case r of
      Inr e \<Rightarrow> tasks s' p = None \<and> forget p c s' = forget p c s
    | Inl q \<Rightarrow> q = p \<and> (\<exists>t. tasks s' p = Some t \<and> pid t = 0 \<and> tgid t = 0 \<and> mm t = mm ct \<and> real_parent t = c \<and>
        thread_pid t = Some (init_struct_pid api)) \<and>
        nr_threads s' = nr_threads s \<and> process_counts s' = process_counts s \<and> task_list s' = task_list s \<and>
        total_forks s' = total_forks s + 1"
proof -
  have ii: "init_idle_pids api q v = upd_task q (\<lambda>t. t\<lparr>thread_pid := Some (init_struct_pid api)\<rparr>) v" for q v
    by (simp add: init_idle_pids_def init_task_pid_def)
  have new: "new_task env = Some p" using assms(1,9) by auto
  note out = copy_process_outcome [OF assms(1-4), where idle = True and args = idle_args]
  show ?thesis
  proof (cases r)
    case (Inr e)
    with assms(10) have "copy_process env True idle_args c s = Some (Inr e, s')"
      by (auto simp: fork_idle_def split: bind_splits sum.splits)
    with out Inr show ?thesis by simp
  next
    case (Inl q)
    with assms(10) obtain s1 where s1: "copy_process env True idle_args c s = Some (Inl q, s1)"
        "s' = init_idle api q (init_idle_pids api q s1)"
      by (auto simp: fork_idle_def split: bind_splits sum.splits)
    from assms(8) obtain f where f: "init_idle api q (init_idle_pids api q s1) = upd_task q f (init_idle_pids api q s1)"
      "\<And>t. \<exists>st fl. f t = t\<lparr>state := st, flags := fl\<rparr>" unfolding init_idle_ok_def by blast
    from out s1(1) have "\<exists>s2. Some (Inl q :: task_ptr + errno, s1) = map_option (Pair (Inl p)) (publish env idle_args True c p s2)"
      by auto
    then obtain s2 where "Some (Inl q :: task_ptr + errno, s1) = map_option (Pair (Inl p)) (publish env idle_args True c p s2)" ..
    then have q: "q = p" by (cases "publish env idle_args True c p s2") auto
    have "p \<noteq> c" using assms(2) by (simp add: startable_def)
    from copy_process_success [OF s1(1) [unfolded q] new assms(5) this assms(6,7)] obtain t where
      t: "tasks s1 p = Some t" "child_parts env {CLONE_VM} 6 ct t" "child_ids {CLONE_VM} 0 p ct t" "real_parent t = c"
        "linked p c t s s1" "total_forks s1 = total_forks s + 1"
      by (auto simp: idle_args_def pid_of_def parent_set_def child_parent_def)
    from f(2) obtain st fl where "f (t\<lparr>thread_pid := Some (init_struct_pid api)\<rparr>) = t\<lparr>thread_pid := Some (init_struct_pid api), state := st, flags := fl\<rparr>"
      by (metis task_head.fold_congs)
    with t show ?thesis using Inl q s1(2) f(1)
      by (simp add: ii upd_task_def child_parts_def child_ids_def linked_def idle_args_def)
  qed
qed

lemma fork_idle_demo:
  assumes "init_idle api = (\<lambda>p s. upd_task p (\<lambda>t. t\<lparr>flags := flags t OR PF_IDLE\<rparr>) s)"
  shows "\<exists>s'. fork_idle api demo_env 2 demo_kst = Some (Inl 3, s')" "init_idle_ok api"
proof -
  show "\<exists>s'. fork_idle api demo_env 2 demo_kst = Some (Inl 3, s')"
    by (simp add: fork_idle_def idle_args_def copy_process_evals demo_defs Let_def)
  have *: "\<exists>st fl. (t :: task_struct)\<lparr>flags := flags t OR PF_IDLE\<rparr> = t\<lparr>state := st, flags := fl\<rparr>" for t
    by (intro exI [of _ "state t"]) auto
  show "init_idle_ok api" unfolding init_idle_ok_def assms
    by (intro allI exI [where x = "\<lambda>t. t\<lparr>flags := flags t OR PF_IDLE\<rparr>"] conjI refl *)
qed

definition sample_api :: pid_api where
  "sample_api = \<lparr>nr_ns = (\<lambda>t ty ns. pid t), init_pid_ns = 0, init_struct_pid = 0, pid_nr_ns = (\<lambda>a ns. int a),
     pid_task = (\<lambda>a. None), init_idle = (\<lambda>p s. upd_task p (\<lambda>t. t\<lparr>flags := flags t OR PF_IDLE\<rparr>) s)\<rparr>"

theorem fork_idle_uncounted_witness:
  "\<exists>s'. fork_idle sample_api demo_env 2 demo_kst = Some (Inl 3, s') \<and> nr_threads s' = 2 \<and> task_list s' = [1, 2]"
proof -
  note api = fork_idle_demo [of sample_api]
  obtain s' where s': "fork_idle sample_api demo_env 2 demo_kst = Some (Inl 3, s')" using api(1) by (auto simp: sample_api_def)
  have "startable demo_env 2 3 demo_kst" by (simp add: startable_def refs_ok_def demo_defs)
  moreover have "exit_files_ok demo_env" "exit_fs_ok demo_env" by (rule exit_ok_drop; simp add: demo_env_def)+
  moreover have "3 = (case new_task demo_env of None \<Rightarrow> 0 | Some p \<Rightarrow> p)" "leader_ok demo_env" "new_task demo_env \<noteq> None"
    "tasks demo_kst 2 = Some (demo_task 50 2)" "real_parent (demo_task 50 2) \<noteq> 3" "nr_threads demo_kst = 2" "task_list demo_kst = [1, 2]"
    by (simp_all add: leader_ok_def demo_env_def demo_kst_def) (simp add: demo_task_def)
  moreover have "init_idle_ok sample_api" using api(2) by (simp add: sample_api_def)
  ultimately show ?thesis using fork_idle_uncounted [of 3 demo_env 2 demo_kst, OF _ _ _ _ _ _ _ _ _ s'] s' by auto
qed

text \<open>A process made on one processor and ended on another.\<close>

datatype count_op = Made nat | Ended nat

fun count_step :: "count_op \<Rightarrow> (nat \<Rightarrow> 64 word) \<Rightarrow> nat \<Rightarrow> 64 word" where
  "count_step (Made cpu) c = c(cpu := c cpu + 1)"
| "count_step (Ended cpu) c = c(cpu := c cpu - 1)"

definition on_cpus :: "nat list \<Rightarrow> count_op list \<Rightarrow> bool" where
  "on_cpus cpus ops \<longleftrightarrow> (\<forall>x\<in>set ops. case x of Made i \<Rightarrow> i \<in> set cpus | Ended i \<Rightarrow> i \<in> set cpus)"

definition alive :: "count_op list \<Rightarrow> int" where
  "alive ops = int (length (filter (\<lambda>x. case x of Made i \<Rightarrow> True | Ended i \<Rightarrow> False) ops))
     - int (length (filter (\<lambda>x. case x of Made i \<Rightarrow> False | Ended i \<Rightarrow> True) ops))"

lemma ucast_down:
  fixes a b :: "64 word"
  shows "(ucast (a + b) :: 32 word) = ucast a + ucast b" "(ucast (a - b) :: 32 word) = ucast a - ucast b"
  by (simp_all add: word_uint_eq_iff unsigned_ucast_eq uint_word_ariths take_bit_eq_mod mod_simps mod_mod_cancel)

lemma cut_add: "(ucast (scast (x :: 32 word) + (y :: 64 word)) :: 32 word) = x + ucast y"
proof -
  have "(ucast (scast x :: 64 word) :: 32 word) = x" by (rule bit_word_eqI) (simp add: bit_simps)
  then show ?thesis by (simp only: ucast_down)
qed

lemma nr_processes_sum:
  fixes counts :: "nat \<Rightarrow> 64 word"
  shows "fold (\<lambda>cpu total. ucast (scast total + counts cpu) :: 32 word) cpus t = t + (\<Sum>cpu\<leftarrow>cpus. ucast (counts cpu))"
  by (induction cpus arbitrary: t) (simp_all only: fold.simps list.map sum_list.Nil sum_list.Cons cut_add id_apply o_apply add_0_right add.assoc)

lemma sum_upd:
  fixes f :: "nat \<Rightarrow> 32 word"
  assumes "distinct cpus" "i \<in> set cpus"
  shows "(\<Sum>cpu\<leftarrow>cpus. (f(i := v)) cpu) = (\<Sum>cpu\<leftarrow>cpus. f cpu) - f i + v"
  using assms by (simp add: sum_list_distinct_conv_sum_set sum.remove [of "set cpus" i])

lemma count_step_sum:
  assumes "distinct cpus" "on_cpus cpus [x]"
  shows "(\<Sum>cpu\<leftarrow>cpus. (ucast (count_step x c cpu) :: 32 word)) = (\<Sum>cpu\<leftarrow>cpus. ucast (c cpu)) + word_of_int (alive [x])"
proof (cases x)
  case (Made i)
  have e: "(\<lambda>cpu. ucast (count_step x c cpu) :: 32 word) = (\<lambda>cpu. ucast (c cpu))(i := ucast (c i) + 1)"
    using Made by (auto simp: fun_eq_iff ucast_down)
  show ?thesis unfolding e using Made assms by (subst sum_upd) (auto simp: on_cpus_def alive_def)
next
  case (Ended i)
  have e: "(\<lambda>cpu. ucast (count_step x c cpu) :: 32 word) = (\<lambda>cpu. ucast (c cpu))(i := ucast (c i) - 1)"
    using Ended by (auto simp: fun_eq_iff ucast_down)
  show ?thesis unfolding e using Ended assms by (subst sum_upd) (auto simp: on_cpus_def alive_def)
qed

text \<open>
  C30. The number of processes is right although the counters are not. When processes are made
  and ended on any of the processors, in any order, so that single counters wrap around
  zero, \<open>nr_processes\<close> is the number of processes that are alive, as long as that fits in an \<open>int\<close>.
\<close>

theorem nr_processes_exact:
  assumes "distinct cpus" "on_cpus cpus ops" "- (2 ^ 31) \<le> alive ops" "alive ops < 2 ^ 31"
  shows "nr_processes (fold count_step ops (\<lambda>_. 0)) cpus = alive ops"
proof -
  have "(\<Sum>cpu\<leftarrow>cpus. (ucast (fold count_step ops c cpu) :: 32 word)) = (\<Sum>cpu\<leftarrow>cpus. ucast (c cpu)) + word_of_int (alive ops)" for c
    using assms(2)
  proof (induction ops arbitrary: c)
    case Nil then show ?case by (simp add: alive_def)
  next
    case (Cons x ops)
    have "alive (x # ops) = alive [x] + alive ops" by (cases x) (simp_all add: alive_def)
    with Cons count_step_sum [OF assms(1), of x c] show ?case by (simp add: on_cpus_def algebra_simps)
  qed
  from this [of "\<lambda>_. 0"] have "fold (\<lambda>cpu total. ucast (scast total + fold count_step ops (\<lambda>_. 0) cpu) :: 32 word) cpus 0 = word_of_int (alive ops)"
    by (simp add: nr_processes_sum sum_list_triv)
  moreover have "sint (word_of_int (alive ops) :: 32 word) = alive ops"
    using assms(3,4) by (simp add: signed_of_int signed_take_bit_int_eq_self)
  ultimately show ?thesis by (simp only: nr_processes_def)
qed

theorem nr_processes_exact_witness:
  "nr_processes (fold count_step [Made 0, Made 0, Ended 1] (\<lambda>_. 0)) [0, 1] = 1"
  using nr_processes_exact [of "[0, 1]" "[Made 0, Made 0, Ended 1]"] by (simp add: on_cpus_def alive_def)

text \<open>
  The address given to \<open>set_tid_address\<close> is used once: when the thread then leaves a memory that
  others still use, without a core dump, zero is written there and one waiter is woken, the
  pointer is gone from the task, and a second release writes nothing.
\<close>

theorem set_tid_address_clears:
  assumes "set_tid_address api (Some u) p s = Some (n, s1)" "mm_tab s m = Some k" "1 < k" "\<forall>t. tasks s p = Some t \<longrightarrow> vfork_done t = None"
  shows "\<exists>t s2. tasks s p = Some t \<and> n = task_pid_vnr api (t\<lparr>clear_child_tid := Some u\<rparr>) \<and>
    exit_mm_release id False p m (s1, []) = Some (s2, [Put_user (Some u) 0, Futex_wake u]) \<and>
    map_option clear_child_tid (tasks s2 p) = Some None \<and> exit_mm_release id False p m (s2, []) = Some (s2, [])"
proof -
  from assms(1) obtain t where t: "tasks s p = Some t" "n = task_pid_vnr api (t\<lparr>clear_child_tid := Some u\<rparr>)"
      "s1 = upd_task p (\<lambda>t. t\<lparr>clear_child_tid := Some u\<rparr>) s"
    by (cases "tasks s p") (auto simp: set_tid_address_def upd_task_def)
  with assms(2-4) show ?thesis
    by (auto simp: exit_mm_release_def mm_release_def upd_task_def)
qed

theorem set_tid_address_clears_witness:
  "\<exists>s1 s2. set_tid_address sample_api (Some 64) 2 (demo_kst\<lparr>mm_tab := [2 \<mapsto> 2]\<rparr>) = Some (50, s1) \<and>
    exit_mm_release id False 2 2 (s1, []) = Some (s2, [Put_user (Some 64) 0, Futex_wake 64])"
proof -
  obtain s1 where s1: "set_tid_address sample_api (Some 64) 2 (demo_kst\<lparr>mm_tab := [2 \<mapsto> 2]\<rparr>) = Some (50, s1)"
    by (simp add: set_tid_address_def task_pid_vnr_def sample_api_def upd_task_def demo_defs)
  have "mm_tab (demo_kst\<lparr>mm_tab := [2 \<mapsto> 2]\<rparr>) 2 = Some 2"
    "\<forall>t. tasks (demo_kst\<lparr>mm_tab := [2 \<mapsto> 2]\<rparr>) 2 = Some t \<longrightarrow> vfork_done t = None" by (auto simp: demo_defs)
  from set_tid_address_clears [OF s1 this(1) _ this(2)] s1 show ?thesis by auto
qed

end
