(* ===== verification/Fork_Init.thy ===== *)
theory Fork_Init
  imports Unshare
begin

text \<open>
  Start-up in \<open>Assignment3-1/fork.c\<close>: the slab caches for the objects that a fork copies, and
  \<open>fork_init\<close> with the limits on threads and processes. A cache is described by the arguments it is
  made with. Sizes of structures, alignments and the part of \<open>thread_struct\<close> that user copies may
  touch are parameters; so is which caches the allocator can make: when it cannot, \<open>SLAB_PANIC\<close>
  stops the machine, which is \<open>None\<close>, and without it the result is NULL. Calls that register or
  start other parts of the kernel (\<open>cpuhp_setup_state\<close>, \<open>uprobes_init\<close>, \<open>mmap_init\<close> and the like) are left out.
\<close>

datatype slab_flag = SLAB_PANIC | SLAB_ACCOUNT | SLAB_HWCACHE_ALIGN | SLAB_TYPESAFE_BY_RCU

datatype ctor = No_ctor | Sighand_ctor

record kmem_cache =
  cache_name :: string
  cache_size :: nat
  cache_align :: nat
  cache_flags :: "slab_flag set"
  cache_useroffset :: nat
  cache_usersize :: nat
  cache_ctor :: ctor

record boot_env =
  can_make :: "kmem_cache \<Rightarrow> bool"
  size_of :: "string \<Rightarrow> nat"
  thread_offset :: nat
  arch_whitelist :: "nat \<times> nat"
  saved_auxv :: "nat \<times> nat"
  cpumask_size :: nat
  L1_CACHE_BYTES :: nat
  THREAD_SIZE :: nat
  UCOUNT_COUNTS :: nat
  memory :: mem_env

record boot_state =
  kernel :: kst
  task_struct_cachep :: "kmem_cache option"
  thread_stack_cache :: "kmem_cache option"
  sighand_cachep :: "kmem_cache option"
  signal_cachep :: "kmem_cache option"
  files_cachep :: "kmem_cache option"
  fs_cachep :: "kmem_cache option"
  vm_area_cachep :: "kmem_cache option"
  mm_cachep :: "kmem_cache option"
  rlim_nproc :: "int \<times> int"
  rlim_sigpending :: "int \<times> int"
  ucount_max :: "int list"

definition kmem_cache_create_usercopy :: "boot_env \<Rightarrow> kmem_cache \<Rightarrow> kmem_cache option option" where
  "kmem_cache_create_usercopy e c = (if can_make e c then Some (Some c)
     else if SLAB_PANIC \<in> cache_flags c then None else Some None)"

definition plain_cache :: "string \<Rightarrow> nat \<Rightarrow> slab_flag set \<Rightarrow> ctor \<Rightarrow> kmem_cache" where
  "plain_cache n sz fl ct = \<lparr>cache_name = n, cache_size = sz, cache_align = 0, cache_flags = fl, cache_useroffset = 0,
     cache_usersize = 0, cache_ctor = ct\<rparr>"

definition thread_stack_cache_init :: "boot_env \<Rightarrow> boot_state \<Rightarrow> boot_state option" where
  "thread_stack_cache_init e s = do {
     c \<leftarrow> kmem_cache_create_usercopy e \<lparr>cache_name = ''thread_stack'', cache_size = THREAD_SIZE e, cache_align = THREAD_SIZE e,
       cache_flags = {}, cache_useroffset = 0, cache_usersize = THREAD_SIZE e, cache_ctor = No_ctor\<rparr>;
     if c = None then None else Some (s\<lparr>thread_stack_cache := c\<rparr>) }"

definition task_struct_whitelist :: "boot_env \<Rightarrow> nat \<times> nat" where
  "task_struct_whitelist e = (case arch_whitelist e of (off, sz) \<Rightarrow> if sz = 0 then (0, sz) else (off + thread_offset e, sz))"

definition fork_init :: "boot_env \<Rightarrow> boot_state \<Rightarrow> boot_state option" where
  "fork_init e s = do {
     let (useroffset, usersize) = task_struct_whitelist e;
     c \<leftarrow> kmem_cache_create_usercopy e \<lparr>cache_name = ''task_struct'', cache_size = size_of e ''task_struct'',
       cache_align = max (L1_CACHE_BYTES e) 0, cache_flags = {SLAB_PANIC, SLAB_ACCOUNT},
       cache_useroffset = useroffset, cache_usersize = usersize, cache_ctor = No_ctor\<rparr>;
     let s = s\<lparr>task_struct_cachep := c\<rparr>;
     let s = s\<lparr>kernel := set_max_threads (memory e) (ucast (max_threads_mask (memory e))) (kernel s)\<rparr>;
     let half = max_threads (kernel s) div 2;
     let s = s\<lparr>rlim_nproc := (half, half)\<rparr>;
     let s = s\<lparr>rlim_sigpending := rlim_nproc s\<rparr>;
     Some (s\<lparr>ucount_max := replicate (UCOUNT_COUNTS e) half\<rparr>) }"

definition mm_cache_init :: "boot_env \<Rightarrow> boot_state \<Rightarrow> boot_state option" where
  "mm_cache_init e s = do {
     let mm_size = size_of e ''mm_struct'' + cpumask_size e;
     c \<leftarrow> kmem_cache_create_usercopy e \<lparr>cache_name = ''mm_struct'', cache_size = mm_size, cache_align = 0,
       cache_flags = {SLAB_HWCACHE_ALIGN, SLAB_PANIC, SLAB_ACCOUNT}, cache_useroffset = fst (saved_auxv e),
       cache_usersize = snd (saved_auxv e), cache_ctor = No_ctor\<rparr>;
     Some (s\<lparr>mm_cachep := c\<rparr>) }"

definition proc_caches_init :: "boot_env \<Rightarrow> boot_state \<Rightarrow> boot_state option" where
  "proc_caches_init e s = do {
     c \<leftarrow> kmem_cache_create_usercopy e (plain_cache ''sighand_cache'' (size_of e ''sighand_struct'')
            {SLAB_HWCACHE_ALIGN, SLAB_PANIC, SLAB_TYPESAFE_BY_RCU, SLAB_ACCOUNT} Sighand_ctor);
     let s = s\<lparr>sighand_cachep := c\<rparr>;
     c \<leftarrow> kmem_cache_create_usercopy e (plain_cache ''signal_cache'' (size_of e ''signal_struct'')
            {SLAB_HWCACHE_ALIGN, SLAB_PANIC, SLAB_ACCOUNT} No_ctor);
     let s = s\<lparr>signal_cachep := c\<rparr>;
     c \<leftarrow> kmem_cache_create_usercopy e (plain_cache ''files_cache'' (size_of e ''files_struct'')
            {SLAB_HWCACHE_ALIGN, SLAB_PANIC, SLAB_ACCOUNT} No_ctor);
     let s = s\<lparr>files_cachep := c\<rparr>;
     c \<leftarrow> kmem_cache_create_usercopy e (plain_cache ''fs_cache'' (size_of e ''fs_struct'')
            {SLAB_HWCACHE_ALIGN, SLAB_PANIC, SLAB_ACCOUNT} No_ctor);
     let s = s\<lparr>fs_cachep := c\<rparr>;
     c \<leftarrow> kmem_cache_create_usercopy e (plain_cache ''vm_area_struct'' (size_of e ''vm_area_struct'') {SLAB_PANIC, SLAB_ACCOUNT} No_ctor);
     Some (s\<lparr>vm_area_cachep := c\<rparr>) }"

definition boot :: "boot_env \<Rightarrow> boot_state \<Rightarrow> boot_state option" where
  "boot e s = do { s \<leftarrow> fork_init e s; s \<leftarrow> mm_cache_init e s; proc_caches_init e s }"

section \<open>Results\<close>

definition boot_ok :: "boot_env \<Rightarrow> bool" where
  "boot_ok e \<longleftrightarrow> mem_ok (memory e) \<and> thread_offset e + fst (arch_whitelist e) + snd (arch_whitelist e) \<le> size_of e ''task_struct'' \<and>
     fst (saved_auxv e) + snd (saved_auxv e) \<le> size_of e ''mm_struct''"

definition user_part_inside :: "kmem_cache option \<Rightarrow> bool" where
  "user_part_inside c \<longleftrightarrow> (\<exists>k. c = Some k \<and> cache_useroffset k + cache_usersize k \<le> cache_size k)"

lemma cache_made: "kmem_cache_create_usercopy e c = Some x \<Longrightarrow> SLAB_PANIC \<in> cache_flags c \<Longrightarrow> x = Some c"
  by (auto simp: kmem_cache_create_usercopy_def split: if_splits)

lemma plain_made:
  "kmem_cache_create_usercopy e (plain_cache n sz fl ct) = Some x \<Longrightarrow> SLAB_PANIC \<in> fl \<Longrightarrow> user_part_inside x"
  by (auto dest!: cache_made simp: user_part_inside_def plain_cache_def)

lemma fork_init_result:
  assumes "fork_init e s = Some s'" "boot_ok e" "k = set_max_threads (memory e) (ucast (max_threads_mask (memory e))) (kernel s)"
  shows "kernel s' = k \<and> rlim_nproc s' = (max_threads k div 2, max_threads k div 2) \<and> rlim_sigpending s' = rlim_nproc s' \<and>
    ucount_max s' = replicate (UCOUNT_COUNTS e) (max_threads k div 2) \<and> user_part_inside (task_struct_cachep s')"
proof -
  have "fst (task_struct_whitelist e) + snd (task_struct_whitelist e) \<le> size_of e ''task_struct''"
    using assms(2) by (auto simp: boot_ok_def task_struct_whitelist_def split: prod.splits)
  with assms(1,3) show ?thesis
    by (auto simp: fork_init_def Let_def user_part_inside_def dest!: cache_made split: bind_splits prod.splits)
qed

lemma mm_cache_result:
  "mm_cache_init e s = Some s' \<Longrightarrow> boot_ok e \<Longrightarrow> s' = s\<lparr>mm_cachep := mm_cachep s'\<rparr> \<and> user_part_inside (mm_cachep s')"
  by (auto simp: mm_cache_init_def Let_def user_part_inside_def boot_ok_def dest!: cache_made split: bind_splits)

lemma proc_caches_result:
  "proc_caches_init e s = Some s' \<Longrightarrow>
    s' = s\<lparr>sighand_cachep := sighand_cachep s', signal_cachep := signal_cachep s', files_cachep := files_cachep s',
      fs_cachep := fs_cachep s', vm_area_cachep := vm_area_cachep s'\<rparr> \<and>
    user_part_inside (sighand_cachep s') \<and> user_part_inside (signal_cachep s') \<and> user_part_inside (files_cachep s') \<and>
    user_part_inside (fs_cachep s') \<and> user_part_inside (vm_area_cachep s')"
  by (auto simp: proc_caches_init_def Let_def dest!: plain_made split: bind_splits)

text \<open>
  C28. After start-up the limits fit the machine and every cache exists. When start-up comes to
  its end: the number of threads is limited to between \<open>MIN_THREADS\<close> and \<open>MAX_THREADS\<close>, and unless it
  is the minimum, to as many as have their stacks in an eighth of the memory; the first
  process, its pending signals and every count of a user namespace are limited to half of
  that, at least ten; the seven caches exist, and what user copies may touch of an object
  lies inside it. Nothing but a cache that cannot be made stops it.
\<close>

theorem start_up_limits:
  assumes "boot_ok e"
  shows "(\<forall>s'. boot e s = Some s' \<longrightarrow> (let n = max_threads (kernel s') in
      20 \<le> n \<and> n \<le> int (unat (max_threads_mask (memory e))) \<and>
      (n = 20 \<or> n * (int (unat (thread_size (memory e))) * 8) \<le>
         int (unat (totalram_pages (memory e)) * unat (page_size (memory e)))) \<and>
      rlim_nproc s' = (n div 2, n div 2) \<and> rlim_sigpending s' = rlim_nproc s' \<and> 10 \<le> n div 2 \<and>
      (\<forall>i < UCOUNT_COUNTS e. ucount_max s' ! i = n div 2)) \<and>
      (\<forall>f \<in> {task_struct_cachep, sighand_cachep, signal_cachep, files_cachep, fs_cachep, vm_area_cachep, mm_cachep}.
         user_part_inside (f s'))) \<and>
    ((\<forall>c. can_make e c) \<longrightarrow> boot e s \<noteq> None)"
proof (intro conjI allI impI)
  fix s' assume b: "boot e s = Some s'"
  define k where "k = set_max_threads (memory e) (ucast (max_threads_mask (memory e))) (kernel s)"
  from b obtain s1 s2 where r: "fork_init e s = Some s1" "mm_cache_init e s1 = Some s2" "proc_caches_init e s2 = Some s'"
    by (auto simp: boot_def split: bind_splits)
  note f = fork_init_result [OF r(1) assms k_def] and m = mm_cache_result [OF r(2) assms] and p = proc_caches_result [OF r(3)]
  from m obtain x where s2: "s2 = s1\<lparr>mm_cachep := x\<rparr>" "user_part_inside x" by metis
  from p obtain x1 x2 x3 x4 x5 where s3: "s' = s2\<lparr>sighand_cachep := x1, signal_cachep := x2, files_cachep := x3, fs_cachep := x4,
    vm_area_cachep := x5\<rparr>" by metis
  have s': "max_threads (kernel s') = max_threads k" "rlim_nproc s' = (max_threads k div 2, max_threads k div 2)"
    "rlim_sigpending s' = rlim_nproc s'" "ucount_max s' = replicate (UCOUNT_COUNTS e) (max_threads k div 2)"
    and c: "user_part_inside (task_struct_cachep s')" "user_part_inside (sighand_cachep s')" "user_part_inside (signal_cachep s')"
      "user_part_inside (files_cachep s')" "user_part_inside (fs_cachep s')" "user_part_inside (vm_area_cachep s')"
      "user_part_inside (mm_cachep s')"
    using f s2 s3 p by simp_all
  from set_max_threads_ok [OF _ refl, of "memory e" "ucast (max_threads_mask (memory e))" "kernel s", folded k_def] assms s'
  show "let n = max_threads (kernel s') in
      20 \<le> n \<and> n \<le> int (unat (max_threads_mask (memory e))) \<and>
      (n = 20 \<or> n * (int (unat (thread_size (memory e))) * 8) \<le>
         int (unat (totalram_pages (memory e)) * unat (page_size (memory e)))) \<and>
      rlim_nproc s' = (n div 2, n div 2) \<and> rlim_sigpending s' = rlim_nproc s' \<and> 10 \<le> n div 2 \<and>
      (\<forall>i < UCOUNT_COUNTS e. ucount_max s' ! i = n div 2)"
    unfolding Let_def by (auto simp: boot_ok_def)
  show "\<forall>f \<in> {task_struct_cachep, sighand_cachep, signal_cachep, files_cachep, fs_cachep, vm_area_cachep, mm_cachep}.
      user_part_inside (f s')" using c by simp
next
  assume "\<forall>c. can_make e c"
  then show "boot e s \<noteq> None"
    by (simp add: boot_def fork_init_def mm_cache_init_def proc_caches_init_def kmem_cache_create_usercopy_def Let_def split: prod.splits)
qed

definition sample_boot :: boot_env where
  "sample_boot = \<lparr>can_make = (\<lambda>_. True), size_of = (\<lambda>_. 4096), thread_offset = 3000, arch_whitelist = (64, 512), saved_auxv = (300, 320),
     cpumask_size = 8, L1_CACHE_BYTES = 64, THREAD_SIZE = 16384, UCOUNT_COUNTS = 9, memory = demo_mem\<rparr>"

definition sample_boot_state :: boot_state where
  "sample_boot_state = \<lparr>kernel = demo_kst, task_struct_cachep = None, thread_stack_cache = None, sighand_cachep = None,
     signal_cachep = None, files_cachep = None, fs_cachep = None, vm_area_cachep = None, mm_cachep = None,
     rlim_nproc = (0, 0), rlim_sigpending = (0, 0), ucount_max = []\<rparr>"

theorem start_up_limits_witness:
  "\<exists>s'. boot sample_boot sample_boot_state = Some s' \<and> 20 \<le> max_threads (kernel s') \<and> user_part_inside (mm_cachep s') \<and>
    ucount_max s' ! 8 = max_threads (kernel s') div 2"
proof -
  have ok: "boot_ok sample_boot" using mem_ok_demo by (simp add: boot_ok_def sample_boot_def)
  have "\<forall>c. can_make sample_boot c" "UCOUNT_COUNTS sample_boot = 9" by (simp_all add: sample_boot_def)
  with start_up_limits [OF ok, of sample_boot_state] show ?thesis by (auto simp: Let_def)
qed

end
