(* ===== verification/Spec2Isabelle.thy ===== *)
theory Spec2Isabelle
  imports Page_Main Sched_Main Fat_Persist Process_Tracer Proc_Info Sum_Tree Do_Fork Unshare Dup_Mmap Walk_Tree Stack_Cache
    Mm_Life Task_Flags Task_Ids Fork_Init
begin

text \<open>
  Verification of the operating system assignments in C.

  \<^bold>\<open>The program and its parts.\<close> The repository holds independent programs and kernel modules,
  and one kernel source file that an assignment changes:
  \<^item> user programs: a page replacement simulator (\<open>Assignment4-2/page_replacement_simulator.c\<close>),
    a CPU scheduling simulator (\<open>Assignment3-3/cpu_scheduler.c\<close>), a FAT file system kept in three
    files of the host (\<open>Assignment5-2/fat.c\<close>), and programs that add numbers with a tree of
    threads and a tree of processes (\<open>Assignment3-2\<close>);
  \<^item> kernel modules that replace entries of the system call table: the file tracer
    (\<open>Assignment2-1\<close> to \<open>2-3\<close>), the process tracer (\<open>Assignment3-1/Process_tracer.c\<close>), the list of
    memory areas (\<open>Assignment4-1/file_varea.c\<close>), and the \<open>/proc\<close> file of \<open>Assignment5-1/proc_info.c\<close>;
  \<^item> the kernel's \<open>Assignment3-1/fork.c\<close> and \<open>sched.h\<close>, to which the assignment adds a counter of
    forks that the process tracer prints.

  The user programs do not interact with each other. The modules share the system call table
  (two of them the same entry of it) and read \<open>task_struct\<close>; \<open>fork.c\<close> is what fills in the
  tasks that they read.

  \<^bold>\<open>Conventions.\<close> A C function is a HOL function with its state passed explicitly. \<open>None\<close> is
  undefined behaviour, a fault, or a loop that does not end: an access outside an array, a
  signed overflow, a wild pointer, a resource released twice or out of order. A theorem that
  concludes \<open>f x = Some y\<close> therefore says that the code returns, and without any of these.
  Machine integers of the user programs are \<open>int\<close> with \<open>c_int\<close> at every operation that could
  leave the range; bit patterns in the kernel are words. Variables that the code reads before
  it sets them, and arrays that it does not initialise, are arguments, so the results hold
  for any contents. Loops are \<open>c_for\<close>, \<open>c_find\<close> and recursion on lists where the bound is known,
  and \<open>c_while\<close> (a partial function that is \<open>None\<close> when the loop does not end) otherwise; no
  fuel is used. Code that is not in the repository is a parameter: the allocators, the
  security and accounting hooks and the other subsystems that \<open>fork.c\<close> calls are the fields
  of \<open>fork_env\<close>, \<open>mm_env\<close>, \<open>life_env\<close>, \<open>stack_env\<close>, \<open>pid_api\<close> and \<open>boot_env\<close>; numbers of bits that other headers
  fix are \<open>bit_numbers\<close>; the tree of \<open>/proc\<close> is \<open>proc_api\<close>; the real system calls behind the hooks, \<open>d_path\<close>, the
  search for a task and what the host lets a program open are arguments.

  \<^bold>\<open>Shared theories.\<close> \<open>C_Base\<close>: integers, arrays, loops and their invariant rules. \<open>C_String\<close> and
  \<open>C_Stdio\<close>: character arrays, \<open>strcpy\<close>, \<open>printf\<close> and \<open>fscanf\<close> conversions, \<open>atoi\<close>, \<open>fgets\<close>, and that
  what is printed is read back. \<open>Sched_H\<close>: the task states, flags and fields of \<open>sched.h\<close>.
  \<open>Kernel_Hook\<close>: kernel memory with page protection, and the interface \<open>hook_module\<close> of a module
  that saves an entry, replaces it and puts it back, interpreted by the five modules. Each
  module has its own copy of \<open>make_rw\<close> and \<open>make_ro\<close>, with the same text; one definition stands for
  all.

  \<^bold>\<open>Task header.\<close> \<open>Task_Flags\<close>: the helpers of \<open>sched.h\<close> on states, atomic flags, thread flags and
  restartable sequences, with \<open>copy_seccomp\<close> of \<open>fork.c\<close>. The interface \<open>bit_word\<close> (a set bit is set, a
  cleared one is not, the others stay) is interpreted by the atomic and by the thread flags;
  histories of calls do to the words what set operations do to the sets of their bits, and
  privileges given up stay given up, across forks too. \<open>Task_Ids\<close>: the ids of a task in its namespaces, \<open>set_tid_address\<close>, the files of
  pidfds, \<open>fork_idle\<close> over \<open>copy_process\<close>, and \<open>nr_processes\<close>.

  \<^bold>\<open>Page replacement.\<close> \<open>Page_Queue\<close>: the array queue (\<open>init\<close>, \<open>push\<close>, \<open>pop\<close>, \<open>isFull\<close>, \<open>isHere\<close>), shown to
  be a list of frames through the interface \<open>frame_store\<close>. \<open>Page_Spec\<close>: demand paging, Belady's
  rule and its optimality, the FIFO, LRU and second-chance policies. \<open>Page_Policies\<close>: the four
  simulations refine them; \<open>OPT\<close> is optimal, LRU has no anomaly. \<open>Page_Main\<close>: reading the request
  file and the whole run; more than 1000 requests overflow the array.

  \<^bold>\<open>CPU scheduling.\<close> \<open>Sched_Core\<close>: the process table, the statements that the four simulations
  share, the invariant of a simulation, and the interface \<open>sched_alg\<close> (a round keeps the
  invariant and reduces the work) from which every simulation ends with all processes
  finished. \<open>Sched_Nonpreemptive\<close> (\<open>FCFS\<close>, \<open>SJF\<close>; interface \<open>nonpreemptive\<close>), \<open>Sched_SRTF\<close> and \<open>Sched_RR\<close>
  interpret it and show what each algorithm promises. \<open>Sched_Chart\<close>: none of them idles while
  there is work, so all have the same busy slots. \<open>Sched_Main\<close>: \<open>init_list\<close>, \<open>main\<close> and the averages;
  a file that does not start with a number is never read to its end.
  Bursts are positive, pids distinct and the makespan fits an \<open>int\<close> (\<open>jobs_ok\<close>); what happens
  otherwise is shown for a burst of zero, and for more than 1000 slices of RR.

  \<^bold>\<open>FAT.\<close> \<open>Fat_FS\<close>: the tables and the five operations. \<open>Fat_Inv\<close>: the invariant (chains of blocks
  that end, are disjoint, and cover the blocks in use) and the loops. \<open>Fat_Ops\<close>: what each
  operation does to it. \<open>Fat_Spec\<close>: a file system is a map from names to contents with a bounded
  number of blocks and entries; the interface \<open>map_store\<close> is interpreted by the operations in
  memory, and in \<open>Fat_Persist\<close>, which models saving, loading and \<open>main\<close>, by whole runs of the
  program over the three host files.

  \<^bold>\<open>Sums.\<close> \<open>Sum_Tree\<close>: the tree of threads computes the sum where a pointer is no larger than an
  \<open>int\<close> and stores past the end of an object where it is larger; the tree of processes computes the
  sum modulo 256.

  \<^bold>\<open>Modules.\<close> \<open>Ftrace\<close>: the hooked calls count exactly the calls of the traced process and return
  what the real ones return; loading and unloading restores the table; which module leaves
  its page writable. \<open>Process_Tracer\<close>: the reports list all siblings, children and file-backed
  areas; unloading in the wrong order leaves a wild entry. \<open>Proc_Info\<close>: reading stays within the
  kernel's buffers (not within the reader's), ends, and shows the right state letters for the
  plain states; loading ignores that the directory could not be made.

  \<^bold>\<open>Process creation.\<close> \<open>Fork_Base\<close>: the kernel state with heaps, reference counts and a stack of
  held resources. \<open>Copy_Process\<close>: \<open>copy_process\<close> as a list of steps, each with the label its
  failure jumps to, and the ladder of labels. \<open>Fork_Unwind\<close>: each step is undone by its label, so
  a failed call changes nothing. \<open>Fork_Success\<close>: what a successful call has made, and the only
  change to any other task. \<open>Do_Fork\<close>:
  \<open>_do_fork\<close> with the counter, \<open>vfork\<close>, the system calls and their argument checks. \<open>Unshare\<close>: \<open>unshare\<close>
  and the limit of threads. \<open>Fork_Init\<close>: \<open>fork_init\<close> and the slab caches, with the limits that they
  leave. \<open>Dup_Mmap\<close>: \<open>dup_mmap\<close> owns what its areas own at every exit. \<open>Mm_Life\<close>: the memory
  descriptors with their two counts and the work queue, as a step relation in whose reachable
  states every descriptor is freed exactly once and nothing is lost; among the steps are those
  of outside code that maps areas and sets the binary format and keeps its books (\<open>outside\<close>);
  the whole of \<open>dup_mm\<close>, with failures at every call; and
  that the table of use counts in \<open>Copy_Process\<close> (where \<open>mmput\<close> and \<open>dup_mm\<close> have their results only)
  is refined by them. \<open>Walk_Tree\<close>: the walk over the process tree without
  recursion is the recursive visit. \<open>Stack_Cache\<close>: the kernel stacks, as a step relation whose
  reachable states are safe.

  \<^bold>\<open>Not modelled.\<close> Concurrency: every function runs alone; of locking only the balanced order is
  modelled (\<open>held\<close>, \<open>mm_locks\<close>), and threads and processes of \<open>Sum_Tree\<close> are their results. The
  text of floating-point output: averages and rates are their operands. Clock readings. In
  \<open>fork.c\<close>: initialisers that only set fields which no modelled code reads
  (\<open>rt_mutex_init_task\<close>, \<open>rcu_copy_process\<close>, timers), the configuration without memory management
  unit, and that with kernel stacks from pages or a slab cache instead of virtual mappings
  (of it only \<open>thread_stack_cache_init\<close>); in \<open>free_task\<close> and \<open>__put_task_struct\<close>, the calls that give
  back what other subsystems keep for a task (kernel thread data, seccomp filter, control
  group, security, credentials, delay accounting); in the linking of a child, the tables of
  \<open>attach_pid\<close>, the terminal and the list \<open>thread_head\<close>, which has the threads that \<open>thread_group\<close> has.
  \<open>ptrace_init_task\<close> of \<open>ptrace.h\<close> is a parameter that gives the child's \<open>ptrace\<close> and \<open>parent\<close>. The seccomp
  state is not part of the tasks of \<open>Copy_Process\<close>; \<open>Task_Flags\<close> has it. In \<open>sched.h\<close>: scheduler entities, statistics and wrappers
  of a single call. \<open>Process_tracer.mod.c\<close> is generated by the
  kernel build. Memory allocation in the user programs is taken to succeed.
\<close>

end
